(* ===== verification/Prelude.thy ===== *)
theory Prelude
  imports Main
begin

text \<open>
  Shared vocabulary of the development. A Go string or byte slice is a \<open>string\<close>
  (a list of 8-bit characters), a Go \<open>int\<close> is an \<open>int\<close> whose arithmetic goes
  through \<open>wrap64\<close> where it can overflow, and a Go \<open>time.Time\<close> or
  \<open>time.Duration\<close> is an \<open>int\<close> number of nanoseconds. The functions below model
  what the source uses of the Go standard library (packages strings, bytes, sort), and the lemmas are the
  facts about them that the components share.
\<close>

section \<open>Machine integers\<close>

type_synonym go_int = int
type_synonym nanos = int

text \<open>Two's complement wrap-around at 64 bits.\<close>

definition wrap64 :: "int \<Rightarrow> int" where
  "wrap64 x = (x + 2 ^ 63) mod 2 ^ 64 - 2 ^ 63"

definition is_int64 :: "int \<Rightarrow> bool" where
  "is_int64 x \<longleftrightarrow> - (2 ^ 63) \<le> x \<and> x < 2 ^ 63"

lemma wrap64_id [simp]: "is_int64 x \<Longrightarrow> wrap64 x = x"
  by (simp add: wrap64_def is_int64_def)

lemma is_int64_wrap64 [simp, intro]: "is_int64 (wrap64 x)"
proof -
  have "0 \<le> (x + 2 ^ 63) mod 2 ^ 64" "(x + 2 ^ 63) mod 2 ^ 64 < 2 ^ 64"
    by (rule pos_mod_sign, simp) (rule pos_mod_bound, simp)
  then show ?thesis by (simp add: wrap64_def is_int64_def)
qed

lemma is_int64_small: "0 \<le> x \<Longrightarrow> x < 2 ^ 63 \<Longrightarrow> is_int64 x"
  by (simp add: is_int64_def)

section \<open>Cancellation\<close>

text \<open>
  A \<open>context.Context\<close> is observed through calls of \<open>Err()\<close>. The model counts
  them: \<open>None\<close> is a context that is never cancelled, \<open>Some n\<close> one that reports an
  error from the \<open>n\<close>-th further call on. \<open>poll\<close> is one call: \<open>None\<close> when the
  error is reported, and the context after the call otherwise.
\<close>

type_synonym ctx = "nat option"

fun poll :: "ctx \<Rightarrow> ctx option" where
  "poll None = Some None"
| "poll (Some 0) = None"
| "poll (Some (Suc n)) = Some (Some n)"

section \<open>Strings\<close>

fun split_on :: "char \<Rightarrow> string \<Rightarrow> string list" where
  "split_on c [] = [[]]"
| "split_on c (x # xs) =
     (if x = c then [] # split_on c xs
      else case split_on c xs of [] \<Rightarrow> [[x]] | y # ys \<Rightarrow> (x # y) # ys)"

fun join_with :: "string \<Rightarrow> string list \<Rightarrow> string" where
  "join_with sep [] = []"
| "join_with sep [x] = x"
| "join_with sep (x # y # ys) = x @ sep @ join_with sep (y # ys)"

definition trim_right :: "(char \<Rightarrow> bool) \<Rightarrow> string \<Rightarrow> string" where
  "trim_right p s = rev (dropWhile p (rev s))"

definition trim_left :: "(char \<Rightarrow> bool) \<Rightarrow> string \<Rightarrow> string" where
  "trim_left p s = dropWhile p s"

fun has_prefix :: "string \<Rightarrow> string \<Rightarrow> bool" where
  "has_prefix [] s = True"
| "has_prefix (x # xs) [] = False"
| "has_prefix (x # xs) (y # ys) = (x = y \<and> has_prefix xs ys)"

fun index_byte :: "string \<Rightarrow> char \<Rightarrow> nat option" where
  "index_byte [] c = None"
| "index_byte (x # xs) c = (if x = c then Some 0 else map_option Suc (index_byte xs c))"

fun contains :: "string \<Rightarrow> string \<Rightarrow> bool" where
  "contains sub [] = (sub = [])"
| "contains sub (x # xs) = (has_prefix sub (x # xs) \<or> contains sub xs)"

lemma has_prefix_iff: "has_prefix p s \<longleftrightarrow> (\<exists>t. s = p @ t)"
  by (induction p s rule: has_prefix.induct) auto

lemma has_prefix_append [simp]: "has_prefix p (p @ t)"
  by (simp add: has_prefix_iff)

lemma contains_iff: "contains sub s \<longleftrightarrow> (\<exists>a b. s = a @ sub @ b)"
proof (induction s)
  case (Cons x s)
  have "(\<exists>a b. x # s = a @ sub @ b) \<longleftrightarrow> has_prefix sub (x # s) \<or> (\<exists>a b. s = a @ sub @ b)"
    by (auto simp: has_prefix_iff Cons_eq_append_conv)
  with Cons show ?case by simp
qed auto

lemma split_on_neq_Nil [simp]: "split_on c s \<noteq> []"
  by (induction s) (auto split: list.splits)

lemma join_with_Cons: "ys \<noteq> [] \<Longrightarrow> join_with sep (x # ys) = x @ sep @ join_with sep ys"
  by (cases ys) simp_all

lemma join_split_on: "join_with [c] (split_on c s) = s"
proof (induction s)
  case (Cons x s)
  obtain y ys where s: "split_on c s = y # ys" by (cases "split_on c s") auto
  with Cons show ?case by (cases ys) auto
qed simp

lemma split_on_no_sep: "\<forall>p \<in> set (split_on c s). c \<notin> set p"
  by (induction s) (auto split: list.splits)

lemma split_on_free: "c \<notin> set s \<Longrightarrow> split_on c s = [s]"
  by (induction s) auto

lemma split_on_append_sep: "c \<notin> set p \<Longrightarrow> split_on c (p @ c # s) = p # split_on c s"
  by (induction p) auto

lemma split_join:
  "xs \<noteq> [] \<Longrightarrow> \<forall>x \<in> set xs. c \<notin> set x \<Longrightarrow> split_on c (join_with [c] xs) = xs"
proof (induction xs)
  case (Cons x xs)
  then show ?case by (cases "xs = []") (simp_all add: split_on_free join_with_Cons split_on_append_sep)
qed simp

lemma index_byte_Some: "index_byte s c = Some i \<Longrightarrow> i < length s \<and> s ! i = c"
  by (induction s arbitrary: i) (auto split: if_splits)

lemma index_byte_None: "index_byte s c = None \<longleftrightarrow> c \<notin> set s"
  by (induction s) auto

lemma index_byte_nth: "distinct s \<Longrightarrow> i < length s \<Longrightarrow> index_byte s (s ! i) = Some i"
  by (induction s arbitrary: i) (auto simp: nth_Cons split: nat.splits)

section \<open>Limits\<close>

text \<open>The number of rows one pass of a purge selects.\<close>

definition maxIDsPerPass :: nat where "maxIDsPerPass = 200000"

section \<open>Decimal numbers\<close>

text \<open>The white space of ASCII, as \<open>strings.TrimSpace\<close> removes it from ASCII text.\<close>

definition ascii_space :: "char \<Rightarrow> bool" where
  "ascii_space c \<longleftrightarrow> c \<in> {CHR 0x20, CHR 0x09, CHR 0x0A, CHR 0x0B, CHR 0x0C, CHR 0x0D}"

definition trim_space :: "string \<Rightarrow> string" where
  "trim_space s = trim_right ascii_space (trim_left ascii_space s)"

definition digit_value :: "char \<Rightarrow> nat" where "digit_value c = of_char c - 48"

definition is_digit :: "char \<Rightarrow> bool" where
  "is_digit c \<longleftrightarrow> 48 \<le> (of_char c :: nat) \<and> (of_char c :: nat) \<le> 57"

definition digits_value :: "string \<Rightarrow> nat" where
  "digits_value s = foldl (\<lambda>a c. 10 * a + digit_value c) 0 s"

text \<open>\<open>fmt.Sprintf("%d", n)\<close>.\<close>

fun decimal :: "nat \<Rightarrow> string" where
  "decimal n = (if n < 10 then [char_of (48 + n)] else decimal (n div 10) @ [char_of (48 + n mod 10)])"

declare decimal.simps [simp del]

lemma is_digit_char [simp]: "d < 10 \<Longrightarrow> is_digit (char_of (48 + d :: nat))"
  by (simp add: is_digit_def)

lemma digit_value_char [simp]: "d < 10 \<Longrightarrow> digit_value (char_of (48 + d :: nat)) = d"
  by (simp add: digit_value_def)

lemma decimal_digits: "list_all is_digit (decimal n)"
proof (induction n rule: decimal.induct)
  case (1 n)
  show ?case
  proof (cases "n < 10")
    case True
    then show ?thesis by (subst decimal.simps) simp
  next
    case False
    then show ?thesis using 1 by (subst decimal.simps) simp
  qed
qed

lemma decimal_nonempty [simp]: "decimal n \<noteq> []"
  by (subst decimal.simps) simp

lemma digits_value_snoc: "digits_value (s @ [c]) = 10 * digits_value s + digit_value c"
  by (simp add: digits_value_def)

lemma digits_value_decimal [simp]: "digits_value (decimal n) = n"
proof (induction n rule: decimal.induct)
  case (1 n)
  show ?case
  proof (cases "n < 10")
    case True
    then show ?thesis by (subst decimal.simps) (simp add: digits_value_def)
  next
    case False
    then show ?thesis using 1 by (subst decimal.simps) (simp add: digits_value_snoc)
  qed
qed

lemma decimal_length: "n < 10 ^ Suc k \<Longrightarrow> length (decimal n) \<le> Suc k"
proof (induction k arbitrary: n)
  case (Suc k)
  show ?case
  proof (cases "n < 10")
    case False
    have "n div 10 < 10 ^ Suc k" using Suc.prems by (simp add: less_mult_imp_div_less)
    from Suc.IH [OF this] False show ?thesis by (subst decimal.simps) simp
  qed (simp add: decimal.simps [of n])
next
  case 0
  then show ?case by (simp add: decimal.simps [of n])
qed

text \<open>\<open>strings.ToLower\<close> on ASCII text.\<close>

definition lower_char :: "char \<Rightarrow> char" where
  "lower_char c = (if 65 \<le> (of_char c :: nat) \<and> (of_char c :: nat) \<le> 90 then char_of ((of_char c :: nat) + 32) else c)"

definition lower :: "string \<Rightarrow> string" where "lower = map lower_char"

lemma lower_lower [simp]: "lower (lower s) = lower s"
  by (induction s) (auto simp: lower_def lower_char_def)

section \<open>Searching and sorting\<close>

lemma find_SomeD: "find P xs = Some x \<Longrightarrow> x \<in> set xs \<and> P x"
  by (auto simp: find_Some_iff)

lemma find_NoneD: "find P xs = None \<Longrightarrow> x \<in> set xs \<Longrightarrow> \<not> P x"
  by (induction xs) (auto split: if_splits)

lemma find_append: "find P (xs @ ys) = (case find P xs of None \<Rightarrow> find P ys | Some x \<Rightarrow> Some x)"
  by (induction xs) auto

text \<open>\<open>sort.Search\<close>: the loop of the Go library, as it is written there.\<close>

function search_loop :: "(nat \<Rightarrow> bool) \<Rightarrow> nat \<Rightarrow> nat \<Rightarrow> nat" where
  "search_loop f i j =
     (if i < j
      then let h = (i + j) div 2 in if \<not> f h then search_loop f (h + 1) j else search_loop f i h
      else i)"
  by pat_completeness auto
termination
  by (relation "measure (\<lambda>(f, i, j). j - i)") (auto simp: Let_def)

declare search_loop.simps [simp del]

definition sort_search :: "nat \<Rightarrow> (nat \<Rightarrow> bool) \<Rightarrow> nat" where
  "sort_search n f = search_loop f 0 n"

lemma search_loop_le: "i \<le> j \<Longrightarrow> search_loop f i j \<le> j"
proof (induction f i j rule: search_loop.induct)
  case (1 f i j)
  show ?case
  proof (cases "i < j")
    case False
    with "1.prems" show ?thesis by (subst search_loop.simps) simp
  next
    case True
    define h where "h = (i + j) div 2"
    have h: "i \<le> h" "h < j" using True by (auto simp: h_def)
    with "1.IH"(1) [OF True h_def] "1.IH"(2) [OF True h_def] True show ?thesis
      by (subst search_loop.simps) (auto simp: Let_def simp flip: h_def)
  qed
qed

lemma search_loop_spec:
  assumes "i \<le> j" and "\<And>a b. a \<le> b \<Longrightarrow> b < n \<Longrightarrow> f a \<Longrightarrow> f b" and "j \<le> n"
    and "\<forall>k < i. \<not> f k" and "\<forall>k. j \<le> k \<and> k < n \<longrightarrow> f k"
  shows "search_loop f i j \<le> n \<and> (\<forall>k < search_loop f i j. \<not> f k)
    \<and> (\<forall>k. search_loop f i j \<le> k \<and> k < n \<longrightarrow> f k)"
  using assms
proof (induction f i j rule: search_loop.induct)
  case (1 f i j)
  show ?case
  proof (cases "i < j")
    case False
    then have "search_loop f i j = i" by (subst search_loop.simps) simp
    with False "1.prems" show ?thesis by auto
  next
    case True
    define h where "h = (i + j) div 2"
    have h: "i \<le> h" "h < j" "h < n" using True "1.prems"(3) by (auto simp: h_def)
    show ?thesis
    proof (cases "f h")
      case True
      have "\<forall>k. h \<le> k \<and> k < n \<longrightarrow> f k" using True "1.prems"(2) by blast
      with "1.IH"(2) [OF \<open>i < j\<close> h_def] True h "1.prems" show ?thesis
        by (simp add: search_loop.simps [of f i j] Let_def flip: h_def)
    next
      case False
      have "\<forall>k < h + 1. \<not> f k"
      proof (intro allI impI notI)
        fix k assume "k < h + 1" "f k"
        then have "f h" using "1.prems"(2) [of k h] h by simp
        with False show False ..
      qed
      with "1.IH"(1) [OF \<open>i < j\<close> h_def] False h "1.prems" show ?thesis
        by (simp add: search_loop.simps [of f i j] Let_def flip: h_def)
    qed
  qed
qed

lemma sort_search_le: "sort_search n f \<le> n"
  by (simp add: sort_search_def search_loop_le)

text \<open>On a predicate that stays true once it is, \<open>sort_search\<close> finds the first index where it holds.\<close>

lemma sort_search_spec:
  assumes "\<And>a b. a \<le> b \<Longrightarrow> b < n \<Longrightarrow> f a \<Longrightarrow> f b"
  shows "k < sort_search n f \<Longrightarrow> \<not> f k"
    and "sort_search n f \<le> k \<Longrightarrow> k < n \<Longrightarrow> f k"
proof -
  have *: "search_loop f 0 n \<le> n \<and> (\<forall>k < search_loop f 0 n. \<not> f k)
    \<and> (\<forall>k. search_loop f 0 n \<le> k \<and> k < n \<longrightarrow> f k)"
    by (rule search_loop_spec) (use assms in auto)
  from * show "k < sort_search n f \<Longrightarrow> \<not> f k" by (simp add: sort_search_def)
  from * show "sort_search n f \<le> k \<Longrightarrow> k < n \<Longrightarrow> f k" by (simp add: sort_search_def)
qed

section \<open>Machines\<close>

text \<open>
  The contract between a component with state and whoever drives it: a step per event, and an
  invariant that every step keeps. A run is a fold over the events, in the order they happen.
\<close>

locale machine =
  fixes step :: "'s \<Rightarrow> 'e \<Rightarrow> 's"
    and inv :: "'s \<Rightarrow> bool"
  assumes step_inv: "inv s \<Longrightarrow> inv (step s e)"
begin

lemma run_inv: "inv s \<Longrightarrow> inv (foldl step s es)"
  by (induction es arbitrary: s) (simp_all add: step_inv)

lemma run_measure_mono:
  fixes f :: "'s \<Rightarrow> 'b :: preorder"
  assumes "\<And>s e. inv s \<Longrightarrow> f s \<le> f (step s e)" and "inv s"
  shows "f s \<le> f (foldl step s es)"
  using assms(2)
proof (induction es arbitrary: s)
  case (Cons e es)
  then have "f (step s e) \<le> f (foldl step (step s e) es)" by (simp add: step_inv)
  with assms(1) [OF Cons.prems, of e] show ?case by (auto intro: order_trans)
qed simp

end

end
