(* ===== verification/Ingest_Queue.thy ===== *)
theory Ingest_Queue
  imports Prelude "HOL-Library.Sublist"
begin

text \<open>
  The write queue behind every ingestion buffer, \<open>internal/ingest/queue.go\<close>: admission
  (\<open>Push\<close>), the accounting (\<open>Stats\<close>, \<open>finish\<close>, \<open>RecordDrop\<close>), the
  flush of a batch with its retries and its splitting, the transaction wrapper \<open>atomicWrite\<close> and the writer
  loop \<open>run\<close> with its drain on shutdown. The clock, the context and the database are the
  environment: a \<open>world\<close> record gives the answers they return, call by call.
\<close>

section \<open>State\<close>

text \<open>\<open>q_elem\<close> is the identity of the list element that \<open>PushBack\<close> returns.\<close>

record 'a queued =
  q_value :: 'a
  q_at :: nanos
  q_bytes :: int
  q_elem :: nat

record stats =
  st_accepted :: nat
  st_persisted :: nat
  st_rejected :: nat
  st_dropped :: "string \<Rightarrow> nat"
  st_unknown :: nat
  st_failedWrites :: nat
  st_retries :: nat
  st_pendingBytes :: int
  st_lastSuccess :: "nanos option"
  st_degraded :: bool

record 'a queue =
  q_ch :: "'a queued list"
  q_cap :: nat
  q_pending :: "'a queued list"
  q_fresh :: nat
  q_stats :: stats
  q_closed :: bool
  q_bestEffort :: bool
  q_size :: "('a \<Rightarrow> int) option"
  q_maxBytes :: int
  q_lastWarning :: nanos
  q_lastAbandonment :: nanos
  q_byteLimited :: bool

definition second :: nanos where "second = 1000000000"

definition newStats :: stats where
  "newStats = \<lparr>st_accepted = 0, st_persisted = 0, st_rejected = 0, st_dropped = (\<lambda>_. 0), st_unknown = 0,
     st_failedWrites = 0, st_retries = 0, st_pendingBytes = 0, st_lastSuccess = None, st_degraded = False\<rparr>"

text \<open>The zero \<open>time.Time\<close> lies before every clock reading; \<open>zero_time\<close> stands for it.\<close>

definition zero_time :: nanos where "zero_time = - (62135596800 * 1000000000)"

definition newQueue :: "nat \<Rightarrow> bool \<Rightarrow> 'a queue" where
  "newQueue sz best = \<lparr>q_ch = [], q_cap = sz, q_pending = [], q_fresh = 0, q_stats = newStats,
     q_closed = False, q_bestEffort = best, q_size = None, q_maxBytes = 0,
     q_lastWarning = zero_time, q_lastAbandonment = zero_time, q_byteLimited = False\<rparr>"

section \<open>Admission\<close>

definition bump_dropped :: "string \<Rightarrow> nat \<Rightarrow> stats \<Rightarrow> stats" where
  "bump_dropped r n s = s\<lparr>st_dropped := (st_dropped s)(r := st_dropped s r + n)\<rparr>"

definition allowWarningLocked :: "nanos \<Rightarrow> 'a queue \<Rightarrow> 'a queue" where
  "allowWarningLocked now q =
     (if now - q_lastWarning q < 10 * second then q else q\<lparr>q_lastWarning := now\<rparr>)"

definition value_size :: "'a queue \<Rightarrow> 'a \<Rightarrow> int" where
  "value_size q v = (case q_size q of None \<Rightarrow> 0 | Some f \<Rightarrow> f v)"

definition push_reason :: "'a queue \<Rightarrow> 'a \<Rightarrow> string option" where
  "push_reason q v =
     (if q_closed q then Some ''shutdown''
      else if 0 < q_maxBytes q \<and> q_maxBytes q < st_pendingBytes (q_stats q) + value_size q v
      then Some ''buffer_bytes''
      else if length (q_ch q) = q_cap q then Some ''buffer_full''
      else None)"

definition Push :: "nanos \<Rightarrow> 'a \<Rightarrow> 'a queue \<Rightarrow> 'a queue \<times> bool" where
  "Push now v q =
     (case push_reason q v of
        Some reason \<Rightarrow>
          let q1 = (if reason = ''buffer_bytes'' then q\<lparr>q_byteLimited := True\<rparr> else q);
              q2 = (if q_bestEffort q1 then q1\<lparr>q_stats := bump_dropped reason 1 (q_stats q1)\<rparr>
                    else q1\<lparr>q_stats := (q_stats q1)\<lparr>st_rejected := st_rejected (q_stats q1) + 1\<rparr>\<rparr>)
          in (allowWarningLocked now q2, False)
      | None \<Rightarrow>
          let item = \<lparr>q_value = v, q_at = now, q_bytes = value_size q v, q_elem = q_fresh q\<rparr>;
              s = q_stats q
          in (q\<lparr>q_pending := q_pending q @ [item], q_fresh := q_fresh q + 1,
                q_stats := s\<lparr>st_accepted := st_accepted s + 1,
                             st_pendingBytes := st_pendingBytes s + q_bytes item\<rparr>,
                q_ch := q_ch q @ [item]\<rparr>, True))"

definition StopAccepting :: "'a queue \<Rightarrow> 'a queue" where
  "StopAccepting q = q\<lparr>q_closed := True\<rparr>"

definition RecordDrop :: "string \<Rightarrow> 'a queue \<Rightarrow> 'a queue" where
  "RecordDrop reason q = q\<lparr>q_stats := bump_dropped reason 1 (q_stats q)\<rparr>"

text \<open>What \<open>Stats\<close> reports beside the counters.\<close>

record snapshot =
  sn_stats :: stats
  sn_pending :: nat
  sn_queued :: nat
  sn_capacity :: nat
  sn_capacityBytes :: int
  sn_oldest :: nanos

definition Stats :: "nanos \<Rightarrow> 'a queue \<Rightarrow> snapshot" where
  "Stats now q =
     (let s = q_stats q;
          oldest = (case q_pending q of [] \<Rightarrow> 0 | e # _ \<Rightarrow> now - q_at e);
          deg = (st_degraded s \<or> q_byteLimited q \<or> 5 * second < oldest
                 \<or> (0 < q_cap q \<and> q_cap q \<le> length (q_ch q))
                 \<or> (0 < q_maxBytes q \<and> q_maxBytes q \<le> st_pendingBytes s))
      in \<lparr>sn_stats = s\<lparr>st_degraded := deg\<rparr>, sn_pending = length (q_pending q), sn_queued = length (q_ch q),
          sn_capacity = q_cap q, sn_capacityBytes = q_maxBytes q, sn_oldest = oldest\<rparr>)"

section \<open>Completion of a batch\<close>

definition settle :: "nanos \<Rightarrow> nat \<Rightarrow> string \<Rightarrow> stats \<Rightarrow> stats" where
  "settle now n reason s =
     (if reason = '''' then
        s\<lparr>st_persisted := st_persisted s + n, st_lastSuccess := Some now, st_degraded := False\<rparr>
      else if reason = ''unknown_commit'' then s\<lparr>st_unknown := st_unknown s + n\<rparr>
      else bump_dropped reason n s)"

definition remove_item :: "'a queue \<Rightarrow> 'a queued \<Rightarrow> 'a queue" where
  "remove_item q e =
     q\<lparr>q_pending := filter (\<lambda>x. q_elem x \<noteq> q_elem e) (q_pending q),
       q_stats := (q_stats q)\<lparr>st_pendingBytes := st_pendingBytes (q_stats q) - q_bytes e\<rparr>\<rparr>"

definition finish :: "nanos \<Rightarrow> 'a queued list \<Rightarrow> string \<Rightarrow> 'a queue \<Rightarrow> 'a queue" where
  "finish now batch reason q =
     (let q1 = q\<lparr>q_stats := settle now (length batch) reason (q_stats q)\<rparr>;
          q2 = foldl remove_item q1 batch;
          q3 = (if batch \<noteq> [] then q2\<lparr>q_byteLimited := False\<rparr> else q2)
      in if reason \<noteq> '''' \<and> 10 * second \<le> now - q_lastAbandonment q3
         then q3\<lparr>q_lastAbandonment := now\<rparr> else q3)"

section \<open>Database errors\<close>

text \<open>
  The errors the code tells apart: a Postgres error with its SQLSTATE, the wrapper
  \<open>unknownCommit\<close> (which hides what it wraps from \<open>errors.As\<close>), pgx's
  \<open>ErrTxCommitRollback\<close>, the context's error, and anything else.
\<close>

datatype write_error = PgError string | UnknownCommit | CommitRollback | CtxErr | OtherErr

fun permanent :: "write_error \<Rightarrow> bool" where
  "permanent (PgError code) =
     (if length code < 2 then False else take 2 code \<in> {''22'', ''23'', ''54''})"
| "permanent _ = False"

fun retryable :: "write_error \<Rightarrow> bool" where
  "retryable UnknownCommit = False"
| "retryable (PgError code) =
     (code \<in> {''40001'', ''40P01'', ''53300'', ''57P01'', ''57P02'', ''57P03'', ''57014''}
      \<or> (2 \<le> length code \<and> take 2 code = ''08''))"
| "retryable _ = True"

text \<open>
  \<open>atomicWrite\<close>, on the outcomes of \<open>Begin\<close>, of the write function and of
  \<open>Commit\<close> (\<open>None\<close> is success); the deferred rollback has no result.
\<close>

definition atomicWrite ::
  "write_error option \<Rightarrow> write_error option \<Rightarrow> write_error option \<Rightarrow> write_error option" where
  "atomicWrite begin_err write_err commit_err =
     (case begin_err of
        Some e \<Rightarrow> Some e
      | None \<Rightarrow> (case write_err of
          Some e \<Rightarrow> Some e
        | None \<Rightarrow> (case commit_err of
            None \<Rightarrow> None
          | Some e \<Rightarrow>
              if e = CommitRollback
                 \<or> (case e of PgError code \<Rightarrow> code = ''40001'' \<or> code = ''40P01'' \<or> permanent e | _ \<Rightarrow> False)
              then Some e else Some UnknownCommit)))"

text \<open>
  \<open>execBatch\<close>: every result is read, the first error wins over the error of closing.
\<close>

definition execBatch :: "write_error option list \<Rightarrow> write_error option \<Rightarrow> write_error option" where
  "execBatch results close_err =
     (if results = [] then None
      else case filter (\<lambda>r. r \<noteq> None) results of [] \<Rightarrow> close_err | e # _ \<Rightarrow> e)"

section \<open>Flushing\<close>

text \<open>
  The environment of a writer: the context of the current flush, the answers of the write function, the clock and the choice
  that \<open>select\<close> makes when both of its cases are ready. \<open>w_stored\<close> is the table the
  writes go to: \<open>w_applied i vs\<close> tells whether the database made call \<open>i\<close>
  durable, which the program itself cannot see.
\<close>

record 'a world =
  w_ctx :: ctx
  w_calls :: nat
  w_write :: "nat \<Rightarrow> 'a list \<Rightarrow> write_error option"
  w_applied :: "nat \<Rightarrow> 'a list \<Rightarrow> bool"
  w_stored :: "'a list"
  w_ticks :: nat
  w_clock :: "nat \<Rightarrow> nanos"
  w_pick :: "nat \<Rightarrow> bool"

definition tick :: "'a world \<Rightarrow> 'a world" where
  "tick w = w\<lparr>w_ticks := w_ticks w + 1\<rparr>"

definition now_of :: "'a world \<Rightarrow> nanos" where
  "now_of w = w_clock w (w_ticks w)"

text \<open>One call of \<open>ctx.Err()\<close>: whether it reports an error, and the world after it.\<close>

definition ctx_err :: "'a world \<Rightarrow> bool \<times> 'a world" where
  "ctx_err w = (case poll (w_ctx w) of None \<Rightarrow> (True, w) | Some c \<Rightarrow> (False, w\<lparr>w_ctx := c\<rparr>))"

definition do_write :: "'a list \<Rightarrow> 'a world \<Rightarrow> write_error option \<times> 'a world" where
  "do_write vs w =
     (w_write w (w_calls w) vs,
      w\<lparr>w_calls := w_calls w + 1,
        w_stored := (if w_applied w (w_calls w) vs then w_stored w @ vs else w_stored w)\<rparr>)"

definition note_failure :: "nanos \<Rightarrow> 'a queue \<Rightarrow> 'a queue" where
  "note_failure now q =
     allowWarningLocked now
       (q\<lparr>q_stats := (q_stats q)\<lparr>st_failedWrites := st_failedWrites (q_stats q) + 1, st_degraded := True\<rparr>\<rparr>)"

definition note_retry :: "'a queue \<Rightarrow> 'a queue" where
  "note_retry q = q\<lparr>q_stats := (q_stats q)\<lparr>st_retries := st_retries (q_stats q) + 1\<rparr>\<rparr>"

datatype ('a) outcome = Finished "'a queue" "'a world" | Failed write_error "'a queue" "'a world"

text \<open>
  The attempts of one flush: \<open>n\<close> are left of the five, \<open>err\<close> is the last error
  (\<open>OtherErr\<close> before the first, where it is never read).
\<close>

fun attempts :: "nat \<Rightarrow> bool \<Rightarrow> write_error \<Rightarrow> 'a queued list \<Rightarrow> 'a queue \<Rightarrow> 'a world \<Rightarrow> 'a outcome" where
  "attempts 0 first err batch q w = Failed err q w"
| "attempts (Suc n) first err batch q w =
     (let (c1, w1) = ctx_err w in
      if c1 then Failed CtxErr q w1
      else let (c2, w2) = (if first then (False, w1) else ctx_err w1) in
        if c2 then Failed (if w_pick w2 (w_calls w2) then CtxErr else err) q w2
        else let q2 = (if first then q else note_retry q);
                 (r, w3) = do_write (map q_value batch) w2 in
          (case r of
             None \<Rightarrow> Finished (finish (now_of w3) batch '''' q2) (tick w3)
           | Some e \<Rightarrow>
               let q3 = note_failure (now_of w3) q2; w4 = tick w3 in
               if retryable e then attempts n False e batch q3 w4 else Failed e q3 w4))"

definition max_attempts :: nat where "max_attempts = 5"

definition abandon_reason :: "write_error \<Rightarrow> bool \<Rightarrow> string" where
  "abandon_reason err cancelled =
     (if err = UnknownCommit then ''unknown_commit''
      else if cancelled then ''deadline''
      else if permanent err then ''invalid_record''
      else ''write_failed'')"

function flush :: "'a queued list \<Rightarrow> 'a queue \<Rightarrow> 'a world \<Rightarrow> 'a queue \<times> 'a world" where
  "flush batch q w =
     (case attempts max_attempts True OtherErr batch q w of
        Finished q' w' \<Rightarrow> (q', w')
      | Failed err q' w' \<Rightarrow>
          let (c, w1) = (if permanent err \<and> 1 < length batch then ctx_err w' else (True, w')) in
          if permanent err \<and> 1 < length batch \<and> \<not> c
          then let mid = length batch div 2;
                   (q2, w2) = flush (take mid batch) q' w1
               in flush (drop mid batch) q2 w2
          else let (c', w2) = (if err = UnknownCommit then (False, w1) else ctx_err w1)
               in (finish (now_of w2) batch (abandon_reason err c') q', tick w2))"
  by pat_completeness auto
termination
  by (relation "measure (\<lambda>(batch, _, _). length batch)") auto

declare flush.simps [simp del]

section \<open>The writer\<close>

text \<open>
  The state of the goroutine \<open>run\<close>: the queue, the batch it collects, the environment of its
  flushes, whether its context is cancelled, and where it is. \<open>wr_recorded\<close> counts the
  \<open>RecordDrop\<close> calls that use one of the writer's own reasons; it is not a variable of the code.
\<close>

datatype phase = Running | Draining | Stopped

record 'a writer =
  wr_q :: "'a queue"
  wr_batch :: "'a queued list"
  wr_world :: "'a world"
  wr_cancelled :: bool
  wr_phase :: phase
  wr_recorded :: nat

text \<open>
  What can happen: a producer pushes, an item is recorded as dropped, the writer receives an item or a tick
  (\<open>ctx\<close> is the budget of the flush this may start), the context is cancelled, the writer
  sees the cancellation at the top of its loop (\<open>ctx\<close> is the budget of the whole drain), or it
  makes one step of the drain.
\<close>

datatype 'a event = EvPush nanos 'a | EvRecord string | EvRecv ctx | EvTick ctx | EvCancel | EvTop ctx | EvDrain

definition abandon_reasons :: "string set" where
  "abandon_reasons = {''write_failed'', ''deadline'', ''invalid_record''}"

definition flush_batch :: "ctx option \<Rightarrow> 'a writer \<Rightarrow> 'a writer" where
  "flush_batch c m =
     (if wr_batch m = [] then m
      else let w = (case c of None \<Rightarrow> wr_world m | Some x \<Rightarrow> (wr_world m)\<lparr>w_ctx := x\<rparr>);
               (q', w') = flush (wr_batch m) (wr_q m) w
           in m\<lparr>wr_q := q', wr_world := w', wr_batch := []\<rparr>)"

definition receive :: "'a writer \<Rightarrow> 'a writer" where
  "receive m = m\<lparr>wr_batch := wr_batch m @ [hd (q_ch (wr_q m))],
                  wr_q := (wr_q m)\<lparr>q_ch := tl (q_ch (wr_q m))\<rparr>\<rparr>"

fun run_step :: "nat \<Rightarrow> 'a writer \<Rightarrow> 'a event \<Rightarrow> 'a writer" where
  "run_step batchSize m (EvPush now v) = m\<lparr>wr_q := fst (Push now v (wr_q m))\<rparr>"
| "run_step batchSize m (EvRecord reason) =
     m\<lparr>wr_q := RecordDrop reason (wr_q m),
        wr_recorded := (if reason \<in> abandon_reasons then wr_recorded m + 1 else wr_recorded m)\<rparr>"
| "run_step batchSize m (EvRecv c) =
     (if wr_phase m = Running \<and> q_ch (wr_q m) \<noteq> [] then
        let m1 = receive m in
        if batchSize \<le> length (wr_batch m1) \<and> \<not> wr_cancelled m1 then flush_batch (Some c) m1 else m1
      else m)"
| "run_step batchSize m (EvTick c) =
     (if wr_phase m = Running \<and> \<not> wr_cancelled m then flush_batch (Some c) m else m)"
| "run_step batchSize m EvCancel = m\<lparr>wr_cancelled := True\<rparr>"
| "run_step batchSize m (EvTop c) =
     (if wr_phase m = Running \<and> wr_cancelled m
      then m\<lparr>wr_q := StopAccepting (wr_q m), wr_phase := Draining, wr_world := (wr_world m)\<lparr>w_ctx := c\<rparr>\<rparr>
      else m)"
| "run_step batchSize m EvDrain =
     (if wr_phase m = Draining then
        if q_ch (wr_q m) \<noteq> [] then
          let m1 = receive m in
          if batchSize \<le> length (wr_batch m1) then flush_batch None m1 else m1
        else (flush_batch None m)\<lparr>wr_phase := Stopped\<rparr>
      else m)"

section \<open>Accounting\<close>

definition settled :: "'a queue \<Rightarrow> nat" where
  "settled q = st_persisted (q_stats q) + st_unknown (q_stats q) + (\<Sum>r \<in> abandon_reasons. st_dropped (q_stats q) r)"

text \<open>What no flush changes.\<close>

definition core where
  "core q = (q_ch q, q_cap q, q_fresh q, q_closed q, q_bestEffort q, q_size q, q_maxBytes q,
             st_accepted (q_stats q), st_rejected (q_stats q))"

definition account :: "'a queue \<Rightarrow> 'a queued list \<times> nat \<times> int" where
  "account q = (q_pending q, settled q, st_pendingBytes (q_stats q))"

definition done_by :: "'a queued list \<Rightarrow> 'a queue \<Rightarrow> 'a queue \<Rightarrow> bool" where
  "done_by batch q q' \<longleftrightarrow> core q' = core q
     \<and> q_pending q' = filter (\<lambda>x. q_elem x \<notin> q_elem ` set batch) (q_pending q)
     \<and> settled q' = settled q + length batch
     \<and> st_pendingBytes (q_stats q') = st_pendingBytes (q_stats q) - sum_list (map q_bytes batch)"

lemma abandon_sum [simp]:
  "(\<Sum>r \<in> abandon_reasons. f r) = f ''write_failed'' + f ''deadline'' + (f ''invalid_record'' :: nat)"
  by (simp add: abandon_reasons_def)

lemma remove_items:
  "foldl remove_item q batch = q\<lparr>q_pending := filter (\<lambda>x. q_elem x \<notin> q_elem ` set batch) (q_pending q),
     q_stats := (q_stats q)\<lparr>st_pendingBytes := st_pendingBytes (q_stats q) - sum_list (map q_bytes batch)\<rparr>\<rparr>"
proof (induction batch arbitrary: q)
  case (Cons e batch)
  have "filter (\<lambda>x. q_elem x \<notin> q_elem ` set batch) (filter (\<lambda>x. q_elem x \<noteq> q_elem e) xs)
      = filter (\<lambda>x. q_elem x \<notin> q_elem ` set (e # batch)) xs" for xs :: "'a queued list"
    by (auto intro: filter_cong)
  with Cons show ?case by (simp add: remove_item_def algebra_simps)
qed simp

lemma finish_done:
  assumes "reason = '''' \<or> reason = ''unknown_commit'' \<or> reason \<in> abandon_reasons"
  shows "done_by batch q (finish now batch reason q)"
  using assms
  by (auto simp: done_by_def finish_def Let_def remove_items core_def settled_def settle_def bump_dropped_def
      abandon_reasons_def)

lemma note_failure_core [simp]: "core (note_failure t q) = core q" "account (note_failure t q) = account q"
  by (auto simp: note_failure_def allowWarningLocked_def core_def account_def settled_def)

lemma note_retry_core [simp]: "core (note_retry q) = core q" "account (note_retry q) = account q"
  by (auto simp: note_retry_def core_def account_def settled_def)

lemma done_by_cong: "core q0 = core q \<Longrightarrow> account q0 = account q \<Longrightarrow> done_by batch q0 q' \<Longrightarrow> done_by batch q q'"
  by (simp add: done_by_def account_def)

lemma attempts_account:
  "case attempts n first err batch q w of
     Finished q' w' \<Rightarrow> done_by batch q q'
   | Failed e q' w' \<Rightarrow> core q' = core q \<and> account q' = account q"
proof (induction n first err batch q w rule: attempts.induct)
  case (2 n first err batch q w)
  obtain c1 w1 where A: "ctx_err w = (c1, w1)" by force
  obtain c2 w2 where B: "(if first then (False, w1) else ctx_err w1) = (c2, w2)" by force
  define q2 where "q2 = (if first then q else note_retry q)"
  obtain r w3 where C: "do_write (map q_value batch) w2 = (r, w3)" by force
  have q2: "core q2 = core q" "account q2 = account q" by (simp_all add: q2_def)
  have ok: "done_by batch q (finish t batch '''' q2)" for t
    by (rule done_by_cong [OF q2 finish_done]) simp
  show ?case
  proof (cases "c1 \<or> c2 \<or> r = None \<or> (\<exists>e. r = Some e \<and> \<not> retryable e)")
    case True
    with A B C ok q2 show ?thesis
      by (auto simp: Let_def simp flip: q2_def)
  next
    case False
    then obtain e where e: "r = Some e" "retryable e" "\<not> c1" "\<not> c2" by auto
    have "case attempts n False e batch (note_failure (now_of w3) q2) (tick w3) of
        Finished q' w' \<Rightarrow> done_by batch (note_failure (now_of w3) q2) q'
      | Failed e' q' w' \<Rightarrow> core q' = core q2 \<and> account q' = account q2"
      using "2.IH" [OF A [symmetric] refl e(3) B [symmetric] refl e(4) q2_def C [symmetric] refl e(1) refl refl e(2)]
      unfolding note_failure_core .
    with A B C e q2 show ?thesis
      by (auto simp: Let_def split: outcome.splits intro: done_by_cong [rotated 2] simp flip: q2_def)
  qed
qed simp

lemma done_by_append:
  "done_by xs q q1 \<Longrightarrow> done_by ys q1 q2 \<Longrightarrow> done_by (xs @ ys) q q2"
  by (auto simp: done_by_def intro!: filter_cong)

lemma flush_unfold:
  obtains (finished) q' w' where "attempts max_attempts True OtherErr batch q w = Finished q' w'"
      "flush batch q w = (q', w')"
  | (split) err q' w' w1 q2 w2 where "attempts max_attempts True OtherErr batch q w = Failed err q' w'"
      "permanent err" "1 < length batch" "ctx_err w' = (False, w1)"
      "flush (take (length batch div 2) batch) q' w1 = (q2, w2)"
      "flush batch q w = flush (drop (length batch div 2) batch) q2 w2"
  | (abandoned) err q' w' w1 c' w2 where "attempts max_attempts True OtherErr batch q w = Failed err q' w'"
      "(if permanent err \<and> 1 < length batch then snd (ctx_err w') else w') = w1"
      "(if err = UnknownCommit then (False, w1) else ctx_err w1) = (c', w2)"
      "flush batch q w = (finish (now_of w2) batch (abandon_reason err c') q', tick w2)"
      "permanent err \<and> 1 < length batch \<Longrightarrow> fst (ctx_err w')"
proof (cases "attempts max_attempts True OtherErr batch q w")
  case (Finished q' w')
  then show ?thesis by (intro finished) (auto simp: flush.simps [of batch q w])
next
  case (Failed err q' w')
  show ?thesis
  proof (cases "permanent err \<and> 1 < length batch \<and> \<not> fst (ctx_err w')")
    case True
    obtain w1 where w1: "ctx_err w' = (False, w1)" using True by (cases "ctx_err w'") auto
    obtain q2 w2 where "flush (take (length batch div 2) batch) q' w1 = (q2, w2)" by force
    with Failed True w1 show ?thesis
      by (intro split [of err q' w' w1 q2 w2]) (simp_all add: flush.simps [of batch q w] Let_def)
  next
    case False
    define w1 where "w1 = (if permanent err \<and> 1 < length batch then snd (ctx_err w') else w')"
    obtain c' w2 where "(if err = UnknownCommit then (False, w1) else ctx_err w1) = (c', w2)" by force
    with Failed False show ?thesis
      by (intro abandoned [of err q' w' w1 c' w2])
        (auto simp: flush.simps [of batch q w] Let_def w1_def split: if_splits prod.splits)
  qed
qed

lemma abandon_reason_ok:
  "abandon_reason err c = ''unknown_commit'' \<or> abandon_reason err c \<in> abandon_reasons"
  by (simp add: abandon_reason_def abandon_reasons_def)

lemma flush_done: "flush batch q w = (q', w') \<Longrightarrow> done_by batch q q'"
proof (induction "length batch" arbitrary: batch q w q' w' rule: less_induct)
  case less
  note acc = attempts_account [where n = max_attempts and first = True and err = OtherErr and batch = batch and q = q and w = w]
  show ?case
  proof (cases rule: flush_unfold [of batch q w])
    case (finished q1 w1)
    with acc less.prems show ?thesis by simp
  next
    case (split err q1 wf w1 q2 w2)
    let ?k = "length batch div 2"
    have l: "length (take ?k batch) < length batch" "length (drop ?k batch) < length batch"
      using split(3) by auto
    have "done_by (take ?k batch) q1 q2" by (rule less.hyps [OF l(1) split(5)])
    moreover have "done_by (drop ?k batch) q2 q'" using less.prems split(6) by (intro less.hyps [OF l(2)]) simp
    ultimately have "done_by batch q1 q'" by (metis append_take_drop_id done_by_append)
    with acc split(1) show ?thesis by (auto intro: done_by_cong)
  next
    case (abandoned err q1 wf w1 c' w2)
    with less.prems have "done_by batch q1 q'"
      using finish_done [of "abandon_reason err c'" batch q1] abandon_reason_ok by auto
    with acc abandoned(1) show ?thesis by (auto intro: done_by_cong)
  qed
qed

section \<open>The invariant of the writer\<close>

definition core_inv :: "nat \<Rightarrow> 'a queue \<Rightarrow> bool" where
  "core_inv recorded q \<longleftrightarrow>
     distinct (map q_elem (q_pending q))
     \<and> (\<forall>x \<in> set (q_pending q). q_elem x < q_fresh q \<and> 0 \<le> q_bytes x)
     \<and> st_pendingBytes (q_stats q) = sum_list (map q_bytes (q_pending q))
     \<and> (0 < q_maxBytes q \<longrightarrow> sum_list (map q_bytes (q_pending q)) \<le> q_maxBytes q)
     \<and> (\<forall>v. 0 \<le> value_size q v)
     \<and> st_accepted (q_stats q) + recorded = settled q + length (q_pending q)"

definition queue_inv :: "nat \<Rightarrow> 'a queued list \<Rightarrow> 'a queue \<Rightarrow> bool" where
  "queue_inv recorded batch q \<longleftrightarrow>
     q_pending q = batch @ q_ch q \<and> length (q_ch q) \<le> q_cap q \<and> core_inv recorded q"

text \<open>The part of the state the invariant reads.\<close>

definition inv_view where
  "inv_view q = (q_pending q, q_ch q, q_cap q, q_fresh q, q_size q, q_maxBytes q,
     st_accepted (q_stats q), st_pendingBytes (q_stats q), settled q)"

lemma queue_inv_view: "inv_view q' = inv_view q \<Longrightarrow> queue_inv r batch q' = queue_inv r batch q"
  by (simp add: inv_view_def queue_inv_def core_inv_def value_size_def)

lemma core_inv_ch [simp]: "core_inv r (q\<lparr>q_ch := x\<rparr>) = core_inv r q"
  by (simp add: core_inv_def value_size_def settled_def)

definition writer_inv :: "'a writer \<Rightarrow> bool" where
  "writer_inv m \<longleftrightarrow> queue_inv (wr_recorded m) (wr_batch m) (wr_q m)
     \<and> (wr_phase m \<noteq> Running \<longrightarrow> q_closed (wr_q m))
     \<and> (wr_phase m = Stopped \<longrightarrow> q_pending (wr_q m) = [])"

lemma filter_batch:
  assumes "distinct (map q_elem (batch @ rest))"
  shows "filter (\<lambda>x. q_elem x \<notin> q_elem ` set batch) (batch @ rest) = rest"
proof -
  have "filter (\<lambda>x. q_elem x \<notin> q_elem ` set batch) batch = []" by (auto simp: filter_empty_conv)
  moreover have "filter (\<lambda>x. q_elem x \<notin> q_elem ` set batch) rest = rest"
    using assms by (auto simp: filter_id_conv)
  ultimately show ?thesis by simp
qed

lemma queue_inv_done:
  assumes inv: "queue_inv r batch q" and d: "done_by batch q q'"
  shows "queue_inv r [] q' \<and> q_pending q' = q_ch q \<and> q_ch q' = q_ch q \<and> q_closed q' = q_closed q"
proof -
  have c: "q_ch q' = q_ch q" "q_cap q' = q_cap q" "q_fresh q' = q_fresh q" "q_closed q' = q_closed q"
    "q_size q' = q_size q" "q_maxBytes q' = q_maxBytes q" "st_accepted (q_stats q') = st_accepted (q_stats q)"
    using d by (simp_all add: done_by_def core_def)
  have pe: "q_pending q = batch @ q_ch q" and cap: "length (q_ch q) \<le> q_cap q" and ci: "core_inv r q"
    using inv by (simp_all only: queue_inv_def)
  have dp: "distinct (map q_elem (q_pending q))" using ci by (simp add: core_inv_def)
  have db: "distinct (map q_elem (batch @ q_ch q))" using dp by (simp only: pe)
  have dc: "distinct (map q_elem (q_ch q))" using db by simp
  have nn: "\<forall>x \<in> set (batch @ q_ch q). q_elem x < q_fresh q \<and> 0 \<le> q_bytes x"
    using ci unfolding core_inv_def pe by blast
  have p': "q_pending q' = q_ch q"
    using d filter_batch [OF db] by (simp add: done_by_def pe)
  have b: "0 \<le> sum_list (map q_bytes batch)"
    using nn by (intro sum_list_nonneg) auto
  have a: "settled q' = settled q + length batch"
    "st_pendingBytes (q_stats q') = st_pendingBytes (q_stats q) - sum_list (map q_bytes batch)"
    using d by (simp_all add: done_by_def)
  have i: "st_pendingBytes (q_stats q) = sum_list (map q_bytes batch) + sum_list (map q_bytes (q_ch q))"
    "0 < q_maxBytes q \<longrightarrow> sum_list (map q_bytes batch) + sum_list (map q_bytes (q_ch q)) \<le> q_maxBytes q" "\<forall>v. 0 \<le> value_size q v"
    "st_accepted (q_stats q) + r = settled q + (length batch + length (q_ch q))"
    using ci by (simp_all add: core_inv_def pe)
  have v: "value_size q' = value_size q" by (rule ext) (simp add: value_size_def c)
  have n': "\<forall>x \<in> set (q_ch q). q_elem x < q_fresh q \<and> 0 \<le> q_bytes x" using nn by simp
  have "core_inv r q'"
    unfolding core_inv_def p' c a v
    using dc n' i b by auto
  then show ?thesis by (simp add: queue_inv_def p' c cap)
qed

lemma Push_refused_view: "push_reason q v = Some reason \<Longrightarrow> inv_view (fst (Push now v q)) = inv_view q"
  by (auto simp: Push_def Let_def inv_view_def allowWarningLocked_def bump_dropped_def settled_def
      push_reason_def split: if_splits)

lemma Push_closed: "q_closed (fst (Push now v q)) = q_closed q"
  by (auto simp: Push_def Let_def allowWarningLocked_def split: option.splits)

lemma queue_inv_push:
  assumes inv: "queue_inv r batch q"
  shows "queue_inv r batch (fst (Push now v q))"
proof (cases "push_reason q v")
  case (Some reason)
  then show ?thesis using inv by (simp add: queue_inv_view [OF Push_refused_view])
next
  case None
  define q' where "q' = fst (Push now v q)"
  have f: "q_pending q' = q_pending q @ [\<lparr>q_value = v, q_at = now, q_bytes = value_size q v, q_elem = q_fresh q\<rparr>]"
    "q_ch q' = q_ch q @ [\<lparr>q_value = v, q_at = now, q_bytes = value_size q v, q_elem = q_fresh q\<rparr>]"
    "q_fresh q' = q_fresh q + 1" "q_cap q' = q_cap q" "q_size q' = q_size q" "q_maxBytes q' = q_maxBytes q"
    "st_accepted (q_stats q') = st_accepted (q_stats q) + 1" "settled q' = settled q"
    "st_pendingBytes (q_stats q') = st_pendingBytes (q_stats q) + value_size q v"
    using None by (simp_all add: q'_def Push_def Let_def settled_def)
  from None have room: "length (q_ch q) \<noteq> q_cap q"
    "0 < q_maxBytes q \<longrightarrow> st_pendingBytes (q_stats q) + value_size q v \<le> q_maxBytes q"
    by (auto simp: push_reason_def split: if_splits)
  have i: "core_inv r q" "q_pending q = batch @ q_ch q" "length (q_ch q) \<le> q_cap q"
    using inv by (simp_all add: queue_inv_def)
  have "q_elem x \<noteq> q_fresh q" if "x \<in> set (q_pending q)" for x
    using i(1) that by (auto simp: core_inv_def)
  then have "core_inv r q'"
    using i(1) room(2) unfolding core_inv_def f value_size_def by (auto simp: value_size_def less_SucI)
  then show ?thesis using i(2,3) room(1) by (simp add: queue_inv_def f flip: q'_def)
qed

lemma queue_inv_receive:
  assumes "queue_inv r batch q" "q_ch q \<noteq> []"
  shows "queue_inv r (batch @ [hd (q_ch q)]) (q\<lparr>q_ch := tl (q_ch q)\<rparr>)"
  using assms by (auto simp: queue_inv_def)

lemma queue_inv_record:
  assumes "queue_inv r batch q"
  shows "queue_inv (if reason \<in> abandon_reasons then r + 1 else r) batch (RecordDrop reason q)"
proof -
  have s: "settled (RecordDrop reason q) = (if reason \<in> abandon_reasons then settled q + 1 else settled q)"
    by (auto simp: RecordDrop_def bump_dropped_def settled_def abandon_reasons_def)
  have f: "q_pending (RecordDrop reason q) = q_pending q" "q_ch (RecordDrop reason q) = q_ch q"
    "q_cap (RecordDrop reason q) = q_cap q" "q_fresh (RecordDrop reason q) = q_fresh q"
    "q_maxBytes (RecordDrop reason q) = q_maxBytes q" "value_size (RecordDrop reason q) = value_size q"
    "st_accepted (q_stats (RecordDrop reason q)) = st_accepted (q_stats q)"
    "st_pendingBytes (q_stats (RecordDrop reason q)) = st_pendingBytes (q_stats q)"
    by (simp_all add: RecordDrop_def bump_dropped_def value_size_def fun_eq_iff)
  have "core_inv r q \<Longrightarrow> core_inv (if reason \<in> abandon_reasons then r + 1 else r) (RecordDrop reason q)"
    by (simp add: core_inv_def f s)
  with assms show ?thesis by (simp add: queue_inv_def f)
qed

lemma flush_batch_inv:
  assumes "writer_inv m"
  shows "writer_inv (flush_batch c m)" "wr_batch (flush_batch c m) = []"
    and "wr_phase (flush_batch c m) = wr_phase m" "q_ch (wr_q (flush_batch c m)) = q_ch (wr_q m)"
    and "q_closed (wr_q (flush_batch c m)) = q_closed (wr_q m)"
proof -
  have "writer_inv (flush_batch c m) \<and> wr_batch (flush_batch c m) = [] \<and> wr_phase (flush_batch c m) = wr_phase m
    \<and> q_ch (wr_q (flush_batch c m)) = q_ch (wr_q m) \<and> q_closed (wr_q (flush_batch c m)) = q_closed (wr_q m)"
  proof (cases "wr_batch m = []")
    case False
    obtain q' w' where f: "flush (wr_batch m) (wr_q m)
        (case c of None \<Rightarrow> wr_world m | Some x \<Rightarrow> (wr_world m)\<lparr>w_ctx := x\<rparr>) = (q', w')" by force
    have "queue_inv (wr_recorded m) [] q' \<and> q_pending q' = q_ch (wr_q m) \<and> q_ch q' = q_ch (wr_q m)
      \<and> q_closed q' = q_closed (wr_q m)"
      using assms flush_done [OF f] by (intro queue_inv_done [of _ "wr_batch m"]) (auto simp: writer_inv_def)
    moreover have "q_pending (wr_q m) = wr_batch m @ q_ch (wr_q m)"
      using assms by (simp add: writer_inv_def queue_inv_def)
    ultimately show ?thesis using f False assms by (auto simp: flush_batch_def writer_inv_def)
  next
    case True
    then show ?thesis using assms by (simp add: flush_batch_def)
  qed
  then show "writer_inv (flush_batch c m)" "wr_batch (flush_batch c m) = []"
    "wr_phase (flush_batch c m) = wr_phase m" "q_ch (wr_q (flush_batch c m)) = q_ch (wr_q m)"
    "q_closed (wr_q (flush_batch c m)) = q_closed (wr_q m)" by simp_all
qed

lemma receive_inv:
  assumes "writer_inv m" "q_ch (wr_q m) \<noteq> []"
  shows "writer_inv (receive m)" "wr_phase (receive m) = wr_phase m"
proof -
  have "wr_phase m \<noteq> Stopped" using assms by (auto simp: writer_inv_def queue_inv_def)
  with assms queue_inv_receive [of "wr_recorded m" "wr_batch m" "wr_q m"] show "writer_inv (receive m)"
    by (simp add: writer_inv_def receive_def)
qed (simp add: receive_def)

lemma run_step_inv: "writer_inv m \<Longrightarrow> writer_inv (run_step n m e)"
proof (induction n m e rule: run_step.induct)
  case (1 n m now v)
  have "wr_phase m = Stopped \<Longrightarrow> q_pending (fst (Push now v (wr_q m))) = []"
    using 1 Push_refused_view [of "wr_q m" v "''shutdown''" now]
    by (simp add: writer_inv_def push_reason_def inv_view_def)
  with 1 show ?case by (simp add: writer_inv_def queue_inv_push Push_closed)
next
  case (2 n m reason)
  then show ?case using queue_inv_record [of "wr_recorded m" "wr_batch m" "wr_q m" reason]
    by (simp add: writer_inv_def) (simp add: RecordDrop_def)
next
  case (3 n m c)
  then show ?case by (auto simp: Let_def receive_inv flush_batch_inv)
next
  case (4 n m c)
  then show ?case by (auto simp: flush_batch_inv)
next
  case (6 n m c)
  have "inv_view (StopAccepting (wr_q m)) = inv_view (wr_q m)"
    by (simp add: StopAccepting_def inv_view_def settled_def)
  note v = queue_inv_view [OF this]
  have "q_pending (StopAccepting (wr_q m)) = q_pending (wr_q m)" "q_closed (StopAccepting (wr_q m))"
    by (simp_all add: StopAccepting_def)
  with 6 show ?case by (simp add: writer_inv_def v)
next
  case (7 n m)
  show ?case
  proof (cases "wr_phase m = Draining \<and> q_ch (wr_q m) = []")
    case True
    have "writer_inv (flush_batch None m)" "q_ch (wr_q (flush_batch None m)) = []"
      "wr_batch (flush_batch None m) = []" "wr_phase (flush_batch None m) = Draining"
      using flush_batch_inv [OF 7, of None] True by simp_all
    with True show ?thesis by (simp add: writer_inv_def queue_inv_def)
  qed (use 7 in \<open>auto simp: Let_def receive_inv flush_batch_inv\<close>)
qed (auto simp: writer_inv_def)

interpretation writer: machine "run_step n" writer_inv for n
  by unfold_locales (rule run_step_inv)

definition start_writer :: "'a queue \<Rightarrow> 'a world \<Rightarrow> 'a writer" where
  "start_writer q w = \<lparr>wr_q = q, wr_batch = [], wr_world = w, wr_cancelled = False, wr_phase = Running, wr_recorded = 0\<rparr>"

lemma start_writer_inv:
  "(\<forall>v. 0 \<le> value_size q v) \<Longrightarrow> q = (newQueue sz best)\<lparr>q_size := f, q_maxBytes := mx\<rparr> \<Longrightarrow> 0 \<le> mx
     \<Longrightarrow> writer_inv (start_writer q w)"
  by (simp add: writer_inv_def start_writer_def queue_inv_def core_inv_def) (simp add: newQueue_def newStats_def settled_def)

abbreviation writer_run :: "nat \<Rightarrow> 'a queue \<Rightarrow> 'a world \<Rightarrow> 'a event list \<Rightarrow> 'a writer" where
  "writer_run n q w es \<equiv> foldl (run_step n) (start_writer q w) es"

lemma writer_facts:
  assumes "writer_inv m"
  shows "st_accepted (q_stats (wr_q m)) + wr_recorded m = settled (wr_q m) + length (q_pending (wr_q m))"
    and "q_pending (wr_q m) = wr_batch m @ q_ch (wr_q m)"
    and "st_pendingBytes (q_stats (wr_q m)) = sum_list (map q_bytes (q_pending (wr_q m)))"
    and "length (q_ch (wr_q m)) \<le> q_cap (wr_q m)"
    and "0 < q_maxBytes (wr_q m) \<Longrightarrow> st_pendingBytes (q_stats (wr_q m)) \<le> q_maxBytes (wr_q m)"
    and "wr_phase m \<noteq> Running \<Longrightarrow> q_closed (wr_q m)"
    and "wr_phase m = Stopped \<Longrightarrow> q_pending (wr_q m) = []"
  using assms unfolding writer_inv_def queue_inv_def core_inv_def by (blast, blast, blast, blast, metis, blast, blast)

text \<open>
C1: No record is lost track of: after any sequence of pushes, receives, ticks, recorded drops,
cancellation and drain steps of the writer loop, the accepted records are exactly the persisted,
unknown and dropped ones plus those still pending; the pending ones are the batch being collected
followed by the channel, and pendingBytes is the sum of their sizes.
\<close>

theorem queue_conservation:
  assumes "\<forall>v. 0 \<le> value_size q v" "q = (newQueue sz best)\<lparr>q_size := f, q_maxBytes := mx\<rparr>" "0 \<le> mx"
  shows "let m = writer_run n q w es in
      st_accepted (q_stats (wr_q m)) + wr_recorded m = settled (wr_q m) + length (q_pending (wr_q m))
    \<and> q_pending (wr_q m) = wr_batch m @ q_ch (wr_q m)
    \<and> st_pendingBytes (q_stats (wr_q m)) = sum_list (map q_bytes (q_pending (wr_q m)))"
  using writer_facts(1-3) [OF writer.run_inv [OF start_writer_inv [OF assms]]] by (auto simp only: Let_def)

lemma run_step_config:
  "q_cap (wr_q (run_step n m e)) = q_cap (wr_q m)" "q_maxBytes (wr_q (run_step n m e)) = q_maxBytes (wr_q m)"
proof -
  have fb: "q_cap (wr_q (flush_batch c m)) = q_cap (wr_q m) \<and> q_maxBytes (wr_q (flush_batch c m)) = q_maxBytes (wr_q m)"
    for c and m :: "'a writer"
  proof -
    obtain q' w' where f: "flush (wr_batch m) (wr_q m)
        (case c of None \<Rightarrow> wr_world m | Some x \<Rightarrow> (wr_world m)\<lparr>w_ctx := x\<rparr>) = (q', w')" by force
    from flush_done [OF f] f show ?thesis by (auto simp: flush_batch_def done_by_def core_def)
  qed
  have "q_cap (wr_q (run_step n m e)) = q_cap (wr_q m) \<and> q_maxBytes (wr_q (run_step n m e)) = q_maxBytes (wr_q m)"
    by (induction n m e rule: run_step.induct)
      (auto simp: Let_def fb receive_def StopAccepting_def RecordDrop_def Push_def allowWarningLocked_def split: option.splits)
  then show "q_cap (wr_q (run_step n m e)) = q_cap (wr_q m)"
    "q_maxBytes (wr_q (run_step n m e)) = q_maxBytes (wr_q m)" by simp_all
qed

lemma run_config:
  "q_cap (wr_q (foldl (run_step n) m es)) = q_cap (wr_q m)"
  "q_maxBytes (wr_q (foldl (run_step n) m es)) = q_maxBytes (wr_q m)"
  by (induction es arbitrary: m) (simp_all add: run_step_config)

text \<open>
The channel never holds more than its capacity and the pending bytes never exceed the byte limit,
whatever the producers, the writer and the database do.
\<close>

theorem queue_bounded:
  assumes "\<forall>v. 0 \<le> value_size q v" "q = (newQueue sz best)\<lparr>q_size := f, q_maxBytes := mx\<rparr>" "0 < mx"
  shows "length (q_ch (wr_q (writer_run n q w es))) \<le> sz
    \<and> st_pendingBytes (q_stats (wr_q (writer_run n q w es))) \<le> mx"
proof -
  have "q_cap (wr_q (start_writer q w)) = sz" "q_maxBytes (wr_q (start_writer q w)) = mx"
    by (simp_all add: start_writer_def assms(2) newQueue_def)
  moreover have "writer_inv (writer_run n q w es)"
    using assms by (intro writer.run_inv start_writer_inv) auto
  ultimately show ?thesis using assms(3) writer_facts(4,5) [of "writer_run n q w es"]
    by (simp only: run_config)
qed

text \<open>A stopped writer has emptied the queue: nothing accepted is left behind.\<close>

text \<open>
When the writer loop has returned after cancellation, nothing accepted is left behind: no record is
pending, every accepted one is accounted for as persisted, unknown or dropped, and any later Push is
refused.
\<close>

theorem drained_at_stop:
  assumes "\<forall>v. 0 \<le> value_size q v" "q = (newQueue sz best)\<lparr>q_size := f, q_maxBytes := mx\<rparr>" "0 \<le> mx"
    and "wr_phase (writer_run n q w es) = Stopped"
  shows "q_pending (wr_q (writer_run n q w es)) = []
    \<and> st_accepted (q_stats (wr_q (writer_run n q w es))) + wr_recorded (writer_run n q w es)
        = settled (wr_q (writer_run n q w es))
    \<and> \<not> snd (Push now v (wr_q (writer_run n q w es)))"
proof -
  have "writer_inv (writer_run n q w es)" by (rule writer.run_inv [OF start_writer_inv [OF assms(1-3)]])
  note f = writer_facts [OF this] and st = assms(4)
  have "\<not> snd (Push now v (wr_q (writer_run n q w es)))"
    using f(6) st by (simp add: Push_def push_reason_def Let_def)
  moreover have p: "q_pending (wr_q (writer_run n q w es)) = []" by (rule f(7) [OF st])
  ultimately show ?thesis using f(1) by (simp only: p) simp
qed

section \<open>The table and the counters\<close>

text \<open>
  What the transaction promises: a write that reports success is durable, and a durable write reports
  success or an unknown commit.
\<close>

definition truthful :: "'a world \<Rightarrow> bool" where
  "truthful w \<longleftrightarrow> (\<forall>n vs. (w_write w n vs = None \<longrightarrow> w_applied w n vs)
     \<and> (w_applied w n vs \<longrightarrow> w_write w n vs = None \<or> w_write w n vs = Some UnknownCommit))"

definition same_db :: "'a world \<Rightarrow> 'a world \<Rightarrow> bool" where
  "same_db w w' \<longleftrightarrow> w_write w' = w_write w \<and> w_applied w' = w_applied w"

lemma same_db_refl [simp]: "same_db w w" by (simp add: same_db_def)

lemma same_db_trans [trans]: "same_db u v \<Longrightarrow> same_db v w \<Longrightarrow> same_db u w" by (simp add: same_db_def)

lemma ctx_err_env: "ctx_err w = (c, w') \<Longrightarrow> same_db w w' \<and> w_stored w' = w_stored w \<and> w_calls w' = w_calls w
    \<and> (w_ctx w = None \<longrightarrow> \<not> c \<and> w_ctx w' = None)"
  by (cases "w_ctx w"; cases "poll (w_ctx w)") (auto simp: ctx_err_def same_db_def split: option.splits)

lemma tick_env [simp]: "same_db (tick w) w' = same_db w w'" "same_db w (tick w') = same_db w w'"
  "w_stored (tick w) = w_stored w" "w_calls (tick w) = w_calls w" "w_ctx (tick w) = w_ctx w"
  by (simp_all add: tick_def same_db_def)

lemma do_write_env: "do_write vs w = (r, w') \<Longrightarrow> same_db w w' \<and> w_calls w' = w_calls w + 1 \<and> w_ctx w' = w_ctx w
    \<and> r = w_write w (w_calls w) vs
    \<and> w_stored w' = (if w_applied w (w_calls w) vs then w_stored w @ vs else w_stored w)"
  by (auto simp: do_write_def same_db_def)

definition tally :: "'a queue \<Rightarrow> nat \<times> nat \<times> (string \<Rightarrow> nat)" where
  "tally q = (st_persisted (q_stats q), st_unknown (q_stats q), st_dropped (q_stats q))"

lemma note_tally [simp]: "tally (note_failure t q) = tally q" "tally (note_retry q) = tally q"
  by (auto simp: tally_def note_failure_def note_retry_def allowWarningLocked_def)

lemma finish_stats: "q_stats (finish now batch reason q) =
    (settle now (length batch) reason (q_stats q))
      \<lparr>st_pendingBytes := st_pendingBytes (settle now (length batch) reason (q_stats q)) - sum_list (map q_bytes batch)\<rparr>"
  by (auto simp: finish_def Let_def remove_items)

lemma finish_tally:
  "tally (finish now batch reason q) =
     (if reason = '''' then (st_persisted (q_stats q) + length batch, snd (tally q))
      else if reason = ''unknown_commit'' then (fst (tally q), st_unknown (q_stats q) + length batch, snd (snd (tally q)))
      else (fst (tally q), fst (snd (tally q)),
            (st_dropped (q_stats q))(reason := st_dropped (q_stats q) reason + length batch)))"
  by (auto simp: finish_stats settle_def tally_def bump_dropped_def)

text \<open>One run of the retry loop, on the database and on the counters.\<close>

lemma attempts_db:
  assumes "truthful w" "err \<noteq> UnknownCommit"
  shows "case attempts n first err batch q w of
      Finished q' w' \<Rightarrow> same_db w w' \<and> w_stored w' = w_stored w @ map q_value batch
        \<and> tally q' = (st_persisted (q_stats q) + length batch, snd (tally q))
        \<and> w_calls w' \<le> w_calls w + n
    | Failed e q' w' \<Rightarrow> same_db w w' \<and> tally q' = tally q \<and> w_calls w' \<le> w_calls w + n
        \<and> (w_stored w' = w_stored w \<or> (e = UnknownCommit \<and> w_stored w' = w_stored w @ map q_value batch))"
  using assms
proof (induction n first err batch q w rule: attempts.induct)
  case (2 n first err batch q w)
  obtain c1 w1 where A: "ctx_err w = (c1, w1)" by force
  obtain c2 w2 where B: "(if first then (False, w1) else ctx_err w1) = (c2, w2)" by force
  define q2 where "q2 = (if first then q else note_retry q)"
  obtain r w3 where C: "do_write (map q_value batch) w2 = (r, w3)" by force
  have w1: "same_db w w1" "w_stored w1 = w_stored w" "w_calls w1 = w_calls w" using ctx_err_env [OF A] by auto
  have w2: "same_db w w2" "w_stored w2 = w_stored w" "w_calls w2 = w_calls w"
    using B w1 ctx_err_env [of w1 c2 w2] by (auto split: if_splits intro: same_db_trans)
  note w3 = do_write_env [OF C]
  have t: "truthful w2" using 2 w2(1) by (auto simp: truthful_def same_db_def)
  have d: "same_db w w3" using w2 w3 same_db_trans by blast
  have q2: "tally q2 = tally q" by (simp add: q2_def)
  then have p2: "st_persisted (q_stats q2) = st_persisted (q_stats q)" by (simp add: tally_def)
  consider "c1" | "\<not> c1" "c2" | "\<not> c1" "\<not> c2" "r = None"
    | e where "\<not> c1" "\<not> c2" "r = Some e" "\<not> retryable e"
    | e where "\<not> c1" "\<not> c2" "r = Some e" "retryable e" by (cases r) blast+
  then show ?case
  proof cases
    case 1 then show ?thesis using A w1 by simp
  next
    case _: 2 then show ?thesis using A B w2 by simp
  next
    case 3
    then have "w_stored w3 = w_stored w @ map q_value batch"
      using t w3 w2 by (auto simp: truthful_def)
    then show ?thesis using 3 A B C d w3 w2 p2
      by (simp add: Let_def finish_tally flip: q2_def) (simp add: q2)
  next
    case 4
    then have "w_stored w3 = w_stored w \<or> (e = UnknownCommit \<and> w_stored w3 = w_stored w @ map q_value batch)"
      using t [unfolded truthful_def, rule_format, of "w_calls w2" "map q_value batch"] w3 w2 by auto
    then show ?thesis using 4 A B C d w3 w2 q2
      by (simp add: Let_def flip: q2_def)
  next
    case 5
    then have s: "w_stored w3 = w_stored w" "e \<noteq> UnknownCommit"
      using t [unfolded truthful_def, rule_format, of "w_calls w2" "map q_value batch"] w3 w2 by auto
    have t3: "truthful (tick w3)" using d 2 by (auto simp: truthful_def same_db_def tick_def)
    note ih = "2.IH" [OF A [symmetric] refl 5(1) B [symmetric] refl 5(2) q2_def C [symmetric] refl 5(3) refl refl 5(4) t3 s(2)]
    have c: "w_calls w3 = w_calls w + 1" using w3 w2 by simp
    have p: "st_persisted (q_stats (note_failure t q2)) = st_persisted (q_stats q)" for t
      using q2 note_tally(1) [of t q2] by (simp add: tally_def)
    show ?thesis using 5 A B C ih s d c
      by (auto simp: Let_def p q2 split: outcome.splits intro: same_db_trans simp flip: q2_def)
  qed
qed simp

text \<open>What a flush may do to the table and to the counters of stored and unknown records.\<close>

definition stored_by :: "'a queued list \<Rightarrow> 'a queue \<Rightarrow> 'a world \<Rightarrow> 'a queue \<Rightarrow> 'a world \<Rightarrow> bool" where
  "stored_by batch q w q' w' \<longleftrightarrow> (\<exists>vs. subseq vs (map q_value batch) \<and> w_stored w' = w_stored w @ vs
     \<and> st_persisted (q_stats q') \<le> st_persisted (q_stats q) + length vs
     \<and> st_persisted (q_stats q) + st_unknown (q_stats q) + length vs \<le> st_persisted (q_stats q') + st_unknown (q_stats q')
     \<and> st_unknown (q_stats q) \<le> st_unknown (q_stats q'))"

lemma stored_by_append:
  assumes "stored_by xs q w q1 w1" "stored_by ys q1 w1 q2 w2"
  shows "stored_by (xs @ ys) q w q2 w2"
proof -
  obtain a b where a: "subseq a (map q_value xs)" "w_stored w1 = w_stored w @ a"
    "st_persisted (q_stats q1) \<le> st_persisted (q_stats q) + length a"
    "st_persisted (q_stats q) + st_unknown (q_stats q) + length a \<le> st_persisted (q_stats q1) + st_unknown (q_stats q1)"
    "st_unknown (q_stats q) \<le> st_unknown (q_stats q1)"
   and b: "subseq b (map q_value ys)" "w_stored w2 = w_stored w1 @ b"
    "st_persisted (q_stats q2) \<le> st_persisted (q_stats q1) + length b"
    "st_persisted (q_stats q1) + st_unknown (q_stats q1) + length b \<le> st_persisted (q_stats q2) + st_unknown (q_stats q2)"
    "st_unknown (q_stats q1) \<le> st_unknown (q_stats q2)"
    using assms unfolding stored_by_def by blast
  have "subseq (a @ b) (map q_value (xs @ ys))" using a(1) b(1) by (simp add: list_emb_append_mono)
  with a b show ?thesis unfolding stored_by_def by (intro exI [of _ "a @ b"]) auto
qed

lemma stored_by_cong:
  "stored_by batch q w q' w' \<Longrightarrow> tally q1 = tally q \<Longrightarrow> w_stored w1 = w_stored w \<Longrightarrow> stored_by batch q1 w1 q' w'"
  by (simp add: stored_by_def tally_def)

lemma abandon_reason_cases:
  "abandon_reason err c = ''unknown_commit'' \<longleftrightarrow> err = UnknownCommit" "abandon_reason err c \<noteq> ''''"
  by (auto simp: abandon_reason_def)

lemma finish_abandoned:
  assumes "w_stored w' = w_stored w \<or> (err = UnknownCommit \<and> w_stored w' = w_stored w @ map q_value batch)"
  shows "stored_by batch q w (finish t batch (abandon_reason err c) q) w'"
proof (cases "err = UnknownCommit")
  case True
  then have "abandon_reason err c = ''unknown_commit''" by (simp add: abandon_reason_cases)
  then have f: "st_persisted (q_stats (finish t batch (abandon_reason err c) q)) = st_persisted (q_stats q)"
    "st_unknown (q_stats (finish t batch (abandon_reason err c) q)) = st_unknown (q_stats q) + length batch"
    using finish_tally [of t batch "abandon_reason err c" q] by (simp_all add: tally_def)
  have "\<exists>vs. subseq vs (map q_value batch) \<and> w_stored w' = w_stored w @ vs"
    using assms by (elim disjE conjE) (auto intro: exI [of _ "[]"])
  then obtain vs where vs: "subseq vs (map q_value batch)" "w_stored w' = w_stored w @ vs" by blast
  then have "length vs \<le> length batch" using list_emb_length [of "(=)" vs "map q_value batch"] by simp
  with vs f show ?thesis unfolding stored_by_def by (intro exI [of _ vs]) simp
next
  case False
  then have "tally (finish t batch (abandon_reason err c) q) = (fst (tally q), fst (snd (tally q)),
      (st_dropped (q_stats q))(abandon_reason err c := st_dropped (q_stats q) (abandon_reason err c) + length batch))"
    by (simp add: finish_tally abandon_reason_cases)
  with False assms show ?thesis unfolding stored_by_def
    by (intro exI [of _ "[]"]) (simp add: tally_def)
qed

lemma flush_db:
  assumes "truthful w" "batch \<noteq> []" "flush batch q w = (q', w')"
  shows "same_db w w' \<and> stored_by batch q w q' w' \<and> w_calls w' + 5 \<le> w_calls w + 10 * length batch"
  using assms
proof (induction "length batch" arbitrary: batch q w q' w' rule: less_induct)
  case less
  note at = attempts_db [OF less.prems(1), where err = OtherErr and n = max_attempts and first = True and batch = batch and q = q]
  have len: "1 \<le> length batch" using less.prems(2) by (cases batch) auto
  show ?case
  proof (cases rule: flush_unfold [of batch q w])
    case (finished q1 w1)
    with at less.prems(3) have f: "same_db w w'" "w_stored w' = w_stored w @ map q_value batch"
      "tally q' = (st_persisted (q_stats q) + length batch, snd (tally q))" "w_calls w' \<le> w_calls w + max_attempts"
      by auto
    have "stored_by batch q w q' w'" unfolding stored_by_def
      using f by (intro exI [of _ "map q_value batch"]) (simp add: tally_def)
    with f len show ?thesis by (simp add: max_attempts_def)
  next
    case (split err q1 wf w1 q2 w2)
    let ?k = "length batch div 2"
    have l: "length (take ?k batch) < length batch" "length (drop ?k batch) < length batch"
      and ne: "take ?k batch \<noteq> []" "drop ?k batch \<noteq> []"
      using split(3) by (auto simp: take_eq_Nil)
    have "err \<noteq> UnknownCommit" using split(2) by auto
    with at split(1) have a: "same_db w wf" "tally q1 = tally q" "w_calls wf \<le> w_calls w + max_attempts"
      "w_stored wf = w_stored w" by auto
    note e = ctx_err_env [OF split(4)]
    have s1: "same_db w w1" using a e same_db_trans by blast
    then have t1: "truthful w1" using less.prems(1) by (simp add: truthful_def same_db_def)
    note r1 = less.hyps [OF l(1) t1 ne(1) split(5)]
    then have s2: "same_db w w2" using s1 same_db_trans by blast
    then have t2: "truthful w2" using less.prems(1) by (simp add: truthful_def same_db_def)
    have "flush (drop ?k batch) q2 w2 = (q', w')" using split(6) less.prems(3) by simp
    note r2 = less.hyps [OF l(2) t2 ne(2) this]
    have "stored_by (take ?k batch @ drop ?k batch) q1 w1 q' w'"
      using r1 r2 by (blast intro: stored_by_append)
    then have "stored_by batch q w q' w'" using a e by (auto intro: stored_by_cong)
    moreover have "same_db w w'" using r2 s2 same_db_trans by blast
    moreover have "length (take ?k batch) + length (drop ?k batch) = length batch"
      by (metis append_take_drop_id length_append)
    ultimately show ?thesis using r1 r2 a e unfolding max_attempts_def by linarith
  next
    case (abandoned err q1 wf w1 c' w2)
    with at have a: "same_db w wf" "tally q1 = tally q" "w_calls wf \<le> w_calls w + max_attempts"
      "w_stored wf = w_stored w \<or> (err = UnknownCommit \<and> w_stored wf = w_stored w @ map q_value batch)" by auto
    have e: "same_db wf w1" "w_stored w1 = w_stored wf" "w_calls w1 = w_calls wf"
      using abandoned(2) ctx_err_env [of wf "fst (ctx_err wf)" "snd (ctx_err wf)"] by (auto split: if_splits)
    have f: "same_db w1 w2" "w_stored w2 = w_stored w1" "w_calls w2 = w_calls w1"
      using abandoned(3) ctx_err_env [of w1 c' w2] by (auto split: if_splits)
    have q: "q' = finish (now_of w2) batch (abandon_reason err c') q1" "w' = tick w2"
      using abandoned(4) less.prems(3) by simp_all
    have "stored_by batch q1 w q' w'" unfolding q(1)
      using a(4) e f by (intro finish_abandoned) (simp add: q)
    then have "stored_by batch q w q' w'" using a by (auto intro: stored_by_cong)
    moreover have "same_db w w'" unfolding q(2) tick_env using a(1) e(1) f(1) same_db_trans by blast
    ultimately show ?thesis using a e f q len by (simp add: max_attempts_def)
  qed
qed

text \<open>
C11: A flush stores every record of its batch at most once and in order, through all retries and splits:
what reaches the table is a subsequence of the batch, the persisted counter never claims more than
was stored, and what was stored beyond it is counted as unknown.
\<close>

theorem flush_at_most_once:
  assumes "truthful w" "batch \<noteq> []"
  shows "\<exists>vs. subseq vs (map q_value batch) \<and> w_stored (snd (flush batch q w)) = w_stored w @ vs
    \<and> st_persisted (q_stats (fst (flush batch q w))) \<le> st_persisted (q_stats q) + length vs
    \<and> st_persisted (q_stats q) + st_unknown (q_stats q) + length vs
        \<le> st_persisted (q_stats (fst (flush batch q w))) + st_unknown (q_stats (fst (flush batch q w)))"
  using flush_db [OF assms, of q "fst (flush batch q w)" "snd (flush batch q w)"] by (auto simp: stored_by_def)

text \<open>
A flush of n records calls the write function at most 5(2n - 1) times.
\<close>

theorem flush_write_bound:
  assumes "truthful w" "batch \<noteq> []"
  shows "w_calls (snd (flush batch q w)) \<le> w_calls w + max_attempts * (2 * length batch - 1)"
  using flush_db [OF assms, of q "fst (flush batch q w)" "snd (flush batch q w)"] assms(2)
  by (cases batch) (simp_all add: max_attempts_def)

section \<open>Isolation of bad records\<close>

text \<open>
  A database that refuses every batch holding a bad record, with a permanent error, and a flush whose budget does not run out.
\<close>

definition poisoned :: "('a \<Rightarrow> bool) \<Rightarrow> write_error \<Rightarrow> 'a world \<Rightarrow> bool" where
  "poisoned bad e w \<longleftrightarrow> truthful w \<and> permanent e \<and> w_ctx w = None
     \<and> (\<forall>n vs. w_write w n vs = (if \<exists>v \<in> set vs. bad v then Some e else None))"

lemma permanent_not_retryable: "permanent e \<Longrightarrow> \<not> retryable e"
  by (cases e) (auto split: if_splits)

lemma poisoned_step:
  assumes "poisoned bad e w" "same_db w w'" "w_ctx w' = None"
  shows "poisoned bad e w'"
proof -
  have d: "w_write w' = w_write w" "w_applied w' = w_applied w" using assms(2) by (simp_all add: same_db_def)
  show ?thesis using assms(1,3) unfolding poisoned_def truthful_def d by blast
qed

lemma attempts_poisoned:
  assumes p: "poisoned bad e w"
  obtains (good) q' w' where "attempts max_attempts True OtherErr batch q w = Finished q' w'"
      "\<not> (\<exists>x \<in> set batch. bad (q_value x))" "poisoned bad e w'" "w_stored w' = w_stored w @ map q_value batch"
      "tally q' = (st_persisted (q_stats q) + length batch, snd (tally q))"
  | (bad) q' w' where "attempts max_attempts True OtherErr batch q w = Failed e q' w'"
      "\<exists>x \<in> set batch. bad (q_value x)" "poisoned bad e w'" "w_stored w' = w_stored w" "tally q' = tally q"
proof -
  obtain c1 w1 where A: "ctx_err w = (c1, w1)" by force
  obtain r w3 where C: "do_write (map q_value batch) w1 = (r, w3)" by force
  note e1 = ctx_err_env [OF A] and e3 = do_write_env [OF C]
  have ctx: "w_ctx w = None" using p by (simp add: poisoned_def)
  have p1: "poisoned bad e w1" using p e1 ctx poisoned_step by blast
  have p3: "poisoned bad e (tick w3)"
    using p1 e3 poisoned_step [of bad e w1 "tick w3"] e1 ctx by simp
  have r: "r = (if \<exists>x \<in> set batch. bad (q_value x) then Some e else None)"
    using p1 e3 by (auto simp: poisoned_def)
  have m: "max_attempts = Suc 4" by (simp add: max_attempts_def)
  have u: "attempts max_attempts True OtherErr batch q w =
     (case r of None \<Rightarrow> Finished (finish (now_of w3) batch '''' q) (tick w3)
      | Some e \<Rightarrow> if retryable e then attempts 4 False e batch (note_failure (now_of w3) q) (tick w3)
                  else Failed e (note_failure (now_of w3) q) (tick w3))"
    using A C ctx e1 unfolding m attempts.simps(2) by (simp add: Let_def split: option.splits)
  have pe: "permanent e" using p by (simp add: poisoned_def)
  have tw: "truthful w1" using p1 by (simp add: poisoned_def)
  show ?thesis
  proof (cases "\<exists>x \<in> set batch. bad (q_value x)")
    case True
    have ue: "e \<noteq> UnknownCommit" using pe by auto
    have "w_stored w3 = w_stored w"
      using e3 e1 tw [unfolded truthful_def, rule_format, of "w_calls w1" "map q_value batch"] r True ue by auto
    then show ?thesis using True u r permanent_not_retryable [OF pe] p3
      by (intro bad [of "note_failure (now_of w3) q" "tick w3"]) simp_all
  next
    case False
    have "w_stored w3 = w_stored w @ map q_value batch"
      using e3 e1 tw [unfolded truthful_def, rule_format, of "w_calls w1" "map q_value batch"] r False by auto
    then show ?thesis using False u r p3
      by (intro good [of "finish (now_of w3) batch '''' q" "tick w3"]) (simp_all add: finish_tally)
  qed
qed

definition isolated :: "('a \<Rightarrow> bool) \<Rightarrow> 'a list \<Rightarrow> 'a queue \<Rightarrow> 'a world \<Rightarrow> 'a queue \<Rightarrow> 'a world \<Rightarrow> bool" where
  "isolated bad vs q w q' w' \<longleftrightarrow>
     w_stored w' = w_stored w @ filter (\<lambda>v. \<not> bad v) vs
     \<and> tally q' = (st_persisted (q_stats q) + length (filter (\<lambda>v. \<not> bad v) vs),
         st_unknown (q_stats q),
         (st_dropped (q_stats q))(''invalid_record'' :=
            st_dropped (q_stats q) ''invalid_record'' + length (filter bad vs)))"

lemma isolated_append:
  "isolated bad xs q w q1 w1 \<Longrightarrow> isolated bad ys q1 w1 q2 w2 \<Longrightarrow> isolated bad (xs @ ys) q w q2 w2"
  by (simp add: isolated_def tally_def add.assoc)

lemma isolated_cong:
  "isolated bad vs q w q' w' \<Longrightarrow> tally q1 = tally q \<Longrightarrow> w_stored w1 = w_stored w \<Longrightarrow> isolated bad vs q1 w1 q' w'"
  by (simp add: isolated_def tally_def)

lemma flush_isolated:
  assumes "poisoned bad e w" "batch \<noteq> []" "flush batch q w = (q', w')"
  shows "isolated bad (map q_value batch) q w q' w' \<and> poisoned bad e w'"
  using assms
proof (induction "length batch" arbitrary: batch q w q' w' rule: less_induct)
  case less
  have pe: "permanent e" "e \<noteq> UnknownCommit" using less.prems(1) by (auto simp: poisoned_def)
  show ?case
    using less.prems(1)
  proof (cases rule: attempts_poisoned [where batch = batch and q = q])
    case (good q1 w1)
    then have f: "q' = q1" "w' = w1" using less.prems(3) by (simp_all add: flush.simps [of batch q w])
    have "filter (\<lambda>v. \<not> bad v) (map q_value batch) = map q_value batch" "filter bad (map q_value batch) = []"
      using good(2) by (auto simp: filter_id_conv filter_empty_conv)
    with good f show ?thesis by (simp add: isolated_def) (simp add: tally_def)
  next
    case (bad q1 wf)
    have ctx: "w_ctx wf = None" using bad(3) by (simp add: poisoned_def)
    obtain c w1 where e: "ctx_err wf = (c, w1)" by force
    note env = ctx_err_env [OF e]
    have p1: "poisoned bad e w1" using env ctx bad(3) poisoned_step by blast
    show ?thesis
    proof (cases "1 < length batch")
      case True
      let ?k = "length batch div 2"
      have l: "length (take ?k batch) < length batch" "length (drop ?k batch) < length batch"
        and ne: "take ?k batch \<noteq> []" "drop ?k batch \<noteq> []"
        using True by (auto simp: take_eq_Nil)
      obtain q2 w2 where f1: "flush (take ?k batch) q1 w1 = (q2, w2)" by force
      note r1 = less.hyps [OF l(1) p1 ne(1) f1]
      have f2: "flush (drop ?k batch) q2 w2 = (q', w')"
        using less.prems(3) bad(1) e env ctx True pe f1 by (simp add: flush.simps [of batch q w] Let_def)
      note r2 = less.hyps [OF l(2) _ ne(2) f2]
      have "isolated bad (map q_value (take ?k batch) @ map q_value (drop ?k batch)) q1 w1 q' w'"
        using r1 r2 by (blast intro: isolated_append)
      then have "isolated bad (map q_value batch) q w q' w'"
        using bad env unfolding map_append [symmetric] append_take_drop_id by (auto intro: isolated_cong)
      then show ?thesis using r1 r2 by blast
    next
      case False
      then obtain x where x: "batch = [x]" using less.prems(2) by (cases batch) auto
      obtain c' w2 where e': "ctx_err wf = (c', w2)" by force
      have "q' = finish (now_of w1) batch (abandon_reason e False) q1" "w' = tick w1"
        using less.prems(3) bad(1) e env ctx pe x by (auto simp: flush.simps [of "[x]" q w] Let_def)
      moreover have "abandon_reason e False = ''invalid_record''" using pe by (simp add: abandon_reason_def)
      moreover have "bad (q_value x)" using bad(2) x by simp
      ultimately show ?thesis
        using bad(4,5) x env p1 poisoned_step [OF p1, of "tick w1"] ctx
        by (simp add: isolated_def finish_tally) (simp add: tally_def)
    qed
  qed
qed

text \<open>
C3: Splitting isolates bad records: when the database refuses, with a permanent error, exactly the
batches that hold a bad record, a flush within its budget stores all the good records in their
order, counts them as persisted and counts every bad one as an invalid_record drop.
\<close>

theorem flush_isolates_bad_records:
  assumes "poisoned bad e w" "batch \<noteq> []" "flush batch q w = (q', w')"
  shows "w_stored w' = w_stored w @ filter (\<lambda>v. \<not> bad v) (map q_value batch)
    \<and> st_persisted (q_stats q') = st_persisted (q_stats q) + length (filter (\<lambda>v. \<not> bad v) (map q_value batch))
    \<and> st_dropped (q_stats q') ''invalid_record'' =
        st_dropped (q_stats q) ''invalid_record'' + length (filter bad (map q_value batch))
    \<and> st_unknown (q_stats q') = st_unknown (q_stats q)"
  using flush_isolated [OF assms] by (simp add: isolated_def tally_def)

text \<open>
  The answers of the driver to \<open>Begin\<close>, to the write and to \<open>Commit\<close>, with the documented
  behaviour of Postgres: only a commit that was sent can make the transaction durable, and a commit
  answered with a rollback, a serialization failure, a deadlock or a data error has not.
\<close>

definition transactional :: "(nat \<Rightarrow> 'a list \<Rightarrow> write_error option) \<Rightarrow> (nat \<Rightarrow> 'a list \<Rightarrow> write_error option)
    \<Rightarrow> (nat \<Rightarrow> 'a list \<Rightarrow> write_error option) \<Rightarrow> (nat \<Rightarrow> 'a list \<Rightarrow> bool) \<Rightarrow> bool" where
  "transactional b wr cm ap \<longleftrightarrow> (\<forall>n vs. (ap n vs \<longrightarrow> b n vs = None \<and> wr n vs = None
     \<and> cm n vs \<noteq> Some CommitRollback
     \<and> (\<forall>code. cm n vs = Some (PgError code) \<longrightarrow> code \<noteq> ''40001'' \<and> code \<noteq> ''40P01'' \<and> \<not> permanent (PgError code)))
     \<and> (b n vs = None \<and> wr n vs = None \<and> cm n vs = None \<longrightarrow> ap n vs))"

lemma atomicWrite_None: "atomicWrite b wr cm = None \<longleftrightarrow> b = None \<and> wr = None \<and> cm = None"
  unfolding atomicWrite_def by (cases b; cases wr; cases cm) (simp_all del: permanent.simps)

lemma atomicWrite_unknown:
  assumes "cm \<noteq> Some CommitRollback"
    and "\<forall>code. cm = Some (PgError code) \<longrightarrow> code \<noteq> ''40001'' \<and> code \<noteq> ''40P01'' \<and> \<not> permanent (PgError code)"
  shows "atomicWrite None None cm = None \<or> atomicWrite None None cm = Some UnknownCommit"
proof (cases cm)
  case (Some e)
  show ?thesis using assms unfolding Some by (cases e) (simp_all add: atomicWrite_def del: permanent.simps)
qed (simp add: atomicWrite_def)

text \<open>
C40: atomicWrite reports success only for a durable transaction, and a durable transaction is reported as
success or as an unknown commit, never as a plain failure that flush would retry: over any driver
where only a commit that was sent and not refused can be durable, the writer's world is truthful.
\<close>

theorem atomicWrite_truthful:
  assumes "transactional b wr cm (w_applied w)"
    and "w_write w = (\<lambda>n vs. atomicWrite (b n vs) (wr n vs) (cm n vs))"
  shows "truthful w"
  unfolding truthful_def
proof (intro allI conjI impI)
  fix n vs
  note t = assms(1) [unfolded transactional_def, rule_format, of n vs]
  show "w_applied w n vs" if "w_write w n vs = None"
  proof -
    have "b n vs = None \<and> wr n vs = None \<and> cm n vs = None" using that unfolding assms(2) atomicWrite_None .
    then show ?thesis using t by blast
  qed
  show "w_write w n vs = None \<or> w_write w n vs = Some UnknownCommit" if "w_applied w n vs"
  proof -
    have n: "b n vs = None" "wr n vs = None" using that t by blast+
    show ?thesis unfolding assms(2) n by (rule atomicWrite_unknown) (use that t in blast)+
  qed
qed

section \<open>A concrete run\<close>

text \<open>
  A database that refuses every batch holding the number 0, and a batch of three records, the middle one bad.
\<close>

definition demo_world :: "nat world" where
  "demo_world = \<lparr>w_ctx = None, w_calls = 0,
     w_write = (\<lambda>_ vs. if \<exists>v \<in> set vs. v = 0 then Some (PgError ''22P02'') else None),
     w_applied = (\<lambda>_ vs. \<not> (\<exists>v \<in> set vs. v = 0)), w_stored = [], w_ticks = 0,
     w_clock = (\<lambda>n. int n), w_pick = (\<lambda>_. False)\<rparr>"

definition demo_queue :: "nat queue" where
  "demo_queue = (newQueue 3 False)\<lparr>q_size := Some (\<lambda>_. 10), q_maxBytes := 30\<rparr>"

definition demo_batch :: "nat queued list" where
  "demo_batch = [\<lparr>q_value = 7, q_at = 0, q_bytes = 10, q_elem = 0\<rparr>,
     \<lparr>q_value = 0, q_at = 0, q_bytes = 10, q_elem = 1\<rparr>, \<lparr>q_value = 9, q_at = 0, q_bytes = 10, q_elem = 2\<rparr>]"

definition demo_events :: "nat event list" where
  "demo_events = [EvPush 1 7, EvPush 2 0, EvPush 3 9, EvPush 4 5, EvRecv None, EvCancel, EvTop None,
     EvPush 6 1, EvDrain, EvDrain, EvDrain]"

lemma demo_truthful: "truthful demo_world"
  by (simp add: truthful_def demo_world_def)

lemma demo_poisoned: "poisoned ((=) 0) (PgError ''22P02'') demo_world"
  using demo_truthful by (auto simp: poisoned_def demo_world_def)

lemma demo_queue_ok: "\<forall>v. 0 \<le> value_size demo_queue v"
  by (simp add: value_size_def demo_queue_def)

theorem queue_conservation_witness:
  "st_accepted (q_stats (wr_q (writer_run 8 demo_queue demo_world demo_events)))
     + wr_recorded (writer_run 8 demo_queue demo_world demo_events)
   = settled (wr_q (writer_run 8 demo_queue demo_world demo_events))
     + length (q_pending (wr_q (writer_run 8 demo_queue demo_world demo_events)))"
  using queue_conservation [OF demo_queue_ok demo_queue_def, of 8 demo_world demo_events] unfolding Let_def by simp

theorem queue_bounded_witness:
  "length (q_ch (wr_q (writer_run 8 demo_queue demo_world demo_events))) \<le> 3"
  using queue_bounded [OF demo_queue_ok demo_queue_def, of 8 demo_world demo_events] by simp

lemma demo_stopped: "wr_phase (writer_run 8 demo_queue demo_world demo_events) = Stopped"
  by code_simp

theorem drained_at_stop_witness:
  "q_pending (wr_q (writer_run 8 demo_queue demo_world demo_events)) = []
   \<and> \<not> snd (Push 100 3 (wr_q (writer_run 8 demo_queue demo_world demo_events)))"
  using drained_at_stop [OF demo_queue_ok demo_queue_def _ demo_stopped, of 100 3] by simp

theorem flush_at_most_once_witness:
  "\<exists>vs. subseq vs [7, 0, 9] \<and> w_stored (snd (flush demo_batch demo_queue demo_world)) = vs"
  using flush_at_most_once [OF demo_truthful, of demo_batch demo_queue]
  by (auto simp: demo_batch_def demo_world_def)

theorem flush_write_bound_witness:
  "w_calls (snd (flush demo_batch demo_queue demo_world)) \<le> 25"
  using flush_write_bound [OF demo_truthful, of demo_batch demo_queue]
  by (simp add: demo_batch_def demo_world_def max_attempts_def)

theorem flush_isolates_bad_records_witness:
  "w_stored (snd (flush demo_batch demo_queue demo_world)) = [7, 9]
   \<and> st_dropped (q_stats (fst (flush demo_batch demo_queue demo_world))) ''invalid_record'' = 1"
  using flush_isolates_bad_records [OF demo_poisoned, of demo_batch demo_queue
      "fst (flush demo_batch demo_queue demo_world)" "snd (flush demo_batch demo_queue demo_world)"]
  by (simp add: demo_batch_def) (simp add: demo_world_def demo_queue_def newQueue_def newStats_def)

theorem atomicWrite_truthful_witness:
  "truthful (demo_world\<lparr>w_write := (\<lambda>n vs. atomicWrite None (w_write demo_world n vs) None)\<rparr>)"
  by (rule atomicWrite_truthful [where b = "\<lambda>_ _. None" and wr = "w_write demo_world" and cm = "\<lambda>_ _. None"])
    (auto simp: transactional_def demo_world_def)

end
