(* ===== verification/Sanitize.thy ===== *)
theory Sanitize
  imports Prelude
begin

text \<open>
  What ingestion does to strings and times before they reach a table: \<open>internal/ingest/sanitize.go\<close>,
  \<open>limits.go\<close> and \<open>timestamp.go\<close>. Postgres refuses NUL in a text column and the
  NUL escape in JSONB, so both are stripped; short indexed fields are cut to a number of bytes without splitting a
  character; times too far in the future are moved back.
\<close>

section \<open>NUL bytes\<close>

definition nul :: char where "nul = CHR 0x00"

definition stripNUL :: "string \<Rightarrow> string" where
  "stripNUL s = (if index_byte s nul = None then s else filter (\<lambda>c. c \<noteq> nul) s)"

lemma stripNUL_filter: "stripNUL s = filter (\<lambda>c. c \<noteq> nul) s"
  by (auto simp: stripNUL_def index_byte_None intro!: filter_True [symmetric])

lemma stripNUL_free [simp]: "nul \<notin> set (stripNUL s)"
  by (simp add: stripNUL_filter)

lemma stripNUL_id [simp]: "nul \<notin> set s \<Longrightarrow> stripNUL s = s"
  by (simp add: stripNUL_def index_byte_None)

section \<open>NUL escapes\<close>

definition backslash :: char where "backslash = CHR 0x5C"

definition null_escape :: string where "null_escape = backslash # ''u0000''"

text \<open>The loop: the position, the start of the segment not yet copied, and the bytes copied so far.\<close>

function clean_loop :: "string \<Rightarrow> nat \<Rightarrow> nat \<Rightarrow> string option \<Rightarrow> nat \<times> string option" where
  "clean_loop p i start cleaned =
     (if i < length p then
        if p ! i \<noteq> backslash then clean_loop p (i + 1) start cleaned
        else if has_prefix null_escape (drop i p)
        then clean_loop p (i + length null_escape) (i + length null_escape)
               (Some ((case cleaned of None \<Rightarrow> [] | Some c \<Rightarrow> c) @ take (i - start) (drop start p)))
        else clean_loop p (i + 2) start cleaned
      else (start, cleaned))"
  by pat_completeness auto
termination
  by (relation "measure (\<lambda>(p, i, _). length p - i)") (auto simp: null_escape_def)

declare clean_loop.simps [simp del]

definition sanitizeJSONPayload :: "string \<Rightarrow> string" where
  "sanitizeJSONPayload p =
     (if \<not> contains null_escape p then p
      else case clean_loop p 0 0 None of
        (start, None) \<Rightarrow> p
      | (start, Some cleaned) \<Rightarrow> cleaned @ drop start p)"

text \<open>
  The same function by structure: an escape is read together with the byte it escapes, so a
  backslash that is itself escaped starts nothing.
\<close>

fun strip_escapes :: "string \<Rightarrow> string" where
  "strip_escapes [] = []"
| "strip_escapes (x # xs) =
     (if x \<noteq> backslash then x # strip_escapes xs
      else if has_prefix null_escape (x # xs) then strip_escapes (drop 5 xs)
      else case xs of [] \<Rightarrow> [x] | y # ys \<Rightarrow> x # y # strip_escapes ys)"

abbreviation copied :: "string option \<Rightarrow> string" where
  "copied c \<equiv> case c of None \<Rightarrow> [] | Some s \<Rightarrow> s"

lemma take_segment: "start \<le> i \<Longrightarrow> i < length p \<Longrightarrow>
   take (i + 1 - start) (drop start p) = take (i - start) (drop start p) @ [p ! i]"
  by (simp add: Suc_diff_le take_Suc_conv_app_nth)

lemma clean_loop_strip:
  assumes "start \<le> i"
  shows "(case clean_loop p i start c of (s, c') \<Rightarrow> copied c' @ drop s p)
           = copied c @ take (i - start) (drop start p) @ strip_escapes (drop i p)
     \<and> (snd (clean_loop p i start c) = None \<longrightarrow> c = None \<and> fst (clean_loop p i start c) = start)"
  using assms
proof (induction p i start c rule: clean_loop.induct)
  case (1 p i start c)
  show ?case
  proof (cases "i < length p")
    case False
    then show ?thesis by (simp add: clean_loop.simps [of p i])
  next
    case True
    note d = Cons_nth_drop_Suc [OF True, symmetric]
    consider (plain) "p ! i \<noteq> backslash" | (esc) "p ! i = backslash" "has_prefix null_escape (drop i p)"
      | (other) "p ! i = backslash" "\<not> has_prefix null_escape (drop i p)" by blast
    then show ?thesis
    proof cases
      case plain
      with 1(1) [OF True plain] True 1(4) show ?thesis
        by (simp add: clean_loop.simps [of p i] take_segment [simplified] d [simplified])
    next
      case esc
      have "strip_escapes (drop i p) = strip_escapes (drop (i + length null_escape) p)"
        using esc d by (simp add: null_escape_def eval_nat_numeral)
      with 1(2) [OF True _ esc(2)] esc True show ?thesis
        by (auto simp: clean_loop.simps [of p i])
    next
      case other
      have s: "take (i + 2 - start) (drop start p) @ strip_escapes (drop (i + 2) p)
          = take (i - start) (drop start p) @ strip_escapes (drop i p)"
      proof (cases "Suc i < length p")
        case T: True
        have "take (i + 2 - start) (drop start p) = take (i - start) (drop start p) @ [p ! i, p ! Suc i]"
          using take_segment [of start "Suc i" p] take_segment [of start i p] 1(4) True T by simp
        moreover have "drop i p = p ! i # p ! Suc i # drop (i + 2) p"
          using d Cons_nth_drop_Suc [OF T] by simp
        ultimately show ?thesis using other by simp
      next
        case F: False
        then have "drop i p = [p ! i]" "drop (i + 2) p = []" using d by simp_all
        moreover have "take (i + 2 - start) (drop start p) = take (i - start) (drop start p) @ [p ! i]"
          using take_segment [of start i p] 1(4) True F by simp
        ultimately show ?thesis using other by simp
      qed
      with 1(3) [OF True _ other(2)] other True 1(4) show ?thesis
        by (simp add: clean_loop.simps [of p i])
    qed
  qed
qed

lemma strip_escapes_id: "\<not> contains null_escape p \<Longrightarrow> strip_escapes p = p"
proof (induction p rule: strip_escapes.induct)
  case (2 x xs)
  then show ?case by (cases xs) auto
qed simp

text \<open>
C31: The index loop of sanitizeJSONPayload, with its segments and its fast path, computes the structural
function that reads an escape together with the byte it escapes and drops exactly the null escapes
that are not themselves escaped.
\<close>

theorem sanitize_strips_escapes: "sanitizeJSONPayload p = strip_escapes p"
proof -
  have "(case clean_loop p 0 0 None of (s, c') \<Rightarrow> copied c' @ drop s p) = strip_escapes p"
    "snd (clean_loop p 0 0 None) = None \<longrightarrow> fst (clean_loop p 0 0 None) = 0"
    using clean_loop_strip [of 0 0 p None] by simp_all
  then show ?thesis
    by (auto simp: sanitizeJSONPayload_def strip_escapes_id split: prod.splits option.splits)
qed

text \<open>
  Strings of JSON text, without their quotes: every backslash starts one of the escapes of the
  grammar. \<open>unescape\<close> is what a JSON reader makes of such a string, as UTF-16 units and bytes.
\<close>

definition hex_char :: "char \<Rightarrow> bool" where
  "hex_char c = (index_byte ''0123456789abcdef'' c \<noteq> None \<or> index_byte ''ABCDEF'' c \<noteq> None)"

definition hex_value :: "char \<Rightarrow> nat" where
  "hex_value c = (case index_byte ''0123456789abcdef'' c of
     Some i \<Rightarrow> i
   | None \<Rightarrow> (case index_byte ''ABCDEF'' c of Some i \<Rightarrow> i + 10 | None \<Rightarrow> 0))"

fun well_escaped :: "string \<Rightarrow> bool" where
  "well_escaped [] = True"
| "well_escaped (x # xs) =
     (if x \<noteq> backslash then well_escaped xs
      else case xs of
        [] \<Rightarrow> False
      | y # ys \<Rightarrow>
          if y = CHR ''u'' then 4 \<le> length ys \<and> list_all hex_char (take 4 ys) \<and> well_escaped (drop 4 ys)
          else y \<in> set (CHR 0x22 # backslash # ''/bfnrt'') \<and> well_escaped ys)"

definition simple_escape :: "char \<Rightarrow> nat" where
  "simple_escape c =
     (if c = CHR ''b'' then 8 else if c = CHR ''f'' then 12 else if c = CHR ''n'' then 10
      else if c = CHR ''r'' then 13 else if c = CHR ''t'' then 9 else of_char c)"

fun unescape :: "string \<Rightarrow> nat list" where
  "unescape [] = []"
| "unescape (x # xs) =
     (if x \<noteq> backslash then of_char x # unescape xs
      else case xs of
        [] \<Rightarrow> []
      | y # ys \<Rightarrow>
          if y = CHR ''u'' then foldl (\<lambda>a c. 16 * a + hex_value c) 0 (take 4 ys) # unescape (drop 4 ys)
          else simple_escape y # unescape ys)"

lemma index_byte_0: "index_byte (x # xs) c = Some 0 \<longleftrightarrow> c = x"
  by auto

lemma hex_value_0: "hex_char c \<Longrightarrow> hex_value c = 0 \<longleftrightarrow> c = CHR ''0''"
  using index_byte_0 [of "CHR ''0''" "''123456789abcdef''" c]
  by (auto simp: hex_char_def hex_value_def simp del: index_byte.simps split: option.splits)

lemma of_char_0 [simp]: "of_char c = (0 :: nat) \<longleftrightarrow> c = nul"
  using of_char_eq_iff [of c nul, where ?'a = nat] by (simp add: nul_def)

lemma take4: "4 \<le> length ys \<Longrightarrow> \<exists>a b c d zs. ys = [a, b, c, d] @ zs"
  by (cases ys rule: list.exhaust; cases "tl ys"; cases "tl (tl ys)"; cases "tl (tl (tl ys))") auto

lemma strip_escapes_u: "strip_escapes (backslash # CHR ''u'' # a # b # c # d # zs) =
    (if a = CHR ''0'' \<and> b = CHR ''0'' \<and> c = CHR ''0'' \<and> d = CHR ''0'' then strip_escapes zs
     else [backslash, CHR ''u''] @ strip_escapes (a # b # c # d # zs))"
  by (auto simp: null_escape_def eval_nat_numeral)

lemma hex_not_backslash: "hex_char c \<Longrightarrow> c \<noteq> backslash"
  unfolding hex_char_def backslash_def by (intro notI) simp

lemma hex_plain: "hex_char a \<Longrightarrow> strip_escapes (a # zs) = a # strip_escapes zs"
  by (simp add: hex_not_backslash)

lemma simple_escape_pos: "y \<noteq> nul \<Longrightarrow> simple_escape y \<noteq> 0"
  by (simp add: simple_escape_def del: neq0_conv)

lemma hex_value_zero [simp]: "hex_value (CHR ''0'') = 0"
  by (simp add: hex_value_def)

lemma foldl_hex_0: "hex_char a \<Longrightarrow> hex_char b \<Longrightarrow> hex_char c \<Longrightarrow> hex_char d \<Longrightarrow>
   foldl (\<lambda>a c. 16 * a + hex_value c) 0 [a, b, c, d] = 0
     \<longleftrightarrow> a = CHR ''0'' \<and> b = CHR ''0'' \<and> c = CHR ''0'' \<and> d = CHR ''0''"
  by (simp add: hex_value_0)

lemma strip_escapes_decodes:
  assumes "well_escaped p" "nul \<notin> set p"
  shows "well_escaped (strip_escapes p) \<and> unescape (strip_escapes p) = filter (\<lambda>u. u \<noteq> 0) (unescape p)"
  using assms
proof (induction p rule: well_escaped.induct)
  case (2 x xs)
  show ?case
  proof (cases "x = backslash")
    case False
    have "x \<noteq> nul" using 2(5) by auto
    with False 2 show ?thesis by simp
  next
    case True
    then obtain y ys where xs: "xs = y # ys" using 2(4) by (cases xs) auto
    show ?thesis
    proof (cases "y = CHR ''u''")
      case u: True
      then have h: "4 \<le> length ys" "list_all hex_char (take 4 ys)" "well_escaped (drop 4 ys)"
        using 2(4) True xs by simp_all
      obtain a b c d zs where ys: "ys = [a, b, c, d] @ zs" using take4 [OF h(1)] by blast
      have hs: "hex_char a" "hex_char b" "hex_char c" "hex_char d" using h(2) ys by simp_all
      have ih: "well_escaped (strip_escapes zs)" "unescape (strip_escapes zs) = filter (\<lambda>u. u \<noteq> 0) (unescape zs)"
        using 2(2) [OF _ xs u] True h(3) 2(5) xs ys by simp_all
      show ?thesis
        using True xs u ys hs ih foldl_hex_0 [OF hs]
        by (simp add: strip_escapes_u hex_plain del: strip_escapes.simps)
    next
      case nu: False
      then have h: "y \<in> set (CHR 0x22 # backslash # ''/bfnrt'')" "well_escaped ys"
        using 2(4) True xs by simp_all
      have "strip_escapes (x # xs) = x # y # strip_escapes ys"
        using True xs nu by (simp add: null_escape_def)
      moreover have "y \<noteq> nul" using 2(5) xs by auto
      ultimately show ?thesis
        using 2(3) [OF _ xs nu] True h 2(5) xs nu simple_escape_pos [of y] by simp
    qed
  qed
qed simp

text \<open>
On the text of a JSON string, sanitizing keeps the text well formed and commutes with reading it:
what a JSON reader decodes from the sanitized text is what it decoded from the original with the NUL
characters removed, and nothing else changed.
\<close>

theorem sanitize_payload_decodes:
  assumes "well_escaped p" "nul \<notin> set p"
  shows "well_escaped (sanitizeJSONPayload p)
    \<and> unescape (sanitizeJSONPayload p) = filter (\<lambda>u. u \<noteq> 0) (unescape p)"
  using strip_escapes_decodes [OF assms] by (simp add: sanitize_strips_escapes)

text \<open>Text that is not JSON may come out with a NUL escape that was not there.\<close>

lemma sanitize_not_idempotent:
  "sanitizeJSONPayload (backslash # ''u'' @ null_escape @ ''0000'') = null_escape"
  unfolding sanitize_strips_escapes by (simp add: null_escape_def backslash_def)

section \<open>The records\<close>

record buffered_event =
  ev_ProjectID :: string
  ev_EventID :: "string option"
  ev_Timestamp :: nanos
  ev_Payload :: string
  ev_TraceID :: string
  ev_SpanID :: string

record buffered_log =
  lg_ProjectID :: string
  lg_Timestamp :: nanos
  lg_Level :: string
  lg_Body :: string
  lg_TraceID :: string
  lg_SpanID :: string
  lg_Environment :: string
  lg_Release :: string
  lg_Attributes :: string

record buffered_span =
  bs_SpanID :: string
  bs_ParentSpanID :: string
  bs_Op :: string
  bs_Description :: string
  bs_StartTimestamp :: nanos
  bs_Timestamp :: nanos
  bs_DurationMs :: go_int
  bs_Status :: string
  bs_Data :: string

record buffered_transaction =
  tx_ProjectID :: string
  tx_EventID :: string
  tx_ProfilerID :: string
  tx_ThreadID :: string
  tx_TraceID :: string
  tx_SpanID :: string
  tx_Transaction :: string
  tx_Op :: string
  tx_Status :: string
  tx_DurationMs :: go_int
  tx_StartTimestamp :: nanos
  tx_Timestamp :: nanos
  tx_Environment :: string
  tx_Release :: string
  tx_Platform :: string
  tx_Measurements :: string
  tx_Spans :: "buffered_span list"
  tx_UserIdentity :: string
  tx_UserID :: string
  tx_UserUsername :: string
  tx_UserEmail :: string
  tx_UserName :: string

record buffered_profile =
  bp_ProjectID :: string
  bp_Format :: go_int
  bp_TransactionEventID :: string
  bp_ChunkID :: string
  bp_ProfilerID :: string
  bp_TraceID :: string
  bp_StartTs :: nanos
  bp_EndTs :: nanos
  bp_Environment :: string
  bp_Release :: string
  bp_Platform :: string
  bp_SampleCount :: go_int
  bp_Encoding :: go_int
  bp_Data :: string

text \<open>\<open>Buffer.Push\<close> cleans an event before it enters the queue.\<close>

definition sanitizeEvent :: "buffered_event \<Rightarrow> buffered_event" where
  "sanitizeEvent e = e\<lparr>ev_Payload := sanitizeJSONPayload (ev_Payload e),
     ev_TraceID := stripNUL (ev_TraceID e), ev_SpanID := stripNUL (ev_SpanID e)\<rparr>"

definition sanitizeLog :: "buffered_log \<Rightarrow> buffered_log" where
  "sanitizeLog l = l\<lparr>lg_Level := stripNUL (lg_Level l), lg_Body := stripNUL (lg_Body l),
     lg_TraceID := stripNUL (lg_TraceID l), lg_SpanID := stripNUL (lg_SpanID l),
     lg_Environment := stripNUL (lg_Environment l), lg_Release := stripNUL (lg_Release l),
     lg_Attributes := sanitizeJSONPayload (lg_Attributes l)\<rparr>"

definition sanitizeSpan :: "buffered_span \<Rightarrow> buffered_span" where
  "sanitizeSpan sp = sp\<lparr>bs_SpanID := stripNUL (bs_SpanID sp), bs_ParentSpanID := stripNUL (bs_ParentSpanID sp),
     bs_Op := stripNUL (bs_Op sp), bs_Description := stripNUL (bs_Description sp),
     bs_Status := stripNUL (bs_Status sp), bs_Data := sanitizeJSONPayload (bs_Data sp)\<rparr>"

definition sanitizeTransaction :: "buffered_transaction \<Rightarrow> buffered_transaction" where
  "sanitizeTransaction t =
     (let t1 = t\<lparr>tx_EventID := stripNUL (tx_EventID t), tx_ProfilerID := stripNUL (tx_ProfilerID t),
            tx_ThreadID := stripNUL (tx_ThreadID t), tx_TraceID := stripNUL (tx_TraceID t),
            tx_SpanID := stripNUL (tx_SpanID t), tx_Transaction := stripNUL (tx_Transaction t),
            tx_Op := stripNUL (tx_Op t), tx_Status := stripNUL (tx_Status t),
            tx_Environment := stripNUL (tx_Environment t), tx_Release := stripNUL (tx_Release t),
            tx_Platform := stripNUL (tx_Platform t), tx_Measurements := sanitizeJSONPayload (tx_Measurements t),
            tx_UserIdentity := stripNUL (tx_UserIdentity t), tx_UserID := stripNUL (tx_UserID t),
            tx_UserUsername := stripNUL (tx_UserUsername t), tx_UserEmail := stripNUL (tx_UserEmail t),
            tx_UserName := stripNUL (tx_UserName t)\<rparr>
      in if 0 < length (tx_Spans t1) then t1\<lparr>tx_Spans := map sanitizeSpan (tx_Spans t1)\<rparr> else t1)"

definition sanitizeProfile :: "buffered_profile \<Rightarrow> buffered_profile" where
  "sanitizeProfile p = p\<lparr>bp_TransactionEventID := stripNUL (bp_TransactionEventID p),
     bp_ChunkID := stripNUL (bp_ChunkID p), bp_ProfilerID := stripNUL (bp_ProfilerID p),
     bp_TraceID := stripNUL (bp_TraceID p), bp_Environment := stripNUL (bp_Environment p),
     bp_Release := stripNUL (bp_Release p), bp_Platform := stripNUL (bp_Platform p)\<rparr>"

text \<open>The fields of each record that are written to text columns, and those written as JSONB.\<close>

definition span_texts :: "buffered_span \<Rightarrow> string list" where
  "span_texts sp = [bs_SpanID sp, bs_ParentSpanID sp, bs_Op sp, bs_Description sp, bs_Status sp]"

definition transaction_texts :: "buffered_transaction \<Rightarrow> string list" where
  "transaction_texts t =
     [tx_EventID t, tx_ProfilerID t, tx_ThreadID t, tx_TraceID t, tx_SpanID t, tx_Transaction t, tx_Op t,
      tx_Status t, tx_Environment t, tx_Release t, tx_Platform t, tx_UserIdentity t, tx_UserID t,
      tx_UserUsername t, tx_UserEmail t, tx_UserName t] @ concat (map span_texts (tx_Spans t))"

definition log_texts :: "buffered_log \<Rightarrow> string list" where
  "log_texts l = [lg_Level l, lg_Body l, lg_TraceID l, lg_SpanID l, lg_Environment l, lg_Release l]"

definition profile_texts :: "buffered_profile \<Rightarrow> string list" where
  "profile_texts p = [bp_TransactionEventID p, bp_ChunkID p, bp_ProfilerID p, bp_TraceID p, bp_Environment p,
     bp_Release p, bp_Platform p]"

definition transaction_jsons :: "buffered_transaction \<Rightarrow> string list" where
  "transaction_jsons t = tx_Measurements t # map bs_Data (tx_Spans t)"

lemma span_texts_sanitized: "span_texts (sanitizeSpan sp) = map stripNUL (span_texts sp)"
  by (simp add: span_texts_def sanitizeSpan_def)

lemma sanitizeTransaction_spans: "tx_Spans (sanitizeTransaction t) = map sanitizeSpan (tx_Spans t)"
  by (simp add: sanitizeTransaction_def Let_def)

text \<open>
Every text field of a transaction, its spans, a log and a profile is stripped of NUL and every JSON
field is sanitized; the compressed profile data and the number of spans are unchanged.
\<close>

theorem sanitize_records:
  "transaction_texts (sanitizeTransaction t) = map stripNUL (transaction_texts t)
   \<and> transaction_jsons (sanitizeTransaction t) = map sanitizeJSONPayload (transaction_jsons t)
   \<and> log_texts (sanitizeLog l) = map stripNUL (log_texts l)
   \<and> profile_texts (sanitizeProfile p) = map stripNUL (profile_texts p)
   \<and> nul \<notin> set (concat (transaction_texts (sanitizeTransaction t) @ log_texts (sanitizeLog l)
          @ profile_texts (sanitizeProfile p)))
   \<and> bp_Data (sanitizeProfile p) = bp_Data p \<and> length (tx_Spans (sanitizeTransaction t)) = length (tx_Spans t)"
proof -
  have t: "transaction_texts (sanitizeTransaction t) = map stripNUL (transaction_texts t)"
    unfolding transaction_texts_def sanitizeTransaction_spans map_append map_concat map_map comp_def span_texts_sanitized
    by (simp add: sanitizeTransaction_def Let_def)
  have j: "transaction_jsons (sanitizeTransaction t) = map sanitizeJSONPayload (transaction_jsons t)"
    unfolding transaction_jsons_def sanitizeTransaction_spans
    by (simp add: sanitizeTransaction_def Let_def sanitizeSpan_def)
  have l: "log_texts (sanitizeLog l) = map stripNUL (log_texts l)" by (simp add: log_texts_def sanitizeLog_def)
  have p: "profile_texts (sanitizeProfile p) = map stripNUL (profile_texts p)"
    by (simp add: profile_texts_def sanitizeProfile_def)
  have d: "bp_Data (sanitizeProfile p) = bp_Data p" by (simp add: sanitizeProfile_def)
  show ?thesis using t j l p d by (simp add: sanitizeTransaction_spans ball_Un)
qed

section \<open>Lengths\<close>

definition MaxIndexedFieldBytes :: nat where "MaxIndexedFieldBytes = 512"
definition maxIDBytes :: nat where "maxIDBytes = 128"

text \<open>\<open>utf8.RuneStart\<close>: the top bits of a continuation byte are 10.\<close>

definition RuneStart :: "char \<Rightarrow> bool" where
  "RuneStart c = (let b = of_char c :: nat in b < 128 \<or> 192 \<le> b)"

text \<open>The loop of \<open>TruncateUTF8\<close>: step back to the start of a character.\<close>

fun back_to_start :: "string \<Rightarrow> nat \<Rightarrow> nat" where
  "back_to_start s 0 = 0"
| "back_to_start s (Suc n) = (if \<not> RuneStart (s ! Suc n) then back_to_start s n else Suc n)"

definition TruncateUTF8 :: "string \<Rightarrow> nat \<Rightarrow> string" where
  "TruncateUTF8 s n = (if length s \<le> n then s else take (back_to_start s n) s)"

definition NormalizeEventID :: "string \<Rightarrow> string option" where
  "NormalizeEventID i =
     (if i = [] \<or> maxIDBytes < length i then None
      else if \<exists>c \<in> set i. (of_char c :: nat) < 0x21 \<or> 0x7e < (of_char c :: nat) then None
      else Some i)"

text \<open>One character of UTF-8: a start byte and its continuation bytes.\<close>

definition utf8_char :: "string \<Rightarrow> bool" where
  "utf8_char c = (case c of [] \<Rightarrow> False
     | b # bs \<Rightarrow> (let h = of_char b :: nat in
         list_all (\<lambda>x. \<not> RuneStart x) bs
         \<and> (length bs = 0 \<and> h < 128 \<or> length bs = 1 \<and> 194 \<le> h \<and> h < 224
            \<or> length bs = 2 \<and> 224 \<le> h \<and> h < 240 \<or> length bs = 3 \<and> 240 \<le> h \<and> h < 245)))"

lemma utf8_char_start: "utf8_char c \<Longrightarrow> c \<noteq> [] \<and> RuneStart (hd c) \<and> (\<forall>i. 0 < i \<and> i < length c \<longrightarrow> \<not> RuneStart (c ! i))"
  by (auto simp: utf8_char_def RuneStart_def Let_def list_all_length nth_Cons split: list.splits nat.splits)

lemma back_to_start_le: "back_to_start s n \<le> n"
  by (induction n) (auto intro: le_SucI)

lemma back_to_start_stop: "k \<le> n \<Longrightarrow> k = 0 \<or> RuneStart (s ! k) \<Longrightarrow> (\<forall>i. k < i \<and> i \<le> n \<longrightarrow> \<not> RuneStart (s ! i))
    \<Longrightarrow> back_to_start s n = k"
proof (induction n)
  case (Suc n)
  then show ?case by (cases "k = Suc n") auto
qed simp

lemma boundary_before:
  assumes "list_all (\<lambda>c. c \<noteq> []) cs" "n < length (concat cs)"
  shows "\<exists>k < length cs. length (concat (take k cs)) \<le> n \<and> n < length (concat (take (Suc k) cs))"
  using assms
proof (induction cs arbitrary: n)
  case (Cons c cs)
  show ?case
  proof (cases "n < length c")
    case True
    then show ?thesis by (intro exI [of _ 0]) simp
  next
    case False
    have "n - length c < length (concat cs)" using False Cons.prems(2) by simp
    then obtain k where "k < length cs" "length (concat (take k cs)) \<le> n - length c"
      "n - length c < length (concat (take (Suc k) cs))" using Cons.IH [of "n - length c"] Cons.prems(1) by auto
    with False show ?thesis by (intro exI [of _ "Suc k"]) auto
  qed
qed simp

text \<open>
TruncateUTF8 on valid UTF-8 cuts at a character boundary, fits in n bytes, and keeps as many whole
characters as fit.
\<close>

theorem truncate_keeps_characters:
  assumes "list_all utf8_char cs"
  shows "\<exists>k \<le> length cs. TruncateUTF8 (concat cs) n = concat (take k cs)
    \<and> length (TruncateUTF8 (concat cs) n) \<le> n
    \<and> (k < length cs \<longrightarrow> n < length (concat (take (Suc k) cs)))"
proof (cases "length (concat cs) \<le> n")
  case True
  then show ?thesis by (intro exI [of _ "length cs"]) (simp add: TruncateUTF8_def)
next
  case False
  have "list_all (\<lambda>c. c \<noteq> []) cs" using assms utf8_char_start by (auto simp: list_all_iff)
  then obtain k where k: "k < length cs" "length (concat (take k cs)) \<le> n" "n < length (concat (take (Suc k) cs))"
    using boundary_before [of cs n] False by auto
  define pre where "pre = concat (take k cs)"
  define post where "post = concat (drop (Suc k) cs)"
  define m where "m = length pre"
  have c: "utf8_char (cs ! k)" using assms k(1) by (simp add: list_all_length)
  have split: "concat cs = pre @ cs ! k @ post"
    unfolding pre_def post_def by (metis append_take_drop_id Cons_nth_drop_Suc [OF k(1)] concat_append concat.simps(2))
  have n: "n < m + length (cs ! k)" using k(1,3) by (simp add: m_def pre_def take_Suc_conv_app_nth)
  have at: "concat cs ! i = cs ! k ! (i - m)" if "m \<le> i" "i < m + length (cs ! k)" for i
    unfolding split using that by (auto simp: nth_append m_def)
  have ne: "cs ! k \<noteq> []" using utf8_char_start [OF c] by blast
  have "back_to_start (concat cs) n = m"
  proof (rule back_to_start_stop)
    show "m \<le> n" using k(2) unfolding m_def pre_def .
    show "m = 0 \<or> RuneStart (concat cs ! m)"
    proof -
      have "hd (cs ! k) = cs ! k ! 0" using ne by (rule hd_conv_nth)
      then show ?thesis using at [of m] ne utf8_char_start [OF c] by auto
    qed
    show "\<forall>i. m < i \<and> i \<le> n \<longrightarrow> \<not> RuneStart (concat cs ! i)"
    proof (intro allI impI)
      fix i assume i: "m < i \<and> i \<le> n"
      have "concat cs ! i = cs ! k ! (i - m)" using at [of i] i n by simp
      moreover have "0 < i - m" "i - m < length (cs ! k)" using i n by linarith+
      ultimately show "\<not> RuneStart (concat cs ! i)" using utf8_char_start [OF c] by simp
    qed
  qed
  then have "TruncateUTF8 (concat cs) n = concat (take k cs)"
    using False unfolding TruncateUTF8_def by (simp add: m_def split pre_def [symmetric])
  with k show ?thesis by (intro exI [of _ k]) simp
qed

section \<open>Times in the future\<close>

text \<open>\<open>time.Time.Sub\<close> answers with a 64-bit number of nanoseconds and saturates.\<close>

definition time_sub :: "nanos \<Rightarrow> nanos \<Rightarrow> nanos" where
  "time_sub t u = max (- (2 ^ 63)) (min (2 ^ 63 - 1) (t - u))"

definition MaxFutureSkew :: nanos where "MaxFutureSkew = 60 * 1000000000"

definition ClampFuture :: "nanos \<Rightarrow> nanos \<Rightarrow> nanos" where
  "ClampFuture t now = (if MaxFutureSkew < time_sub t now then now else t)"

definition FutureShift :: "nanos \<Rightarrow> nanos \<Rightarrow> nanos" where
  "FutureShift end now = (if MaxFutureSkew < time_sub end now then time_sub now end else 0)"

text \<open>The longest distance between two times that \<open>Sub\<close> can tell, about 292 years.\<close>

abbreviation max_duration :: nanos where "max_duration \<equiv> 2 ^ 63 - 1"

text \<open>
Within the range of a Go duration, ClampFuture and FutureShift leave no time more than a minute
ahead of the clock: the shift is zero for an end within the skew and otherwise moves the end exactly
to now.
\<close>

theorem future_times_bounded:
  assumes "end - now \<le> max_duration"
  shows "ClampFuture t now \<le> now + MaxFutureSkew
    \<and> end + FutureShift end now \<le> now + MaxFutureSkew
    \<and> (end \<le> now + MaxFutureSkew \<longrightarrow> FutureShift end now = 0)
    \<and> (now + MaxFutureSkew < end \<longrightarrow> end + FutureShift end now = now)"
  using assms by (auto simp: ClampFuture_def FutureShift_def time_sub_def MaxFutureSkew_def)

text \<open>A transaction that claims to end further ahead than that stays in the future after the shift.\<close>

text \<open>
An end more than two duration ranges (about 584 years) ahead stays more than 292 years in the future
after FutureShift, because time.Sub saturates, although the function promises that the end is not in
the future.
\<close>

theorem future_shift_saturates:
  assumes "now + 2 * 2 ^ 63 < end"
  shows "now + 2 ^ 63 < end + FutureShift end now"
  using assms by (auto simp: FutureShift_def time_sub_def MaxFutureSkew_def)

section \<open>Concrete runs\<close>

theorem sanitize_payload_decodes_witness:
  "unescape (sanitizeJSONPayload (''a'' @ null_escape @ [backslash, backslash] @ ''u0000b'')) = [97, 92, 117, 48, 48, 48, 48, 98]"
proof -
  let ?p = "''a'' @ null_escape @ [backslash, backslash] @ ''u0000b''"
  have "well_escaped ?p" "nul \<notin> set ?p" by (simp_all add: null_escape_def backslash_def nul_def hex_char_def)
  then have "unescape (sanitizeJSONPayload ?p) = filter (\<lambda>u. u \<noteq> 0) (unescape ?p)"
    using sanitize_payload_decodes by blast
  also have "\<dots> = [97, 92, 117, 48, 48, 48, 48, 98]"
    by (simp add: null_escape_def backslash_def hex_value_def simple_escape_def)
  finally show ?thesis .
qed

theorem truncate_keeps_characters_witness:
  "\<exists>k \<le> 2. TruncateUTF8 (concat [[CHR 0xC3, CHR 0xA9], [CHR 0xC3, CHR 0xA8]]) 3
     = concat (take k [[CHR 0xC3, CHR 0xA9], [CHR 0xC3, CHR 0xA8]])"
proof -
  let ?cs = "[[CHR 0xC3, CHR 0xA9], [CHR 0xC3, CHR 0xA8]]"
  have "list_all utf8_char ?cs" by (simp add: utf8_char_def RuneStart_def Let_def)
  from truncate_keeps_characters [OF this, of 3]
  obtain k where k: "k \<le> length ?cs" "TruncateUTF8 (concat ?cs) 3 = concat (take k ?cs)" by blast
  from k(1) have "k \<le> 2" by simp
  with k(2) show ?thesis by blast
qed

theorem future_times_bounded_witness:
  "10 ^ 15 + FutureShift (10 ^ 15) 1000 = 1000"
  using future_times_bounded [of "10 ^ 15" 1000 0] by (simp add: MaxFutureSkew_def)

theorem future_shift_saturates_witness:
  "9223372036854775808 < 3 * 2 ^ 63 + FutureShift (3 * 2 ^ 63) 0"
  using future_shift_saturates [of 0 "3 * 2 ^ 63"] by simp

end
