(* ===== verification/Profile.thy ===== *)
theory Profile
  imports Sanitize "HOL-Library.Multiset"
begin

text \<open>
  Profiles as they are received and stored, \<open>internal/ingest/profile.go\<close> and the codec
  \<open>profilecodec.go\<close>. The two wire formats (v1, one profile per transaction; v2, a chunk of
  continuous profiling) are normalized into one record, with the checks that Relay makes. The JSON
  decoder and the compression are parameters: the functions start from the decoded wire records. A
  map of thread names is a function to \<open>option\<close>.
\<close>

section \<open>Records\<close>

record profile_frame =
  pf_Function :: string
  pf_Module :: string
  pf_Filename :: string
  pf_AbsPath :: string
  pf_Package :: string
  pf_Platform :: string
  pf_InstructionAddr :: string
  pf_Lineno :: go_int
  pf_Colno :: go_int
  pf_InApp :: "bool option"

record profile_sample =
  ps_ThreadID :: string
  ps_StackID :: int
  ps_TimestampNs :: nanos

record profile =
  pr_Format :: nat
  pr_EventID :: string
  pr_ChunkID :: string
  pr_ProfilerID :: string
  pr_TransactionID :: string
  pr_TransactionName :: string
  pr_TraceID :: string
  pr_ActiveThreadID :: string
  pr_Platform :: string
  pr_Release :: string
  pr_Environment :: string
  pr_Frames :: "profile_frame list"
  pr_Stacks :: "int list list"
  pr_Samples :: "profile_sample list"
  pr_ThreadNames :: "string \<Rightarrow> string option"
  pr_StartNs :: nanos
  pr_EndNs :: nanos
  pr_BaseNs :: nanos

definition empty_profile :: "nat \<Rightarrow> profile" where
  "empty_profile fmt = \<lparr>pr_Format = fmt, pr_EventID = [], pr_ChunkID = [], pr_ProfilerID = [],
     pr_TransactionID = [], pr_TransactionName = [], pr_TraceID = [], pr_ActiveThreadID = [],
     pr_Platform = [], pr_Release = [], pr_Environment = [], pr_Frames = [], pr_Stacks = [],
     pr_Samples = [], pr_ThreadNames = (\<lambda>_. None), pr_StartNs = 0, pr_EndNs = 0, pr_BaseNs = 0\<rparr>"

datatype profile_error =
    UnsupportedVersion string
  | NoSamples
  | MalformedSamples
  | MalformedStacks
  | TooLong
  | TooManySamples
  | MalformedID
  | NoTransaction
  | BadProfileJSON

text \<open>The wire records, after JSON decoding.\<close>

record raw_frame =
  rf_Function :: string
  rf_Name :: string
  rf_Filename :: string
  rf_File :: string
  rf_AbsPath :: string
  rf_Module :: string
  rf_Package :: string
  rf_Platform :: string
  rf_InstructionAddr :: string
  rf_Lineno :: go_int
  rf_Line :: go_int
  rf_Colno :: go_int
  rf_Column :: go_int
  rf_InApp :: "bool option"

text \<open>
  \<open>rs_Elapsed\<close> is an unsigned 64-bit number; \<open>rs_Seconds\<close> is the floating-point time of a v2
  sample, a type of its own.
\<close>

record 'f raw_sample =
  rs_StackID :: int
  rs_ThreadID :: string
  rs_Elapsed :: nat
  rs_Seconds :: 'f

record 'f raw_sample_data =
  rd_Frames :: "raw_frame list"
  rd_Stacks :: "int list list"
  rd_Samples :: "'f raw_sample list"
  rd_ThreadMetadata :: "string \<Rightarrow> string option"

record raw_tx_meta =
  rt_ID :: string
  rt_Name :: string
  rt_TraceID :: string
  rt_ActiveThreadID :: string
  rt_RelativeStartNs :: nat
  rt_RelativeEndNs :: nat

text \<open>\<open>r1_BaseNs\<close> is the timestamp field, read by \<open>ParseSentryTimestamp\<close> as Unix nanoseconds.\<close>

record 'f raw_profile_v1 =
  r1_Version :: string
  r1_EventID :: string
  r1_ProfileID :: string
  r1_Platform :: string
  r1_Release :: string
  r1_Environment :: string
  r1_BaseNs :: nanos
  r1_Profile :: "'f raw_sample_data"
  r1_Transaction :: "raw_tx_meta option"
  r1_Transactions :: "raw_tx_meta list"

record 'f raw_profile_v2 =
  r2_Version :: string
  r2_ChunkID :: string
  r2_ProfilerID :: string
  r2_Platform :: string
  r2_Release :: string
  r2_Environment :: string
  r2_Profile :: "'f raw_sample_data"

section \<open>Normalization\<close>

fun firstNonEmpty :: "string list \<Rightarrow> string" where
  "firstNonEmpty [] = []"
| "firstNonEmpty (v # vs) = (if v \<noteq> [] then v else firstNonEmpty vs)"

fun firstNonZero :: "go_int list \<Rightarrow> go_int" where
  "firstNonZero [] = 0"
| "firstNonZero (v # vs) = (if v \<noteq> 0 then v else firstNonZero vs)"

definition normalize_frame :: "raw_frame \<Rightarrow> profile_frame" where
  "normalize_frame f = \<lparr>pf_Function = firstNonEmpty [rf_Function f, rf_Name f], pf_Module = rf_Module f,
     pf_Filename = firstNonEmpty [rf_Filename f, rf_File f], pf_AbsPath = rf_AbsPath f,
     pf_Package = rf_Package f, pf_Platform = rf_Platform f, pf_InstructionAddr = rf_InstructionAddr f,
     pf_Lineno = firstNonZero [rf_Lineno f, rf_Line f], pf_Colno = firstNonZero [rf_Colno f, rf_Column f],
     pf_InApp = rf_InApp f\<rparr>"

definition maxProfileSamples :: nat where "maxProfileSamples = 200000"
definition maxProfileDuration :: nanos where "maxProfileDuration = 30 * 1000000000"
definition maxProfileChunkDuration :: nanos where "maxProfileChunkDuration = 66 * 1000000000"

definition Duration :: "profile \<Rightarrow> nanos" where
  "Duration p = wrap64 (pr_EndNs p - pr_BaseNs p)"

definition adoptSampleData ::
  "'f raw_sample_data \<Rightarrow> ('f raw_sample \<Rightarrow> nanos) \<Rightarrow> profile \<Rightarrow> profile_error + profile" where
  "adoptSampleData raw at p =
     (if maxProfileSamples < length (rd_Samples raw) then Inl TooManySamples
      else Inr (p\<lparr>pr_Frames := map normalize_frame (rd_Frames raw), pr_Stacks := rd_Stacks raw,
             pr_Samples := map (\<lambda>s. \<lparr>ps_ThreadID = rs_ThreadID s, ps_StackID = rs_StackID s,
                                  ps_TimestampNs = at s\<rparr>) (rd_Samples raw),
             pr_ThreadNames := (\<lambda>i. case rd_ThreadMetadata raw i of
                                  Some n \<Rightarrow> if n \<noteq> [] then Some n else None | None \<Rightarrow> None)\<rparr>))"

text \<open>An index into a table of the profile.\<close>

definition index_ok :: "int \<Rightarrow> 'a list \<Rightarrow> bool" where
  "index_ok i xs \<longleftrightarrow> \<not> (i < 0 \<or> int (length xs) \<le> i)"

definition active_counts :: "profile \<Rightarrow> string \<Rightarrow> nat" where
  "active_counts p =
     foldl (\<lambda>active s.
        if \<not> index_ok (ps_StackID s) (pr_Stacks p) then active
        else if pr_Stacks p ! nat (ps_StackID s) = [] then active
        else active(ps_ThreadID s := active (ps_ThreadID s) + 1)) (\<lambda>_. 0) (pr_Samples p)"

definition dropSingleSampleThreads :: "profile \<Rightarrow> profile" where
  "dropSingleSampleThreads p =
     (let active = active_counts p
      in p\<lparr>pr_Samples := filter (\<lambda>s. 1 < active (ps_ThreadID s)) (pr_Samples p)\<rparr>)"

definition dropUnreferencedThreadNames :: "profile \<Rightarrow> profile" where
  "dropUnreferencedThreadNames p =
     p\<lparr>pr_ThreadNames := (\<lambda>i. if i \<in> set (map ps_ThreadID (pr_Samples p)) then pr_ThreadNames p i else None)\<rparr>"

text \<open>\<open>normalize\<close>, with the checks in the order of the code.\<close>

definition sort_samples :: "profile \<Rightarrow> profile" where
  "sort_samples p =
     (let ss = sort_key ps_TimestampNs (pr_Samples p);
          start = ps_TimestampNs (hd ss)
      in p\<lparr>pr_Samples := ss, pr_StartNs := start, pr_EndNs := ps_TimestampNs (last ss),
           pr_BaseNs := (if pr_BaseNs p = 0 then start else pr_BaseNs p)\<rparr>)"

definition normalize :: "nanos \<Rightarrow> profile \<Rightarrow> profile_error + profile" where
  "normalize maxDuration p =
     (if \<exists>i \<in> set [pr_ChunkID p, pr_ProfilerID p, pr_TransactionID p]. maxIDBytes < length i
      then Inl MalformedID
      else let p1 = dropSingleSampleThreads
                 (p\<lparr>pr_Release := TruncateUTF8 (pr_Release p) MaxIndexedFieldBytes,
                    pr_Environment := TruncateUTF8 (pr_Environment p) MaxIndexedFieldBytes\<rparr>) in
        if pr_Samples p1 = [] then Inl NoSamples
        else if \<exists>s \<in> set (pr_Samples p1). \<not> index_ok (ps_StackID s) (pr_Stacks p1)
        then Inl MalformedSamples
        else if \<exists>stack \<in> set (pr_Stacks p1). \<exists>f \<in> set stack. \<not> index_ok f (pr_Frames p1)
        then Inl MalformedStacks
        else let p2 = sort_samples p1 in
          if maxDuration < Duration p2 then Inl TooLong
          else Inr (dropUnreferencedThreadNames p2))"

section \<open>Parsing\<close>

definition windowed :: "raw_tx_meta \<Rightarrow> 'f raw_sample_data \<Rightarrow> 'f raw_sample_data" where
  "windowed tx raw =
     (if 0 < rt_RelativeEndNs tx
      then raw\<lparr>rd_Samples := filter (\<lambda>s. rt_RelativeStartNs tx \<le> rs_Elapsed s \<and> rs_Elapsed s \<le> rt_RelativeEndNs tx)
                              (rd_Samples raw)\<rparr>
      else raw)"

definition associated_transaction :: "'f raw_profile_v1 \<Rightarrow> raw_tx_meta option" where
  "associated_transaction raw =
     (case r1_Transaction raw of
        Some tx \<Rightarrow> Some tx
      | None \<Rightarrow> (case r1_Transactions raw of tx # _ \<Rightarrow> Some tx | [] \<Rightarrow> None))"

definition ParseProfile :: "'f raw_profile_v1 option \<Rightarrow> profile_error + profile" where
  "ParseProfile decoded =
     (case decoded of
        None \<Rightarrow> Inl BadProfileJSON
      | Some raw \<Rightarrow>
          if r1_Version raw \<noteq> [] \<and> r1_Version raw \<noteq> ''1'' then Inl (UnsupportedVersion (r1_Version raw))
          else let base = r1_BaseNs raw;
                   p = (empty_profile 1)\<lparr>pr_EventID := firstNonEmpty [r1_EventID raw, r1_ProfileID raw],
                         pr_Platform := r1_Platform raw, pr_Release := r1_Release raw,
                         pr_Environment := r1_Environment raw, pr_BaseNs := base\<rparr> in
          (case associated_transaction raw of
             None \<Rightarrow> Inl NoTransaction
           | Some tx \<Rightarrow>
               (case adoptSampleData (windowed tx (r1_Profile raw))
                       (\<lambda>s. wrap64 (base + wrap64 (int (rs_Elapsed s))))
                       (p\<lparr>pr_TransactionID := rt_ID tx, pr_TransactionName := rt_Name tx,
                          pr_TraceID := rt_TraceID tx, pr_ActiveThreadID := rt_ActiveThreadID tx\<rparr>) of
                  Inl e \<Rightarrow> Inl e
                | Inr p' \<Rightarrow> normalize maxProfileDuration p')))"

text \<open>\<open>seconds_ns\<close> stands for the conversion of a floating-point time to nanoseconds.\<close>

definition ParseProfileChunk :: "('f \<Rightarrow> nanos) \<Rightarrow> 'f raw_profile_v2 option \<Rightarrow> profile_error + profile" where
  "ParseProfileChunk seconds_ns decoded =
     (case decoded of
        None \<Rightarrow> Inl BadProfileJSON
      | Some raw \<Rightarrow>
          if r2_Version raw \<noteq> [] \<and> r2_Version raw \<noteq> ''2'' then Inl (UnsupportedVersion (r2_Version raw))
          else case adoptSampleData (r2_Profile raw) (\<lambda>s. seconds_ns (rs_Seconds s))
                  ((empty_profile 2)\<lparr>pr_ChunkID := r2_ChunkID raw, pr_ProfilerID := r2_ProfilerID raw,
                     pr_Platform := r2_Platform raw, pr_Release := r2_Release raw,
                     pr_Environment := r2_Environment raw\<rparr>) of
               Inl e \<Rightarrow> Inl e
             | Inr p \<Rightarrow> normalize maxProfileChunkDuration p)"

definition ParseProfileItem ::
  "('f \<Rightarrow> nanos) \<Rightarrow> string \<Rightarrow> 'f raw_profile_v1 option \<Rightarrow> 'f raw_profile_v2 option \<Rightarrow> profile_error + profile" where
  "ParseProfileItem seconds_ns itemType v1 v2 =
     (if itemType = ''profile'' then ParseProfile v1
      else if itemType = ''profile_chunk'' then ParseProfileChunk seconds_ns v2
      else Inl (UnsupportedVersion itemType))"

section \<open>Numbers that may be quoted\<close>

definition unquoteNumber :: "string \<Rightarrow> string option" where
  "unquoteNumber b =
     (let s = trim_space b in
      if s = [] \<or> s = ''null'' then None
      else let t = (if 2 \<le> length s \<and> hd s = CHR 0x22 \<and> last s = CHR 0x22
                    then take (length s - 2) (drop 1 s) else s) in
        if t = [] then None else Some t)"

text \<open>\<open>strconv.ParseUint(s, 10, 64)\<close>.\<close>

definition ParseUint :: "string \<Rightarrow> nat option" where
  "ParseUint s =
     (if s = [] \<or> \<not> list_all is_digit s then None
      else let n = digits_value s in if n < 2 ^ 64 then Some n else None)"

text \<open>
  \<open>flexUint64\<close>: \<open>Inl\<close> is the error, \<open>Inr None\<close> leaves the field alone. The
  fallback through a float is a parameter: \<open>None\<close> when the text is no float or a negative one.
\<close>

definition flexUint64 :: "(string \<Rightarrow> nat option) \<Rightarrow> string \<Rightarrow> string + nat option" where
  "flexUint64 parseFloat b =
     (case unquoteNumber b of
        None \<Rightarrow> Inr None
      | Some s \<Rightarrow> (case ParseUint s of
          Some n \<Rightarrow> Inr (Some n)
        | None \<Rightarrow> (case parseFloat s of None \<Rightarrow> Inl s | Some n \<Rightarrow> Inr (Some n))))"

section \<open>What an accepted profile satisfies\<close>

definition active_sample :: "profile \<Rightarrow> profile_sample \<Rightarrow> bool" where
  "active_sample p s \<longleftrightarrow> index_ok (ps_StackID s) (pr_Stacks p) \<and> pr_Stacks p ! nat (ps_StackID s) \<noteq> []"

definition activity :: "profile \<Rightarrow> string \<Rightarrow> nat" where
  "activity p t = length (filter (\<lambda>s. active_sample p s \<and> ps_ThreadID s = t) (pr_Samples p))"

lemma active_counts_activity: "active_counts p = activity p"
proof
  fix t
  have "foldl (\<lambda>active s.
        if \<not> index_ok (ps_StackID s) (pr_Stacks p) then active
        else if pr_Stacks p ! nat (ps_StackID s) = [] then active
        else active(ps_ThreadID s := active (ps_ThreadID s) + 1)) a xs t
      = a t + length (filter (\<lambda>s. active_sample p s \<and> ps_ThreadID s = t) xs)" for xs and a :: "string \<Rightarrow> nat"
    by (induction xs arbitrary: a) (auto simp: active_sample_def)
  then show "active_counts p t = activity p t" by (simp add: active_counts_def activity_def)
qed

text \<open>The well-formedness of a stored profile.\<close>

definition profile_ok :: "nanos \<Rightarrow> profile \<Rightarrow> bool" where
  "profile_ok mx p \<longleftrightarrow>
     pr_Samples p \<noteq> [] \<and> sorted (map ps_TimestampNs (pr_Samples p))
     \<and> pr_StartNs p = ps_TimestampNs (hd (pr_Samples p)) \<and> pr_EndNs p = ps_TimestampNs (last (pr_Samples p))
     \<and> (pr_BaseNs p = 0 \<longrightarrow> pr_StartNs p = 0) \<and> Duration p \<le> mx
     \<and> (\<forall>s \<in> set (pr_Samples p). index_ok (ps_StackID s) (pr_Stacks p))
     \<and> (\<forall>st \<in> set (pr_Stacks p). \<forall>f \<in> set st. index_ok f (pr_Frames p))
     \<and> (\<forall>s \<in> set (pr_Samples p). 1 < activity p (ps_ThreadID s))
     \<and> (\<forall>t. pr_ThreadNames p t \<noteq> None \<longrightarrow> t \<in> set (map ps_ThreadID (pr_Samples p)))
     \<and> length (pr_ChunkID p) \<le> maxIDBytes \<and> length (pr_ProfilerID p) \<le> maxIDBytes
     \<and> length (pr_TransactionID p) \<le> maxIDBytes
     \<and> length (pr_Release p) \<le> MaxIndexedFieldBytes \<and> length (pr_Environment p) \<le> MaxIndexedFieldBytes"

lemma length_TruncateUTF8 [simp]: "length (TruncateUTF8 s n) \<le> n"
  using back_to_start_le [of s n] by (auto simp: TruncateUTF8_def)

lemma TruncateUTF8_short [simp]: "length s \<le> n \<Longrightarrow> TruncateUTF8 s n = s"
  by (simp add: TruncateUTF8_def)

lemma active_sample_samples [simp]: "active_sample (p\<lparr>pr_Samples := xs\<rparr>) = active_sample p"
  by (rule ext) (simp add: active_sample_def)

lemma activity_alt:
  "activity p t = size {# s \<in># mset (pr_Samples p). active_sample p s \<and> ps_ThreadID s = t #}"
  by (simp add: activity_def flip: size_mset)

lemma activity_mset:
  "pr_Stacks q = pr_Stacks p \<Longrightarrow> mset (pr_Samples q) = mset (pr_Samples p) \<Longrightarrow> activity q = activity p"
  by (rule ext) (simp add: activity_alt active_sample_def)

lemma activity_drop:
  assumes "1 < activity p t"
  shows "activity (p\<lparr>pr_Samples := filter (\<lambda>s. 1 < activity p (ps_ThreadID s)) (pr_Samples p)\<rparr>) t = activity p t"
proof -
  have "filter (\<lambda>s. active_sample p s \<and> ps_ThreadID s = t) (filter (\<lambda>s. 1 < activity p (ps_ThreadID s)) xs)
      = filter (\<lambda>s. active_sample p s \<and> ps_ThreadID s = t) xs" for xs
    unfolding filter_filter using assms by (intro filter_cong) auto
  then show ?thesis unfolding activity_def [of "p\<lparr>pr_Samples := _\<rparr>"] by (simp add: activity_def [of p t])
qed

text \<open>The steps of \<open>normalize\<close> on an accepted profile.\<close>

lemma normalize_cases:
  assumes "normalize mx p = Inr q"
  obtains p1 where
    "p1 = dropSingleSampleThreads (p\<lparr>pr_Release := TruncateUTF8 (pr_Release p) MaxIndexedFieldBytes,
        pr_Environment := TruncateUTF8 (pr_Environment p) MaxIndexedFieldBytes\<rparr>)"
    "length (pr_ChunkID p) \<le> maxIDBytes" "length (pr_ProfilerID p) \<le> maxIDBytes"
    "length (pr_TransactionID p) \<le> maxIDBytes" "pr_Samples p1 \<noteq> []"
    "\<forall>s \<in> set (pr_Samples p1). index_ok (ps_StackID s) (pr_Stacks p1)"
    "\<forall>st \<in> set (pr_Stacks p1). \<forall>f \<in> set st. index_ok f (pr_Frames p1)"
    "Duration (sort_samples p1) \<le> mx" "q = dropUnreferencedThreadNames (sort_samples p1)"
  using assms unfolding normalize_def Let_def
  by (auto split: if_splits simp: not_less)

lemma sort_key_nonempty [simp]: "sort_key f xs = [] \<longleftrightarrow> xs = []"
  by (metis length_0_conv length_sort)

lemma normalize_samples:
  assumes "normalize mx p = Inr q"
  shows "pr_Samples q = sort_key ps_TimestampNs (filter (\<lambda>s. 1 < activity p (ps_ThreadID s)) (pr_Samples p))"
    and "pr_Stacks q = pr_Stacks p" and "pr_Frames q = pr_Frames p"
proof -
  obtain p1 where p1: "p1 = dropSingleSampleThreads (p\<lparr>pr_Release := TruncateUTF8 (pr_Release p) MaxIndexedFieldBytes,
        pr_Environment := TruncateUTF8 (pr_Environment p) MaxIndexedFieldBytes\<rparr>)"
    and q: "q = dropUnreferencedThreadNames (sort_samples p1)"
    by (rule normalize_cases [OF assms])
  have a: "activity (p\<lparr>pr_Release := r, pr_Environment := e\<rparr>) = activity p" for r e
    by (rule activity_mset) simp_all
  show "pr_Samples q = sort_key ps_TimestampNs (filter (\<lambda>s. 1 < activity p (ps_ThreadID s)) (pr_Samples p))"
    "pr_Stacks q = pr_Stacks p" "pr_Frames q = pr_Frames p"
    unfolding q p1 by (simp_all add: dropUnreferencedThreadNames_def sort_samples_def dropSingleSampleThreads_def
        active_counts_activity a Let_def)
qed

lemma normalize_facts:
  assumes "normalize mx p = Inr q"
  shows "profile_ok mx q
    \<and> pr_Samples q = sort_key ps_TimestampNs (filter (\<lambda>s. 1 < activity p (ps_ThreadID s)) (pr_Samples p))
    \<and> pr_Stacks q = pr_Stacks p \<and> pr_Frames q = pr_Frames p"
proof -
  obtain p1 where p1: "p1 = dropSingleSampleThreads (p\<lparr>pr_Release := TruncateUTF8 (pr_Release p) MaxIndexedFieldBytes,
        pr_Environment := TruncateUTF8 (pr_Environment p) MaxIndexedFieldBytes\<rparr>)"
    and ids: "length (pr_ChunkID p) \<le> maxIDBytes" "length (pr_ProfilerID p) \<le> maxIDBytes"
      "length (pr_TransactionID p) \<le> maxIDBytes"
    and ne: "pr_Samples p1 \<noteq> []"
    and idx: "\<forall>s \<in> set (pr_Samples p1). index_ok (ps_StackID s) (pr_Stacks p1)"
      "\<forall>st \<in> set (pr_Stacks p1). \<forall>f \<in> set st. index_ok f (pr_Frames p1)"
    and d: "Duration (sort_samples p1) \<le> mx" and q: "q = dropUnreferencedThreadNames (sort_samples p1)"
    by (rule normalize_cases [OF assms])
  note s = normalize_samples [OF assms]
  have ss: "pr_Samples q = sort_key ps_TimestampNs (pr_Samples p1)" "pr_Stacks q = pr_Stacks p1" "pr_Frames q = pr_Frames p1"
    "pr_StartNs q = ps_TimestampNs (hd (pr_Samples q))" "pr_EndNs q = ps_TimestampNs (last (pr_Samples q))"
    "Duration q = Duration (sort_samples p1)" "pr_BaseNs q = 0 \<longrightarrow> pr_StartNs q = 0"
    "\<forall>t. pr_ThreadNames q t \<noteq> None \<longrightarrow> t \<in> set (map ps_ThreadID (pr_Samples q))"
    unfolding q by (auto simp: dropUnreferencedThreadNames_def sort_samples_def Let_def Duration_def)
  have act: "1 < activity q (ps_ThreadID x)" if "x \<in> set (pr_Samples q)" for x
  proof -
    have t: "1 < activity p (ps_ThreadID x)" using that s(1) by simp
    have "activity q = activity (p\<lparr>pr_Samples := filter (\<lambda>s. 1 < activity p (ps_ThreadID s)) (pr_Samples p)\<rparr>)"
      by (rule activity_mset) (simp_all add: s)
    with t activity_drop [OF t] show ?thesis by simp
  qed
  have ids': "pr_ChunkID q = pr_ChunkID p" "pr_ProfilerID q = pr_ProfilerID p" "pr_TransactionID q = pr_TransactionID p"
    "length (pr_Release q) \<le> MaxIndexedFieldBytes" "length (pr_Environment q) \<le> MaxIndexedFieldBytes"
    unfolding q p1 by (simp_all add: dropUnreferencedThreadNames_def sort_samples_def dropSingleSampleThreads_def Let_def)
  have "profile_ok mx q"
    unfolding profile_ok_def using ne idx d ids act ss(4-8) by (simp add: ids' ss(1-3))
  with s show ?thesis by simp
qed

text \<open>
C38: A profile that normalize accepts is well formed: it has samples, sorted by time, with start and end
the first and last; every stack and frame index is in range; every thread kept has at least two
samples that are not idle; thread names belong to sampled threads; identifiers, release and
environment fit their limits; the duration is within the limit. Its samples are exactly those of the
threads with more than one active sample, stably sorted, and the tables are unchanged.
\<close>

theorem normalize_ok:
  assumes "normalize mx p = Inr q"
  shows "profile_ok mx q
    \<and> pr_Samples q = sort_key ps_TimestampNs (filter (\<lambda>s. 1 < activity p (ps_ThreadID s)) (pr_Samples p))
    \<and> pr_Stacks q = pr_Stacks p \<and> pr_Frames q = pr_Frames p"
  by (rule normalize_facts [OF assms])

lemma normalize_profile_ok: "normalize mx p = Inr q \<Longrightarrow> profile_ok mx q"
  using normalize_facts by blast

text \<open>
Normalizing a profile that was already normalized accepts it and changes nothing.
\<close>

theorem normalize_idempotent:
  assumes "normalize mx p = Inr q"
  shows "normalize mx q = Inr q"
proof -
  have ok: "profile_ok mx q" using normalize_facts [OF assms] by blast
  define r where "r = q\<lparr>pr_Release := TruncateUTF8 (pr_Release q) MaxIndexedFieldBytes,
        pr_Environment := TruncateUTF8 (pr_Environment q) MaxIndexedFieldBytes\<rparr>"
  have r: "r = q" using ok by (simp add: r_def profile_ok_def)
  have drop: "dropSingleSampleThreads q = q"
    using ok by (simp add: dropSingleSampleThreads_def Let_def active_counts_activity profile_ok_def)
  have sort: "sort_samples q = q"
    using ok by (auto simp: sort_samples_def Let_def profile_ok_def sort_key_id_if_sorted)
  have names: "dropUnreferencedThreadNames q = q"
  proof -
    have "(\<lambda>i. if i \<in> set (map ps_ThreadID (pr_Samples q)) then pr_ThreadNames q i else None) = pr_ThreadNames q"
    proof
      fix t
      have "pr_ThreadNames q t = None" if "t \<notin> set (map ps_ThreadID (pr_Samples q))"
        using ok that unfolding profile_ok_def by blast
      then show "(if t \<in> set (map ps_ThreadID (pr_Samples q)) then pr_ThreadNames q t else None) = pr_ThreadNames q t"
        by auto
    qed
    then show ?thesis by (simp add: dropUnreferencedThreadNames_def)
  qed
  show ?thesis
    unfolding normalize_def r_def [symmetric] r drop Let_def sort names
    using ok by (auto simp: profile_ok_def not_less)
qed

section \<open>Accepted v1 profiles\<close>

lemma normalize_base:
  assumes "normalize mx p = Inr q"
  shows "pr_BaseNs p \<noteq> 0 \<Longrightarrow> pr_BaseNs q = pr_BaseNs p"
  using assms by (rule normalize_cases)
    (simp add: dropUnreferencedThreadNames_def sort_samples_def dropSingleSampleThreads_def Let_def)

lemma adopt_samples:
  assumes "adoptSampleData raw at p = Inr q"
  shows "pr_Samples q = map (\<lambda>s. \<lparr>ps_ThreadID = rs_ThreadID s, ps_StackID = rs_StackID s, ps_TimestampNs = at s\<rparr>) (rd_Samples raw)"
    "pr_BaseNs q = pr_BaseNs p" "length (rd_Samples raw) \<le> maxProfileSamples"
  using assms by (auto simp: adoptSampleData_def split: if_splits)

lemma ParseProfile_cases:
  assumes "ParseProfile (Some raw) = Inr p" and tx: "associated_transaction raw = Some tx"
  obtains q where "normalize maxProfileDuration q = Inr p"
    "pr_BaseNs q = r1_BaseNs raw"
    "pr_Samples q = map (\<lambda>s. \<lparr>ps_ThreadID = rs_ThreadID s, ps_StackID = rs_StackID s,
        ps_TimestampNs = wrap64 (r1_BaseNs raw + wrap64 (int (rs_Elapsed s)))\<rparr>) (rd_Samples (windowed tx (r1_Profile raw)))"
proof -
  define p0 where "p0 = (empty_profile 1)\<lparr>pr_EventID := firstNonEmpty [r1_EventID raw, r1_ProfileID raw],
                         pr_Platform := r1_Platform raw, pr_Release := r1_Release raw,
                         pr_Environment := r1_Environment raw, pr_BaseNs := r1_BaseNs raw,
       pr_TransactionID := rt_ID tx, pr_TransactionName := rt_Name tx,
                          pr_TraceID := rt_TraceID tx, pr_ActiveThreadID := rt_ActiveThreadID tx\<rparr>"
  have "case adoptSampleData (windowed tx (r1_Profile raw)) (\<lambda>s. wrap64 (r1_BaseNs raw + wrap64 (int (rs_Elapsed s)))) p0
      of Inl e \<Rightarrow> False | Inr q \<Rightarrow> normalize maxProfileDuration q = Inr p"
    using assms tx by (auto simp: ParseProfile_def Let_def p0_def split: if_splits sum.splits)
  then obtain q where q: "adoptSampleData (windowed tx (r1_Profile raw))
      (\<lambda>s. wrap64 (r1_BaseNs raw + wrap64 (int (rs_Elapsed s)))) p0 = Inr q" "normalize maxProfileDuration q = Inr p"
    by (auto split: sum.splits)
  have "pr_BaseNs p0 = r1_BaseNs raw" by (simp add: p0_def)
  then show ?thesis using that [OF q(2)] adopt_samples(1,2) [OF q(1)] by simp
qed

text \<open>
Every sample of an accepted v1 profile was taken inside the window of its transaction and at most 30
seconds after the declared start, when the window lies within the range of a 64-bit time.
\<close>

theorem parse_profile_window:
  assumes "ParseProfile (Some raw) = Inr p" "associated_transaction raw = Some tx"
    and "0 < r1_BaseNs raw" "0 < rt_RelativeEndNs tx" "r1_BaseNs raw + int (rt_RelativeEndNs tx) < 2 ^ 63"
    and "s \<in> set (pr_Samples p)"
  shows "r1_BaseNs raw + int (rt_RelativeStartNs tx) \<le> ps_TimestampNs s
    \<and> ps_TimestampNs s \<le> r1_BaseNs raw + int (rt_RelativeEndNs tx)
    \<and> ps_TimestampNs s \<le> r1_BaseNs raw + maxProfileDuration"
proof -
  obtain q where n: "normalize maxProfileDuration q = Inr p" and b: "pr_BaseNs q = r1_BaseNs raw"
    and qs: "pr_Samples q = map (\<lambda>s. \<lparr>ps_ThreadID = rs_ThreadID s, ps_StackID = rs_StackID s,
        ps_TimestampNs = wrap64 (r1_BaseNs raw + wrap64 (int (rs_Elapsed s)))\<rparr>) (rd_Samples (windowed tx (r1_Profile raw)))"
    by (rule ParseProfile_cases [OF assms(1,2)])
  have win: "r1_BaseNs raw + int (rt_RelativeStartNs tx) \<le> ps_TimestampNs x
    \<and> ps_TimestampNs x \<le> r1_BaseNs raw + int (rt_RelativeEndNs tx)" if x: "x \<in> set (pr_Samples p)" for x
  proof -
    obtain r where r: "r \<in> set (rd_Samples (windowed tx (r1_Profile raw)))"
      "ps_TimestampNs x = wrap64 (r1_BaseNs raw + wrap64 (int (rs_Elapsed r)))"
      using x normalize_facts [OF n] qs by auto
    then have e: "rt_RelativeStartNs tx \<le> rs_Elapsed r" "rs_Elapsed r \<le> rt_RelativeEndNs tx"
      using assms(4) by (auto simp: windowed_def)
    then have "wrap64 (int (rs_Elapsed r)) = int (rs_Elapsed r)"
      "wrap64 (r1_BaseNs raw + int (rs_Elapsed r)) = r1_BaseNs raw + int (rs_Elapsed r)"
      using assms(3,5) by (auto intro!: wrap64_id is_int64_small)
    with r e show ?thesis by simp
  qed
  have ok: "profile_ok maxProfileDuration p" using normalize_facts [OF n] by blast
  have base: "pr_BaseNs p = r1_BaseNs raw" using normalize_base [OF n] b assms(3) by simp
  have "ps_TimestampNs s \<le> pr_EndNs p"
  proof -
    obtain i where i: "i < length (pr_Samples p)" "s = pr_Samples p ! i" using assms(6) by (metis in_set_conv_nth)
    have "sorted (map ps_TimestampNs (pr_Samples p))" "pr_Samples p \<noteq> []" using ok by (simp_all add: profile_ok_def)
    then have "map ps_TimestampNs (pr_Samples p) ! i \<le> map ps_TimestampNs (pr_Samples p) ! (length (pr_Samples p) - 1)"
      using i by (intro sorted_nth_mono) auto
    then show ?thesis using ok i by (simp add: profile_ok_def last_conv_nth)
  qed
  moreover have "pr_EndNs p \<le> r1_BaseNs raw + maxProfileDuration"
  proof -
    have "pr_EndNs p = ps_TimestampNs (last (pr_Samples p))" "pr_Samples p \<noteq> []" using ok by (simp_all add: profile_ok_def)
    then have "r1_BaseNs raw \<le> pr_EndNs p" "pr_EndNs p < 2 ^ 63"
      using win [of "last (pr_Samples p)"] assms(5) by simp_all
    then have "Duration p = pr_EndNs p - r1_BaseNs raw"
      unfolding Duration_def base using assms(3) by (intro wrap64_id is_int64_small) auto
    moreover have "Duration p \<le> maxProfileDuration" using ok by (simp add: profile_ok_def)
    ultimately show ?thesis by simp
  qed
  ultimately show ?thesis using win [OF assms(6)] by simp
qed

text \<open>
  An elapsed time of 2^63 nanoseconds or more turns negative when it is converted to a signed number, and
  the duration is measured from the declared start: the span of the samples is not what the limit bounds.
\<close>

definition demo_frame :: raw_frame where
  "demo_frame = \<lparr>rf_Function = ''handle'', rf_Name = [], rf_Filename = [], rf_File = ''app.py'', rf_AbsPath = [],
     rf_Module = [], rf_Package = [], rf_Platform = [], rf_InstructionAddr = [], rf_Lineno = 0, rf_Line = 7,
     rf_Colno = 0, rf_Column = 0, rf_InApp = None\<rparr>"

definition demo_sample :: "nat \<Rightarrow> unit raw_sample" where
  "demo_sample e = \<lparr>rs_StackID = 0, rs_ThreadID = ''1'', rs_Elapsed = e, rs_Seconds = ()\<rparr>"

definition demo_tx :: "nat \<Rightarrow> raw_tx_meta" where
  "demo_tx e = \<lparr>rt_ID = ''t'', rt_Name = ''GET /'', rt_TraceID = [], rt_ActiveThreadID = ''1'',
     rt_RelativeStartNs = 0, rt_RelativeEndNs = e\<rparr>"

definition demo_v1 :: "nat \<Rightarrow> nat list \<Rightarrow> unit raw_profile_v1" where
  "demo_v1 e ts = \<lparr>r1_Version = ''1'', r1_EventID = [], r1_ProfileID = ''p'', r1_Platform = ''python'', r1_Release = ''r'',
     r1_Environment = ''e'', r1_BaseNs = 10 ^ 18,
     r1_Profile = \<lparr>rd_Frames = [demo_frame], rd_Stacks = [[0]], rd_Samples = map demo_sample ts,
       rd_ThreadMetadata = (\<lambda>i. if i = ''1'' then Some ''main'' else None)\<rparr>,
     r1_Transaction = None, r1_Transactions = [demo_tx e]\<rparr>"

text \<open>
The 30 second limit on a v1 profile does not bound the time its samples span: an elapsed time above
2^63 becomes negative in the conversion to int64, and a profile whose samples span more than three
years is accepted with a duration of zero.
\<close>

theorem v1_duration_check_wraps:
  "case ParseProfile (Some (demo_v1 0 [0, 2 ^ 64 - 10 ^ 17])) of
     Inl _ \<Rightarrow> False
   | Inr p \<Rightarrow> 10 ^ 17 = pr_EndNs p - pr_StartNs p \<and> maxProfileDuration < pr_EndNs p - pr_StartNs p \<and> Duration p = 0"
  by (simp add: ParseProfile_def demo_v1_def Let_def associated_transaction_def windowed_def demo_tx_def adoptSampleData_def
      maxProfileSamples_def demo_sample_def normalize_def empty_profile_def maxIDBytes_def dropSingleSampleThreads_def
      active_counts_def index_ok_def sort_samples_def Duration_def dropUnreferencedThreadNames_def maxProfileDuration_def
      wrap64_def)

section \<open>Concrete profiles\<close>

definition demo_profile :: profile where
  "demo_profile = (empty_profile 2)\<lparr>pr_Frames := [normalize_frame demo_frame], pr_Stacks := [[0], []],
     pr_Samples := [\<lparr>ps_ThreadID = ''1'', ps_StackID = 0, ps_TimestampNs = 30\<rparr>,
       \<lparr>ps_ThreadID = ''2'', ps_StackID = 1, ps_TimestampNs = 25\<rparr>,
       \<lparr>ps_ThreadID = ''1'', ps_StackID = 0, ps_TimestampNs = 20\<rparr>]\<rparr>"

lemma demo_normalize: "\<exists>q. normalize maxProfileChunkDuration demo_profile = Inr q"
  by (simp add: demo_profile_def normalize_def empty_profile_def maxIDBytes_def dropSingleSampleThreads_def
      active_counts_def index_ok_def sort_samples_def Duration_def maxProfileChunkDuration_def wrap64_def Let_def)

theorem normalize_ok_witness:
  "\<exists>q. normalize maxProfileChunkDuration demo_profile = Inr q \<and> profile_ok maxProfileChunkDuration q"
  using demo_normalize normalize_ok by blast

theorem normalize_idempotent_witness:
  "\<exists>q. normalize maxProfileChunkDuration demo_profile = Inr q \<and> normalize maxProfileChunkDuration q = Inr q"
  using demo_normalize normalize_idempotent by blast

theorem parse_profile_window_witness:
  "\<exists>p. ParseProfile (Some (demo_v1 100 [50, 0, 200])) = Inr p
     \<and> list_all (\<lambda>s. ps_TimestampNs s \<le> 10 ^ 18 + 100) (pr_Samples p)"
proof -
  have "\<exists>p. ParseProfile (Some (demo_v1 100 [50, 0, 200])) = Inr p"
    by (simp add: ParseProfile_def demo_v1_def Let_def associated_transaction_def windowed_def demo_tx_def adoptSampleData_def
      maxProfileSamples_def demo_sample_def normalize_def empty_profile_def maxIDBytes_def dropSingleSampleThreads_def
      active_counts_def index_ok_def sort_samples_def Duration_def dropUnreferencedThreadNames_def maxProfileDuration_def
      wrap64_def)
  then obtain p where p: "ParseProfile (Some (demo_v1 100 [50, 0, 200])) = Inr p" by blast
  have "ps_TimestampNs s \<le> 10 ^ 18 + 100" if "s \<in> set (pr_Samples p)" for s
    using parse_profile_window [OF p, of "demo_tx 100" s] that
    by (simp add: demo_v1_def associated_transaction_def demo_tx_def)
  with p show ?thesis by (auto simp: list_all_iff)
qed

end
