(* ===== verification/Flamegraph.thy ===== *)
theory Flamegraph
  imports Profile "HOL-Library.Product_Lexorder" "HOL-Library.List_Lexorder" "HOL-Library.Char_ord"
    "HOL-Library.Sublist"
begin

text \<open>
  The flame graph of a profile, \<open>internal/profiles/flamegraph.go\<close>: the samples that pass the
  filter are folded into one call tree, siblings are sorted by cost, and the sampling period is
  estimated from the samples. The code merges nodes through an index from a node and a frame key to the child; the
  key of a child is a function of its own fields (\<open>node_key\<close>), so the model looks it up among the children. A Go map
  from thread to timestamps is an association list here; nothing depends on its order
  (\<open>median_order_irrelevant\<close>).
\<close>

section \<open>The tree\<close>

datatype flame_node = FlameNode
  (fn_Function: string) (fn_Module: string) (fn_Filename: string) (fn_Lineno: go_int)
  (fn_InApp: "bool option") (fn_Self: nat) (fn_Total: nat) (fn_Children: "flame_node list")

record flame_graph =
  fg_SampleCount :: nat
  fg_IdleSamples :: nat
  fg_SampleIntervalNs :: nanos
  fg_DurationNs :: nanos
  fg_ThreadID :: string
  fg_ThreadName :: string
  fg_Root :: flame_node

record fold_options =
  fo_ThreadID :: string
  fo_StartNs :: nanos
  fo_EndNs :: nanos

definition dependencyDirs :: "string list" where
  "dependencyDirs = [''/vendor/'', ''/node_modules/'', ''/site-packages/'', ''/dist-packages/'']"

text \<open>The loop over the two paths of \<open>inApp\<close>.\<close>

fun in_app_path :: "string list \<Rightarrow> bool option" where
  "in_app_path [] = None"
| "in_app_path (path # paths) =
     (if path = [] then in_app_path paths
      else let p = CHR ''/'' # map (\<lambda>c. if c = backslash then CHR ''/'' else c) path in
        if \<exists>dir \<in> set dependencyDirs. contains dir p then Some False else in_app_path paths)"

definition inApp :: "profile_frame \<Rightarrow> bool option" where
  "inApp f = (case pf_InApp f of Some b \<Rightarrow> Some b | None \<Rightarrow> in_app_path [pf_AbsPath f, pf_Filename f])"

definition displayName :: "profile_frame \<Rightarrow> string" where
  "displayName f =
     (if pf_Function f \<noteq> [] then pf_Function f
      else if pf_Filename f \<noteq> [] then pf_Filename f
      else if pf_InstructionAddr f \<noteq> [] then pf_InstructionAddr f
      else ''<unknown>'')"

definition frameKey :: "profile_frame \<Rightarrow> string" where
  "frameKey f = displayName f @ [nul] @ pf_Module f @ [nul] @ pf_Filename f"

definition node_key :: "flame_node \<Rightarrow> string" where
  "node_key n = fn_Function n @ [nul] @ fn_Module n @ [nul] @ fn_Filename n"

definition new_child :: "profile_frame \<Rightarrow> flame_node" where
  "new_child f = FlameNode (displayName f) (pf_Module f) (pf_Filename f) (pf_Lineno f) (inApp f) 0 0 []"

text \<open>\<open>childFor\<close>: find or append the child for a frame; what is then done to it is \<open>g\<close>.\<close>

fun childFor :: "profile_frame \<Rightarrow> (flame_node \<Rightarrow> flame_node) \<Rightarrow> flame_node list \<Rightarrow> flame_node list" where
  "childFor f g [] = [g (new_child f)]"
| "childFor f g (c # cs) = (if node_key c = frameKey f then g c # cs else c # childFor f g cs)"

fun add_total :: "flame_node \<Rightarrow> flame_node" where
  "add_total (FlameNode a b c d e s t cs) = FlameNode a b c d e s (t + 1) cs"

fun add_self :: "flame_node \<Rightarrow> flame_node" where
  "add_self (FlameNode a b c d e s t cs) = FlameNode a b c d e (s + 1) t cs"

fun with_children :: "flame_node \<Rightarrow> flame_node list \<Rightarrow> flame_node" where
  "with_children (FlameNode a b c d e s t _) cs = FlameNode a b c d e s t cs"

text \<open>The walk from the entry point of a stack down to the running function.\<close>

fun descend :: "profile_frame list \<Rightarrow> flame_node \<Rightarrow> flame_node" where
  "descend [] n = add_self n"
| "descend (f # fs) n = with_children n (childFor f (\<lambda>c. descend fs (add_total c)) (fn_Children n))"

definition stack_frames :: "profile \<Rightarrow> int list \<Rightarrow> profile_frame list" where
  "stack_frames p stack =
     map (\<lambda>i. pr_Frames p ! nat i) (takeWhile (\<lambda>i. index_ok i (pr_Frames p)) (rev stack))"

section \<open>Folding\<close>

text \<open>The samples \<open>Fold\<close> does not skip.\<close>

definition selected :: "fold_options \<Rightarrow> profile \<Rightarrow> profile_sample \<Rightarrow> bool" where
  "selected opt p s \<longleftrightarrow>
     \<not> (fo_ThreadID opt \<noteq> [] \<and> ps_ThreadID s \<noteq> fo_ThreadID opt)
     \<and> \<not> (fo_StartNs opt \<noteq> 0 \<and> ps_TimestampNs s < fo_StartNs opt)
     \<and> \<not> (fo_EndNs opt \<noteq> 0 \<and> fo_EndNs opt < ps_TimestampNs s)
     \<and> index_ok (ps_StackID s) (pr_Stacks p)"

fun add_time :: "string \<Rightarrow> nanos \<Rightarrow> (string \<times> nanos list) list \<Rightarrow> (string \<times> nanos list) list" where
  "add_time t x [] = [(t, [x])]"
| "add_time t x ((u, xs) # rest) = (if u = t then (u, xs @ [x]) # rest else (u, xs) # add_time t x rest)"

definition fold_sample ::
  "fold_options \<Rightarrow> profile \<Rightarrow> flame_graph \<times> (string \<times> nanos list) list \<Rightarrow> profile_sample
     \<Rightarrow> flame_graph \<times> (string \<times> nanos list) list" where
  "fold_sample opt p gt s =
     (let (g, tmap) = gt in
      if \<not> selected opt p s then (g, tmap)
      else let stack = pr_Stacks p ! nat (ps_StackID s);
               tmap' = add_time (ps_ThreadID s) (ps_TimestampNs s) tmap in
        if stack = [] then (g\<lparr>fg_IdleSamples := fg_IdleSamples g + 1\<rparr>, tmap')
        else (g\<lparr>fg_SampleCount := fg_SampleCount g + 1,
                fg_Root := descend (stack_frames p stack) (add_total (fg_Root g))\<rparr>, tmap'))"

definition fold_profile ::
  "fold_options \<Rightarrow> flame_graph \<times> (string \<times> nanos list) list \<Rightarrow> profile option
     \<Rightarrow> flame_graph \<times> (string \<times> nanos list) list" where
  "fold_profile opt gt mp =
     (case mp of
        None \<Rightarrow> gt
      | Some p \<Rightarrow>
          let (g, tmap) = gt;
              g1 = (if fg_ThreadName g = [] \<and> fo_ThreadID opt \<noteq> []
                    then g\<lparr>fg_ThreadName := (case pr_ThreadNames p (fo_ThreadID opt) of None \<Rightarrow> [] | Some n \<Rightarrow> n)\<rparr>
                    else g)
          in foldl (fold_sample opt p) (g1, tmap) (pr_Samples p))"

text \<open>The gaps between the sorted timestamps of one thread, positive ones only.\<close>

fun gaps :: "nanos list \<Rightarrow> nanos list" where
  "gaps (x # y # ys) = (let d = wrap64 (y - x) in if 0 < d then d # gaps (y # ys) else gaps (y # ys))"
| "gaps _ = []"

definition medianInterval :: "(string \<times> nanos list) list \<Rightarrow> nanos" where
  "medianInterval tmap =
     (let gs = concat (map (\<lambda>(_, ts). if length ts < 2 then [] else gaps (sort ts)) tmap) in
      if gs = [] then 0 else sort gs ! (length gs div 2))"

fun low_high :: "(nanos \<times> nanos) option \<Rightarrow> nanos list \<Rightarrow> (nanos \<times> nanos) option" where
  "low_high s [] = s"
| "low_high None (t # ts) = low_high (Some (t, t)) ts"
| "low_high (Some (lo, hi)) (t # ts) =
     low_high (Some (if t < lo then t else lo, if hi < t then t else hi)) ts"

definition sibling_key :: "flame_node \<Rightarrow> int \<times> string" where
  "sibling_key n = (- int (fn_Total n), fn_Function n)"

function sortTree :: "flame_node \<Rightarrow> flame_node" where
  "sortTree (FlameNode a b c d e s t cs) =
     FlameNode a b c d e s t (map sortTree (sort_key sibling_key cs))"
  by pat_completeness auto
termination
  by (relation "measure size") (auto dest: size_list_estimation' [where f = size, OF _ order_refl] simp: less_Suc_eq_le)

definition Fold :: "profile option list \<Rightarrow> fold_options \<Rightarrow> flame_graph" where
  "Fold profs opt =
     (let g0 = \<lparr>fg_SampleCount = 0, fg_IdleSamples = 0, fg_SampleIntervalNs = 0, fg_DurationNs = 0,
            fg_ThreadID = fo_ThreadID opt, fg_ThreadName = [],
            fg_Root = FlameNode [] [] [] 0 None 0 0 []\<rparr>;
          (g, tmap) = foldl (fold_profile opt) (g0, []) profs;
          g1 = g\<lparr>fg_SampleIntervalNs := medianInterval tmap\<rparr>;
          g2 = (case low_high None (concat (map snd tmap)) of
                  None \<Rightarrow> g1 | Some (lo, hi) \<Rightarrow> g1\<lparr>fg_DurationNs := wrap64 (hi - lo)\<rparr>)
      in g2\<lparr>fg_Root := sortTree (fg_Root g2)\<rparr>)"

section \<open>What the tree counts\<close>

text \<open>The node at a path of keys, and the counters there.\<close>

fun node_at :: "string list \<Rightarrow> flame_node \<Rightarrow> flame_node option" where
  "node_at [] n = Some n"
| "node_at (k # ks) n =
     (case find (\<lambda>c. node_key c = k) (fn_Children n) of None \<Rightarrow> None | Some c \<Rightarrow> node_at ks c)"

definition total_at :: "string list \<Rightarrow> flame_node \<Rightarrow> nat" where
  "total_at ks n = (case node_at ks n of None \<Rightarrow> 0 | Some m \<Rightarrow> fn_Total m)"

definition self_at :: "string list \<Rightarrow> flame_node \<Rightarrow> nat" where
  "self_at ks n = (case node_at ks n of None \<Rightarrow> 0 | Some m \<Rightarrow> fn_Self m)"

text \<open>Siblings have different keys, and a node's samples are its own and those of its children.\<close>

fun tree_ok :: "flame_node \<Rightarrow> bool" where
  "tree_ok (FlameNode a b c d e s t cs) =
     (distinct (map node_key cs) \<and> t = s + sum_list (map fn_Total cs) \<and> (\<forall>x \<in> set cs. tree_ok x))"

lemma node_key_simps [simp]: "node_key (new_child f) = frameKey f" "node_key (add_total n) = node_key n"
  "node_key (add_self n) = node_key n" "node_key (with_children n cs) = node_key n"
  by (cases n; simp add: node_key_def new_child_def frameKey_def)+

lemma node_key_descend [simp]: "node_key (descend fs n) = node_key n"
  by (cases fs) simp_all

lemma tree_simps [simp]: "fn_Total (add_total n) = Suc (fn_Total n)" "fn_Children (add_total n) = fn_Children n"
  "fn_Self (add_total n) = fn_Self n" "fn_Children (with_children n cs) = cs" "fn_Total (with_children n cs) = fn_Total n"
  "fn_Self (with_children n cs) = fn_Self n" "fn_Children (add_self n) = fn_Children n"
  "fn_Total (add_self n) = fn_Total n" "fn_Self (add_self n) = Suc (fn_Self n)"
  "fn_Total (new_child f) = 0" "fn_Self (new_child f) = 0" "fn_Children (new_child f) = []"
  by (cases n; simp add: new_child_def)+

lemma fn_Total_descend [simp]: "fn_Total (descend fs n) = fn_Total n"
  by (cases fs) simp_all

lemma tree_ok_iff: "tree_ok n \<longleftrightarrow> distinct (map node_key (fn_Children n))
    \<and> fn_Total n = fn_Self n + sum_list (map fn_Total (fn_Children n)) \<and> (\<forall>x \<in> set (fn_Children n). tree_ok x)"
  by (cases n) simp

lemma childFor_keys:
  assumes "\<And>c. node_key (g c) = node_key c"
  shows "map node_key (childFor f g cs) =
    (if frameKey f \<in> set (map node_key cs) then map node_key cs else map node_key cs @ [frameKey f])"
  by (induction cs) (auto simp: assms)

lemma childFor_find:
  assumes "\<And>c. node_key (g c) = node_key c"
  shows "find (\<lambda>c. node_key c = k) (childFor f g cs) =
    (if k = frameKey f then Some (g (case find (\<lambda>c. node_key c = k) cs of None \<Rightarrow> new_child f | Some c \<Rightarrow> c))
     else find (\<lambda>c. node_key c = k) cs)"
  by (induction cs) (auto simp: assms)

lemma childFor_total:
  assumes "\<And>c. fn_Total (g c) = Suc (fn_Total c)"
  shows "sum_list (map fn_Total (childFor f g cs)) = Suc (sum_list (map fn_Total cs))"
  by (induction cs) (auto simp: assms)

lemma childFor_all: "\<forall>c \<in> set cs. P c \<and> P (g c) \<Longrightarrow> P (g (new_child f)) \<Longrightarrow> \<forall>c \<in> set (childFor f g cs). P c"
  by (induction cs) auto

lemma descend_ok:
  assumes "distinct (map node_key (fn_Children n))" "\<forall>x \<in> set (fn_Children n). tree_ok x"
    and "fn_Total n = Suc (fn_Self n + sum_list (map fn_Total (fn_Children n)))"
  shows "tree_ok (descend fs n)"
  using assms
proof (induction fs arbitrary: n)
  case Nil
  then show ?case by (subst tree_ok_iff) simp
next
  case (Cons f fs)
  let ?g = "\<lambda>c. descend fs (add_total c)"
  have g: "tree_ok (?g c)" if "tree_ok c" for c
    using that by (intro Cons.IH) (simp_all add: tree_ok_iff [of c])
  have "tree_ok (?g (new_child f))" by (rule g) (simp add: new_child_def)
  then have "\<forall>c \<in> set (childFor f ?g (fn_Children n)). tree_ok c"
    using Cons.prems(2) g by (intro childFor_all) auto
  then show ?case using Cons.prems
    by (subst tree_ok_iff) (simp add: childFor_keys childFor_total)
qed

lemma node_at_new_child: "node_at ks (add_total (new_child f)) = (if ks = [] then Some (add_total (new_child f)) else None)"
  by (cases ks) simp_all

lemma total_at_add_total [simp]: "total_at ks (add_total n) = total_at ks n + (if ks = [] then 1 else 0)"
  "self_at ks (add_total n) = self_at ks n"
  by (cases ks; simp add: total_at_def self_at_def)+

lemma at_new_child [simp]: "total_at ks (new_child f) = 0" "self_at ks (new_child f) = 0"
  by (cases ks; simp add: total_at_def self_at_def)+

lemma at_Cons: "total_at (k # ks) n = (case find (\<lambda>c. node_key c = k) (fn_Children n) of None \<Rightarrow> 0 | Some c \<Rightarrow> total_at ks c)"
  "self_at (k # ks) n = (case find (\<lambda>c. node_key c = k) (fn_Children n) of None \<Rightarrow> 0 | Some c \<Rightarrow> self_at ks c)"
  by (simp_all add: total_at_def self_at_def split: option.splits)

lemma descend_counts:
  "total_at ks (descend fs (add_total n)) = total_at ks n + (if prefix ks (map frameKey fs) then 1 else 0)
   \<and> self_at ks (descend fs (add_total n)) = self_at ks n + (if ks = map frameKey fs then 1 else 0)"
proof (induction fs arbitrary: ks n)
  case Nil
  then show ?case by (cases ks) (simp_all add: at_Cons, simp_all add: total_at_def self_at_def)
next
  case (Cons f fs)
  show ?case
  proof (cases ks)
    case Nil
    then show ?thesis by (simp add: total_at_def self_at_def)
  next
    case (Cons k ks')
    show ?thesis unfolding Cons
      by (simp add: at_Cons childFor_find Cons.IH split: option.splits)
  qed
qed

lemma find_key:
  "distinct (map key xs) \<Longrightarrow> find (\<lambda>x. key x = k) xs = Some c \<longleftrightarrow> c \<in> set xs \<and> key c = k"
  by (induction xs) auto

lemma find_key_perm:
  assumes "distinct (map key xs)" "mset ys = mset xs"
  shows "find (\<lambda>x. key x = k) ys = find (\<lambda>x. key x = k) xs"
proof -
  have "distinct (map key ys)" using assms by (metis mset_eq_imp_distinct_iff mset_map)
  moreover have "set ys = set xs" using assms(2) by (rule mset_eq_setD)
  ultimately have "find (\<lambda>x. key x = k) ys = Some c \<longleftrightarrow> find (\<lambda>x. key x = k) xs = Some c" for c
    using find_key [of key ys k c] find_key [of key xs k c] assms(1) by simp
  then show ?thesis by (cases "find (\<lambda>x. key x = k) xs"; cases "find (\<lambda>x. key x = k) ys") auto
qed

lemma find_map_key: "(\<And>x. key (h x) = key x) \<Longrightarrow>
   find (\<lambda>x. key x = k) (map h xs) = map_option h (find (\<lambda>x. key x = k) xs)"
  by (induction xs) auto

text \<open>Siblings in the order of the response: more samples first, then by name.\<close>

fun tree_sorted :: "flame_node \<Rightarrow> bool" where
  "tree_sorted (FlameNode a b c d e s t cs) = (sorted (map sibling_key cs) \<and> (\<forall>x \<in> set cs. tree_sorted x))"

lemma sortTree_simps [simp]: "node_key (sortTree n) = node_key n" "fn_Total (sortTree n) = fn_Total n"
  "fn_Self (sortTree n) = fn_Self n" "fn_Children (sortTree n) = map sortTree (sort_key sibling_key (fn_Children n))"
  "sibling_key (sortTree n) = sibling_key n"
  by (cases n; simp add: node_key_def sibling_key_def)+

lemma sum_list_sort: "sum_list (map fn_Total (sort_key f cs)) = sum_list (map fn_Total cs)"
  by (metis mset_map mset_sort sum_mset_sum_list)

lemma distinct_sort: "distinct (map key (sort_key f cs)) \<longleftrightarrow> distinct (map key cs)"
  by (metis mset_eq_imp_distinct_iff mset_map mset_sort)

lemma sortTree_ok: "tree_ok n \<Longrightarrow> tree_ok (sortTree n)"
proof (induction n rule: sortTree.induct)
  case (1 a b c d e s t cs)
  then show ?case by (auto simp: comp_def sum_list_sort distinct_sort)
qed

lemma sortTree_sorted: "tree_sorted (sortTree n)"
  by (induction n rule: sortTree.induct) (auto simp: comp_def)

lemma sortTree_node_at: "tree_ok n \<Longrightarrow> node_at ks (sortTree n) = map_option sortTree (node_at ks n)"
proof (induction ks arbitrary: n)
  case (Cons k ks)
  have d: "distinct (map node_key (fn_Children n))" "\<forall>x \<in> set (fn_Children n). tree_ok x"
    using Cons.prems tree_ok_iff by blast+
  have "find (\<lambda>c. node_key c = k) (map sortTree (sort_key sibling_key (fn_Children n)))
      = map_option sortTree (find (\<lambda>c. node_key c = k) (fn_Children n))"
    using find_key_perm [OF d(1), of "sort_key sibling_key (fn_Children n)" k] by (simp add: find_map_key)
  moreover have "tree_ok c" if "find (\<lambda>c. node_key c = k) (fn_Children n) = Some c" for c
    using that find_key [OF d(1)] d(2) by auto
  ultimately show ?case using Cons.IH by (auto split: option.splits)
qed simp

lemma at_sortTree: "tree_ok n \<Longrightarrow> total_at ks (sortTree n) = total_at ks n \<and> self_at ks (sortTree n) = self_at ks n"
  by (simp add: total_at_def self_at_def sortTree_node_at split: option.splits)

text \<open>The call paths of the samples that are folded, outermost function first, and the idle samples.\<close>

definition busy :: "fold_options \<Rightarrow> profile \<Rightarrow> profile_sample \<Rightarrow> bool" where
  "busy opt p s \<longleftrightarrow> selected opt p s \<and> pr_Stacks p ! nat (ps_StackID s) \<noteq> []"

definition sample_path :: "profile \<Rightarrow> profile_sample \<Rightarrow> string list" where
  "sample_path p s = map frameKey (stack_frames p (pr_Stacks p ! nat (ps_StackID s)))"

definition profile_paths :: "fold_options \<Rightarrow> profile \<Rightarrow> string list list" where
  "profile_paths opt p = map (sample_path p) (filter (busy opt p) (pr_Samples p))"

definition paths :: "fold_options \<Rightarrow> profile option list \<Rightarrow> string list list" where
  "paths opt profs = concat (map (\<lambda>mp. case mp of None \<Rightarrow> [] | Some p \<Rightarrow> profile_paths opt p) profs)"

definition idles :: "fold_options \<Rightarrow> profile option list \<Rightarrow> nat" where
  "idles opt profs = sum_list (map (\<lambda>mp. case mp of None \<Rightarrow> 0
     | Some p \<Rightarrow> length (filter (\<lambda>s. selected opt p s \<and> \<not> busy opt p s) (pr_Samples p))) profs)"

definition counts :: "flame_graph \<Rightarrow> string list list \<Rightarrow> nat \<Rightarrow> bool" where
  "counts g ps i \<longleftrightarrow> tree_ok (fg_Root g) \<and> fg_SampleCount g = length ps \<and> fg_IdleSamples g = i
     \<and> (\<forall>ks. total_at ks (fg_Root g) = length (filter (prefix ks) ps))
     \<and> (\<forall>ks. self_at ks (fg_Root g) = length (filter ((=) ks) ps))"

lemma descend_ok': "tree_ok n \<Longrightarrow> tree_ok (descend fs (add_total n))"
  by (rule descend_ok) (auto simp: tree_ok_iff [of n])

lemma fold_sample_counts:
  assumes "counts g ps i"
  shows "counts (fst (fold_sample opt p (g, tmap) s))
    (if busy opt p s then ps @ [sample_path p s] else ps)
    (if selected opt p s \<and> \<not> busy opt p s then i + 1 else i)"
  using assms by (simp add: fold_sample_def counts_def Let_def busy_def descend_ok' descend_counts sample_path_def)

lemma fold_samples_counts:
  "counts g ps i \<Longrightarrow> counts (fst (foldl (fold_sample opt p) (g, tmap) ss))
     (ps @ map (sample_path p) (filter (busy opt p) ss))
     (i + length (filter (\<lambda>s. selected opt p s \<and> \<not> busy opt p s) ss))"
proof (induction ss arbitrary: g tmap ps i)
  case (Cons s ss)
  obtain g' t' where f: "fold_sample opt p (g, tmap) s = (g', t')" by force
  have "counts g' (if busy opt p s then ps @ [sample_path p s] else ps)
      (if selected opt p s \<and> \<not> busy opt p s then i + 1 else i)"
    using fold_sample_counts [OF Cons.prems, of opt p tmap s] f by simp
  from Cons.IH [OF this, of t'] show ?case by (simp add: f split: if_splits)
qed simp

lemma fold_profile_counts:
  assumes "counts g ps i"
  shows "counts (fst (fold_profile opt (g, tmap) mp)) (ps @ paths opt [mp]) (i + idles opt [mp])"
proof (cases mp)
  case None
  with assms show ?thesis by (simp add: fold_profile_def paths_def idles_def)
next
  case (Some p)
  define g1 where "g1 = (if fg_ThreadName g = [] \<and> fo_ThreadID opt \<noteq> []
                    then g\<lparr>fg_ThreadName := (case pr_ThreadNames p (fo_ThreadID opt) of None \<Rightarrow> [] | Some n \<Rightarrow> n)\<rparr>
                    else g)"
  have "counts g1 ps i" using assms by (simp add: counts_def g1_def)
  from fold_samples_counts [OF this, of opt p tmap "pr_Samples p"] show ?thesis
    by (simp add: Some fold_profile_def paths_def idles_def profile_paths_def g1_def)
qed

lemma fold_profiles_counts:
  "counts g ps i \<Longrightarrow> counts (fst (foldl (fold_profile opt) (g, tmap) profs)) (ps @ paths opt profs) (i + idles opt profs)"
proof (induction profs arbitrary: g tmap ps i)
  case (Cons mp profs)
  obtain g' t' where f: "fold_profile opt (g, tmap) mp = (g', t')" by force
  have "counts g' (ps @ paths opt [mp]) (i + idles opt [mp])"
    using fold_profile_counts [OF Cons.prems, of opt tmap mp] f by simp
  from Cons.IH [OF this, of t'] show ?case by (simp add: f paths_def idles_def add.assoc)
qed (simp add: paths_def idles_def)

lemma Fold_counts:
  "counts (Fold profs opt) (paths opt profs) (idles opt profs) \<and> tree_sorted (fg_Root (Fold profs opt))"
proof -
  let ?g0 = "\<lparr>fg_SampleCount = 0, fg_IdleSamples = 0, fg_SampleIntervalNs = 0, fg_DurationNs = 0,
            fg_ThreadID = fo_ThreadID opt, fg_ThreadName = [], fg_Root = FlameNode [] [] [] 0 None 0 0 []\<rparr>"
  have "total_at ks (FlameNode [] [] [] 0 None 0 0 []) = 0 \<and> self_at ks (FlameNode [] [] [] 0 None 0 0 []) = 0" for ks
    by (cases ks) (simp_all add: total_at_def self_at_def)
  then have "counts ?g0 [] 0" by (simp add: counts_def)
  from fold_profiles_counts [OF this, of opt "[]" profs]
  obtain g tmap where f: "foldl (fold_profile opt) (?g0, []) profs = (g, tmap)" and c: "counts g (paths opt profs) (idles opt profs)"
    by (metis append_Nil add_0 fst_conv surj_pair)
  have "fg_Root (Fold profs opt) = sortTree (fg_Root g)" "fg_SampleCount (Fold profs opt) = fg_SampleCount g"
    "fg_IdleSamples (Fold profs opt) = fg_IdleSamples g"
    by (simp_all add: Fold_def Let_def f split: option.splits)
  with c show ?thesis by (simp add: counts_def sortTree_ok sortTree_sorted at_sortTree)
qed

text \<open>
C6: The flame graph counts call paths exactly: at every path of frame keys the total is the number of
folded samples whose path starts with it and the self count the number whose path is it, the sample
count is the number of folded samples and the idle count the number of selected samples with an
empty stack, over any list of profiles and any options.
\<close>

theorem fold_counts_paths:
  "total_at ks (fg_Root (Fold profs opt)) = length (filter (prefix ks) (paths opt profs))
   \<and> self_at ks (fg_Root (Fold profs opt)) = length (filter ((=) ks) (paths opt profs))
   \<and> fg_SampleCount (Fold profs opt) = length (paths opt profs)
   \<and> fg_IdleSamples (Fold profs opt) = idles opt profs"
  using Fold_counts [of profs opt] by (simp add: counts_def)

text \<open>
In the folded tree every node's total is its own samples plus its children's totals, siblings have
different keys and are ordered by falling total and then name, and the reported sample count is the
total of the root.
\<close>

theorem fold_tree_ok:
  "tree_ok (fg_Root (Fold profs opt)) \<and> tree_sorted (fg_Root (Fold profs opt))
   \<and> fg_SampleCount (Fold profs opt) = fn_Total (fg_Root (Fold profs opt))"
proof -
  have "total_at [] (fg_Root (Fold profs opt)) = length (filter (prefix []) (paths opt profs))"
    using Fold_counts [of profs opt] by (simp add: counts_def)
  then show ?thesis using Fold_counts [of profs opt] by (simp add: counts_def total_at_def)
qed

section \<open>The sampling period\<close>

lemma sort_mset: "mset xs = mset ys \<Longrightarrow> sort xs = sort (ys :: int list)"
  by (metis mset_sort properties_for_sort sorted_sort)

lemma gaps_shift: "gaps (map (\<lambda>x. x + c) xs) = gaps xs"
  by (induction xs rule: gaps.induct) (simp_all add: Let_def)

lemma sort_shift: "sort (map (\<lambda>x. x + c) xs) = map (\<lambda>x. x + c) (sort (xs :: int list))"
proof (rule properties_for_sort)
  show "mset (map (\<lambda>x. x + c) (sort xs)) = mset (map (\<lambda>x. x + c) xs)" by (metis mset_map mset_sort)
  have "sorted (sort xs)" by simp
  then show "sorted (map (\<lambda>x. x + c) (sort xs))" by (simp add: sorted_map)
qed

definition pooled :: "(string \<times> nanos list) list \<Rightarrow> nanos list" where
  "pooled tmap = concat (map (\<lambda>(_, ts). if length ts < 2 then [] else gaps (sort ts)) tmap)"

lemma medianInterval_pooled:
  "medianInterval tmap = (if pooled tmap = [] then 0 else sort (pooled tmap) ! (length (pooled tmap) div 2))"
  by (simp add: medianInterval_def pooled_def Let_def)

lemma pooled_mset_sum: "mset (pooled tmap) =
    \<Sum>\<^sub># (image_mset (\<lambda>(_, ts). mset (if length ts < 2 then [] else gaps (sort ts))) (mset tmap))"
  by (induction tmap) (auto simp: pooled_def)

lemma pooled_mset: "mset tmap' = mset tmap \<Longrightarrow> mset (pooled tmap') = mset (pooled tmap)"
  by (simp add: pooled_mset_sum)

text \<open>
The estimated sampling period depends neither on the order in which Go iterates over the map of
threads nor on how the threads are staggered: shifting all timestamps of a thread leaves it
unchanged.
\<close>

theorem median_ignores_stagger:
  assumes "mset tmap' = mset (map (\<lambda>(t, ts). (t, map (\<lambda>x. x + off t) ts)) tmap)"
  shows "medianInterval tmap' = medianInterval tmap"
proof -
  have "pooled (map (\<lambda>(t, ts). (t, map (\<lambda>x. x + off t) ts)) tmap) = pooled tmap"
    unfolding pooled_def by (induction tmap) (auto simp: sort_shift gaps_shift)
  then have m: "mset (pooled tmap') = mset (pooled tmap)" using pooled_mset [OF assms] by simp
  then have "length (pooled tmap') = length (pooled tmap)" "pooled tmap' = [] \<longleftrightarrow> pooled tmap = []"
    by (metis size_mset, metis mset_zero_iff)
  then show ?thesis using sort_mset [OF m] by (simp add: medianInterval_pooled)
qed

definition ticks :: "nanos \<Rightarrow> nanos \<Rightarrow> nat \<Rightarrow> nanos list" where
  "ticks b d k = map (\<lambda>i. b + int i * d) [0..<k]"

lemma ticks_Suc: "ticks b d (Suc k) = b # ticks (b + d) d k"
  by (simp add: ticks_def upt_conv_Cons map_Suc_upt [symmetric] algebra_simps del: upt_Suc)

lemma gaps_ticks: "0 < d \<Longrightarrow> d < 2 ^ 63 \<Longrightarrow> set (gaps (ticks b d k)) \<subseteq> {d} \<and> (2 \<le> k \<longrightarrow> gaps (ticks b d k) \<noteq> [])"
proof (induction k arbitrary: b)
  case (Suc k)
  have w: "wrap64 d = d" using Suc.prems by (intro wrap64_id is_int64_small) auto
  show ?case
  proof (cases k)
    case (Suc j)
    then show ?thesis using Suc.IH [of "b + d"] Suc.prems w by (simp add: ticks_Suc)
  qed (simp add: ticks_def)
qed (simp add: ticks_def)

lemma sorted_ticks: "0 < d \<Longrightarrow> sorted (ticks b d k)"
  by (auto simp: ticks_def sorted_iff_nth_mono intro: mult_right_mono)

text \<open>
Threads sampled uniformly with the same period, in any order and with any number of threads, give
exactly that period.
\<close>

theorem median_uniform:
  assumes d: "0 < d" "d < 2 ^ 63"
    and all: "\<forall>(t, ts) \<in> set tmap. \<exists>b k. mset ts = mset (ticks b d k)"
    and some: "\<exists>(t, ts) \<in> set tmap. 2 \<le> length ts"
  shows "medianInterval tmap = d"
proof -
  have s: "\<exists>b. sort ts = ticks b d (length ts)" if tt: "(t, ts) \<in> set tmap" for t ts
  proof -
    obtain b k where m: "mset ts = mset (ticks b d k)" using bspec [OF all tt] by auto
    then have "length ts = k" by (metis size_mset length_map length_upt diff_zero ticks_def)
    moreover have "sort ts = ticks b d k"
      by (rule properties_for_sort) (simp_all add: m sorted_ticks d)
    ultimately show ?thesis by blast
  qed
  have sub: "set (pooled tmap) \<subseteq> {d}"
  proof
    fix x assume "x \<in> set (pooled tmap)"
    then obtain t ts where ts: "(t, ts) \<in> set tmap" "x \<in> set (gaps (sort ts))"
      by (auto simp: pooled_def split: if_splits)
    from s [OF ts(1)] obtain b where "sort ts = ticks b d (length ts)" by blast
    then show "x \<in> {d}" using ts(2) gaps_ticks [OF d, of b "length ts"] by auto
  qed
  obtain t ts where ts: "(t, ts) \<in> set tmap" "2 \<le> length ts" using some by blast
  obtain b where "sort ts = ticks b d (length ts)" using s [OF ts(1)] by blast
  then have "gaps (sort ts) \<noteq> []" using gaps_ticks [OF d, of b "length ts"] ts(2) by simp
  then have ne: "pooled tmap \<noteq> []" using ts unfolding pooled_def by (auto intro!: bexI [of _ "(t, ts)"])
  then have "length (pooled tmap) div 2 < length (sort (pooled tmap))" by (simp add: length_greater_0_conv)
  then have "sort (pooled tmap) ! (length (pooled tmap) div 2) \<in> set (pooled tmap)"
    by (metis nth_mem set_sort)
  with sub ne show ?thesis by (auto simp: medianInterval_pooled)
qed

theorem median_ignores_stagger_witness:
  "medianInterval [(''b'', [5, 1]), (''a'', [102, 100])] = medianInterval [(''a'', [2, 0]), (''b'', [5, 1])]"
  by (rule median_ignores_stagger [where off = "\<lambda>t. if t = ''a'' then 100 else 0"]) simp

theorem median_uniform_witness: "medianInterval [(''a'', [20, 0, 10]), (''b'', [3])] = 10"
proof (rule median_uniform)
  have "mset [20, 0, 10] = mset (ticks 0 10 3)" "mset [3] = mset (ticks 3 10 1)" by (simp_all add: ticks_def upt_rec)
  then show "\<forall>(t, ts) \<in> set [(''a'', [20, 0, 10]), (''b'', [3])]. \<exists>b k. mset ts = mset (ticks b 10 k)" by auto
qed auto

end
