(* ===== verification/Profile_Read.thy ===== *)
theory Profile_Read
  imports Flamegraph
begin

text \<open>
  Reading profiles back for a transaction, \<open>internal/profiles/read.go\<close> and the decoder of
  \<open>internal/ingest/profilecodec.go\<close>. The table of chunks is a list of rows and the two queries are written
  out on it. Decompression and JSON decoding are parameters: a codec gives for a blob its decompressed text, and
  for a text its profile. The semaphore over concurrent readers is not modelled.
\<close>

section \<open>Decoding within a budget\<close>

definition ProfileEncodingZstdJSON :: go_int where "ProfileEncodingZstdJSON = 1"

datatype read_error =
    ReadCancelled
  | DecodeBudget
  | UnknownEncoding go_int
  | DecompressError
  | UnmarshalError
  | NoProfile

record codec =
  cd_decompress :: "string \<Rightarrow> string option"
  cd_unmarshal :: "string \<Rightarrow> profile option"

text \<open>The result is the profile with the size of its text, and the context after the calls of \<open>Err\<close>.\<close>

definition DecodeProfileLimited ::
  "codec \<Rightarrow> ctx \<Rightarrow> go_int \<Rightarrow> string \<Rightarrow> int \<Rightarrow> read_error + (profile \<times> nat) \<times> ctx" where
  "DecodeProfileLimited cd c encoding data remaining =
     (case poll c of
        None \<Rightarrow> Inl ReadCancelled
      | Some c1 \<Rightarrow>
          if remaining \<le> 0 then Inl DecodeBudget
          else if encoding \<noteq> ProfileEncodingZstdJSON then Inl (UnknownEncoding encoding)
          else (case cd_decompress cd data of
              None \<Rightarrow> Inl DecompressError
            | Some raw \<Rightarrow> (case poll c1 of
                None \<Rightarrow> Inl ReadCancelled
              | Some c2 \<Rightarrow>
                  if remaining < int (length raw) then Inl DecodeBudget
                  else (case cd_unmarshal cd raw of
                      None \<Rightarrow> Inl UnmarshalError
                    | Some p \<Rightarrow> (case poll c2 of
                        None \<Rightarrow> Inl ReadCancelled
                      | Some c3 \<Rightarrow> Inr ((p, length raw), c3))))))"

record chunk_row =
  cr_ProjectID :: string
  cr_TransactionEventID :: string
  cr_ProfilerID :: string
  cr_StartTs :: nanos
  cr_EndTs :: nanos
  cr_ReceivedAt :: nanos
  cr_Encoding :: go_int
  cr_Data :: string

text \<open>
  The loop of \<open>decodeRows\<close>, with the decoded profiles and their bytes so far.
\<close>

fun decode_rows ::
  "codec \<Rightarrow> ctx \<Rightarrow> int \<Rightarrow> chunk_row list \<Rightarrow> profile list \<Rightarrow> nat \<Rightarrow> read_error + (profile list \<times> nat) \<times> ctx" where
  "decode_rows cd c budget [] profs bytes = Inr ((profs, bytes), c)"
| "decode_rows cd c budget (r # rs) profs bytes =
     (case DecodeProfileLimited cd c (cr_Encoding r) (cr_Data r) (budget - int bytes) of
        Inl e \<Rightarrow> if e = DecodeBudget then Inr ((profs, bytes), c) else Inl e
      | Inr ((p, size'), c') \<Rightarrow>
          if budget \<le> int (bytes + size') then Inr ((profs @ [p], bytes + size'), c')
          else decode_rows cd c' budget rs (profs @ [p]) (bytes + size'))"

definition decodeRows :: "codec \<Rightarrow> ctx \<Rightarrow> chunk_row list \<Rightarrow> int \<Rightarrow> read_error + profile list \<times> ctx" where
  "decodeRows cd c rows budget =
     (case decode_rows cd c budget rows [] 0 of Inl e \<Rightarrow> Inl e | Inr ((profs, _), c') \<Rightarrow> Inr (profs, c'))"

definition maxDecodedBytesPerRequest :: int where "maxDecodedBytesPerRequest = 96 * 2 ^ 20"
definition maxChunkDuration :: nanos where "maxChunkDuration = 70 * 1000000000"
definition maxChunksPerTransaction :: nat where "maxChunksPerTransaction = 16"

definition hasThread :: "profile \<Rightarrow> string \<Rightarrow> bool" where
  "hasThread p t \<longleftrightarrow> (\<exists>s \<in> set (pr_Samples p). ps_ThreadID s = t)"

record transaction_ref =
  tr_ProjectID :: string
  tr_EventID :: string
  tr_ProfilerID :: string
  tr_ThreadID :: string
  tr_Start :: nanos
  tr_End :: nanos

section \<open>The two lookups\<close>

definition query_v1 :: "chunk_row list \<Rightarrow> transaction_ref \<Rightarrow> chunk_row list" where
  "query_v1 db ref = take 1 (sort_key (\<lambda>r. - cr_ReceivedAt r)
     (filter (\<lambda>r. cr_ProjectID r = tr_ProjectID ref \<and> cr_TransactionEventID r = tr_EventID ref) db))"

definition in_window :: "transaction_ref \<Rightarrow> chunk_row \<Rightarrow> bool" where
  "in_window ref r \<longleftrightarrow> cr_ProjectID r = tr_ProjectID ref \<and> cr_ProfilerID r = tr_ProfilerID ref
     \<and> tr_Start ref - maxChunkDuration \<le> cr_StartTs r \<and> cr_StartTs r \<le> tr_End ref \<and> tr_Start ref \<le> cr_EndTs r"

definition query_v2 :: "chunk_row list \<Rightarrow> transaction_ref \<Rightarrow> chunk_row list" where
  "query_v2 db ref = take maxChunksPerTransaction (sort_key cr_StartTs (filter (in_window ref) db))"

definition v1_options :: "profile list \<Rightarrow> fold_options" where
  "v1_options profs =
     (let t = pr_ActiveThreadID (hd profs);
          t' = (if t \<noteq> [] \<and> \<not> hasThread (hd profs) t then [] else t)
      in \<lparr>fo_ThreadID = t', fo_StartNs = 0, fo_EndNs = 0\<rparr>)"

definition foldV1 :: "codec \<Rightarrow> ctx \<Rightarrow> chunk_row list \<Rightarrow> transaction_ref \<Rightarrow> read_error + flame_graph" where
  "foldV1 cd c db ref =
     (case decodeRows cd c (query_v1 db ref) maxDecodedBytesPerRequest of
        Inl e \<Rightarrow> Inl e
      | Inr (profs, c') \<Rightarrow>
          if profs = [] then Inl NoProfile
          else if poll c' = None then Inl ReadCancelled
          else Inr (Fold (map Some profs) (v1_options profs)))"

definition v2_options :: "transaction_ref \<Rightarrow> fold_options" where
  "v2_options ref = \<lparr>fo_ThreadID = tr_ThreadID ref, fo_StartNs = tr_Start ref, fo_EndNs = tr_End ref\<rparr>"

definition foldV2 :: "codec \<Rightarrow> ctx \<Rightarrow> chunk_row list \<Rightarrow> transaction_ref \<Rightarrow> read_error + flame_graph" where
  "foldV2 cd c db ref =
     (case decodeRows cd c (query_v2 db ref) maxDecodedBytesPerRequest of
        Inl e \<Rightarrow> Inl e
      | Inr (profs, c') \<Rightarrow>
          if profs = [] then Inl NoProfile
          else if poll c' = None then Inl ReadCancelled
          else let g = Fold (map Some profs) (v2_options ref) in
            if fg_SampleCount g = 0 then Inl NoProfile else Inr g)"

text \<open>
  \<open>FlameGraphForTransaction\<close>, from the row of the transaction on (\<open>None\<close> when there is none). Each of
  the two lookups sees its own context.
\<close>

definition FlameGraphForTransaction ::
  "codec \<Rightarrow> ctx \<Rightarrow> ctx \<Rightarrow> chunk_row list \<Rightarrow> transaction_ref option \<Rightarrow> read_error + flame_graph" where
  "FlameGraphForTransaction cd c1 c2 db mref =
     (case mref of
        None \<Rightarrow> Inl NoProfile
      | Some ref \<Rightarrow>
          (case (if tr_EventID ref \<noteq> [] then foldV1 cd c1 db ref else Inl NoProfile) of
             Inr g \<Rightarrow> Inr g
           | Inl e \<Rightarrow>
               if e \<noteq> NoProfile then Inl e
               else if tr_ProfilerID ref \<noteq> [] then foldV2 cd c2 db ref
               else Inl NoProfile))"

section \<open>Budget\<close>

lemma DecodeProfileLimited_ok:
  "DecodeProfileLimited cd c enc data remaining = Inr ((p, n), c') \<Longrightarrow>
     int n \<le> remaining \<and> (\<exists>raw. cd_decompress cd data = Some raw \<and> length raw = n \<and> cd_unmarshal cd raw = Some p)"
  by (auto simp: DecodeProfileLimited_def split: option.splits if_splits)

text \<open>What a row holds, and what the rows decoded so far cost.\<close>

definition row_profile :: "codec \<Rightarrow> chunk_row \<Rightarrow> profile option" where
  "row_profile cd r = (case cd_decompress cd (cr_Data r) of None \<Rightarrow> None | Some raw \<Rightarrow> cd_unmarshal cd raw)"

definition row_size :: "codec \<Rightarrow> chunk_row \<Rightarrow> nat" where
  "row_size cd r = (case cd_decompress cd (cr_Data r) of None \<Rightarrow> 0 | Some raw \<Rightarrow> length raw)"

lemma decode_rows_prefix:
  assumes "decode_rows cd c budget rows profs bytes = Inr ((ps, n), c')" "int bytes \<le> budget"
  shows "\<exists>k \<le> length rows. map Some ps = map Some profs @ map (row_profile cd) (take k rows)
    \<and> n = bytes + sum_list (map (row_size cd) (take k rows)) \<and> int n \<le> budget"
  using assms
proof (induction cd c budget rows profs bytes rule: decode_rows.induct)
  case (2 cd c budget r rs profs bytes)
  show ?case
  proof (cases "DecodeProfileLimited cd c (cr_Encoding r) (cr_Data r) (budget - int bytes)")
    case (Inl e)
    with 2 show ?thesis by (intro exI [of _ 0]) (auto split: if_splits)
  next
    case (Inr x)
    obtain p s c1 where x: "x = ((p, s), c1)" by (cases x) auto
    note ok = DecodeProfileLimited_ok [OF Inr [unfolded x]]
    then have rp: "row_profile cd r = Some p" "row_size cd r = s" "int (bytes + s) \<le> budget"
      by (auto simp: row_profile_def row_size_def)
    show ?thesis
    proof (cases "budget \<le> int (bytes + s)")
      case True
      with 2(2) Inr x rp show ?thesis by (intro exI [of _ 1]) auto
    next
      case False
      then have "decode_rows cd c1 budget rs (profs @ [p]) (bytes + s) = Inr ((ps, n), c')"
        using 2(2) Inr x by simp
      from "2.IH" [OF Inr x [symmetric] refl False this rp(3)] obtain k where
        "k \<le> length rs" "map Some ps = map Some (profs @ [p]) @ map (row_profile cd) (take k rs)"
        "n = bytes + s + sum_list (map (row_size cd) (take k rs))" "int n \<le> budget" by auto
      with rp show ?thesis by (intro exI [of _ "Suc k"]) auto
    qed
  qed
qed auto

text \<open>
decodeRows decodes a prefix of the rows, each to its own profile, and the decompressed bytes it
admits never exceed the budget.
\<close>

theorem decode_within_budget:
  assumes "decodeRows cd c rows budget = Inr (ps, c')" "0 \<le> budget"
  shows "\<exists>k \<le> length rows. map Some ps = map (row_profile cd) (take k rows)
    \<and> int (sum_list (map (row_size cd) (take k rows))) \<le> budget"
proof -
  obtain n where "decode_rows cd c budget rows [] 0 = Inr ((ps, n), c')"
    using assms(1) by (auto simp: decodeRows_def split: sum.splits)
  from decode_rows_prefix [OF this] assms(2) show ?thesis by auto
qed

section \<open>Windows\<close>

text \<open>What the writer guarantees of a stored chunk: its times bound its samples, and it is a chunk.\<close>

definition row_ok :: "codec \<Rightarrow> chunk_row \<Rightarrow> bool" where
  "row_ok cd r \<longleftrightarrow> (case row_profile cd r of None \<Rightarrow> False
     | Some p \<Rightarrow> (\<forall>s \<in> set (pr_Samples p). cr_StartTs r \<le> ps_TimestampNs s \<and> ps_TimestampNs s \<le> cr_EndTs r))
     \<and> cr_EndTs r - cr_StartTs r \<le> maxProfileChunkDuration"

lemma profile_paths_outside:
  assumes "row_ok cd r" "row_profile cd r = Some p" "tr_Start ref \<noteq> 0" "tr_End ref \<noteq> 0"
    and "\<not> (tr_Start ref - maxChunkDuration \<le> cr_StartTs r \<and> cr_StartTs r \<le> tr_End ref \<and> tr_Start ref \<le> cr_EndTs r)"
  shows "profile_paths (v2_options ref) p = []"
proof -
  have "\<not> busy (v2_options ref) p s" if "s \<in> set (pr_Samples p)" for s
  proof -
    have "cr_StartTs r \<le> ps_TimestampNs s" "ps_TimestampNs s \<le> cr_EndTs r"
      "cr_EndTs r - cr_StartTs r \<le> maxProfileChunkDuration"
      using assms(1,2) that by (simp_all add: row_ok_def)
    then have "ps_TimestampNs s < tr_Start ref \<or> tr_End ref < ps_TimestampNs s"
      using assms(5) by (auto simp: maxChunkDuration_def maxProfileChunkDuration_def)
    then show ?thesis using assms(3,4) by (auto simp: busy_def selected_def v2_options_def)
  qed
  then show ?thesis by (simp add: profile_paths_def filter_empty_conv)
qed

lemma paths_map: "paths opt (map f xs) = concat (map (\<lambda>x. paths opt [f x]) xs)"
  by (simp add: paths_def comp_def)

lemma mset_concat_filter:
  assumes "\<And>x. x \<in> set xs \<Longrightarrow> \<not> P x \<Longrightarrow> f x = []"
  shows "mset (concat (map f (filter P xs))) = mset (concat (map f xs))"
  using assms by (induction xs) auto

lemma mset_concat_sort: "mset (concat (map f (sort_key k xs))) = mset (concat (map f xs))"
proof -
  have "mset (concat (map f ys)) = \<Sum>\<^sub># (image_mset (\<lambda>x. mset (f x)) (mset ys))" for ys
    by (induction ys) auto
  then show ?thesis by simp
qed

text \<open>
Looking back only 70 seconds loses nothing: when every stored chunk lasts at most 66 seconds and its
times bound its samples, and at most 16 chunks overlap the transaction, the call paths folded from
the selected chunks are, as a multiset, those of all chunks of the project and profiler.
\<close>

theorem window_query_complete:
  assumes "\<forall>r \<in> set db. row_ok cd r" "tr_Start ref \<noteq> 0" "tr_End ref \<noteq> 0"
    and "length (filter (in_window ref) db) \<le> maxChunksPerTransaction"
  shows "mset (paths (v2_options ref) (map (row_profile cd) (query_v2 db ref)))
    = mset (paths (v2_options ref) (map (row_profile cd)
        (filter (\<lambda>r. cr_ProjectID r = tr_ProjectID ref \<and> cr_ProfilerID r = tr_ProfilerID ref) db)))"
proof -
  let ?same = "\<lambda>r. cr_ProjectID r = tr_ProjectID ref \<and> cr_ProfilerID r = tr_ProfilerID ref"
  let ?f = "\<lambda>r. paths (v2_options ref) [row_profile cd r]"
  have "query_v2 db ref = sort_key cr_StartTs (filter (in_window ref) db)"
    using assms(4) by (simp add: query_v2_def)
  also have "filter (in_window ref) db = filter (in_window ref) (filter ?same db)"
    by (auto simp: in_window_def intro!: filter_cong)
  finally have q: "query_v2 db ref = sort_key cr_StartTs (filter (in_window ref) (filter ?same db))" .
  have "?f r = []" if "r \<in> set (filter ?same db)" "\<not> in_window ref r" for r
  proof -
    have ok: "row_ok cd r" using assms(1) that by simp
    then obtain p where p: "row_profile cd r = Some p" by (auto simp: row_ok_def split: option.splits)
    with profile_paths_outside [OF ok p assms(2,3)] that show ?thesis by (simp add: in_window_def paths_def)
  qed
  then have "mset (concat (map ?f (filter (in_window ref) (filter ?same db)))) = mset (concat (map ?f (filter ?same db)))"
    by (rule mset_concat_filter)
  then show ?thesis unfolding q paths_map mset_concat_sort .
qed

lemma query_v1_length: "length (query_v1 db ref) \<le> 1"
  by (simp add: query_v1_def)

lemma query_v1_subset: "set (query_v1 db ref) \<subseteq> set db"
  unfolding query_v1_def by (auto dest!: in_set_takeD)

lemma length_filter_mono: "(\<And>x. P x \<Longrightarrow> Q x) \<Longrightarrow> length (filter P xs) \<le> length (filter Q xs)"
  by (induction xs) auto

lemma fold_v1_samples:
  assumes "profile_ok mx p"
  shows "2 \<le> fg_SampleCount (Fold [Some p] (v1_options [p]))"
proof -
  define t where "t = fo_ThreadID (v1_options [p])"
  have o: "fo_StartNs (v1_options [p]) = 0" "fo_EndNs (v1_options [p]) = 0"
    by (simp_all add: v1_options_def Let_def)
  have b: "busy (v1_options [p]) p s \<longleftrightarrow> (t = [] \<or> ps_ThreadID s = t) \<and> active_sample p s" for s
    by (auto simp: busy_def selected_def active_sample_def o t_def)
  have "t \<noteq> [] \<Longrightarrow> hasThread p t" by (auto simp: t_def v1_options_def Let_def split: if_splits)
  moreover have "pr_Samples p \<noteq> []" using assms by (simp add: profile_ok_def)
  ultimately have "\<exists>s \<in> set (pr_Samples p). t = [] \<or> ps_ThreadID s = t"
    by (cases "t = []") (auto simp: hasThread_def ex_in_conv)
  then obtain s where s: "s \<in> set (pr_Samples p)" "t = [] \<or> ps_ThreadID s = t" by blast
  then have "2 \<le> activity p (ps_ThreadID s)" using assms by (auto simp: profile_ok_def)
  also have "\<dots> \<le> length (filter (busy (v1_options [p]) p) (pr_Samples p))"
    unfolding activity_def using s(2) b by (intro length_filter_mono) auto
  also have "\<dots> = fg_SampleCount (Fold [Some p] (v1_options [p]))"
    using Fold_counts [of "[Some p]" "v1_options [p]"] by (simp add: counts_def paths_def profile_paths_def)
  finally show ?thesis .
qed

text \<open>
The graph of a v1 profile is never empty: when the stored profiles are normalized, a successful
lookup has at least two samples, whether or not the profile's active thread was sampled.
\<close>

theorem fold_v1_not_empty:
  assumes "foldV1 cd c db ref = Inr g"
    and "\<forall>r \<in> set db. \<forall>p. row_profile cd r = Some p \<longrightarrow> profile_ok maxProfileDuration p"
  shows "2 \<le> fg_SampleCount g"
proof -
  obtain profs c' where d: "decodeRows cd c (query_v1 db ref) maxDecodedBytesPerRequest = Inr (profs, c')"
    "profs \<noteq> []" "g = Fold (map Some profs) (v1_options profs)"
    using assms(1) by (auto simp: foldV1_def split: sum.splits if_splits)
  obtain n where "decode_rows cd c maxDecodedBytesPerRequest (query_v1 db ref) [] 0 = Inr ((profs, n), c')"
    using d(1) by (auto simp: decodeRows_def split: sum.splits)
  from decode_rows_prefix [OF this] obtain k where
    k: "k \<le> length (query_v1 db ref)" "map Some profs = map (row_profile cd) (take k (query_v1 db ref))"
    by (auto simp: maxDecodedBytesPerRequest_def)
  have "length profs = k" using arg_cong [OF k(2), of length] k(1) by simp
  then have "length profs \<le> 1" using k(1) query_v1_length [of db ref] by linarith
  then obtain p where p: "profs = [p]" using d(2) by (cases profs) auto
  then have "\<exists>r \<in> set (query_v1 db ref). row_profile cd r = Some p"
    using k(2) by (cases "query_v1 db ref"; cases k) auto
  then have "profile_ok maxProfileDuration p" using assms(2) query_v1_subset by blast
  from fold_v1_samples [OF this] show ?thesis using d(3) p by simp
qed

section \<open>A concrete table\<close>

definition demo_codec :: codec where
  "demo_codec = \<lparr>cd_decompress = (\<lambda>d. Some (d @ d)),
     cd_unmarshal = (\<lambda>t. if t = ''cc'' then Some (demo_profile\<lparr>pr_Samples := rev (pr_Samples demo_profile)\<rparr>)
        else case ParseProfile (Some (demo_v1 100 [0, 50])) of Inr p \<Rightarrow> Some p | Inl _ \<Rightarrow> None)\<rparr>"

definition demo_row :: "string \<Rightarrow> chunk_row" where
  "demo_row d = \<lparr>cr_ProjectID = ''p'', cr_TransactionEventID = ''t'', cr_ProfilerID = ''f'', cr_StartTs = 20,
     cr_EndTs = 30, cr_ReceivedAt = 40, cr_Encoding = 1, cr_Data = d\<rparr>"

definition demo_ref :: transaction_ref where
  "demo_ref = \<lparr>tr_ProjectID = ''p'', tr_EventID = ''t'', tr_ProfilerID = ''f'', tr_ThreadID = ''1'', tr_Start = 25, tr_End = 90\<rparr>"

theorem decode_within_budget_witness:
  "\<exists>ps c'. decodeRows demo_codec None [demo_row ''c'', demo_row ''c''] 3 = Inr (ps, c')
     \<and> (\<exists>k \<le> 2. map Some ps = map (row_profile demo_codec) (take k [demo_row ''c'', demo_row ''c'']))"
proof -
  have "\<exists>ps c'. decodeRows demo_codec None [demo_row ''c'', demo_row ''c''] 3 = Inr (ps, c')"
    by (simp add: decodeRows_def DecodeProfileLimited_def demo_row_def demo_codec_def ProfileEncodingZstdJSON_def)
  then obtain ps c' where d: "decodeRows demo_codec None [demo_row ''c'', demo_row ''c''] 3 = Inr (ps, c')" by blast
  from decode_within_budget [OF d] obtain k where
    k: "k \<le> length [demo_row ''c'', demo_row ''c'']"
      "map Some ps = map (row_profile demo_codec) (take k [demo_row ''c'', demo_row ''c''])" by auto
  from k(1) have "k \<le> 2" by simp
  with d k(2) show ?thesis by blast
qed

theorem window_query_complete_witness:
  "mset (paths (v2_options demo_ref) (map (row_profile demo_codec) (query_v2 [demo_row ''c''] demo_ref)))
   = mset (paths (v2_options demo_ref) (map (row_profile demo_codec) [demo_row ''c'']))"
proof -
  have "row_ok demo_codec (demo_row ''c'')"
    by (simp add: row_ok_def row_profile_def demo_codec_def demo_row_def demo_profile_def maxProfileChunkDuration_def)
  then show ?thesis using window_query_complete [of "[demo_row ''c'']" demo_codec demo_ref]
    by (simp add: demo_ref_def maxChunksPerTransaction_def) (simp add: demo_row_def)
qed

theorem fold_v1_not_empty_witness:
  "\<exists>g. foldV1 demo_codec None [demo_row ''x''] demo_ref = Inr g \<and> 2 \<le> fg_SampleCount g"
proof -
  have "\<exists>p. ParseProfile (Some (demo_v1 100 [0, 50])) = Inr p"
    by (simp add: ParseProfile_def demo_v1_def Let_def associated_transaction_def windowed_def demo_tx_def adoptSampleData_def
      maxProfileSamples_def demo_sample_def normalize_def empty_profile_def maxIDBytes_def dropSingleSampleThreads_def
      active_counts_def index_ok_def sort_samples_def Duration_def dropUnreferencedThreadNames_def maxProfileDuration_def
      wrap64_def)
  then obtain p where p: "ParseProfile (Some (demo_v1 100 [0, 50])) = Inr p" by blast
  have ok: "profile_ok maxProfileDuration p"
  proof -
    have "associated_transaction (demo_v1 100 [0, 50]) = Some (demo_tx 100)"
      by (simp add: demo_v1_def associated_transaction_def)
    from ParseProfile_cases [OF p this] obtain q where "normalize maxProfileDuration q = Inr p" by blast
    then show ?thesis by (rule normalize_profile_ok)
  qed
  have r: "row_profile demo_codec (demo_row ''x'') = Some p"
    by (simp add: row_profile_def demo_codec_def demo_row_def p)
  have "\<exists>g. foldV1 demo_codec None [demo_row ''x''] demo_ref = Inr g"
    by (simp add: foldV1_def decodeRows_def query_v1_def DecodeProfileLimited_def demo_row_def demo_ref_def demo_codec_def
        ProfileEncodingZstdJSON_def p maxDecodedBytesPerRequest_def)
  then obtain g where g: "foldV1 demo_codec None [demo_row ''x''] demo_ref = Inr g" by blast
  from fold_v1_not_empty [OF g] r ok have "2 \<le> fg_SampleCount g" by simp
  with g show ?thesis by blast
qed

end
