(* ===== verification/Sourcemap.thy ===== *)
theory Sourcemap
  imports Prelude
begin

text \<open>
  The source-map parser and resolver of \<open>internal/sourcemaps/parse.go\<close>. The model starts from
  the struct that \<open>json.Unmarshal\<close> fills (\<open>None\<close> stands for its error) and
  follows the code from there: the Base64-VLQ decoder, the mappings parser with its cumulative fields,
  the check of an index map's sections, and the two lookups. Integers are Go's 64-bit \<open>int\<close>:
  every sum goes through \<open>wrap64\<close>. A nil dereference in \<open>Resolve\<close> is a value of its
  own, \<open>Panic\<close>, so that its absence is a theorem.
\<close>

unbundle bit_operations_syntax

section \<open>Data\<close>

record segment =
  genCol :: go_int
  sourceIdx :: go_int
  origLine :: go_int
  origCol :: go_int
  hasSource :: bool

datatype source_map = SourceMap
    (sm_version: go_int) (sm_sources: "string list") (sm_contents: "string list")
    (sm_names: "string list") (sm_mappings: string) (sm_sections: "map_section list")
    (sm_lines: "segment list list")
  and map_section = Section (off_line: go_int) (off_col: go_int) (sec_map: "source_map option")

record resolved_frame =
  rf_source :: string
  rf_line :: go_int
  rf_col :: go_int
  rf_context :: string

datatype vlq_error = VlqEnd | VlqBadChar char

datatype map_error =
    CtxCancelled
  | BadJSON
  | BadVersion go_int
  | GenColErr nat vlq_error
  | SrcIdxErr nat vlq_error
  | OrigLineErr nat vlq_error
  | OrigColErr nat vlq_error
  | SectionNotEmbedded nat
  | SectionVersion nat go_int
  | SectionNested nat
  | SectionNegative nat
  | SectionOrder nat
  | SectionMappings nat map_error

section \<open>Base64 VLQ\<close>

definition b64chars :: string where
  "b64chars = ''ABCDEFGHIJKLMNOPQRSTUVWXYZabcdefghijklmnopqrstuvwxyz0123456789+/''"

text \<open>\<open>x << n\<close> on a 64-bit int: bits shifted past the top are lost.\<close>

definition shl64 :: "int \<Rightarrow> nat \<Rightarrow> int" where
  "shl64 x n = wrap64 (push_bit n x)"

function vlq_loop :: "string \<Rightarrow> nat \<Rightarrow> int \<Rightarrow> nat \<Rightarrow> vlq_error + int \<times> nat" where
  "vlq_loop s pos result shift =
     (if length s \<le> pos then Inl VlqEnd
      else case index_byte b64chars (s ! pos) of
        None \<Rightarrow> Inl (VlqBadChar (s ! pos))
      | Some digit \<Rightarrow>
          let result' = result OR shl64 (int digit AND 31) shift in
          if int digit AND 32 = 0 then Inr (result', pos + 1)
          else vlq_loop s (pos + 1) result' (shift + 5))"
  by pat_completeness auto
termination
  by (relation "measure (\<lambda>(s, pos, _, _). length s - pos)") auto

declare vlq_loop.simps [simp del]

definition vlq_sign :: "int \<Rightarrow> int" where
  "vlq_sign result =
     (if result AND 1 \<noteq> 0 then wrap64 (- drop_bit 1 result) else drop_bit 1 result)"

definition decodeVLQ :: "string \<Rightarrow> nat \<Rightarrow> vlq_error + int \<times> nat" where
  "decodeVLQ s pos =
     (case vlq_loop s pos 0 0 of
        Inl e \<Rightarrow> Inl e
      | Inr (result, pos') \<Rightarrow> Inr (vlq_sign result, pos'))"

section \<open>Parsing the mappings\<close>

text \<open>
  The cumulative state of \<open>parseMappings\<close>: source index, original line and original column, which run through
  the whole string (the generated column is reset at every line).
\<close>

type_synonym cum = "go_int \<times> go_int \<times> go_int"

text \<open>The body of the inner loop: one segment of line \<open>li\<close>, not empty.\<close>

definition parse_segment ::
  "nat \<Rightarrow> string \<Rightarrow> go_int \<Rightarrow> cum \<Rightarrow> map_error + segment \<times> go_int \<times> cum" where
  "parse_segment li rawSeg gc c =
     (case c of (srcIdx, oLine, oCol) \<Rightarrow>
      case decodeVLQ rawSeg 0 of
        Inl e \<Rightarrow> Inl (GenColErr (li + 1) e)
      | Inr (d0, p0) \<Rightarrow>
          let gc' = wrap64 (gc + d0) in
          if length rawSeg \<le> p0
          then Inr (\<lparr>genCol = gc', sourceIdx = 0, origLine = 0, origCol = 0, hasSource = False\<rparr>, gc', c)
          else (case decodeVLQ rawSeg p0 of
            Inl e \<Rightarrow> Inl (SrcIdxErr (li + 1) e)
          | Inr (d1, p1) \<Rightarrow> (case decodeVLQ rawSeg p1 of
              Inl e \<Rightarrow> Inl (OrigLineErr (li + 1) e)
            | Inr (d2, p2) \<Rightarrow> (case decodeVLQ rawSeg p2 of
                Inl e \<Rightarrow> Inl (OrigColErr (li + 1) e)
              | Inr (d3, p3) \<Rightarrow>
                  let s' = wrap64 (srcIdx + d1); l' = wrap64 (oLine + d2); c' = wrap64 (oCol + d3) in
                  Inr (\<lparr>genCol = gc', sourceIdx = s', origLine = l', origCol = c', hasSource = True\<rparr>,
                       gc', (s', l', c'))))))"

fun parse_segments ::
  "nat \<Rightarrow> string list \<Rightarrow> go_int \<Rightarrow> cum \<Rightarrow> ctx \<Rightarrow> map_error + segment list \<times> cum \<times> ctx" where
  "parse_segments li [] gc c x = Inr ([], c, x)"
| "parse_segments li (rawSeg # rest) gc c x =
     (case poll x of
        None \<Rightarrow> Inl CtxCancelled
      | Some x' \<Rightarrow>
          if rawSeg = [] then parse_segments li rest gc c x'
          else (case parse_segment li rawSeg gc c of
            Inl e \<Rightarrow> Inl e
          | Inr (seg, gc', c') \<Rightarrow> (case parse_segments li rest gc' c' x' of
              Inl e \<Rightarrow> Inl e
            | Inr (segs, r) \<Rightarrow> Inr (seg # segs, r))))"

fun parse_lines ::
  "nat \<Rightarrow> string list \<Rightarrow> cum \<Rightarrow> ctx \<Rightarrow> map_error + segment list list \<times> ctx" where
  "parse_lines li [] c x = Inr ([], x)"
| "parse_lines li (rawLine # rest) c x =
     (case poll x of
        None \<Rightarrow> Inl CtxCancelled
      | Some x' \<Rightarrow>
          if rawLine = []
          then (case parse_lines (li + 1) rest c x' of
            Inl e \<Rightarrow> Inl e | Inr (ls, r) \<Rightarrow> Inr ([] # ls, r))
          else (case parse_segments li (split_on (CHR '','') rawLine) 0 c x' of
            Inl e \<Rightarrow> Inl e
          | Inr (segs, c', x'') \<Rightarrow> (case parse_lines (li + 1) rest c' x'' of
              Inl e \<Rightarrow> Inl e | Inr (ls, r) \<Rightarrow> Inr (segs # ls, r))))"

fun with_lines :: "source_map \<Rightarrow> segment list list \<Rightarrow> source_map" where
  "with_lines (SourceMap v s c n m secs _) ls = SourceMap v s c n m secs ls"

definition parseMappings :: "source_map \<Rightarrow> ctx \<Rightarrow> map_error + source_map \<times> ctx" where
  "parseMappings sm x =
     (case parse_lines 0 (split_on (CHR '';'') (sm_mappings sm)) (0, 0, 0) x of
        Inl e \<Rightarrow> Inl e
      | Inr (ls, x') \<Rightarrow> Inr (with_lines sm ls, x'))"

text \<open>The checks of section \<open>i\<close>, \<open>prev\<close> being the offset of the section before it.\<close>

fun check_section :: "nat \<Rightarrow> (go_int \<times> go_int) option \<Rightarrow> map_section \<Rightarrow> map_error + source_map" where
  "check_section i prev (Section l c m) =
     (case m of
        None \<Rightarrow> Inl (SectionNotEmbedded i)
      | Some sub \<Rightarrow>
          if sm_version sub \<noteq> 3 then Inl (SectionVersion i (sm_version sub))
          else if sm_sections sub \<noteq> [] then Inl (SectionNested i)
          else if l < 0 \<or> c < 0 then Inl (SectionNegative i)
          else (case prev of
            Some (pl, pc) \<Rightarrow> if l < pl \<or> l = pl \<and> c < pc then Inl (SectionOrder i) else Inr sub
          | None \<Rightarrow> Inr sub))"

fun parse_sections ::
  "nat \<Rightarrow> (go_int \<times> go_int) option \<Rightarrow> map_section list \<Rightarrow> ctx \<Rightarrow> map_error + map_section list \<times> ctx" where
  "parse_sections i prev [] x = Inr ([], x)"
| "parse_sections i prev (sec # rest) x =
     (case check_section i prev sec of
        Inl e \<Rightarrow> Inl e
      | Inr sub \<Rightarrow> (case parseMappings sub x of
          Inl e \<Rightarrow> Inl (SectionMappings i e)
        | Inr (sub', x') \<Rightarrow>
            (case parse_sections (i + 1) (Some (off_line sec, off_col sec)) rest x' of
               Inl e \<Rightarrow> Inl e
             | Inr (secs, r) \<Rightarrow> Inr (Section (off_line sec) (off_col sec) (Some sub') # secs, r))))"

fun with_sections :: "source_map \<Rightarrow> map_section list \<Rightarrow> source_map" where
  "with_sections (SourceMap v s c n m _ ls) secs = SourceMap v s c n m secs ls"

text \<open>\<open>decoded\<close> is what \<open>json.Unmarshal\<close> makes of the data.\<close>

definition ParseContext :: "source_map option \<Rightarrow> ctx \<Rightarrow> map_error + source_map" where
  "ParseContext decoded x =
     (case poll x of
        None \<Rightarrow> Inl CtxCancelled
      | Some x' \<Rightarrow> (case decoded of
          None \<Rightarrow> Inl BadJSON
        | Some sm \<Rightarrow>
            if sm_version sm \<noteq> 3 then Inl (BadVersion (sm_version sm))
            else if sm_sections sm \<noteq> []
            then (case parse_sections 0 None (sm_sections sm) x' of
              Inl e \<Rightarrow> Inl e | Inr (secs, _) \<Rightarrow> Inr (with_sections sm secs))
            else (case parseMappings sm x' of Inl e \<Rightarrow> Inl e | Inr (sm', _) \<Rightarrow> Inr sm')))"

section \<open>Resolving a position\<close>

datatype resolve_result = Panic | NotFound | Found resolved_frame

text \<open>
  The binary search of \<open>Resolve\<close>, on the indices \<open>lo\<close> and \<open>hi\<close> of the source;
  \<open>found\<close> is \<open>-1\<close> until a segment qualifies. Reading outside the slice would be a
  panic: \<open>None\<close>.
\<close>

function bsearch :: "segment list \<Rightarrow> go_int \<Rightarrow> int \<Rightarrow> int \<Rightarrow> int \<Rightarrow> int option" where
  "bsearch segs col lo hi found =
     (if lo \<le> hi
      then let mid = (lo + hi) div 2 in
        if mid < 0 \<or> int (length segs) \<le> mid then None
        else if genCol (segs ! nat mid) \<le> col then bsearch segs col (mid + 1) hi mid
        else bsearch segs col lo (mid - 1) found
      else Some found)"
  by pat_completeness auto
termination
  by (relation "measure (\<lambda>(segs, col, lo, hi, found). nat (hi - lo + 1))") (auto simp: Let_def)

declare bsearch.simps [simp del]

definition nth_or :: "'a \<Rightarrow> 'a list \<Rightarrow> int \<Rightarrow> 'a" where
  "nth_or d xs i = (if 0 \<le> i \<and> i < int (length xs) then xs ! nat i else d)"

definition context_line :: "string list \<Rightarrow> segment \<Rightarrow> string" where
  "context_line contents seg =
     (if 0 \<le> sourceIdx seg \<and> sourceIdx seg < int (length contents)
      then trim_right (\<lambda>c. c = CHR 0x0D)
        (nth_or [] (split_on (CHR 0x0A) (contents ! nat (sourceIdx seg))) (origLine seg))
      else [])"

definition frame_of :: "source_map \<Rightarrow> segment \<Rightarrow> resolved_frame" where
  "frame_of sm seg =
     \<lparr>rf_source = nth_or [] (sm_sources sm) (sourceIdx seg), rf_line = wrap64 (origLine seg + 1),
      rf_col = origCol seg, rf_context = context_line (sm_contents sm) seg\<rparr>"

text \<open>\<open>Resolve\<close> on a map without sections.\<close>

definition resolve_flat :: "source_map \<Rightarrow> go_int \<Rightarrow> go_int \<Rightarrow> resolve_result" where
  "resolve_flat sm line col =
     (let lineIdx = wrap64 (line - 1) in
      if lineIdx < 0 \<or> int (length (sm_lines sm)) \<le> lineIdx then NotFound
      else let segs = sm_lines sm ! nat lineIdx in
        if segs = [] then NotFound
        else (case bsearch segs col 0 (int (length segs) - 1) (-1) of
          None \<Rightarrow> Panic
        | Some found \<Rightarrow>
            if found < 0 \<or> \<not> hasSource (segs ! nat found) then NotFound
            else Found (frame_of sm (segs ! nat found))))"

text \<open>The predicate \<open>resolveSection\<close> searches with: does section \<open>i\<close> start after the position?\<close>

definition starts_after :: "map_section list \<Rightarrow> go_int \<Rightarrow> go_int \<Rightarrow> nat \<Rightarrow> bool" where
  "starts_after secs lineIdx col i \<longleftrightarrow>
     lineIdx < off_line (secs ! i) \<or> off_line (secs ! i) = lineIdx \<and> col < off_col (secs ! i)"

lemma size_sec_map: "sec_map sec = Some sub \<Longrightarrow> size sub < size sec"
  by (cases sec) auto

lemma size_sections: "sec \<in> set (sm_sections sm) \<Longrightarrow> size sec < size sm"
  by (cases sm) (auto simp: less_Suc_eq_le dest!: size_list_estimation' [of _ _ "size sec" size])

function Resolve :: "source_map \<Rightarrow> go_int \<Rightarrow> go_int \<Rightarrow> resolve_result" where
  "Resolve sm line col =
     (if sm_sections sm = [] then resolve_flat sm line col
      else let lineIdx = wrap64 (line - 1);
               i = sort_search (length (sm_sections sm)) (starts_after (sm_sections sm) lineIdx col)
           in if i = 0 then NotFound
              else let sec = sm_sections sm ! (i - 1);
                       col' = (if lineIdx = off_line sec then wrap64 (col - off_col sec) else col)
                   in (case sec_map sec of
                         None \<Rightarrow> Panic
                       | Some sub \<Rightarrow> Resolve sub (wrap64 (lineIdx - off_line sec + 1)) col'))"
  by pat_completeness auto
termination
proof (relation "measure (\<lambda>(sm, _, _). size sm)", goal_cases)
  case (2 sm line col lineIdx i sec col' sub)
  have "i \<le> length (sm_sections sm)" using 2(3) sort_search_le by simp
  with 2 have "sec \<in> set (sm_sections sm)" by (auto simp: Suc_le_eq)
  with 2 show ?case using size_sec_map size_sections by fastforce
qed simp

declare Resolve.simps [simp del]

section \<open>The decoder\<close>

lemma or_push_bit_add:
  fixes r x :: int
  assumes "0 \<le> r" "r < 2 ^ k"
  shows "r OR push_bit k x = r + x * 2 ^ k"
proof -
  have "r AND push_bit k x = 0"
  proof (rule bit_eqI)
    fix n
    have "\<not> bit r n" if "k \<le> n"
      using assms that by (metis bit_take_bit_iff linorder_not_less take_bit_int_eq_self_iff)
    then show "bit (r AND push_bit k x) n = bit 0 n"
      by (auto simp: bit_and_iff bit_push_bit_iff)
  qed
  then show ?thesis by (simp add: disjunctive_add_eq_or push_bit_eq_mult)
qed

lemma b64_distinct: "distinct b64chars" by (simp add: b64chars_def)
lemma b64_length: "length b64chars = 64" by (simp add: b64chars_def)

definition b64_digit :: "nat \<Rightarrow> char" where
  "b64_digit d = b64chars ! d"

lemma index_b64_digit: "d < 64 \<Longrightarrow> index_byte b64chars (b64_digit d) = Some d"
  by (simp add: b64_digit_def index_byte_nth b64_distinct b64_length)

fun encode_digits :: "nat \<Rightarrow> string" where
  "encode_digits n =
     (if n < 32 then [b64_digit n] else b64_digit (n mod 32 + 32) # encode_digits (n div 32))"

declare encode_digits.simps [simp del]

definition encode_vlq :: "int \<Rightarrow> string" where
  "encode_vlq v = encode_digits (if v < 0 then 2 * nat (- v) + 1 else 2 * nat v)"

lemma and_31: "(x::int) AND 31 = x mod 32"
  using take_bit_eq_mask[of 5 x] by (simp add: take_bit_eq_mod mask_eq_exp_minus_1)

lemma and_32: "0 \<le> x \<Longrightarrow> x < 64 \<Longrightarrow> (x AND 32 = 0) = (x < (32::int))"
proof -
  assume "0 \<le> x" "x < 64"
  then have "\<forall>n\<in>{0..<64}. (int n AND 32 = 0) = (int n < 32) \<Longrightarrow> ?thesis"
    by (auto dest: bspec[of _ _ "nat x"])
  moreover have "\<forall>n\<in>{0..<64}. (int n AND 32 = 0) = (int n < 32)" by code_simp
  ultimately show ?thesis by blast
qed

lemma vlq_loop_encode:
  assumes "0 \<le> r" "r < 2 ^ k" "int n * 2 ^ k < 2 ^ 63"
  shows "vlq_loop (pre @ encode_digits n @ suf) (length pre) r k
    = Inr (r + int n * 2 ^ k, length pre + length (encode_digits n))"
  using assms
proof (induction n arbitrary: pre r k rule: encode_digits.induct)
  case (1 n)
  show ?case
  proof (cases "n < 32")
    case True
    have "shl64 (int n) k = push_bit k (int n)"
      using "1.prems" by (simp add: shl64_def push_bit_eq_mult is_int64_small)
    moreover have "int n AND 31 = int n" "int n AND 32 = 0" using True and_32[of "int n"] by (simp_all add: and_31)
    ultimately show ?thesis using True "1.prems"
      by (subst vlq_loop.simps, subst (1 2 3) encode_digits.simps)
        (simp add: encode_digits.simps[of n] index_b64_digit nth_append or_push_bit_add)
  next
    case False
    let ?d = "n mod 32 + 32"
    let ?r = "r + int (n mod 32) * 2 ^ k"
    have le: "int (n mod 32) * 2 ^ k \<le> int n * 2 ^ k" by (rule mult_right_mono) simp_all
    have sh: "shl64 (int (n mod 32)) k = push_bit k (int (n mod 32))"
    proof -
      have "is_int64 (int (n mod 32) * 2 ^ k)" 
        by (rule is_int64_small) (simp, rule le_less_trans [OF le "1.prems"(3)])
      then show ?thesis by (simp only: shl64_def push_bit_eq_mult wrap64_id)
    qed
    have d: "int ?d AND 31 = int (n mod 32)" "int ?d AND 32 \<noteq> 0"
      using and_32[of "int ?d"] by (simp_all add: and_31 of_nat_mod)
    have r: "0 \<le> ?r" "?r < 2 ^ (k + 5)"
    proof -
      have "int (n mod 32) \<le> 31" by simp
      then have "int (n mod 32) * 2 ^ k \<le> 31 * 2 ^ k" by (intro mult_right_mono) simp_all
      with "1.prems"(2) have "?r < 2 ^ k + 31 * 2 ^ k" by (rule add_less_le_mono)
      also have "\<dots> = 2 ^ (k + 5)" by (simp add: power_add)
      finally show "?r < 2 ^ (k + 5)" .
      show "0 \<le> ?r" using "1.prems" by simp
    qed
    have n: "int n = int (n div 32) * 32 + int (n mod 32)"
      by (metis div_mult_mod_eq of_nat_add of_nat_mult of_nat_numeral)
    then have e: "int n * 2 ^ k = int (n div 32) * 2 ^ (k + 5) + int (n mod 32) * 2 ^ k"
      by (simp add: power_add algebra_simps)
    have b: "int (n div 32) * 2 ^ (k + 5) < 2 ^ 63"
      using "1.prems"(3) e by (smt (verit) mult_nonneg_nonneg of_nat_0_le_iff zero_le_power)
    have step: "vlq_loop (pre @ encode_digits n @ suf) (length pre) r k
      = vlq_loop ((pre @ [b64_digit ?d]) @ encode_digits (n div 32) @ suf) (length (pre @ [b64_digit ?d])) ?r (k + 5)"
      using False "1.prems" sh d
      by (subst vlq_loop.simps, subst (1 2 3 4 5) encode_digits.simps)
        (simp add: index_b64_digit nth_append or_push_bit_add Let_def)
    show ?thesis
      unfolding step using "1.IH"[OF False r b, of "pre @ [b64_digit ?d]"] False e
      by (simp add: encode_digits.simps[of n])
  qed
qed

lemma and_1: "(x::int) AND 1 = x mod 2" by (simp add: and_one_eq)

text \<open>
The VLQ decoder inverts the encoding the source-map format prescribes: reading at the position where
the encoding of any integer below 2^62 in magnitude starts gives back that integer and the position
just after it, whatever surrounds it in the string.
\<close>

theorem vlq_round_trip:
  assumes "\<bar>v\<bar> < 2 ^ 62"
  shows "decodeVLQ (pre @ encode_vlq v @ suf) (length pre) = Inr (v, length pre + length (encode_vlq v))"
proof -
  define n where "n = (if v < 0 then 2 * nat (- v) + 1 else 2 * nat v)"
  have "int n * 2 ^ 0 < 2 ^ 63" using assms by (auto simp: n_def)
  then have "vlq_loop (pre @ encode_vlq v @ suf) (length pre) 0 0 = Inr (int n, length pre + length (encode_vlq v))"
    using vlq_loop_encode[of 0 0 n pre suf] by (simp add: encode_vlq_def n_def)
  moreover have "vlq_sign (int n) = v"
  proof (cases "v < 0")
    case True
    then have "int n = 1 - 2 * v" "(1 - 2 * v) mod 2 = 1" "(1 - 2 * v) div 2 = - v"
      by (simp_all add: n_def) presburger+
    with assms True show ?thesis by (simp add: vlq_sign_def and_1 drop_bit_eq_div is_int64_def)
  next
    case False
    then show ?thesis by (simp add: vlq_sign_def n_def and_1 drop_bit_eq_div)
  qed
  ultimately show ?thesis by (simp add: decodeVLQ_def)
qed


lemma vlq_loop_bounds:
  "vlq_loop s pos r k = Inr (v, p) \<Longrightarrow> pos < p \<and> p \<le> length s"
  by (induction s pos r k rule: vlq_loop.induct)
    (subst (asm) (2) vlq_loop.simps, fastforce simp: Let_def split: if_splits option.splits)

lemma is_int64_iff_bits: "is_int64 a \<longleftrightarrow> signed_take_bit 63 a = a"
  by (metis is_int64_def signed_take_bit_int_eq_self signed_take_bit_int_greater_eq_minus_exp
      signed_take_bit_int_less_exp)

lemma is_int64_bit:
  assumes "is_int64 a"
  shows "bit a (min 63 n) = bit a n"
  using bit_signed_take_bit_iff [of 63 a n] assms by (simp add: is_int64_iff_bits)

lemma is_int64_or: "is_int64 a \<Longrightarrow> is_int64 b \<Longrightarrow> is_int64 (a OR b)"
  unfolding is_int64_iff_bits [of "a OR b"]
  by (rule bit_eqI) (simp add: bit_signed_take_bit_iff bit_or_iff is_int64_bit)

lemma vlq_loop_int64:
  "vlq_loop s pos r k = Inr (v, p) \<Longrightarrow> is_int64 r \<Longrightarrow> is_int64 v"
  by (induction s pos r k rule: vlq_loop.induct)
    (subst (asm) (2) vlq_loop.simps,
     fastforce simp: Let_def shl64_def intro: is_int64_or split: if_splits option.splits)

text \<open>
When decodeVLQ succeeds it has consumed at least one character and stayed inside the string, and its
value lies within 2^62 in magnitude, so the arithmetic on an arbitrarily long hostile run of digits
never leaves the range of the result.
\<close>

theorem decodeVLQ_bounds:
  assumes "decodeVLQ s pos = Inr (v, p)"
  shows "pos < p \<and> p \<le> length s \<and> - (2 ^ 62) \<le> v \<and> v \<le> 2 ^ 62"
proof -
  from assms obtain r where r: "vlq_loop s pos 0 0 = Inr (r, p)" and v: "v = vlq_sign r"
    by (auto simp: decodeVLQ_def split: sum.splits)
  have "is_int64 r" using vlq_loop_int64 [OF r] by (simp add: is_int64_def)
  then have "- (2 ^ 62) \<le> r div 2" "r div 2 < 2 ^ 62" by (auto simp: is_int64_def)
  then have "- (2 ^ 62) \<le> v \<and> v \<le> 2 ^ 62"
    by (auto simp: v vlq_sign_def drop_bit_eq_div is_int64_def)
  with vlq_loop_bounds [OF r] show ?thesis by simp
qed

definition rightmost :: "segment list \<Rightarrow> go_int \<Rightarrow> segment option" where
  "rightmost segs col = (case filter (\<lambda>s. genCol s \<le> col) segs of [] \<Rightarrow> None | xs \<Rightarrow> Some (last xs))"

abbreviation sorted_segs :: "segment list \<Rightarrow> bool" where
  "sorted_segs segs \<equiv> sorted_wrt (\<lambda>a b. genCol a \<le> genCol b) segs"

lemma bsearch_total:
  "0 \<le> lo \<Longrightarrow> hi < int (length segs) \<Longrightarrow> -1 \<le> found \<Longrightarrow> found < int (length segs)
    \<Longrightarrow> \<exists>k. bsearch segs col lo hi found = Some k \<and> -1 \<le> k \<and> k < int (length segs)"
proof (induction segs col lo hi found rule: bsearch.induct)
  case (1 segs col lo hi found)
  define mid where "mid = (lo + hi) div 2"
  show ?case
  proof (cases "lo \<le> hi")
    case True
    then have m: "lo \<le> mid" "mid \<le> hi" by (auto simp: mid_def)
    with 1 True show ?thesis by (subst bsearch.simps) (auto simp: Let_def simp flip: mid_def)
  next
    case False
    with 1 show ?thesis by (subst bsearch.simps) simp
  qed
qed

lemma bsearch_spec:
  assumes "sorted_segs segs" "0 \<le> lo" "hi < int (length segs)" "lo \<le> hi + 1" "found = lo - 1"
    and "\<forall>i < nat lo. genCol (segs ! i) \<le> col"
    and "\<forall>i. hi < int i \<and> i < length segs \<longrightarrow> col < genCol (segs ! i)"
  shows "\<exists>k. bsearch segs col lo hi found = Some k \<and> -1 \<le> k \<and> k < int (length segs)
    \<and> (\<forall>i. int i \<le> k \<longrightarrow> genCol (segs ! i) \<le> col)
    \<and> (\<forall>i. k < int i \<and> i < length segs \<longrightarrow> col < genCol (segs ! i))"
  using assms
proof (induction segs col lo hi found rule: bsearch.induct)
  case (1 segs col lo hi found)
  define mid where "mid = (lo + hi) div 2"
  show ?case
  proof (cases "lo \<le> hi")
    case False
    with "1.prems" have "lo = hi + 1" "found = hi" by auto
    then show ?thesis using "1.prems" by (subst bsearch.simps) auto
  next
    case True
    then have m: "lo \<le> mid" "mid \<le> hi" by (auto simp: mid_def)
    with "1.prems" have in_range: "0 \<le> mid" "mid < int (length segs)" by auto
    have mono: "genCol (segs ! i) \<le> genCol (segs ! j)" if "i \<le> j" "j < length segs" for i j
      using that "1.prems"(1) by (cases "i = j") (auto simp: sorted_wrt_iff_nth_less)
    show ?thesis
    proof (cases "genCol (segs ! nat mid) \<le> col")
      case True
      have "\<forall>i < nat (mid + 1). genCol (segs ! i) \<le> col"
      proof (intro allI impI)
        fix i assume "i < nat (mid + 1)"
        then have "genCol (segs ! i) \<le> genCol (segs ! nat mid)" using in_range by (intro mono) auto
        with True show "genCol (segs ! i) \<le> col" by simp
      qed
      with "1.IH"(1) [OF \<open>lo \<le> hi\<close> mid_def] True "1.prems" m in_range \<open>lo \<le> hi\<close> show ?thesis
        by (subst bsearch.simps) (simp add: Let_def flip: mid_def)
    next
      case False
      have "\<forall>i. mid - 1 < int i \<and> i < length segs \<longrightarrow> col < genCol (segs ! i)"
      proof (intro allI impI)
        fix i assume "mid - 1 < int i \<and> i < length segs"
        then have "genCol (segs ! nat mid) \<le> genCol (segs ! i)" by (intro mono) auto
        with False show "col < genCol (segs ! i)" by simp
      qed
      with "1.IH"(2) [OF \<open>lo \<le> hi\<close> mid_def] False "1.prems" m in_range \<open>lo \<le> hi\<close> show ?thesis
        by (subst bsearch.simps) (simp add: Let_def flip: mid_def)
    qed
  qed
qed

lemma filter_prefix:
  assumes "\<And>i. i < k \<Longrightarrow> P (xs ! i)" "\<And>i. k \<le> i \<Longrightarrow> i < length xs \<Longrightarrow> \<not> P (xs ! i)" "k \<le> length xs"
  shows "filter P xs = take k xs"
proof -
  have "filter P (take k xs) = take k xs"
    using assms(1,3) by (auto simp: filter_id_conv in_set_conv_nth)
  moreover have "filter P (drop k xs) = []"
    using assms(2) by (auto simp: filter_empty_conv in_set_conv_nth)
  ultimately show ?thesis by (metis append_Nil2 append_take_drop_id filter_append)
qed

lemma bsearch_rightmost:
  assumes "sorted_segs segs"
  shows "\<exists>k. bsearch segs col 0 (int (length segs) - 1) (-1) = Some k
    \<and> rightmost segs col = (if k < 0 then None else Some (segs ! nat k))"
proof -
  have "\<exists>k. bsearch segs col 0 (int (length segs) - 1) (-1) = Some k \<and> -1 \<le> k \<and> k < int (length segs)
    \<and> (\<forall>i. int i \<le> k \<longrightarrow> genCol (segs ! i) \<le> col)
    \<and> (\<forall>i. k < int i \<and> i < length segs \<longrightarrow> col < genCol (segs ! i))"
    by (rule bsearch_spec [OF assms]) simp_all
  then obtain k where k: "bsearch segs col 0 (int (length segs) - 1) (-1) = Some k" "-1 \<le> k" "k < int (length segs)"
    and le: "\<And>i. int i \<le> k \<Longrightarrow> genCol (segs ! i) \<le> col"
    and gt: "\<And>i. k < int i \<Longrightarrow> i < length segs \<Longrightarrow> col < genCol (segs ! i)"
    by blast
  have "filter (\<lambda>s. genCol s \<le> col) segs = take (nat (k + 1)) segs"
  proof (rule filter_prefix)
    fix i
    show "i < nat (k + 1) \<Longrightarrow> genCol (segs ! i) \<le> col" using le [of i] by linarith
    show "nat (k + 1) \<le> i \<Longrightarrow> i < length segs \<Longrightarrow> \<not> genCol (segs ! i) \<le> col"
      using gt [of i] by linarith
    show "nat (k + 1) \<le> length segs" using k(3) by linarith
  qed
  moreover have "last (take (nat (k + 1)) segs) = segs ! nat k" if "0 \<le> k"
    using that k by (subst last_conv_nth) (auto simp: nat_add_distrib)
  ultimately show ?thesis using k by (auto simp: rightmost_def split: list.splits)
qed

text \<open>
C37: On a line whose segments are in column order, the binary search of Resolve finds the rightmost
segment that starts at or before the column: the result is that segment's source position when it
has one, and nothing otherwise.
\<close>

theorem resolve_rightmost:
  assumes "sm_sections sm = []" and "1 \<le> line" "line \<le> int (length (sm_lines sm))" "is_int64 line"
    and "sorted_segs (sm_lines sm ! nat (line - 1))"
  shows "Resolve sm line col = (case rightmost (sm_lines sm ! nat (line - 1)) col of
     None \<Rightarrow> NotFound
   | Some seg \<Rightarrow> if hasSource seg then Found (frame_of sm seg) else NotFound)"
proof -
  have w: "wrap64 (line - 1) = line - 1" using assms(2,4) by (intro wrap64_id) (simp add: is_int64_def)
  let ?segs = "sm_lines sm ! nat (line - 1)"
  obtain k where k: "bsearch ?segs col 0 (int (length ?segs) - 1) (-1) = Some k"
      "rightmost ?segs col = (if k < 0 then None else Some (?segs ! nat k))"
    using bsearch_rightmost [OF assms(5), of col] by blast
  with assms(1-3) w show ?thesis
    by (subst Resolve.simps) (auto simp: resolve_flat_def Let_def rightmost_def)
qed


section \<open>Parsed maps and lookups\<close>

definition off_le :: "map_section \<Rightarrow> map_section \<Rightarrow> bool" where
  "off_le a b \<longleftrightarrow> off_line a < off_line b \<or> off_line a = off_line b \<and> off_col a \<le> off_col b"

definition section_ok :: "map_section \<Rightarrow> bool" where
  "section_ok s \<longleftrightarrow> (\<exists>sub. sec_map s = Some sub \<and> sm_sections sub = [])
     \<and> 0 \<le> off_line s \<and> 0 \<le> off_col s"

definition map_ok :: "source_map \<Rightarrow> bool" where
  "map_ok sm \<longleftrightarrow> list_all section_ok (sm_sections sm) \<and> sorted_wrt off_le (sm_sections sm)"

lemma off_le_trans: "off_le a b \<Longrightarrow> off_le b c \<Longrightarrow> off_le a c"
  by (auto simp: off_le_def)

lemma with_lines_sel [simp]:
  "sm_sections (with_lines sm ls) = sm_sections sm" "sm_lines (with_lines sm ls) = ls"
  "sm_version (with_lines sm ls) = sm_version sm"
  by (cases sm; simp)+

lemma with_sections_sel [simp]: "sm_sections (with_sections sm secs) = secs"
  by (cases sm) simp

lemma parseMappings_sections:
  "parseMappings sm x = Inr (sm', x') \<Longrightarrow> sm_sections sm' = sm_sections sm"
  by (auto simp: parseMappings_def split: sum.splits)

lemma check_section_ok:
  assumes "check_section i prev sec = Inr sub"
  shows "sec_map sec = Some sub" "sm_sections sub = []" "0 \<le> off_line sec" "0 \<le> off_col sec"
    and "prev = Some (pl, pc) \<Longrightarrow> off_le (Section pl pc m) sec"
  using assms by (cases sec; auto simp: off_le_def split: option.splits if_splits)+

lemma parse_sections_ok:
  "parse_sections i prev secs x = Inr (secs', x') \<Longrightarrow>
     list_all section_ok secs' \<and> sorted_wrt off_le secs'
     \<and> (\<forall>pl pc. prev = Some (pl, pc) \<longrightarrow> (\<forall>s \<in> set secs'. off_le (Section pl pc None) s))"
proof (induction i prev secs x arbitrary: secs' x' rule: parse_sections.induct)
  case (2 i prev sec rest x)
  from "2.prems" obtain sub sub' x1 secs1 where
    c: "check_section i prev sec = Inr sub" and p: "parseMappings sub x = Inr (sub', x1)"
    and r: "parse_sections (i + 1) (Some (off_line sec, off_col sec)) rest x1 = Inr (secs1, x')"
    and s: "secs' = Section (off_line sec) (off_col sec) (Some sub') # secs1"
    by (auto split: sum.splits)
  note IH = "2.IH" [OF c p refl r]
  let ?s = "Section (off_line sec) (off_col sec) (Some sub')"
  have ok: "section_ok ?s"
    using check_section_ok(2-4) [OF c] parseMappings_sections [OF p] by (simp add: section_ok_def)
  have ge: "\<forall>s \<in> set secs1. off_le ?s s" using IH by (simp add: off_le_def)
  have "off_le (Section pl pc None) s" if pr: "prev = Some (pl, pc)" and "s \<in> set secs'" for pl pc s
  proof -
    have "off_le (Section pl pc None) ?s" using check_section_ok(5) [OF c pr] by (simp add: off_le_def)
    with that(2) ge show ?thesis by (auto simp: s intro: off_le_trans)
  qed
  with ok ge IH show ?case by (simp add: s)
qed simp

lemma parsed_map_ok:
  assumes "ParseContext d x = Inr sm"
  shows "map_ok sm"
proof -
  from assms obtain x1 sm0 where d: "poll x = Some x1" "d = Some sm0"
    by (auto simp: ParseContext_def split: option.splits)
  show ?thesis
  proof (cases "sm_sections sm0 = []")
    case True
    with assms d show ?thesis
      by (auto simp: ParseContext_def map_ok_def parseMappings_def split: if_splits sum.splits)
  next
    case False
    with assms d obtain secs x2 where "parse_sections 0 None (sm_sections sm0) x1 = Inr (secs, x2)"
      and "sm = with_sections sm0 secs"
      by (auto simp: ParseContext_def split: if_splits sum.splits)
    then show ?thesis using parse_sections_ok [of 0 None "sm_sections sm0" x1 secs x2]
      by (simp add: map_ok_def)
  qed
qed

lemma map_ok_nth: "map_ok sm \<Longrightarrow> i \<le> length (sm_sections sm) \<Longrightarrow> i \<noteq> 0 \<Longrightarrow> section_ok (sm_sections sm ! (i - 1))"
  by (simp add: map_ok_def list_all_length)

lemma resolve_flat_no_panic: "resolve_flat sm line col \<noteq> Panic"
proof -
  have "\<exists>k. bsearch segs col 0 (int (length segs) - 1) (-1) = Some k" for segs
    using bsearch_total [of 0 "int (length segs) - 1" segs "-1" col] by auto
  then show ?thesis by (auto simp: resolve_flat_def Let_def split: option.splits) (metis option.distinct(1))
qed

lemma Resolve_flat: "sm_sections sm = [] \<Longrightarrow> Resolve sm line col = resolve_flat sm line col"
  by (subst Resolve.simps) simp

text \<open>A map that \<open>ParseContext\<close> accepted never makes \<open>Resolve\<close> panic.\<close>

lemma Resolve_no_panic:
  assumes "map_ok sm"
  shows "Resolve sm line col \<noteq> Panic"
proof (cases "sm_sections sm = []")
  case True
  then show ?thesis by (simp add: Resolve_flat resolve_flat_no_panic)
next
  case False
  define i where "i = sort_search (length (sm_sections sm)) (starts_after (sm_sections sm) (wrap64 (line - 1)) col)"
  have "i \<le> length (sm_sections sm)" by (simp add: i_def sort_search_le)
  then have "i = 0 \<or> section_ok (sm_sections sm ! (i - 1))"
    using assms map_ok_nth by blast
  with False show ?thesis
    by (subst Resolve.simps)
      (auto simp: Let_def section_ok_def Resolve_flat resolve_flat_no_panic
        simp flip: i_def split: option.splits)
qed

text \<open>The section the position falls in, by the format's rule: the last one that starts at or before it.\<close>

definition covering :: "map_section list \<Rightarrow> go_int \<Rightarrow> go_int \<Rightarrow> map_section option" where
  "covering secs l c =
     (case filter (\<lambda>s. off_line s < l \<or> off_line s = l \<and> off_col s \<le> c) secs of
        [] \<Rightarrow> None | xs \<Rightarrow> Some (last xs))"

lemma covering_Some:
  assumes "covering secs l c = Some s"
  shows "s \<in> set secs \<and> (off_line s < l \<or> off_line s = l \<and> off_col s \<le> c)"
proof -
  let ?xs = "filter (\<lambda>s. off_line s < l \<or> off_line s = l \<and> off_col s \<le> c) secs"
  have xs: "?xs \<noteq> []" "s = last ?xs" using assms by (auto simp: covering_def split: list.splits)
  have "s \<in> set ?xs" unfolding xs(2) using xs(1) by (rule last_in_set)
  then show ?thesis unfolding set_filter by blast
qed

lemma sort_search_covering:
  fixes l c :: go_int
  assumes "sorted_wrt off_le secs"
  defines "i \<equiv> sort_search (length secs) (starts_after secs l c)"
  shows "covering secs l c = (if i = 0 then None else Some (secs ! (i - 1)))"
proof -
  have mono: "starts_after secs l c b" if "a \<le> b" "b < length secs" "starts_after secs l c a" for a b
  proof (cases "a = b")
    case False
    with that assms(1) have "off_le (secs ! a) (secs ! b)" by (simp add: sorted_wrt_iff_nth_less)
    with that(3) show ?thesis by (auto simp: starts_after_def off_le_def)
  qed (use that in simp)
  let ?P = "\<lambda>s. off_line s < l \<or> off_line s = l \<and> off_col s \<le> c"
  have neg: "?P (secs ! k) \<longleftrightarrow> \<not> starts_after secs l c k" for k
    by (auto simp: starts_after_def)
  have le: "i \<le> length secs" by (simp add: i_def sort_search_le)
  have "filter ?P secs = take i secs"
  proof (rule filter_prefix)
    fix k
    show "k < i \<Longrightarrow> ?P (secs ! k)"
      unfolding neg i_def using sort_search_spec(1) [of "length secs" "starts_after secs l c"] mono by blast
    show "i \<le> k \<Longrightarrow> k < length secs \<Longrightarrow> \<not> ?P (secs ! k)"
      unfolding neg i_def using sort_search_spec(2) [of "length secs" "starts_after secs l c"] mono by blast
  qed (rule le)
  moreover have "last (take i secs) = secs ! (i - 1)" if "i \<noteq> 0"
    using that le by (subst last_conv_nth) (auto simp: min_def)
  ultimately show ?thesis using le by (auto simp: covering_def split: list.splits)
qed

text \<open>
On an accepted index map, Resolve looks a position up in the last section that starts at or before
it, with the line shifted by the section's offset and the column shifted on the section's first line
only.
\<close>

theorem resolve_index_map:
  assumes "ParseContext decoded x = Inr sm" "sm_sections sm \<noteq> []"
    and "1 \<le> line" "is_int64 line" "0 \<le> col" "is_int64 col"
  shows "Resolve sm line col = (case covering (sm_sections sm) (line - 1) col of
      None \<Rightarrow> NotFound
    | Some s \<Rightarrow> resolve_flat (the (sec_map s)) (line - off_line s)
                 (if off_line s = line - 1 then col - off_col s else col))"
proof -
  define secs where "secs = sm_sections sm"
  have ok: "map_ok sm" using assms(1) by (rule parsed_map_ok)
  have w: "wrap64 (line - 1) = line - 1" using assms(3,4) by (intro wrap64_id) (simp add: is_int64_def)
  define i where "i = sort_search (length secs) (starts_after secs (line - 1) col)"
  have cov: "covering secs (line - 1) col = (if i = 0 then None else Some (secs ! (i - 1)))"
    unfolding i_def by (rule sort_search_covering) (use ok in \<open>simp add: map_ok_def secs_def\<close>)
  show ?thesis
  proof (cases "i = 0")
    case True
    with cov assms(2) show ?thesis
      by (subst Resolve.simps) (simp add: w flip: secs_def i_def)
  next
    case False
    let ?s = "secs ! (i - 1)"
    have "i \<le> length secs" by (simp add: i_def sort_search_le)
    with False ok have "section_ok ?s" unfolding secs_def by (intro map_ok_nth)
    then obtain sub where s: "sec_map ?s = Some sub" "sm_sections sub = []" "0 \<le> off_line ?s" "0 \<le> off_col ?s"
      by (auto simp: section_ok_def)
    have "off_line ?s < line - 1 \<or> off_line ?s = line - 1 \<and> off_col ?s \<le> col"
      using covering_Some [of secs "line - 1" col ?s] cov False by simp
    then have w1: "wrap64 (line - off_line ?s) = line - off_line ?s"
      and w2: "off_line ?s = line - 1 \<Longrightarrow> wrap64 (col - off_col ?s) = col - off_col ?s"
      using assms(3-6) s(3,4) by (auto simp: is_int64_def)
    have one: "wrap64 1 = 1" by (simp add: is_int64_def)
    from assms(2) False s cov show ?thesis
      by (subst Resolve.simps) (auto simp: w w1 [simplified] w2 [simplified] one Resolve_flat Let_def simp flip: secs_def i_def)
  qed
qed

section \<open>The mappings string\<close>

text \<open>
  The format's encoder: what a tool writes for a table of segments. Fields are relative to the previous
  segment, the generated column to the previous segment of the same line.
\<close>

definition encode_segment :: "go_int \<Rightarrow> cum \<Rightarrow> segment \<Rightarrow> string" where
  "encode_segment gc c seg =
     encode_vlq (genCol seg - gc) @
     (if hasSource seg
      then encode_vlq (sourceIdx seg - fst c) @ encode_vlq (origLine seg - fst (snd c))
           @ encode_vlq (origCol seg - snd (snd c))
      else [])"

definition next_cum :: "cum \<Rightarrow> segment \<Rightarrow> cum" where
  "next_cum c seg = (if hasSource seg then (sourceIdx seg, origLine seg, origCol seg) else c)"

fun encode_line :: "go_int \<Rightarrow> cum \<Rightarrow> segment list \<Rightarrow> string list" where
  "encode_line gc c [] = []"
| "encode_line gc c (seg # segs) = encode_segment gc c seg # encode_line (genCol seg) (next_cum c seg) segs"

fun encode_lines :: "cum \<Rightarrow> segment list list \<Rightarrow> string list" where
  "encode_lines c [] = []"
| "encode_lines c (segs # rest) = join_with '','' (encode_line 0 c segs) # encode_lines (foldl next_cum c segs) rest"

definition encode_mappings :: "segment list list \<Rightarrow> string" where
  "encode_mappings table = join_with '';'' (encode_lines (0, 0, 0) table)"

definition small :: "int \<Rightarrow> bool" where
  "small x \<longleftrightarrow> 0 \<le> x \<and> x < 2 ^ 62"

definition seg_ok :: "segment \<Rightarrow> bool" where
  "seg_ok seg \<longleftrightarrow> small (genCol seg) \<and> small (sourceIdx seg) \<and> small (origLine seg) \<and> small (origCol seg)
     \<and> (\<not> hasSource seg \<longrightarrow> sourceIdx seg = 0 \<and> origLine seg = 0 \<and> origCol seg = 0)"

definition cum_ok :: "cum \<Rightarrow> bool" where
  "cum_ok c \<longleftrightarrow> small (fst c) \<and> small (fst (snd c)) \<and> small (snd (snd c))"

lemma cum_ok_next: "cum_ok c \<Longrightarrow> seg_ok seg \<Longrightarrow> cum_ok (next_cum c seg)"
  by (auto simp: cum_ok_def next_cum_def seg_ok_def)

lemma small_wrap: "small x \<Longrightarrow> wrap64 x = x"
  by (simp add: small_def is_int64_def)

lemma decode_delta:
  assumes "small a" "small b"
  shows "decodeVLQ (pre @ encode_vlq (a - b) @ suf) (length pre)
      = Inr (a - b, length pre + length (encode_vlq (a - b)))"
  using assms by (intro vlq_round_trip) (auto simp: small_def abs_less_iff)

lemma encode_digits_nonempty: "encode_digits n \<noteq> []"
  by (subst encode_digits.simps) simp

lemma encode_vlq_nonempty [simp]: "encode_vlq v \<noteq> []"
  by (simp add: encode_vlq_def encode_digits_nonempty)

lemma encode_digits_chars: "set (encode_digits n) \<subseteq> set b64chars"
proof (induction n rule: encode_digits.induct)
  case (1 n)
  have "b64_digit d \<in> set b64chars" if "d < 64" for d
    using that by (simp add: b64_digit_def b64_length)
  with 1 show ?case by (subst encode_digits.simps) auto
qed

lemma encode_segment_chars: "set (encode_segment gc c seg) \<subseteq> set b64chars"
  using encode_digits_chars by (auto simp: encode_segment_def encode_vlq_def)

lemma b64_no_sep: "CHR '','' \<notin> set b64chars" "CHR '';'' \<notin> set b64chars"
  by (simp_all add: b64chars_def)

lemma parse_segment_encode:
  assumes "small gc" "cum_ok c" "seg_ok seg"
  shows "parse_segment li (encode_segment gc c seg) gc c = Inr (seg, genCol seg, next_cum c seg)"
proof -
  obtain s l k where c: "c = (s, l, k)" by (cases c) auto
  have sm: "small s" "small l" "small k" "small (genCol seg)" "small (sourceIdx seg)" "small (origLine seg)" "small (origCol seg)"
    using assms by (auto simp: c cum_ok_def seg_ok_def)
  let ?g = "encode_vlq (genCol seg - gc)" and ?s = "encode_vlq (sourceIdx seg - s)"
  and ?l = "encode_vlq (origLine seg - l)" and ?k = "encode_vlq (origCol seg - k)"
  show ?thesis
  proof (cases "hasSource seg")
    case False
    then have "encode_segment gc c seg = ?g" by (simp add: encode_segment_def)
    moreover have "seg = \<lparr>genCol = genCol seg, sourceIdx = 0, origLine = 0, origCol = 0, hasSource = False\<rparr>"
      using assms(3) False by (cases seg) (simp add: seg_ok_def)
    ultimately show ?thesis
      using decode_delta [OF sm(4) assms(1), of "[]" "[]"] sm(4) False
      by (simp add: parse_segment_def c next_cum_def small_wrap Let_def)
  next
    case True
    then have e: "encode_segment gc c seg = ?g @ ?s @ ?l @ ?k" by (simp add: encode_segment_def c)
    have seg: "\<lparr>genCol = genCol seg, sourceIdx = sourceIdx seg, origLine = origLine seg, origCol = origCol seg, hasSource = True\<rparr> = seg"
      using True by (cases seg) simp
    have d: "decodeVLQ (?g @ ?s @ ?l @ ?k) 0 = Inr (genCol seg - gc, length ?g)"
      "decodeVLQ (?g @ ?s @ ?l @ ?k) (length ?g) = Inr (sourceIdx seg - s, length ?g + length ?s)"
      "decodeVLQ (?g @ ?s @ ?l @ ?k) (length ?g + length ?s) = Inr (origLine seg - l, length ?g + length ?s + length ?l)"
      "decodeVLQ (?g @ ?s @ ?l @ ?k) (length ?g + length ?s + length ?l)
         = Inr (origCol seg - k, length ?g + length ?s + length ?l + length ?k)"
      using decode_delta [OF sm(4) assms(1), of "[]" "?s @ ?l @ ?k"]
        decode_delta [OF sm(5) sm(1), of ?g "?l @ ?k"]
        decode_delta [OF sm(6) sm(2), of "?g @ ?s" ?k] decode_delta [OF sm(7) sm(3), of "?g @ ?s @ ?l" "[]"]
      by (simp_all add: add.assoc)
    show ?thesis
      using True sm assms(1)
      by (simp add: parse_segment_def e [unfolded c] c d small_wrap Let_def next_cum_def seg)
  qed
qed

lemma encode_segment_nonempty: "encode_segment gc c seg \<noteq> []"
  by (simp add: encode_segment_def)

lemma parse_segments_encode:
  "small gc \<Longrightarrow> cum_ok c \<Longrightarrow> list_all seg_ok segs \<Longrightarrow>
     parse_segments li (encode_line gc c segs) gc c None = Inr (segs, foldl next_cum c segs, None)"
proof (induction segs arbitrary: gc c)
  case (Cons seg segs)
  then have "small (genCol seg)" by (simp add: seg_ok_def)
  with Cons show ?case
    by (simp add: encode_segment_nonempty parse_segment_encode cum_ok_next)
qed simp

lemma encode_line_chars: "x \<in> set (encode_line gc c segs) \<Longrightarrow> set x \<subseteq> set b64chars"
  by (induction gc c segs rule: encode_line.induct) (auto dest: subsetD [OF encode_segment_chars])

lemma join_chars: "set (join_with sep xs) \<subseteq> set sep \<union> (\<Union>x \<in> set xs. set x)"
  by (induction sep xs rule: join_with.induct) auto

lemma encode_lines_chars: "x \<in> set (encode_lines c table) \<Longrightarrow> set x \<subseteq> insert (CHR '','') (set b64chars)"
  by (induction c table rule: encode_lines.induct) (use join_chars encode_line_chars in fastforce)+

lemma foldl_cum_ok: "cum_ok c \<Longrightarrow> list_all seg_ok segs \<Longrightarrow> cum_ok (foldl next_cum c segs)"
  by (induction segs arbitrary: c) (auto simp: cum_ok_next)

lemma parse_lines_encode:
  "cum_ok c \<Longrightarrow> list_all (list_all seg_ok) table \<Longrightarrow>
     parse_lines li (encode_lines c table) c None = Inr (table, None)"
proof (induction table arbitrary: li c)
  case (Cons segs table)
  show ?case
  proof (cases "segs = []")
    case True
    with Cons show ?thesis by simp
  next
    case False
    let ?xs = "encode_line 0 c segs"
    have ne: "?xs \<noteq> []" "hd ?xs \<noteq> []" using False by (cases segs; simp add: encode_segment_nonempty)+
    then have "join_with '','' ?xs \<noteq> []" by (cases ?xs; cases "tl ?xs") auto
    moreover have "split_on (CHR '','') (join_with '','' ?xs) = ?xs"
      using ne b64_no_sep encode_line_chars by (intro split_join) blast+
    moreover have "parse_segments li ?xs 0 c None = Inr (segs, foldl next_cum c segs, None)"
      using Cons.prems by (intro parse_segments_encode) (auto simp: small_def)
    ultimately show ?thesis
      using Cons.IH [of "foldl next_cum c segs" "li + 1"] Cons.prems by (simp add: foldl_cum_ok)
  qed
qed simp

text \<open>
C15: parseMappings reads back exactly the table of segments that the format's encoder wrote: relative
columns, sources, lines and columns are accumulated across segments and lines as the format says,
for any table of fields below 2^62.
\<close>

theorem mappings_round_trip:
  assumes "table \<noteq> []" "list_all (list_all seg_ok) table" "sm_mappings sm = encode_mappings table"
  shows "parseMappings sm None = Inr (with_lines sm table, None)"
proof -
  have "encode_lines (0, 0, 0) table \<noteq> []" using assms(1) by (cases table) auto
  then have "split_on (CHR '';'') (encode_mappings table) = encode_lines (0, 0, 0) table"
    unfolding encode_mappings_def using encode_lines_chars b64_no_sep by (intro split_join) fastforce+
  with assms show ?thesis
    by (simp add: parseMappings_def parse_lines_encode cum_ok_def small_def)
qed

section \<open>Concrete runs\<close>

theorem vlq_round_trip_witness:
  "\<bar>-123 :: int\<bar> < 2 ^ 62 \<and> decodeVLQ (''A'' @ encode_vlq (-123) @ ''C'') 1 = Inr (-123, 3)
    \<and> encode_vlq (-123) = ''3H''"
proof -
  have e: "encode_vlq (-123) = ''3H''" by code_simp
  show ?thesis using vlq_round_trip [of "-123" "''A''" "''C''"] e by simp
qed

theorem decodeVLQ_bounds_witness:
  "decodeVLQ ''gB'' 0 = Inr (16, 2) \<and> (0::nat) < 2 \<and> 2 \<le> length ''gB''"
proof -
  have d: "decodeVLQ ''gB'' 0 = Inr (16, 2)" by code_simp
  show ?thesis using decodeVLQ_bounds [OF d] d by simp
qed

definition demo_map :: source_map where
  "demo_map = SourceMap 3 [''a.ts''] [] [] ''AAAA,KACC'' [] []"

definition demo_parsed :: source_map where
  "demo_parsed = with_lines demo_map
     [[\<lparr>genCol = 0, sourceIdx = 0, origLine = 0, origCol = 0, hasSource = True\<rparr>,
       \<lparr>genCol = 5, sourceIdx = 0, origLine = 1, origCol = 1, hasSource = True\<rparr>]]"

lemma demo_parses: "ParseContext (Some demo_map) None = Inr demo_parsed"
  by code_simp

theorem resolve_rightmost_witness:
  "Resolve demo_parsed 1 7
     = Found \<lparr>rf_source = ''a.ts'', rf_line = 2, rf_col = 1, rf_context = []\<rparr>"
proof -
  have h: "sm_sections demo_parsed = []" "(1::int) \<le> 1" "1 \<le> int (length (sm_lines demo_parsed))"
    "is_int64 1" "sorted_segs (sm_lines demo_parsed ! nat (1 - 1))"
    by (simp_all add: demo_parsed_def demo_map_def is_int64_def)
  have "rightmost (sm_lines demo_parsed ! nat (1 - 1)) 7
      = Some \<lparr>genCol = 5, sourceIdx = 0, origLine = 1, origCol = 1, hasSource = True\<rparr>"
    by (simp add: demo_parsed_def rightmost_def)
  with resolve_rightmost [OF h, of 7] show ?thesis
    by (simp add: frame_of_def demo_parsed_def demo_map_def nth_or_def context_line_def is_int64_def)
qed

definition demo_index :: source_map where
  "demo_index = SourceMap 3 [] [] [] [] [Section 0 0 (Some demo_map), Section 2 4 (Some demo_map)] []"

definition demo_index_parsed :: source_map where
  "demo_index_parsed = with_sections demo_index
     [Section 0 0 (Some demo_parsed), Section 2 4 (Some demo_parsed)]"

theorem resolve_index_map_witness:
  "Resolve demo_index_parsed 3 9
     = Found \<lparr>rf_source = ''a.ts'', rf_line = 2, rf_col = 1, rf_context = []\<rparr>"
proof -
  have h: "ParseContext (Some demo_index) None = Inr demo_index_parsed" by code_simp
  have "sm_sections demo_index_parsed \<noteq> []" by (simp add: demo_index_parsed_def)
  note r = resolve_index_map [OF h this, of 3 9]
  have "covering (sm_sections demo_index_parsed) (3 - 1) 9 = Some (Section 2 4 (Some demo_parsed))"
    by (simp add: covering_def demo_index_parsed_def)
  with r have "Resolve demo_index_parsed 3 9 = resolve_flat demo_parsed 1 5" by (simp add: is_int64_def)
  moreover have "resolve_flat demo_parsed 1 5
      = Found \<lparr>rf_source = ''a.ts'', rf_line = 2, rf_col = 1, rf_context = []\<rparr>" by code_simp
  ultimately show ?thesis by simp
qed

theorem mappings_round_trip_witness:
  "parseMappings (SourceMap 3 [] [] [] ''AAAA,KACC'' [] []) None
     = Inr (SourceMap 3 [] [] [] ''AAAA,KACC'' [] (sm_lines demo_parsed), None)"
proof -
  have "encode_mappings (sm_lines demo_parsed) = ''AAAA,KACC''" by code_simp
  moreover have "sm_lines demo_parsed \<noteq> []" "list_all (list_all seg_ok) (sm_lines demo_parsed)"
    by (simp_all add: demo_parsed_def seg_ok_def small_def)
  ultimately show ?thesis
    using mappings_round_trip [of "sm_lines demo_parsed" "SourceMap 3 [] [] [] ''AAAA,KACC'' [] []"] by simp
qed

end
