(* ===== verification/Sourcemap_Cache.thy ===== *)
theory Sourcemap_Cache
  imports Sourcemap
begin

text \<open>
  The caches of the source-map store (sourcemaps/cache.go): the cache of fetched JavaScript files with its
  shared requests (\<open>sharedLines\<close>, \<open>cacheLines\<close>) and the cache of parsed maps (\<open>cacheSize\<close>,
  \<open>parsedSourceMap\<close>). Both evict the oldest entry first and are bounded in entries and in accounted bytes:
  the locale \<open>fifo_cache\<close> states what their eviction relies on and is interpreted for each of them. The
  concurrent readers of one URL are a step relation. The HTTP request (\<open>fetchLines\<close>) and the file system are
  the environment: their result is an argument of the step that uses it.
\<close>

section \<open>First-in first-out caches\<close>

text \<open>
  \<open>drop_oldest\<close> is the body of an eviction loop, \<open>evict\<close> the loop: \<open>None\<close> is the panic of reading the
  first element of an empty order, \<open>full\<close> the loop's condition on the number of entries and the bytes in use.
\<close>

locale fifo_cache =
  fixes order :: "'c \<Rightarrow> 'k list" and entries :: "'c \<Rightarrow> 'k \<Rightarrow> 'v option" and used :: "'c \<Rightarrow> int"
    and cost :: "'k \<Rightarrow> 'v \<Rightarrow> int" and full :: "nat \<Rightarrow> int \<Rightarrow> bool"
    and drop_oldest :: "'c \<Rightarrow> 'c" and evict :: "'c \<Rightarrow> 'c option"
  assumes drop_order: "order c = k # ks \<Longrightarrow> order (drop_oldest c) = ks"
    and drop_entries: "order c = k # ks \<Longrightarrow> entries (drop_oldest c) = (entries c)(k := None)"
    and drop_used: "order c = k # ks \<Longrightarrow> entries c k = Some v \<Longrightarrow> used (drop_oldest c) = used c - cost k v"
    and evict_eq: "evict c = (if full (length (order c)) (used c)
        then if order c = [] then None else evict (drop_oldest c) else Some c)"
begin

definition bytes_of :: "'c \<Rightarrow> 'k list \<Rightarrow> int" where
  "bytes_of c ks = (\<Sum>k\<leftarrow>ks. case entries c k of None \<Rightarrow> 0 | Some v \<Rightarrow> cost k v)"

definition wf :: "'c \<Rightarrow> bool" where
  "wf c \<longleftrightarrow> distinct (order c) \<and> dom (entries c) = set (order c) \<and> used c = bytes_of c (order c)"

lemma bytes_of_cong: "(\<And>k. k \<in> set ks \<Longrightarrow> entries c k = entries c' k) \<Longrightarrow> bytes_of c ks = bytes_of c' ks"
  by (simp add: bytes_of_def cong: map_cong)

lemma wf_None: "wf c \<Longrightarrow> k \<notin> set (order c) \<Longrightarrow> entries c k = None"
proof -
  assume "wf c" "k \<notin> set (order c)"
  then have "k \<notin> dom (entries c)" by (simp add: wf_def)
  then show ?thesis by (simp add: domIff)
qed

lemma wf_drop: "wf c \<Longrightarrow> order c = k # ks \<Longrightarrow> wf (drop_oldest c)"
proof -
  assume w: "wf c" and o: "order c = k # ks"
  then obtain v where v: "entries c k = Some v" by (auto simp: wf_def)
  have k: "k \<notin> set ks" using w o by (simp add: wf_def)
  then have "bytes_of (drop_oldest c) ks = bytes_of c ks"
    by (intro bytes_of_cong) (auto simp: drop_entries [OF o])
  moreover have "used c = cost k v + bytes_of c ks" using w o v by (simp add: wf_def bytes_of_def)
  ultimately show ?thesis using w o v k
    by (auto simp: wf_def drop_order drop_entries drop_used)
qed

lemma wf_evict:
  "wf c \<Longrightarrow> \<not> full 0 0 \<Longrightarrow> \<exists>c' n. evict c = Some c' \<and> wf c' \<and> \<not> full (length (order c')) (used c')
     \<and> order c' = drop n (order c) \<and> entries c' = entries c |` set (order c')"
proof (induction "order c" arbitrary: c)
  case Nil
  then have "used c = 0" "entries c = Map.empty" by (auto simp: wf_def bytes_of_def)
  with Nil show ?case by (subst evict_eq) (auto intro!: exI [of _ 0])
next
  case (Cons k ks)
  show ?case
  proof (cases "full (length (order c)) (used c)")
    case False
    have "entries c |` set (order c) = entries c"
      using Cons.prems(1) by (auto simp: restrict_map_def fun_eq_iff wf_None)
    with False Cons show ?thesis by (subst evict_eq) (auto intro!: exI [of _ 0])
  next
    case True
    note o = Cons.hyps(2) [symmetric]
    have d: "order (drop_oldest c) = ks" by (rule drop_order [OF o])
    have "evict c = evict (drop_oldest c)" using True o by (subst evict_eq) simp
    moreover obtain c' n where c: "evict (drop_oldest c) = Some c'" "wf c'" "\<not> full (length (order c')) (used c')"
      "order c' = drop n ks" "entries c' = entries (drop_oldest c) |` set (order c')"
      using Cons.hyps(1) [OF d [symmetric] wf_drop [OF Cons.prems(1) o] Cons.prems(2)] d by auto
    moreover have "k \<notin> set ks" using Cons.prems(1) o by (simp add: wf_def)
    then have "entries (drop_oldest c) |` set (order c') = entries c |` set (order c')"
      using c(4) by (auto simp: drop_entries [OF o] restrict_map_def fun_eq_iff dest: in_set_dropD)
    ultimately show ?thesis using o by (intro exI [of _ c'] exI [of _ "Suc n"]) auto
  qed
qed

lemma wf_add:
  assumes "wf c" "k \<notin> set (order c)" "order c' = order c @ [k]" "entries c' = (entries c)(k \<mapsto> v)"
    "used c' = used c + cost k v"
  shows "wf c'"
proof -
  have "bytes_of c' (order c) = bytes_of c (order c)" using assms by (intro bytes_of_cong) auto
  with assms show ?thesis by (auto simp: wf_def bytes_of_def)
qed

lemma bytes_of_update:
  "distinct ks \<Longrightarrow> k \<in> set ks \<Longrightarrow> entries c k = Some old \<Longrightarrow> entries c' = (entries c)(k \<mapsto> v) \<Longrightarrow>
     bytes_of c' ks = bytes_of c ks - cost k old + cost k v"
proof (induction ks)
  case (Cons x ks)
  show ?case
  proof (cases "x = k")
    case True
    then have "bytes_of c' ks = bytes_of c ks" using Cons.prems by (intro bytes_of_cong) auto
    with True Cons.prems show ?thesis by (simp add: bytes_of_def)
  next
    case False
    with Cons show ?thesis by (simp add: bytes_of_def)
  qed
qed simp

lemma wf_replace:
  assumes "wf c" "entries c k = Some old" "order c' = order c" "entries c' = (entries c)(k \<mapsto> v)"
    "used c' = used c - cost k old + cost k v"
  shows "wf c'"
proof -
  have "k \<in> set (order c)" using assms by (auto simp: wf_def)
  with assms bytes_of_update [of "order c" k c old c' v] show ?thesis by (auto simp: wf_def)
qed

end

section \<open>Fetched files\<close>

text \<open>No lines stand for a nil slice: \<open>strings.Split\<close> never returns one.\<close>

record cached_file =
  cf_lines :: "string list"
  cf_at :: nanos
  cf_bytes :: int

record file_cache =
  fileCache :: "string \<Rightarrow> cached_file option"
  fileOrder :: "string list"
  fileBytes :: int

definition fileCacheMax :: nat where "fileCacheMax = 64"
definition fileCacheTTL :: nanos where "fileCacheTTL = 300000000000"
definition failureCacheTTL :: nanos where "failureCacheTTL = 15000000000"
definition cacheBytesMax :: int where "cacheBytesMax = 33554432"

text \<open>\<open>cap(lines)\<close> is \<open>len(lines)\<close>: \<open>strings.Split\<close> allocates exactly what it returns. A string header is 16 bytes.\<close>

definition file_size :: "string \<Rightarrow> string list \<Rightarrow> int" where
  "file_size url lines = int (length url) + int (length lines) * 16 + (\<Sum>l\<leftarrow>lines. int (length l) + 1)"

definition drop_file :: "file_cache \<Rightarrow> file_cache" where
  "drop_file c =
     (let oldest = hd (fileOrder c) in
      c\<lparr>fileOrder := tl (fileOrder c),
        fileBytes := fileBytes c - (case fileCache c oldest of None \<Rightarrow> 0 | Some e \<Rightarrow> cf_bytes e),
        fileCache := (fileCache c)(oldest := None)\<rparr>)"

definition files_full :: "nat \<Rightarrow> int \<Rightarrow> bool" where
  "files_full n bytes \<longleftrightarrow> fileCacheMax < n \<or> cacheBytesMax < bytes"

function evict_files :: "file_cache \<Rightarrow> file_cache option" where
  "evict_files c =
     (if files_full (length (fileOrder c)) (fileBytes c)
      then if fileOrder c = [] then None else evict_files (drop_file c)
      else Some c)"
  by auto
termination by (relation "measure (\<lambda>c. length (fileOrder c))") (auto simp: drop_file_def Let_def)

declare evict_files.simps [simp del]

definition put_file :: "string \<Rightarrow> cached_file \<Rightarrow> file_cache \<Rightarrow> file_cache" where
  "put_file url e c =
     (let c1 = (case fileCache c url of
                  Some old \<Rightarrow> c\<lparr>fileBytes := fileBytes c - cf_bytes old\<rparr>
                | None \<Rightarrow> c\<lparr>fileOrder := fileOrder c @ [url]\<rparr>)
      in c1\<lparr>fileCache := (fileCache c1)(url \<mapsto> e), fileBytes := fileBytes c1 + cf_bytes e\<rparr>)"

definition cacheLines :: "nanos \<Rightarrow> string \<Rightarrow> string list \<Rightarrow> file_cache \<Rightarrow> file_cache option" where
  "cacheLines now url lines c =
     (let size = file_size url lines in
      if cacheBytesMax < size then Some c
      else evict_files (put_file url \<lparr>cf_lines = lines, cf_at = now, cf_bytes = size\<rparr> c))"

text \<open>What the first lookup of \<open>sharedLines\<close> finds.\<close>

definition fresh_lines :: "nanos \<Rightarrow> string \<Rightarrow> file_cache \<Rightarrow> string list option" where
  "fresh_lines now url c =
     (case fileCache c url of
        None \<Rightarrow> None
      | Some e \<Rightarrow>
          if now - cf_at e < (if cf_lines e = [] then failureCacheTTL else fileCacheTTL) then Some (cf_lines e) else None)"

definition empty_files :: file_cache where
  "empty_files = \<lparr>fileCache = Map.empty, fileOrder = [], fileBytes = 0\<rparr>"

interpretation files: fifo_cache fileOrder fileCache fileBytes "\<lambda>_. cf_bytes" files_full drop_file evict_files
proof unfold_locales
  fix c show "evict_files c = (if files_full (length (fileOrder c)) (fileBytes c)
      then if fileOrder c = [] then None else evict_files (drop_file c) else Some c)"
    by (rule evict_files.simps)
qed (simp_all add: drop_file_def Let_def)

lemma put_file_wf: "files.wf c \<Longrightarrow> files.wf (put_file url e c)"
proof (cases "fileCache c url")
  case None
  assume w: "files.wf c"
  have "url \<notin> dom (fileCache c)" using None by auto
  then have "url \<notin> set (fileOrder c)" using w by (simp add: files.wf_def)
  with w show ?thesis by - (rule files.wf_add [where v = e], simp_all add: put_file_def None)
next
  case (Some old)
  assume "files.wf c"
  with Some show ?thesis by - (rule files.wf_replace [where v = e], simp_all add: put_file_def)
qed

lemma not_full_empty: "\<not> files_full 0 0"
  by (simp add: files_full_def cacheBytesMax_def)

definition files_ok :: "file_cache \<Rightarrow> bool" where
  "files_ok c \<longleftrightarrow> files.wf c \<and> length (fileOrder c) \<le> fileCacheMax \<and> fileBytes c \<le> cacheBytesMax"

lemma cacheLines_ok:
  assumes "files_ok c"
  shows "\<exists>c'. cacheLines now url lines c = Some c' \<and> files_ok c'
    \<and> (\<forall>u e. fileCache c' u = Some e \<longrightarrow> fileCache c u = Some e \<or> u = url \<and> cf_lines e = lines \<and> cf_at e = now)"
proof (cases "cacheBytesMax < file_size url lines")
  case True
  with assms show ?thesis by (simp add: cacheLines_def)
next
  case False
  define e where "e = \<lparr>cf_lines = lines, cf_at = now, cf_bytes = file_size url lines\<rparr>"
  have "files.wf (put_file url e c)" using assms by (simp add: files_ok_def put_file_wf)
  from files.wf_evict [OF this not_full_empty] obtain c' where c: "evict_files (put_file url e c) = Some c'"
    "files.wf c'" "\<not> files_full (length (fileOrder c')) (fileBytes c')"
    "fileCache c' = fileCache (put_file url e c) |` set (fileOrder c')" by blast
  have "fileCache (put_file url e c) = (fileCache c)(url \<mapsto> e)"
    by (simp add: put_file_def Let_def split: option.splits)
  with c show ?thesis using False
    by (auto simp: cacheLines_def e_def files_ok_def files_full_def restrict_map_def split: if_splits)
qed

section \<open>Parsed maps\<close>

text \<open>
  \<open>capf\<close> gives the capacity the runtime chose for a slice from its length; a string and a slice header are 16 and 24
  bytes, a \<open>SourceMap\<close> 144, a \<open>segment\<close> 40 and a \<open>section\<close> 24. \<open>ParseContext\<close> refuses a section without a map.
\<close>

fun cacheSize :: "(nat \<Rightarrow> nat) \<Rightarrow> source_map \<Rightarrow> int"
  and sections_size :: "(nat \<Rightarrow> nat) \<Rightarrow> map_section list \<Rightarrow> int" where
  "cacheSize capf (SourceMap v srcs contents names m secs lns) =
     144 + int (length m)
     + (\<Sum>values\<leftarrow>[srcs, contents, names]. int (capf (length values)) * 16 + (\<Sum>value\<leftarrow>values. int (length value)))
     + int (capf (length lns)) * 24 + (\<Sum>line\<leftarrow>lns. int (capf (length line)) * 40)
     + int (capf (length secs)) * 24 + sections_size capf secs"
| "sections_size capf [] = 0"
| "sections_size capf (Section l c sub # secs) =
     (case sub of None \<Rightarrow> 0 | Some sm \<Rightarrow> cacheSize capf sm) + sections_size capf secs"

record parsed_cache =
  parsed :: "string \<Rightarrow> source_map option"
  parsedOrder :: "string list"
  parsedBytes :: int

definition parsed_cost :: "(nat \<Rightarrow> nat) \<Rightarrow> string \<Rightarrow> source_map \<Rightarrow> int" where
  "parsed_cost capf key sm = cacheSize capf sm + int (length key)"

definition drop_parsed :: "(nat \<Rightarrow> nat) \<Rightarrow> parsed_cache \<Rightarrow> parsed_cache" where
  "drop_parsed capf c =
     (let oldest = hd (parsedOrder c) in
      c\<lparr>parsedOrder := tl (parsedOrder c),
        parsedBytes := parsedBytes c - (case parsed c oldest of None \<Rightarrow> 0 | Some sm \<Rightarrow> parsed_cost capf oldest sm),
        parsed := (parsed c)(oldest := None)\<rparr>)"

definition parsed_full :: "int \<Rightarrow> nat \<Rightarrow> int \<Rightarrow> bool" where
  "parsed_full sz n bytes \<longleftrightarrow> 64 \<le> n \<or> cacheBytesMax < bytes + sz"

function evict_parsed :: "(nat \<Rightarrow> nat) \<Rightarrow> int \<Rightarrow> parsed_cache \<Rightarrow> parsed_cache option" where
  "evict_parsed capf sz c =
     (if parsed_full sz (length (parsedOrder c)) (parsedBytes c)
      then if parsedOrder c = [] then None else evict_parsed capf sz (drop_parsed capf c)
      else Some c)"
  by auto
termination by (relation "measure (\<lambda>(_, _, c). length (parsedOrder c))") (auto simp: drop_parsed_def Let_def)

declare evict_parsed.simps [simp del]

datatype parse_result = ParsePanic | NoMap parsed_cache | ParsedMap source_map parsed_cache

text \<open>
  One reader at the parse gate, so that both lookups see the same cache. \<open>file\<close> is the result of reading the file,
  \<open>None\<close> being an error, and \<open>Some d\<close> a content that \<open>json.Unmarshal\<close> decodes to \<open>d\<close>.
\<close>

definition parsedSourceMap :: "(nat \<Rightarrow> nat) \<Rightarrow> ctx \<Rightarrow> string \<Rightarrow> string
    \<Rightarrow> source_map option option \<Rightarrow> parsed_cache \<Rightarrow> parse_result" where
  "parsedSourceMap capf x projectID hash file c =
     (let key = projectID @ CHR ''/'' # hash in
      case poll x of
        None \<Rightarrow> NoMap c
      | Some x1 \<Rightarrow> (case parsed c key of
          Some sm \<Rightarrow> ParsedMap sm c
        | None \<Rightarrow> (case file of
            None \<Rightarrow> NoMap c
          | Some decoded \<Rightarrow> (case poll x1 of
              None \<Rightarrow> NoMap c
            | Some x2 \<Rightarrow> (case ParseContext decoded x2 of
                Inl _ \<Rightarrow> NoMap c
              | Inr sm \<Rightarrow>
                  let sz = parsed_cost capf key sm in
                  if cacheBytesMax < sz then ParsedMap sm c
                  else (case evict_parsed capf sz c of
                      None \<Rightarrow> ParsePanic
                    | Some c' \<Rightarrow> ParsedMap sm (c'\<lparr>parsed := (parsed c')(key \<mapsto> sm),
                        parsedOrder := parsedOrder c' @ [key], parsedBytes := parsedBytes c' + sz\<rparr>)))))))"

definition empty_parsed :: parsed_cache where
  "empty_parsed = \<lparr>parsed = Map.empty, parsedOrder = [], parsedBytes = 0\<rparr>"

interpretation maps: fifo_cache parsedOrder parsed parsedBytes "parsed_cost capf" "parsed_full sz" "drop_parsed capf"
    "evict_parsed capf sz" for capf sz
proof unfold_locales
  fix c show "evict_parsed capf sz c = (if parsed_full sz (length (parsedOrder c)) (parsedBytes c)
      then if parsedOrder c = [] then None else evict_parsed capf sz (drop_parsed capf c) else Some c)"
    by (rule evict_parsed.simps)
qed (simp_all add: drop_parsed_def Let_def)

text \<open>
  \<open>served key sm\<close>: a map that some content stored under \<open>key\<close> parses to.
\<close>

definition parsed_ok :: "(nat \<Rightarrow> nat) \<Rightarrow> (string \<Rightarrow> source_map \<Rightarrow> bool) \<Rightarrow> parsed_cache \<Rightarrow> bool" where
  "parsed_ok capf served c \<longleftrightarrow> maps.wf capf c \<and> length (parsedOrder c) \<le> 64 \<and> parsedBytes c \<le> cacheBytesMax
     \<and> (\<forall>key sm. parsed c key = Some sm \<longrightarrow> served key sm)"

lemma evict_then_insert:
  assumes ok: "parsed_ok capf served c" and new: "parsed c key = None" and served: "served key sm"
    and small: "parsed_cost capf key sm \<le> cacheBytesMax"
  shows "\<exists>c'. evict_parsed capf (parsed_cost capf key sm) c = Some c'
    \<and> parsed_ok capf served (c'\<lparr>parsed := (parsed c')(key \<mapsto> sm), parsedOrder := parsedOrder c' @ [key],
          parsedBytes := parsedBytes c' + parsed_cost capf key sm\<rparr>)"
proof -
  let ?sz = "parsed_cost capf key sm"
  have w: "maps.wf capf c" using ok by (simp add: parsed_ok_def)
  have nf: "\<not> parsed_full ?sz 0 0" using small by (simp add: parsed_full_def)
  obtain c' n where c: "evict_parsed capf ?sz c = Some c'" "maps.wf capf c'"
    "\<not> parsed_full ?sz (length (parsedOrder c')) (parsedBytes c')"
    "parsedOrder c' = drop n (parsedOrder c)" "parsed c' = parsed c |` set (parsedOrder c')"
    using maps.wf_evict [OF w nf] by blast
  have "key \<notin> dom (parsed c)" using new by auto
  then have "key \<notin> set (parsedOrder c)" using w by (simp add: maps.wf_def)
  then have k: "key \<notin> set (parsedOrder c')" using c(4) by (auto dest: in_set_dropD)
  let ?c = "c'\<lparr>parsed := (parsed c')(key \<mapsto> sm), parsedOrder := parsedOrder c' @ [key], parsedBytes := parsedBytes c' + ?sz\<rparr>"
  have "maps.wf capf ?c" by (rule maps.wf_add [OF c(2) k]) simp_all
  moreover have "\<forall>k sm'. parsed ?c k = Some sm' \<longrightarrow> served k sm'"
    using ok served by (auto simp: c(5) parsed_ok_def restrict_map_def split: if_splits)
  ultimately show ?thesis using c(1,3) by (auto simp: parsed_ok_def parsed_full_def)
qed

lemma parsedSourceMap_ok:
  assumes ok: "parsed_ok capf P c"
    and src: "\<And>decoded y sm. content = Some decoded \<Longrightarrow> ParseContext decoded y = Inr sm \<Longrightarrow> P (project @ CHR ''/'' # hash) sm"
  shows "case parsedSourceMap capf x project hash content c of
           ParsePanic \<Rightarrow> False
         | NoMap c' \<Rightarrow> parsed_ok capf P c'
         | ParsedMap sm c' \<Rightarrow> P (project @ CHR ''/'' # hash) sm \<and> parsed_ok capf P c'"
proof -
  let ?key = "project @ CHR ''/'' # hash"
  have hit: "P ?key sm" if "parsed c ?key = Some sm" for sm using ok that by (simp add: parsed_ok_def)
  have ins: "\<exists>c'. evict_parsed capf (parsed_cost capf ?key sm) c = Some c'
      \<and> parsed_ok capf P (c'\<lparr>parsed := (parsed c')(?key \<mapsto> sm), parsedOrder := parsedOrder c' @ [?key],
          parsedBytes := parsedBytes c' + parsed_cost capf ?key sm\<rparr>)"
    if "parsed c ?key = None" "P ?key sm" "\<not> cacheBytesMax < parsed_cost capf ?key sm" for sm
    using evict_then_insert [OF ok that(1,2)] that(3) by simp
  show ?thesis
    using ok hit by (auto simp: parsedSourceMap_def Let_def split: option.splits sum.splits dest!: src ins)
qed

text \<open>\<open>contents key\<close> is what \<open>json.Unmarshal\<close> makes of the file stored under a project and a content hash.\<close>

definition served :: "(string \<Rightarrow> source_map option option) \<Rightarrow> string \<Rightarrow> source_map \<Rightarrow> bool" where
  "served contents key sm \<longleftrightarrow> (\<exists>decoded x. contents key = Some decoded \<and> ParseContext decoded x = Inr sm)"

text \<open>One lookup: its context, its project and hash, and whether the file can be read.\<close>

type_synonym lookup = "ctx \<times> string \<times> string \<times> bool"

definition look_up :: "(nat \<Rightarrow> nat) \<Rightarrow> (string \<Rightarrow> source_map option option) \<Rightarrow> lookup \<Rightarrow> parsed_cache \<Rightarrow> parse_result" where
  "look_up capf contents l c = (case l of (x, project, hash, readable) \<Rightarrow>
     parsedSourceMap capf x project hash (if readable then contents (project @ CHR ''/'' # hash) else None) c)"

fun parsed_run :: "(nat \<Rightarrow> nat) \<Rightarrow> (string \<Rightarrow> source_map option option) \<Rightarrow> lookup list \<Rightarrow> parsed_cache \<Rightarrow> parsed_cache option" where
  "parsed_run capf contents [] c = Some c"
| "parsed_run capf contents (l # ls) c =
     (case look_up capf contents l c of
        ParsePanic \<Rightarrow> None
      | NoMap c' \<Rightarrow> parsed_run capf contents ls c'
      | ParsedMap _ c' \<Rightarrow> parsed_run capf contents ls c')"

lemma look_up_ok:
  assumes "parsed_ok capf (served contents) c"
  shows "case look_up capf contents (x, project, hash, readable) c of
           ParsePanic \<Rightarrow> False
         | NoMap c' \<Rightarrow> parsed_ok capf (served contents) c'
         | ParsedMap sm c' \<Rightarrow> served contents (project @ CHR ''/'' # hash) sm \<and> parsed_ok capf (served contents) c'"
proof -
  have "served contents (project @ CHR ''/'' # hash) sm"
    if "(if readable then contents (project @ CHR ''/'' # hash) else None) = Some decoded" "ParseContext decoded y = Inr sm"
    for decoded y sm using that by (auto simp: served_def split: if_splits)
  from parsedSourceMap_ok [OF assms this] show ?thesis by (simp add: look_up_def)
qed

lemma empty_parsed_ok: "parsed_ok capf served' empty_parsed"
  by (simp add: parsed_ok_def empty_parsed_def maps.wf_def maps.bytes_of_def cacheBytesMax_def)

lemma parsed_run_ok:
  "parsed_ok capf (served contents) c \<Longrightarrow> \<exists>c'. parsed_run capf contents ls c = Some c' \<and> parsed_ok capf (served contents) c'"
proof (induction ls arbitrary: c)
  case (Cons l ls)
  obtain x p h r where l: "l = (x, p, h, r)" by (cases l)
  show ?case using look_up_ok [OF Cons.prems, where x = x and project = p and hash = h and readable = r] Cons.IH by (auto simp: l split: parse_result.splits)
qed simp

text \<open>
After any history of lookups the cache of parsed maps holds at most 64 maps and 32 MiB, its byte
counter is the sum over its entries, its eviction never reads an empty order, and a lookup returns
nothing or a map that the content stored under its own project and hash parses to.
\<close>

theorem parsed_cache_sound:
  "\<exists>c. parsed_run capf contents history empty_parsed = Some c
     \<and> length (parsedOrder c) \<le> 64 \<and> parsedBytes c \<le> cacheBytesMax
     \<and> parsedBytes c = (\<Sum>k\<leftarrow>parsedOrder c. case parsed c k of None \<Rightarrow> 0 | Some sm \<Rightarrow> cacheSize capf sm + int (length k))
     \<and> (case look_up capf contents (x, project, hash, readable) c of
          ParsePanic \<Rightarrow> False
        | NoMap _ \<Rightarrow> True
        | ParsedMap sm _ \<Rightarrow> served contents (project @ CHR ''/'' # hash) sm)"
proof -
  obtain c where c: "parsed_run capf contents history empty_parsed = Some c" "parsed_ok capf (served contents) c"
    using parsed_run_ok [OF empty_parsed_ok] by blast
  have "case look_up capf contents (x, project, hash, readable) c of
          ParsePanic \<Rightarrow> False
        | NoMap _ \<Rightarrow> True
        | ParsedMap sm _ \<Rightarrow> served contents (project @ CHR ''/'' # hash) sm"
    using look_up_ok [OF c(2), where x = x and project = project and hash = hash and readable = readable] by (auto split: parse_result.splits)
  moreover have "parsedBytes c = (\<Sum>k\<leftarrow>parsedOrder c. case parsed c k of None \<Rightarrow> 0 | Some sm \<Rightarrow> cacheSize capf sm + int (length k))"
    using c(2) unfolding parsed_ok_def maps.wf_def maps.bytes_of_def parsed_cost_def by simp
  ultimately show ?thesis using c by (intro exI [of _ c]) (simp add: parsed_ok_def)
qed

section \<open>Shared requests\<close>

text \<open>
  The readers of \<open>sharedLines\<close>, each by a number. The steps are the stretches between locks: a call either returns at
  once, waits for the request in flight for its URL, or owns a new one; an owner's request ends with some lines, its
  context cancelled or not; a waiter receives the lines of the flight it waits for, or leaves. A flight is removed
  from the table in the step that publishes its lines, so \<open>fs_done\<close> keeps what the closed ones carry.
\<close>

datatype reader = Owner string nat | Waiter string nat | Returned string "string list"

record fetch_state =
  fs_cache :: file_cache
  fs_flights :: "(string \<times> nat) list"
  fs_done :: "nat \<Rightarrow> string list option"
  fs_readers :: "nat \<Rightarrow> reader option"
  fs_next :: nat
  fs_log :: "(string \<times> string list) list"

definition set_reader :: "nat \<Rightarrow> reader \<Rightarrow> fetch_state \<Rightarrow> fetch_state" where
  "set_reader r st s = s\<lparr>fs_readers := (fs_readers s)(r \<mapsto> st)\<rparr>"

text \<open>The call up to its first return or wait: \<open>cancelled\<close> is \<open>ctx.Err() != nil\<close>.\<close>

definition sharedLines :: "nanos \<Rightarrow> bool \<Rightarrow> nat \<Rightarrow> string \<Rightarrow> fetch_state \<Rightarrow> fetch_state" where
  "sharedLines now cancelled r url s =
     (if cancelled then set_reader r (Returned url []) s
      else case fresh_lines now url (fs_cache s) of
        Some lns \<Rightarrow> set_reader r (Returned url lns) s
      | None \<Rightarrow> (case map_of (fs_flights s) url of
          Some f \<Rightarrow> set_reader r (Waiter url f) s
        | None \<Rightarrow>
            if 4 \<le> length (fs_flights s) then set_reader r (Returned url []) s
            else set_reader r (Owner url (fs_next s))
              (s\<lparr>fs_flights := (url, fs_next s) # fs_flights s, fs_next := Suc (fs_next s)\<rparr>)))"

text \<open>The owner's request has come back with \<open>lns\<close>; \<open>None\<close> is a panic.\<close>

definition finish_flight :: "nanos \<Rightarrow> bool \<Rightarrow> nat \<Rightarrow> string \<Rightarrow> nat \<Rightarrow> string list \<Rightarrow> fetch_state \<Rightarrow> fetch_state option" where
  "finish_flight now cancelled r url f lns s =
     (case (if cancelled then Some (fs_cache s) else cacheLines now url lns (fs_cache s)) of
        None \<Rightarrow> None
      | Some c \<Rightarrow> Some (set_reader r (Returned url lns)
          (s\<lparr>fs_cache := c, fs_flights := filter (\<lambda>(u, _). u \<noteq> url) (fs_flights s),
             fs_done := (fs_done s)(f \<mapsto> lns), fs_log := (url, lns) # fs_log s\<rparr>)))"

inductive fetch_step :: "fetch_state \<Rightarrow> fetch_state \<Rightarrow> bool" where
  Call: "fs_readers s r = None \<Longrightarrow> fetch_step s (sharedLines now cancelled r url s)"
| Finish: "fs_readers s r = Some (Owner url f) \<Longrightarrow> finish_flight now cancelled r url f lns s = Some s' \<Longrightarrow> fetch_step s s'"
| Wake: "fs_readers s r = Some (Waiter url f) \<Longrightarrow> fs_done s f = Some lns \<Longrightarrow>
    fetch_step s (set_reader r (Returned url lns) s)"
| Leave: "fs_readers s r = Some (Waiter url f) \<Longrightarrow> fetch_step s (set_reader r (Returned url []) s)"

definition no_readers :: fetch_state where
  "no_readers = \<lparr>fs_cache = empty_files, fs_flights = [], fs_done = Map.empty, fs_readers = Map.empty, fs_next = 0, fs_log = []\<rparr>"

inductive fetch_reachable :: "fetch_state \<Rightarrow> bool" where
  Start: "fetch_reachable no_readers"
| Step: "fetch_reachable s \<Longrightarrow> fetch_step s s' \<Longrightarrow> fetch_reachable s'"

text \<open>What every reachable state satisfies.\<close>

definition reader_ok :: "fetch_state \<Rightarrow> reader \<Rightarrow> bool" where
  "reader_ok s st = (case st of
       Owner url f \<Rightarrow> (url, f) \<in> set (fs_flights s)
     | Waiter url f \<Rightarrow> (url, f) \<in> set (fs_flights s) \<or> (\<exists>lns. fs_done s f = Some lns \<and> (url, lns) \<in> set (fs_log s))
     | Returned url lns \<Rightarrow> lns = [] \<or> (url, lns) \<in> set (fs_log s))"

definition flights_ok :: "fetch_state \<Rightarrow> bool" where
  "flights_ok s \<longleftrightarrow> distinct (map fst (fs_flights s)) \<and> distinct (map snd (fs_flights s)) \<and> length (fs_flights s) \<le> 4
     \<and> (\<forall>(url, f) \<in> set (fs_flights s). f < fs_next s \<and> fs_done s f = None)
     \<and> (\<forall>f. fs_done s f \<noteq> None \<longrightarrow> f < fs_next s)"

definition owners_ok :: "fetch_state \<Rightarrow> bool" where
  "owners_ok s \<longleftrightarrow> (\<forall>r r' url url' f. fs_readers s r = Some (Owner url f) \<longrightarrow> fs_readers s r' = Some (Owner url' f) \<longrightarrow> r = r')
     \<and> (\<forall>r url f. fs_readers s r = Some (Owner url f) \<longrightarrow> (url, f) \<in> set (fs_flights s))
     \<and> (\<forall>(url, f) \<in> set (fs_flights s). \<exists>r. fs_readers s r = Some (Owner url f))"

definition fetch_inv :: "fetch_state \<Rightarrow> bool" where
  "fetch_inv s \<longleftrightarrow> files_ok (fs_cache s) \<and> flights_ok s \<and> owners_ok s
     \<and> (\<forall>r st. fs_readers s r = Some st \<longrightarrow> reader_ok s st)
     \<and> (\<forall>url e. fileCache (fs_cache s) url = Some e \<longrightarrow> (url, cf_lines e) \<in> set (fs_log s))"

lemma set_reader_fields [simp]:
  "fs_cache (set_reader r st s) = fs_cache s" "fs_flights (set_reader r st s) = fs_flights s"
  "fs_done (set_reader r st s) = fs_done s" "fs_next (set_reader r st s) = fs_next s" "fs_log (set_reader r st s) = fs_log s"
  "fs_readers (set_reader r st s) = (fs_readers s)(r \<mapsto> st)"
  by (simp_all add: set_reader_def)

lemma reader_ok_cong:
  "fs_flights s' = fs_flights s \<Longrightarrow> fs_done s' = fs_done s \<Longrightarrow> fs_log s' = fs_log s \<Longrightarrow> reader_ok s' st = reader_ok s st"
  by (simp add: reader_ok_def split: reader.splits)

lemma set_other_reader:
  assumes inv: "fetch_inv s" and r: "\<And>url f. fs_readers s r \<noteq> Some (Owner url f)"
    and st: "reader_ok s st" "\<And>url f. st \<noteq> Owner url f"
  shows "fetch_inv (set_reader r st s)"
proof -
  have "flights_ok (set_reader r st s)" using inv by (simp add: fetch_inv_def flights_ok_def)
  moreover have o: "fs_readers (set_reader r st s) q = Some (Owner url f) \<longleftrightarrow> fs_readers s q = Some (Owner url f)" for q url f
    using r st(2) by auto
  have "owners_ok (set_reader r st s)" using inv unfolding fetch_inv_def owners_ok_def o by simp
  moreover have "reader_ok (set_reader r st s) st'" if "fs_readers (set_reader r st s) q = Some st'" for q st'
    using that inv st(1) unfolding fetch_inv_def by (auto simp: reader_ok_cong [of "set_reader r st s" s] split: if_splits)
  ultimately show ?thesis using inv by (simp add: fetch_inv_def)
qed

lemma new_owner:
  assumes inv: "fetch_inv s" and r: "fs_readers s r = None" and u: "map_of (fs_flights s) url = None"
    and n: "length (fs_flights s) < 4"
  shows "fetch_inv (set_reader r (Owner url (fs_next s)) (s\<lparr>fs_flights := (url, fs_next s) # fs_flights s, fs_next := Suc (fs_next s)\<rparr>))"
    (is "fetch_inv ?s")
proof -
  have fl: "flights_ok s" and ow: "owners_ok s" using inv by (simp_all add: fetch_inv_def)
  have "url \<notin> fst ` set (fs_flights s)" using u by (simp add: map_of_eq_None_iff)
  moreover have lt: "f < fs_next s" if "(v, f) \<in> set (fs_flights s)" for v f using fl that by (auto simp: flights_ok_def)
  then have "fs_next s \<notin> snd ` set (fs_flights s)" by fastforce
  ultimately have "flights_ok ?s" using fl n by (fastforce simp: flights_ok_def)
  moreover have "owners_ok ?s" unfolding owners_ok_def
  proof (intro conjI allI impI ballI)
    fix q q' v v' f
    assume "fs_readers ?s q = Some (Owner v f)" "fs_readers ?s q' = Some (Owner v' f)"
    then show "q = q'" using ow lt unfolding owners_ok_def by (auto split: if_splits) (blast+)?
  next
    fix q v f assume "fs_readers ?s q = Some (Owner v f)"
    then show "(v, f) \<in> set (fs_flights ?s)" using ow unfolding owners_ok_def by (auto split: if_splits)
  next
    fix p assume p: "p \<in> set (fs_flights ?s)"
    show "case p of (v, f) \<Rightarrow> \<exists>q. fs_readers ?s q = Some (Owner v f)"
    proof (cases "p = (url, fs_next s)")
      case False
      obtain v f where vf: "p = (v, f)" by (cases p)
      with p False have "(v, f) \<in> set (fs_flights s)" by auto
      with ow obtain q where "fs_readers s q = Some (Owner v f)" unfolding owners_ok_def by fastforce
      with r vf show ?thesis by (auto intro!: exI [of _ q])
    qed auto
  qed
  moreover have "reader_ok ?s st" if "fs_readers ?s q = Some st" for q st
  proof (cases "q = r")
    case False
    with that inv have "reader_ok s st" by (auto simp: fetch_inv_def)
    then show ?thesis by (auto simp: reader_ok_def split: reader.splits)
  qed (use that in \<open>auto simp: reader_ok_def\<close>)
  ultimately show ?thesis using inv by (auto simp: fetch_inv_def)
qed

lemma sharedLines_inv:
  assumes "fetch_inv s" "fs_readers s r = None"
  shows "fetch_inv (sharedLines now cancelled r url s)"
proof -
  have ret: "fetch_inv (set_reader r (Returned url lns) s)" if "lns = [] \<or> (url, lns) \<in> set (fs_log s)" for lns
    using assms that by (intro set_other_reader) (auto simp: reader_ok_def)
  have hit: "(url, lns) \<in> set (fs_log s)" if "fresh_lines now url (fs_cache s) = Some lns" for lns
  proof -
    from that obtain e where "fileCache (fs_cache s) url = Some e" "lns = cf_lines e"
      by (auto simp: fresh_lines_def split: option.splits if_splits)
    with assms(1) show ?thesis by (auto simp: fetch_inv_def)
  qed
  have wait: "fetch_inv (set_reader r (Waiter url f) s)" if "map_of (fs_flights s) url = Some f" for f
    using assms that by (intro set_other_reader) (auto simp: reader_ok_def dest: map_of_SomeD)
  show ?thesis using assms ret hit wait new_owner
    by (auto simp: sharedLines_def split: option.splits)
qed

lemma finish_flight_inv:
  assumes inv: "fetch_inv s" and r: "fs_readers s r = Some (Owner url f)"
  shows "\<exists>s'. finish_flight now cancelled r url f lns s = Some s' \<and> fetch_inv s'"
proof -
  have fl: "flights_ok s" and ow: "owners_ok s" and fc: "files_ok (fs_cache s)"
    and rd: "\<And>q st. fs_readers s q = Some st \<Longrightarrow> reader_ok s st"
    and ch: "\<And>u e. fileCache (fs_cache s) u = Some e \<Longrightarrow> (u, cf_lines e) \<in> set (fs_log s)"
    using inv by (auto simp: fetch_inv_def)
  obtain c where c: "(if cancelled then Some (fs_cache s) else cacheLines now url lns (fs_cache s)) = Some c" "files_ok c"
    "\<And>u e. fileCache c u = Some e \<Longrightarrow> fileCache (fs_cache s) u = Some e \<or> u = url \<and> cf_lines e = lns"
    using cacheLines_ok [OF fc, of now url lns] fc by (cases cancelled) auto
  define s' where "s' = set_reader r (Returned url lns)
     (s\<lparr>fs_cache := c, fs_flights := filter (\<lambda>(u, _). u \<noteq> url) (fs_flights s),
        fs_done := (fs_done s)(f \<mapsto> lns), fs_log := (url, lns) # fs_log s\<rparr>)"
  have fin: "finish_flight now cancelled r url f lns s = Some s'"
    by (simp add: finish_flight_def c(1) s'_def)
  have uf: "(url, f) \<in> set (fs_flights s)" using ow r by (auto simp: owners_ok_def)
  have flights: "set (fs_flights s') = set (fs_flights s) - {(url, f)}"
    using fl uf by (auto simp: s'_def flights_ok_def dest: eq_key_imp_eq_value)
  have snd: "f' \<noteq> f" if "(u, f') \<in> set (fs_flights s')" for u f'
    using that uf fl unfolding flights flights_ok_def by (auto simp: distinct_map inj_on_def) fastforce
  have readers: "fs_readers s' = (fs_readers s)(r \<mapsto> Returned url lns)" by (simp add: s'_def)
  have "flights_ok s'" unfolding flights_ok_def
  proof (intro conjI)
    show "\<forall>(u, f') \<in> set (fs_flights s'). f' < fs_next s' \<and> fs_done s' f' = None"
      using fl snd unfolding flights_ok_def flights by (auto simp: s'_def)
    show "\<forall>f'. fs_done s' f' \<noteq> None \<longrightarrow> f' < fs_next s'" using fl uf by (auto simp: flights_ok_def s'_def)
    show "length (fs_flights s') \<le> 4" using fl by (auto simp: flights_ok_def s'_def intro: order_trans [OF length_filter_le])
  qed (use fl in \<open>auto simp: flights_ok_def s'_def distinct_map inj_on_def\<close>)
  moreover have "owners_ok s'" unfolding owners_ok_def
  proof (intro conjI allI impI ballI)
    fix q q' v v' g
    assume "fs_readers s' q = Some (Owner v g)" "fs_readers s' q' = Some (Owner v' g)"
    then show "q = q'" using ow unfolding owners_ok_def readers by (auto split: if_splits)
  next
    fix q v g assume q: "fs_readers s' q = Some (Owner v g)"
    then have "fs_readers s q = Some (Owner v g)" "q \<noteq> r" by (auto simp: readers split: if_splits)
    moreover from this r ow have "(v, g) \<noteq> (url, f)" unfolding owners_ok_def by blast
    moreover have "(v, g) \<in> set (fs_flights s)" using \<open>fs_readers s q = Some (Owner v g)\<close> ow unfolding owners_ok_def by blast
    ultimately show "(v, g) \<in> set (fs_flights s')" unfolding flights by blast
  next
    fix p assume p: "p \<in> set (fs_flights s')"
    obtain v g where vg: "p = (v, g)" by (cases p)
    with p have "(v, g) \<in> set (fs_flights s)" "g \<noteq> f" using snd unfolding flights by blast+
    with ow obtain q where "fs_readers s q = Some (Owner v g)" unfolding owners_ok_def by fastforce
    with vg r \<open>g \<noteq> f\<close> show "case p of (v, g) \<Rightarrow> \<exists>q. fs_readers s' q = Some (Owner v g)"
      by (auto simp: readers intro!: exI [of _ q])
  qed
  moreover have "reader_ok s' st" if q: "fs_readers s' q = Some st" for q st
  proof (cases "q = r")
    case True
    with q show ?thesis by (auto simp: readers reader_ok_def) (simp add: s'_def)
  next
    case False
    with q have "fs_readers s q = Some st" by (simp add: readers)
    from rd [OF this] this False show ?thesis
    proof (cases st)
      case (Owner v g)
      with q \<open>owners_ok s'\<close> show ?thesis by (auto simp: owners_ok_def reader_ok_def)
    next
      case (Waiter v g)
      from rd [OF \<open>fs_readers s q = Some st\<close>] Waiter
      have "(v, g) \<in> set (fs_flights s) \<or> (\<exists>ls. fs_done s g = Some ls \<and> (v, ls) \<in> set (fs_log s))" by (simp add: reader_ok_def)
      moreover have "fs_done s f = None" using fl uf by (auto simp: flights_ok_def)
      ultimately show ?thesis using Waiter flights by (cases "g = f"; cases "v = url") (auto simp: reader_ok_def s'_def)
    next
      case (Returned v ls)
      with rd [OF \<open>fs_readers s q = Some st\<close>] show ?thesis by (auto simp: reader_ok_def s'_def)
    qed
  qed
  moreover have "(u, cf_lines e) \<in> set (fs_log s')" if "fileCache (fs_cache s') u = Some e" for u e
    using c(3) [of u e] that ch by (auto simp: s'_def)
  moreover have "files_ok (fs_cache s')" using c(2) by (simp add: s'_def)
  ultimately show ?thesis using fin by (auto simp: fetch_inv_def)
qed

lemma fetch_step_inv: "fetch_step s s' \<Longrightarrow> fetch_inv s \<Longrightarrow> fetch_inv s'"
proof (induction rule: fetch_step.induct)
  case (Call s r now cancelled url)
  then show ?case by (simp add: sharedLines_inv)
next
  case (Finish s r url f now cancelled lns s')
  with finish_flight_inv [OF Finish.prems Finish.hyps(1), of now cancelled lns] show ?case by auto
next
  case (Wake s r url f lns)
  then have "reader_ok s (Waiter url f)" "flights_ok s" by (auto simp: fetch_inv_def)
  with Wake(2) have "(url, lns) \<in> set (fs_log s)" by (auto simp: reader_ok_def flights_ok_def)
  with Wake show ?case by (intro set_other_reader) (auto simp: reader_ok_def)
next
  case (Leave s r url f)
  then show ?case by (intro set_other_reader) (auto simp: reader_ok_def)
qed

lemma fetch_inv_reachable: "fetch_reachable s \<Longrightarrow> fetch_inv s"
proof (induction rule: fetch_reachable.induct)
  case Start
  show ?case by (simp add: fetch_inv_def no_readers_def files_ok_def files.wf_def files.bytes_of_def empty_files_def
        flights_ok_def owners_ok_def fileCacheMax_def cacheBytesMax_def)
next
  case (Step s s')
  then show ?case using fetch_step_inv by blast
qed

text \<open>
However concurrent readers of JavaScript files interleave, at most four requests are in flight and
no two for the same URL, the file cache stays within its bounds without ever evicting from an empty
order, and every reader gets nothing or the lines a request for its own URL returned.
\<close>

theorem shared_requests:
  assumes "fetch_reachable s"
  shows "length (fs_flights s) \<le> 4 \<and> length (fileOrder (fs_cache s)) \<le> 64 \<and> fileBytes (fs_cache s) \<le> cacheBytesMax
    \<and> inj_on (\<lambda>r. case fs_readers s r of Some (Owner url _) \<Rightarrow> url | _ \<Rightarrow> []) {r. \<exists>url f. fs_readers s r = Some (Owner url f)}
    \<and> (\<forall>r url lns. fs_readers s r = Some (Returned url lns) \<longrightarrow> lns = [] \<or> (url, lns) \<in> set (fs_log s))
    \<and> (\<forall>r url f now cancelled lns. fs_readers s r = Some (Owner url f) \<longrightarrow> finish_flight now cancelled r url f lns s \<noteq> None)"
proof -
  have inv: "fetch_inv s" by (rule fetch_inv_reachable [OF assms])
  then have fl: "flights_ok s" and ow: "owners_ok s" and fc: "files_ok (fs_cache s)"
    and rd: "\<And>q st. fs_readers s q = Some st \<Longrightarrow> reader_ok s st" by (auto simp: fetch_inv_def)
  have "r = r'" if "fs_readers s r = Some (Owner u f)" "fs_readers s r' = Some (Owner u f')" for r r' u f f'
  proof -
    have "(u, f) \<in> set (fs_flights s)" "(u, f') \<in> set (fs_flights s)" using that ow unfolding owners_ok_def by blast+
    with fl have "f = f'" by (auto simp: flights_ok_def dest: eq_key_imp_eq_value)
    with that ow show ?thesis unfolding owners_ok_def by blast
  qed
  then have "inj_on (\<lambda>r. case fs_readers s r of Some (Owner url _) \<Rightarrow> url | _ \<Rightarrow> []) {r. \<exists>url f. fs_readers s r = Some (Owner url f)}"
    by (fastforce simp: inj_on_def)
  moreover have "\<forall>r url lns. fs_readers s r = Some (Returned url lns) \<longrightarrow> lns = [] \<or> (url, lns) \<in> set (fs_log s)"
    using rd by (fastforce simp: reader_ok_def)
  moreover have "\<forall>r url f now cancelled lns. fs_readers s r = Some (Owner url f) \<longrightarrow> finish_flight now cancelled r url f lns s \<noteq> None"
    using finish_flight_inv [OF inv] by blast
  ultimately show ?thesis using fl fc by (simp add: flights_ok_def files_ok_def fileCacheMax_def)
qed

section \<open>Two readers of one file\<close>

lemma shared_example:
  "\<exists>s. fetch_reachable s \<and> fs_readers s 1 = Some (Returned ''u'' [''x'']) \<and> fs_readers s 2 = Some (Returned ''u'' [''x''])"
proof -
  define s1 where "s1 = sharedLines 0 False 1 ''u'' no_readers"
  define s2 where "s2 = sharedLines 0 False 2 ''u'' s1"
  have s1: "fs_readers s1 1 = Some (Owner ''u'' 0)" "fs_readers s1 2 = None" "fs_flights s1 = [(''u'', 0)]" "fs_cache s1 = empty_files"
    by (simp_all add: s1_def sharedLines_def no_readers_def fresh_lines_def empty_files_def)
  have s2: "fs_readers s2 1 = Some (Owner ''u'' 0)" "fs_readers s2 2 = Some (Waiter ''u'' 0)" "fs_flights s2 = [(''u'', 0)]"
    using s1 by (simp_all add: s2_def sharedLines_def fresh_lines_def empty_files_def)
  have r1: "fetch_reachable s1" unfolding s1_def
    by (rule fetch_reachable.Step [OF Start fetch_step.Call]) (simp add: no_readers_def)
  have r2: "fetch_reachable s2" unfolding s2_def by (rule fetch_reachable.Step [OF r1 fetch_step.Call]) (rule s1)
  obtain s3 where s3: "finish_flight 5 True 1 ''u'' 0 [''x''] s2 = Some s3"
    by (simp add: finish_flight_def)
  have r3: "fetch_reachable s3" by (rule fetch_reachable.Step [OF r2 fetch_step.Finish [OF s2(1) s3]])
  have f3: "fs_readers s3 1 = Some (Returned ''u'' [''x''])" "fs_readers s3 2 = Some (Waiter ''u'' 0)" "fs_done s3 0 = Some [''x'']"
    using s3 s2 by (auto simp: finish_flight_def)
  have "fetch_reachable (set_reader 2 (Returned ''u'' [''x'']) s3)"
    by (rule fetch_reachable.Step [OF r3 fetch_step.Wake [OF f3(2,3)]])
  with f3 show ?thesis by (intro exI [of _ "set_reader 2 (Returned ''u'' [''x'']) s3"]) simp
qed

theorem shared_requests_witness:
  "\<exists>s. fetch_reachable s \<and> fs_readers s 2 = Some (Returned ''u'' [''x'']) \<and> (''u'', [''x'']) \<in> set (fs_log s)"
proof -
  obtain s where s: "fetch_reachable s" "fs_readers s 2 = Some (Returned ''u'' [''x''])" using shared_example by blast
  from shared_requests [OF s(1)] s(2) have "(''u'', [''x'']) \<in> set (fs_log s)" by blast
  with s show ?thesis by blast
qed

end
