(* ===== verification/Sourcemap_Store.thy ===== *)
theory Sourcemap_Store
  imports Complex_Main Sourcemap_Cache
begin

text \<open>
  The source-map store (sourcemaps/store.go, sourcemaps/verify.go, storage/sourcemaps.go): uploading and deleting maps,
  resolving the frames of an event and verifying its maps. The table and the directory of map files are a record;
  \<open>json.Unmarshal\<close> on a map is the parameter \<open>decode\<close> and the hex SHA-256 the parameter \<open>hash\<close>. What
  \<open>sharedLines\<close> returns for a URL (theory \<open>Sourcemap_Cache\<close>) is the parameter \<open>fetch\<close>. A panic is \<open>None\<close>.
\<close>

section \<open>URLs\<close>

definition alpha :: "char \<Rightarrow> bool" where
  "alpha c \<longleftrightarrow> (97 \<le> (of_char c :: nat) \<and> (of_char c :: nat) \<le> 122) \<or> (65 \<le> (of_char c :: nat) \<and> (of_char c :: nat) \<le> 90)"

definition scheme_char :: "char \<Rightarrow> bool" where
  "scheme_char c \<longleftrightarrow> alpha c \<or> is_digit c \<or> c = CHR ''+'' \<or> c = CHR ''.'' \<or> c = CHR ''-''"

text \<open>\<open>schemeRe.ReplaceAllString(u, "")\<close>: no character of the scheme is a colon, so the match does not backtrack.\<close>

definition strip_scheme :: "string \<Rightarrow> string" where
  "strip_scheme u =
     (case u of
        [] \<Rightarrow> u
      | c # cs \<Rightarrow>
          let t = dropWhile scheme_char cs in
          if alpha c \<and> has_prefix ''://'' t then dropWhile (\<lambda>d. d \<noteq> CHR ''/'') (drop 3 t) else u)"

definition NormalizeURL :: "string \<Rightarrow> string" where
  "NormalizeURL u =
     (let u1 = (if has_prefix ''~'' u then drop 1 u else u);
          u2 = strip_scheme u1;
          u3 = (if has_prefix ''/'' u2 then u2 else CHR ''/'' # u2)
      in CHR ''~'' # u3)"

definition frameURLs :: "string \<Rightarrow> string \<Rightarrow> string list" where
  "frameURLs absPath filename = remdups (map NormalizeURL (filter (\<lambda>u. u \<noteq> []) [absPath, filename]))"

lemma frameURLs_eq:
  "frameURLs absPath filename =
     (if absPath = [] then if filename = [] then [] else [NormalizeURL filename]
      else if filename = [] \<or> NormalizeURL filename = NormalizeURL absPath then [NormalizeURL absPath]
      else [NormalizeURL absPath, NormalizeURL filename])"
  by (simp add: frameURLs_def)

lemma strip_scheme_slash: "strip_scheme (CHR ''/'' # p) = CHR ''/'' # p"
  by (simp add: strip_scheme_def alpha_def Let_def)

lemma normalize_rooted: "NormalizeURL (CHR ''/'' # p) = CHR ''~'' # CHR ''/'' # p"
  by (simp add: NormalizeURL_def strip_scheme_slash)

lemma normalize_tilde: "NormalizeURL (CHR ''~'' # CHR ''/'' # p) = CHR ''~'' # CHR ''/'' # p"
  by (simp add: NormalizeURL_def strip_scheme_slash)

lemma dropWhile_until: "\<forall>c \<in> set xs. P c \<Longrightarrow> \<not> P y \<Longrightarrow> dropWhile P (xs @ y # ys) = y # ys"
  by (induction xs) auto

lemma strip_scheme_url:
  assumes "scheme \<noteq> []" "alpha (hd scheme)" "\<forall>c \<in> set scheme. scheme_char c" "CHR ''/'' \<notin> set host"
  shows "strip_scheme (scheme @ ''://'' @ host @ CHR ''/'' # p) = CHR ''/'' # p"
proof -
  obtain c cs where s: "scheme = c # cs" using assms(1) by (cases scheme) auto
  have "\<not> scheme_char CHR '':''" by (simp add: scheme_char_def alpha_def is_digit_def)
  then have "dropWhile scheme_char (cs @ ''://'' @ host @ CHR ''/'' # p) = ''://'' @ host @ CHR ''/'' # p"
    using dropWhile_until [of cs scheme_char "CHR '':''" "''//'' @ host @ CHR ''/'' # p"] assms(3) s by simp
  moreover have "dropWhile (\<lambda>d. d \<noteq> CHR ''/'') (host @ CHR ''/'' # p) = CHR ''/'' # p"
    using assms(4) by (intro dropWhile_until) auto
  ultimately show ?thesis using assms(2) s by (simp add: strip_scheme_def)
qed

theorem normalize_url_forms:
  assumes "scheme \<noteq> []" "alpha (hd scheme)" "\<forall>c \<in> set scheme. scheme_char c" "CHR ''/'' \<notin> set host"
  shows "NormalizeURL (scheme @ ''://'' @ host @ CHR ''/'' # p) = NormalizeURL (CHR ''/'' # p)
    \<and> NormalizeURL (CHR ''~'' # scheme @ ''://'' @ host @ CHR ''/'' # p) = NormalizeURL (CHR ''/'' # p)
    \<and> NormalizeURL (NormalizeURL u) = NormalizeURL u \<and> has_prefix ''~/'' (NormalizeURL u)"
proof -
  have n: "\<exists>q. NormalizeURL u = CHR ''~'' # CHR ''/'' # q"
  proof -
    define v where "v = strip_scheme (if has_prefix ''~'' u then drop 1 u else u)"
    have "NormalizeURL u = CHR ''~'' # (if has_prefix ''/'' v then v else CHR ''/'' # v)"
      by (simp add: NormalizeURL_def v_def Let_def)
    then show ?thesis by (cases v) auto
  qed
  moreover obtain c cs where s: "scheme = c # cs" using assms(1) by (cases scheme) auto
  then have "c \<noteq> CHR ''~''" using assms(2) by (auto simp: alpha_def)
  then have "NormalizeURL (scheme @ ''://'' @ host @ CHR ''/'' # p) = CHR ''~'' # CHR ''/'' # p"
    using strip_scheme_url [OF assms] s by (simp add: NormalizeURL_def)
  moreover have "NormalizeURL (CHR ''~'' # scheme @ ''://'' @ host @ CHR ''/'' # p) = CHR ''~'' # CHR ''/'' # p"
    using strip_scheme_url [OF assms] by (simp add: NormalizeURL_def)
  ultimately show ?thesis using normalize_tilde by (auto simp: normalize_rooted)
qed

theorem normalize_url_forms_witness:
  "NormalizeURL ''https://example.com/dist/main.js'' = NormalizeURL ''/dist/main.js''
   \<and> NormalizeURL (NormalizeURL ''dist/main.js'') = NormalizeURL ''dist/main.js''"
  using normalize_url_forms [of "''https''" "''example.com''" "''dist/main.js''" "''dist/main.js''"]
  by (simp add: alpha_def scheme_char_def)

section \<open>The table and the files\<close>

record sourcemap_row =
  sr_id :: nat
  sr_project :: string
  sr_release :: string
  sr_url :: string
  sr_hash :: string
  sr_size :: nat
  sr_created :: nanos

record map_store =
  ms_rows :: "sourcemap_row list"
  ms_next :: nat
  ms_files :: "string \<times> string \<Rightarrow> string option"

definition row_key :: "sourcemap_row \<Rightarrow> string \<times> string \<times> string" where
  "row_key r = (sr_project r, sr_release r, sr_url r)"

text \<open>The insert with its conflict clause: the row that results, and the table.\<close>

definition UpsertSourcemap :: "nanos \<Rightarrow> sourcemap_row \<Rightarrow> map_store \<Rightarrow> sourcemap_row \<times> map_store" where
  "UpsertSourcemap now s st =
     (case find (\<lambda>r. row_key r = row_key s) (ms_rows st) of
        Some old \<Rightarrow>
          let row = old\<lparr>sr_hash := sr_hash s, sr_size := sr_size s\<rparr>
          in (row, st\<lparr>ms_rows := map (\<lambda>r. if row_key r = row_key s then row else r) (ms_rows st)\<rparr>)
      | None \<Rightarrow>
          let row = s\<lparr>sr_id := ms_next st, sr_created := now\<rparr>
          in (row, st\<lparr>ms_rows := ms_rows st @ [row], ms_next := Suc (ms_next st)\<rparr>))"

definition GetSourcemap :: "string \<Rightarrow> string \<Rightarrow> string \<Rightarrow> map_store \<Rightarrow> sourcemap_row option" where
  "GetSourcemap project release url st = find (\<lambda>r. row_key r = (project, release, url)) (ms_rows st)"

definition ListSourcemaps :: "string \<Rightarrow> string \<Rightarrow> map_store \<Rightarrow> sourcemap_row list" where
  "ListSourcemaps project release st =
     rev (sort_key sr_created (filter (\<lambda>r. sr_project r = project \<and> (release \<noteq> [] \<longrightarrow> sr_release r = release)) (ms_rows st)))"

text \<open>The hash is empty when no row was found.\<close>

definition DeleteSourcemap :: "nat \<Rightarrow> string \<Rightarrow> map_store \<Rightarrow> string \<times> map_store" where
  "DeleteSourcemap i project st =
     (case find (\<lambda>r. sr_id r = i \<and> sr_project r = project) (ms_rows st) of
        None \<Rightarrow> ([], st)
      | Some r \<Rightarrow> (sr_hash r, st\<lparr>ms_rows := filter (\<lambda>r. \<not> (sr_id r = i \<and> sr_project r = project)) (ms_rows st)\<rparr>))"

definition CountSourcemapsByHash :: "string \<Rightarrow> string \<Rightarrow> map_store \<Rightarrow> nat" where
  "CountSourcemapsByHash project h st = length (filter (\<lambda>r. sr_project r = project \<and> sr_hash r = h) (ms_rows st))"

section \<open>Upload and delete\<close>

definition MaxUploadSize :: nat where "MaxUploadSize = 10485760"

datatype upload_error = UploadRead | UploadTooLarge | InvalidMap map_error | UploadFile | UploadDB

text \<open>
  \<open>body\<close> is what the reader yields, \<open>None\<close> an error of it; \<open>io_ok\<close> and \<open>db_ok\<close> say whether the file
  operations and the query succeed. \<open>publish\<close> renames the complete temporary file over the target.
\<close>

definition publish :: "string \<Rightarrow> string \<Rightarrow> string \<Rightarrow> map_store \<Rightarrow> map_store" where
  "publish project h content st = st\<lparr>ms_files := (ms_files st)((project, h) \<mapsto> content)\<rparr>"

definition new_row :: "string \<Rightarrow> string \<Rightarrow> string \<Rightarrow> string \<Rightarrow> nat \<Rightarrow> sourcemap_row" where
  "new_row project release url h n =
     \<lparr>sr_id = 0, sr_project = project, sr_release = release, sr_url = NormalizeURL url, sr_hash = h, sr_size = n, sr_created = 0\<rparr>"

definition Upload :: "(string \<Rightarrow> source_map option) \<Rightarrow> (string \<Rightarrow> string) \<Rightarrow> ctx \<Rightarrow> nanos \<Rightarrow> string option \<Rightarrow> bool \<Rightarrow> bool
    \<Rightarrow> string \<Rightarrow> string \<Rightarrow> string \<Rightarrow> map_store \<Rightarrow> (upload_error + sourcemap_row) \<times> map_store" where
  "Upload decode hash x now body io_ok db_ok project release url st =
     (case body of
        None \<Rightarrow> (Inl UploadRead, st)
      | Some bytes \<Rightarrow>
          let content = take (MaxUploadSize + 1) bytes in
          if MaxUploadSize < length content then (Inl UploadTooLarge, st)
          else case ParseContext (decode content) x of
            Inl e \<Rightarrow> (Inl (InvalidMap e), st)
          | Inr _ \<Rightarrow>
              if \<not> io_ok then (Inl UploadFile, st)
              else
                let st1 = publish project (hash content) content st in
                if \<not> db_ok then (Inl UploadDB, st1)
                else case UpsertSourcemap now (new_row project release url (hash content) (length content)) st1 of
                  (row, st2) \<Rightarrow> (Inr row, st2))"

definition remove_file :: "string \<Rightarrow> string \<Rightarrow> map_store \<Rightarrow> map_store" where
  "remove_file project h st = st\<lparr>ms_files := (ms_files st)((project, h) := None)\<rparr>"

text \<open>
  \<open>delete_ok\<close> and \<open>count_ok\<close> say whether the two queries succeed, \<open>remove_ok\<close> whether the file is removed. The
  result is \<open>None\<close> for an error.
\<close>

definition Delete :: "bool \<Rightarrow> bool \<Rightarrow> bool \<Rightarrow> nat \<Rightarrow> string \<Rightarrow> map_store \<Rightarrow> bool option \<times> map_store" where
  "Delete delete_ok count_ok remove_ok i project st =
     (if \<not> delete_ok then (None, st)
      else case DeleteSourcemap i project st of (h, st1) \<Rightarrow>
        if h = [] then (Some False, st1)
        else if \<not> count_ok then (Some True, st1)
        else if CountSourcemapsByHash project h st1 = 0 \<and> remove_ok then (Some True, remove_file project h st1)
        else (Some True, st1))"

datatype store_op =
    OpUpload ctx nanos "string option" bool bool string string string
  | OpDelete bool bool bool nat string

fun store_step :: "(string \<Rightarrow> source_map option) \<Rightarrow> (string \<Rightarrow> string) \<Rightarrow> map_store \<Rightarrow> store_op \<Rightarrow> map_store" where
  "store_step decode hash st (OpUpload x now body f d project release url) =
     snd (Upload decode hash x now body f d project release url st)"
| "store_step decode hash st (OpDelete d c r i project) = snd (Delete d c r i project st)"

definition empty_store :: map_store where
  "empty_store = \<lparr>ms_rows = [], ms_next = 0, ms_files = Map.empty\<rparr>"

definition valid_map :: "(string \<Rightarrow> source_map option) \<Rightarrow> string \<Rightarrow> bool" where
  "valid_map decode content \<longleftrightarrow> (\<exists>x sm. ParseContext (decode content) x = Inr sm)"

definition rows_backed :: "(string \<Rightarrow> source_map option) \<Rightarrow> (string \<Rightarrow> string) \<Rightarrow> map_store \<Rightarrow> bool" where
  "rows_backed decode hash st \<longleftrightarrow> (\<forall>r \<in> set (ms_rows st). \<exists>content.
     ms_files st (sr_project r, sr_hash r) = Some content \<and> hash content = sr_hash r \<and> valid_map decode content)"

definition store_inv :: "(string \<Rightarrow> source_map option) \<Rightarrow> (string \<Rightarrow> string) \<Rightarrow> map_store \<Rightarrow> bool" where
  "store_inv decode hash st \<longleftrightarrow> distinct (map row_key (ms_rows st)) \<and> distinct (map sr_id (ms_rows st))
     \<and> (\<forall>r \<in> set (ms_rows st). sr_id r < ms_next st) \<and> rows_backed decode hash st"

lemma publish_inv:
  "store_inv decode hash st \<Longrightarrow> ParseContext (decode content) x = Inr sm \<Longrightarrow> store_inv decode hash (publish p (hash content) content st)"
  by (auto simp: store_inv_def rows_backed_def publish_def valid_map_def)

lemma map_key_update: "(\<And>x. x \<in> set xs \<Longrightarrow> P x \<Longrightarrow> f y = f x) \<Longrightarrow> map f (map (\<lambda>x. if P x then y else x) xs) = map f xs"
  by (auto simp: comp_def)

lemma upsert_inv:
  assumes inv: "store_inv decode hash st" and f: "ms_files st (sr_project s, sr_hash s) = Some content"
    "hash content = sr_hash s" "valid_map decode content"
  shows "store_inv decode hash (snd (UpsertSourcemap now s st))"
proof (cases "find (\<lambda>r. row_key r = row_key s) (ms_rows st)")
  case None
  then have k: "row_key s \<notin> row_key ` set (ms_rows st)" by (auto simp: find_None_iff)
  have i: "ms_next st \<notin> sr_id ` set (ms_rows st)" using inv by (auto simp: store_inv_def)
  have "row_key (s\<lparr>sr_id := n, sr_created := now\<rparr>) = row_key s" for n by (simp add: row_key_def)
  with None inv f k i show ?thesis
    by (auto simp: UpsertSourcemap_def Let_def store_inv_def rows_backed_def less_SucI)
next
  case (Some old)
  then have old: "old \<in> set (ms_rows st)" "row_key old = row_key s" by (auto dest: find_SomeD)
  define row where "row = old\<lparr>sr_hash := sr_hash s, sr_size := sr_size s\<rparr>"
  have row: "row_key row = row_key s" "sr_id row = sr_id old" "sr_hash row = sr_hash s" "sr_project row = sr_project s"
    using old by (auto simp: row_def row_key_def)
  have st': "snd (UpsertSourcemap now s st) = st\<lparr>ms_rows := map (\<lambda>r. if row_key r = row_key s then row else r) (ms_rows st)\<rparr>"
    using Some by (simp add: UpsertSourcemap_def row_def Let_def)
  have same: "r = old" if "r \<in> set (ms_rows st)" "row_key r = row_key s" for r
    using inv old that by (auto simp: store_inv_def distinct_map inj_on_def)
  have m: "map row_key (map (\<lambda>r. if row_key r = row_key s then row else r) (ms_rows st)) = map row_key (ms_rows st)"
    "map sr_id (map (\<lambda>r. if row_key r = row_key s then row else r) (ms_rows st)) = map sr_id (ms_rows st)"
    using row same by (auto intro!: map_key_update)
  have "rows_backed decode hash (snd (UpsertSourcemap now s st))"
    using inv f row unfolding st' store_inv_def rows_backed_def by (auto split: if_splits)
  moreover have "\<forall>r \<in> set (ms_rows (snd (UpsertSourcemap now s st))). sr_id r < ms_next (snd (UpsertSourcemap now s st))"
    using inv old row unfolding st' store_inv_def by (auto split: if_splits)
  ultimately show ?thesis using inv m unfolding store_inv_def st' by (simp del: map_map)
qed

lemma Upload_inv: "store_inv decode hash st \<Longrightarrow> store_inv decode hash (snd (Upload decode hash x now body f d project release url st))"
proof -
  assume inv: "store_inv decode hash st"
  have p: "store_inv decode hash (publish project (hash content) content st)"
    if "ParseContext (decode content) x = Inr sm" for content sm using publish_inv [OF inv that] .
  have u: "store_inv decode hash (snd (UpsertSourcemap now (new_row project release url (hash content) n)
      (publish project (hash content) content st)))" if c: "ParseContext (decode content) x = Inr sm" for content sm n
  proof -
    from c have "valid_map decode content" by (auto simp: valid_map_def)
    then show ?thesis by (intro upsert_inv [OF p [OF c]]) (simp_all add: publish_def new_row_def)
  qed
  show ?thesis using inv p u
    by (auto simp: Upload_def Let_def split: option.splits sum.splits prod.splits) (metis snd_conv)
qed

lemma delete_rows: "DeleteSourcemap i project st = (h, st1) \<Longrightarrow>
    ms_files st1 = ms_files st \<and> ms_next st1 = ms_next st
    \<and> ms_rows st1 = filter (\<lambda>r. \<not> (sr_id r = i \<and> sr_project r = project)) (ms_rows st)"
  by (auto simp: DeleteSourcemap_def find_None_iff intro!: filter_True [symmetric] split: option.splits)

lemma delete_rows_inv: "store_inv decode hash st \<Longrightarrow> DeleteSourcemap i project st = (h, st1) \<Longrightarrow> store_inv decode hash st1"
  by (auto simp: store_inv_def rows_backed_def distinct_map_filter dest!: delete_rows)

lemma remove_unused_inv:
  "store_inv decode hash st \<Longrightarrow> CountSourcemapsByHash project h st = 0 \<Longrightarrow> store_inv decode hash (remove_file project h st)"
  by (auto simp: store_inv_def rows_backed_def remove_file_def CountSourcemapsByHash_def filter_empty_conv)

lemma Delete_inv: "store_inv decode hash st \<Longrightarrow> store_inv decode hash (snd (Delete d c r i project st))"
  by (auto simp: Delete_def dest: delete_rows_inv intro: remove_unused_inv split: prod.splits)

lemma store_step_inv: "store_inv decode hash st \<Longrightarrow> store_inv decode hash (store_step decode hash st op)"
  by (cases op) (simp_all add: Upload_inv Delete_inv)

interpretation map_files: machine "store_step decode hash" "store_inv decode hash" for decode hash
  by unfold_locales (rule store_step_inv)

lemma reachable_store_inv: "store_inv decode hash (foldl (store_step decode hash) empty_store ops)"
  by (rule map_files.run_inv) (simp add: store_inv_def rows_backed_def empty_store_def)

text \<open>
C29: After any sequential history of uploads and deletes, with failing queries and file operations
included, every row that a lookup by release and URL returns has its map file, and the file hashes
to the row's hash and parses as a source map.
\<close>

theorem uploaded_maps_have_files:
  assumes "GetSourcemap project release url (foldl (store_step decode hash) empty_store ops) = Some r"
  shows "\<exists>content. ms_files (foldl (store_step decode hash) empty_store ops) (project, sr_hash r) = Some content
    \<and> hash content = sr_hash r \<and> valid_map decode content"
proof -
  have "r \<in> set (ms_rows (foldl (store_step decode hash) empty_store ops))" "sr_project r = project"
    using assms by (auto simp: GetSourcemap_def row_key_def dest: find_SomeD)
  with reachable_store_inv [of decode hash ops] show ?thesis by (auto simp: store_inv_def rows_backed_def)
qed

definition demo_uploads :: "store_op list" where
  "demo_uploads = [OpUpload None 0 (Some ''{}'') True True ''p'' ''r'' ''/a.js'', OpUpload None 1 (Some ''{}'') True True ''p'' ''s'' ''a.js'',
     OpDelete True True True 0 ''p'']"

theorem uploaded_maps_have_files_witness:
  "\<exists>content. ms_files (foldl (store_step (\<lambda>_. Some demo_map) (\<lambda>_. ''h'')) empty_store demo_uploads) (''p'', ''h'') = Some content"
proof -
  have "map_option sr_hash (GetSourcemap ''p'' ''s'' ''~/a.js'' (foldl (store_step (\<lambda>_. Some demo_map) (\<lambda>_. ''h'')) empty_store demo_uploads))
     = Some ''h''"
    by (simp add: demo_uploads_def Upload_def MaxUploadSize_def demo_parses publish_def UpsertSourcemap_def Let_def new_row_def row_key_def
        NormalizeURL_def strip_scheme_def alpha_def scheme_char_def is_digit_def empty_store_def Delete_def DeleteSourcemap_def
        CountSourcemapsByHash_def GetSourcemap_def)
  then obtain r where r: "GetSourcemap ''p'' ''s'' ''~/a.js'' (foldl (store_step (\<lambda>_. Some demo_map) (\<lambda>_. ''h'')) empty_store demo_uploads) = Some r"
    "sr_hash r = ''h''" by auto
  from uploaded_maps_have_files [OF r(1)] r(2) show ?thesis by (simp del: foldl_Cons) blast
qed

text \<open>An upload makes its map the one that its release and URL look up, whatever form the URL had.\<close>

lemma find_map_replace: "find P xs = Some old \<Longrightarrow> P y \<Longrightarrow> find P (map (\<lambda>x. if P x then y else x) xs) = Some y"
  by (induction xs) (auto split: if_splits)

lemma upload_then_lookup:
  assumes "Upload decode hash x now body f d project release url st = (Inr row, st')"
    and "NormalizeURL u = NormalizeURL url"
  shows "GetSourcemap project release (NormalizeURL u) st' = Some row
    \<and> (\<exists>content. ms_files st' (project, sr_hash row) = Some content \<and> sr_hash row = hash content)"
proof -
  obtain content where c: "sr_hash row = hash content" "ms_files st' (project, hash content) = Some content"
    "UpsertSourcemap now (new_row project release url (hash content) (length content))
       (publish project (hash content) content st) = (row, st')"
    using assms(1)
    by (auto simp: Upload_def Let_def UpsertSourcemap_def publish_def new_row_def split: option.splits sum.splits if_splits prod.splits)
  let ?s = "new_row project release url (hash content) (length content)"
  have k: "row_key ?s = (project, release, NormalizeURL u)"
    using assms(2) by (simp add: row_key_def new_row_def)
  have "GetSourcemap project release (NormalizeURL u) st' = Some row"
  proof (cases "find (\<lambda>r. row_key r = row_key ?s) (ms_rows (publish project (hash content) content st))")
    case None
    with c(3) k show ?thesis by (auto simp: UpsertSourcemap_def GetSourcemap_def Let_def find_append) (simp add: row_key_def)
  next
    case (Some old)
    then have "row_key old = row_key ?s" by (auto dest: find_SomeD)
    then have "row_key (old\<lparr>sr_hash := sr_hash ?s, sr_size := sr_size ?s\<rparr>) = row_key ?s" by (simp add: row_key_def)
    with Some c(3) k show ?thesis by (auto simp: UpsertSourcemap_def GetSourcemap_def Let_def find_map_replace)
  qed
  with c show ?thesis by auto
qed

text \<open>
  Uploads and deletes are not serialized against each other: when the upload of a content runs between the count and
  the removal of a delete of the same content, its row is left without its file.
\<close>

lemma delete_upload_race:
  assumes "DeleteSourcemap i project st = (h, st1)" "CountSourcemapsByHash project h st1 = 0"
    and "Upload decode hash x now body f d project release url st1 = (Inr row, st2)" "sr_hash row = h"
  shows "GetSourcemap project release (NormalizeURL url) (remove_file project h st2) = Some row
    \<and> ms_files (remove_file project h st2) (project, sr_hash row) = None"
proof -
  have "GetSourcemap project release (NormalizeURL url) st2 = Some row" using upload_then_lookup [OF assms(3) refl] by blast
  with assms(4) show ?thesis by (simp add: GetSourcemap_def remove_file_def)
qed

section \<open>The raw file's context line\<close>

definition mapColumn :: "go_int \<Rightarrow> go_int" where
  "mapColumn colno = max (wrap64 (colno - 1)) 0"

definition ctxLineMax :: go_int where "ctxLineMax = 140"
definition fetchMaxSize :: nat where "fetchMaxSize = 5242880"

text \<open>What the request for a file comes to; a body may fail while it is read.\<close>

datatype file_response = NoResponse | FileResponse go_int "string option"

definition fetchLines :: "file_response \<Rightarrow> string list" where
  "fetchLines resp =
     (case resp of
        NoResponse \<Rightarrow> []
      | FileResponse status body \<Rightarrow>
          if status \<noteq> 200 then []
          else (case body of
              None \<Rightarrow> []
            | Some bytes \<Rightarrow>
                let content = take (fetchMaxSize + 1) bytes in
                if fetchMaxSize < length content then [] else split_on (CHR 0x0A) content))"

text \<open>\<open>s[lo:hi]\<close>\<close>

definition slice :: "string \<Rightarrow> go_int \<Rightarrow> go_int \<Rightarrow> string option" where
  "slice s lo hi =
     (if 0 \<le> lo \<and> lo \<le> hi \<and> hi \<le> int (length s) then Some (take (nat hi - nat lo) (drop (nat lo) s)) else None)"

definition window :: "string \<Rightarrow> go_int \<Rightarrow> string option" where
  "window line colno =
     (if int (length line) \<le> ctxLineMax then Some line
      else
        let start = max (wrap64 (colno - ctxLineMax div 2)) 0;
            end1 = wrap64 (start + ctxLineMax);
            (start', end') = (if int (length line) < end1
              then (max (int (length line) - ctxLineMax) 0, int (length line)) else (start, end1))
        in (case slice line start' end' of
              None \<Rightarrow> None
            | Some snippet \<Rightarrow>
                let s1 = (if 0 < start' then ''{snip} '' @ snippet else snippet)
                in Some (if end' < int (length line) then s1 @ '' {snip}'' else s1)))"

definition fetchContextLine :: "(string \<Rightarrow> string list) \<Rightarrow> string \<Rightarrow> go_int \<Rightarrow> go_int \<Rightarrow> string option" where
  "fetchContextLine fetch rawURL lineno colno =
     (if \<not> has_prefix ''http://'' rawURL \<and> \<not> has_prefix ''https://'' rawURL then Some []
      else
        let lns = fetch rawURL in
        if lineno < 1 \<or> int (length lns) < lineno then Some []
        else
          let line = lns ! nat (lineno - 1) in
          if line = [] then Some [] else window line colno)"

text \<open>
  Below the top 70 values of the column the window never panics; it is the whole line, or 140 characters of it that
  include the column when the line has it.
\<close>

lemma window_slice:
  assumes "0 \<le> lo" "lo + 140 \<le> int (length line)"
  shows "slice line lo (lo + 140) = Some (take 140 (drop (nat lo) line))"
proof -
  have "nat (lo + 140) - nat lo = 140" using assms(1) by (simp add: nat_add_distrib)
  with assms show ?thesis by (simp add: slice_def)
qed

lemma window_Some:
  assumes "0 \<le> colno" "colno < 2 ^ 63 - 70" "ctxLineMax < int (length line)"
  shows "\<exists>lo. lo + 140 \<le> length line \<and> (colno < int (length line) \<longrightarrow> int lo \<le> colno \<and> colno < int lo + 140)
    \<and> window line colno = Some ((if 0 < lo then ''{snip} '' else []) @ take 140 (drop lo line)
        @ (if lo + 140 < length line then '' {snip}'' else []))"
proof -
  define start where "start = max (colno - 70) 0"
  define lo where "lo = (if int (length line) < start + 140 then int (length line) - 140 else start)"
  have w: "wrap64 (colno - 70) = colno - 70" "wrap64 (start + 140) = start + 140"
    using assms by (simp_all add: start_def is_int64_def)
  have len: "140 < int (length line)" using assms(3) by (simp add: ctxLineMax_def)
  have lo: "0 \<le> lo" "lo + 140 \<le> int (length line)" using len by (auto simp: lo_def start_def)
  have nl: "(nat lo + 140 < length line) = (lo + 140 < int (length line))" "(0 < nat lo) = (0 < lo)"
    using lo(1) by linarith+
  have "window line colno = (case slice line lo (lo + 140) of None \<Rightarrow> None
     | Some snippet \<Rightarrow> Some ((if 0 < lo then ''{snip} '' else []) @ snippet
         @ (if lo + 140 < int (length line) then '' {snip}'' else [])))"
    using len w lo(1) by (simp add: window_def ctxLineMax_def Let_def lo_def flip: start_def split: option.split)
  then have "window line colno = Some ((if 0 < nat lo then ''{snip} '' else []) @ take 140 (drop (nat lo) line)
     @ (if nat lo + 140 < length line then '' {snip}'' else []))"
    using lo window_slice [OF lo] nl by simp
  moreover have "colno < int (length line) \<longrightarrow> lo \<le> colno \<and> colno < lo + 140"
    using assms(1) len by (auto simp: lo_def start_def)
  ultimately show ?thesis using lo by (intro exI [of _ "nat lo"]) auto
qed

text \<open>At the top the end of the window overflows and the slice expression panics.\<close>

lemma window_overflow:
  assumes "2 ^ 63 - 70 \<le> colno" "colno < 2 ^ 63" "ctxLineMax < int (length line)"
  shows "window line colno = None"
proof -
  have "wrap64 (colno - 70) = colno - 70" using assms by (simp add: is_int64_def)
  moreover have "(colno + 70 + 2 ^ 63) mod 2 ^ 64 = colno + 70 + 2 ^ 63 - 2 ^ 64"
    using assms minus_mod_self2 [of "colno + 70 + 2 ^ 63" "2 ^ 64"] mod_pos_pos_trivial [of "colno + 70 + 2 ^ 63 - 2 ^ 64" "2 ^ 64"]
    by simp
  then have "wrap64 (colno - 70 + 140) < 0" using assms by (simp add: wrap64_def add_ac)
  ultimately show ?thesis using assms by (auto simp: window_def Let_def ctxLineMax_def slice_def max_def)
qed

text \<open>
The context line cut from a long generated line is a piece of 140 characters around the column, with
a marker on each side where text was cut off, and a line of at most 140 characters is shown whole.
\<close>

theorem context_window:
  assumes "0 \<le> colno" "colno < 2 ^ 63 - 70"
  shows "\<exists>before mid after. line = before @ mid @ after \<and> length mid = min 140 (length line)
    \<and> (colno < int (length line) \<longrightarrow> int (length before) \<le> colno \<and> colno < int (length before) + int (length mid))
    \<and> window line colno = Some ((if before = [] then [] else ''{snip} '') @ mid @ (if after = [] then [] else '' {snip}''))"
proof (cases "int (length line) \<le> ctxLineMax")
  case True
  then show ?thesis using assms by (intro exI [of _ "[]"] exI [of _ line]) (simp add: window_def ctxLineMax_def)
next
  case False
  then obtain lo where lo: "lo + 140 \<le> length line"
    "colno < int (length line) \<longrightarrow> int lo \<le> colno \<and> colno < int lo + 140"
    "window line colno = Some ((if 0 < lo then ''{snip} '' else []) @ take 140 (drop lo line)
        @ (if lo + 140 < length line then '' {snip}'' else []))"
    using window_Some [OF assms, of line] by auto
  define b m a where d: "b = take lo line" "m = take 140 (drop lo line)" "a = drop (lo + 140) line"
  have c: "line = b @ m @ a"
    using append_take_drop_id [of lo line] append_take_drop_id [of 140 "drop lo line"] by (simp add: d add.commute)
  have l: "length b = lo" "length m = 140" "(b = []) = (\<not> 0 < lo)" "(a = []) = (\<not> lo + 140 < length line)"
    using lo(1) by (auto simp: d)
  have "window line colno = Some ((if b = [] then [] else ''{snip} '') @ m @ (if a = [] then [] else '' {snip}''))"
    unfolding lo(3) l(3,4) by (simp add: d)
  moreover have "length m = min 140 (length line)" using lo(1) l(2) by simp
  moreover have "colno < int (length line) \<longrightarrow> int (length b) \<le> colno \<and> colno < int (length b) + int (length m)"
    using lo(2) unfolding l(1,2) by simp
  ultimately show ?thesis using c by blast
qed

definition demo_line :: string where "demo_line = replicate 300 CHR ''x''"

theorem context_window_witness:
  "\<exists>b m a. demo_line = b @ m @ a \<and> length m = 140 \<and> length b \<le> 100
     \<and> window demo_line 100 = Some ((if b = [] then [] else ''{snip} '') @ m @ (if a = [] then [] else '' {snip}''))"
proof -
  have "length demo_line = 300" by (simp add: demo_line_def)
  with context_window [of 100 demo_line] obtain b m a where w: "demo_line = b @ m @ a" "length m = 140" "length b \<le> 100"
    "window demo_line 100 = Some ((if b = [] then [] else ''{snip} '') @ m @ (if a = [] then [] else '' {snip}''))"
    by auto
  then show ?thesis by blast
qed

section \<open>Resolving frames\<close>

text \<open>
  A frame of the event: a missing or ill-typed name is empty and a missing or ill-typed number is 0. JSON numbers are
  \<open>float64\<close>; \<open>int(f)\<close> truncates, and gives the least integer outside the range (amd64).
\<close>

record js_frame =
  jf_abs :: string
  jf_filename :: string
  jf_lineno :: rat
  jf_colno :: rat
  jf_orig :: "(string \<times> go_int \<times> go_int) option"
  jf_context :: "string option"

definition int_of_float :: "rat \<Rightarrow> go_int" where
  "int_of_float f = (let n = (if f < 0 then \<lceil>f\<rceil> else \<lfloor>f\<rfloor>) in if is_int64 n then n else - (2 ^ 63))"

text \<open>
  What a request sees around the lookup: the table and the files, which queries and reads succeed, and for each URL the
  context its load observes and the lines of the raw file.
\<close>

record resolve_env =
  re_project :: string
  re_release :: string
  re_store :: map_store
  re_decode :: "string \<Rightarrow> source_map option"
  re_capf :: "nat \<Rightarrow> nat"
  re_ctx :: "string \<Rightarrow> ctx"
  re_query :: "string \<Rightarrow> bool"
  re_readable :: "string \<Rightarrow> bool"
  re_fetch :: "string \<Rightarrow> string list"

definition map_file :: "resolve_env \<Rightarrow> sourcemap_row \<Rightarrow> source_map option option" where
  "map_file env meta =
     (if re_readable env (sr_hash meta)
      then map_option (re_decode env) (ms_files (re_store env) (re_project env, sr_hash meta)) else None)"

definition load_row :: "resolve_env \<Rightarrow> string \<Rightarrow> sourcemap_row \<Rightarrow> parsed_cache \<Rightarrow> parse_result" where
  "load_row env url meta pc =
     parsedSourceMap (re_capf env) (re_ctx env url) (re_project env) (sr_hash meta) (map_file env meta) pc"

definition loadSourceMap :: "resolve_env \<Rightarrow> string \<Rightarrow> parsed_cache \<Rightarrow> parse_result" where
  "loadSourceMap env url pc =
     (if \<not> re_query env url then NoMap pc
      else case GetSourcemap (re_project env) (re_release env) url (re_store env) of
        None \<Rightarrow> NoMap pc
      | Some meta \<Rightarrow> load_row env url meta pc)"

text \<open>The per-payload cache of maps by URL remembers misses too.\<close>

type_synonym sm_state = "(string \<Rightarrow> source_map option option) \<times> parsed_cache"

fun first_map :: "resolve_env \<Rightarrow> string list \<Rightarrow> sm_state \<Rightarrow> (source_map option \<times> sm_state) option" where
  "first_map env [] s = Some (None, s)"
| "first_map env (u # us) (sc, pc) =
     (case sc u of
        Some None \<Rightarrow> first_map env us (sc, pc)
      | Some (Some sm) \<Rightarrow> Some (Some sm, sc, pc)
      | None \<Rightarrow> (case loadSourceMap env u pc of
          ParsePanic \<Rightarrow> None
        | NoMap pc' \<Rightarrow> first_map env us (sc(u \<mapsto> None), pc')
        | ParsedMap sm pc' \<Rightarrow> Some (Some sm, sc(u \<mapsto> Some sm), pc')))"

definition raw_context :: "resolve_env \<Rightarrow> string \<Rightarrow> js_frame \<Rightarrow> js_frame option" where
  "raw_context env url frame =
     (if jf_context frame \<noteq> None then Some frame
      else case fetchContextLine (re_fetch env) url (int_of_float (jf_lineno frame)) (mapColumn (int_of_float (jf_colno frame))) of
        None \<Rightarrow> None
      | Some cl \<Rightarrow> Some (if cl = [] then frame else frame\<lparr>jf_context := Some cl\<rparr>))"

definition with_state :: "'s \<Rightarrow> 'a option \<Rightarrow> ('a \<times> 's) option" where
  "with_state s = map_option (\<lambda>a. (a, s))"

definition resolveFrame :: "resolve_env \<Rightarrow> js_frame \<Rightarrow> sm_state \<Rightarrow> (js_frame \<times> sm_state) option" where
  "resolveFrame env frame s =
     (let url = (if jf_abs frame \<noteq> [] then jf_abs frame else jf_filename frame) in
      if url = [] \<or> jf_lineno frame = 0 then Some (frame, s)
      else if re_release env = [] then with_state s (raw_context env url frame)
      else case first_map env (frameURLs (jf_abs frame) (jf_filename frame)) s of
        None \<Rightarrow> None
      | Some (None, s') \<Rightarrow> with_state s' (raw_context env url frame)
      | Some (Some sm, s') \<Rightarrow>
          (case Resolve sm (int_of_float (jf_lineno frame)) (mapColumn (int_of_float (jf_colno frame))) of
             Panic \<Rightarrow> None
           | NotFound \<Rightarrow> with_state s' (raw_context env url frame)
           | Found r \<Rightarrow>
               let frame' = frame\<lparr>jf_orig := Some (rf_source r, rf_line r, wrap64 (rf_col r + 1))\<rparr> in
               if rf_context r \<noteq> [] then Some (frame'\<lparr>jf_context := Some (rf_context r)\<rparr>, s')
               else with_state s' (raw_context env url frame')))"

text \<open>The values of \<open>exception.values\<close>: \<open>None\<close> stands for a frame that is no object.\<close>

datatype js_exception = NoStacktrace | Stacktrace "js_frame option list"

fun resolve_frames :: "resolve_env \<Rightarrow> ctx \<Rightarrow> js_frame option list \<Rightarrow> sm_state
    \<Rightarrow> (js_frame option list \<times> ctx option \<times> sm_state) option" where
  "resolve_frames env x [] s = Some ([], Some x, s)"
| "resolve_frames env x (None # fs) s =
     map_option (\<lambda>(fs', r). (None # fs', r)) (resolve_frames env x fs s)"
| "resolve_frames env x (Some f # fs) s =
     (case poll x of
        None \<Rightarrow> Some (Some f # fs, None, s)
      | Some x' \<Rightarrow> (case resolveFrame env f s of
          None \<Rightarrow> None
        | Some (f', s') \<Rightarrow> map_option (\<lambda>(fs', r). (Some f' # fs', r)) (resolve_frames env x' fs s')))"

fun resolve_exceptions :: "resolve_env \<Rightarrow> ctx \<Rightarrow> js_exception list \<Rightarrow> sm_state \<Rightarrow> (js_exception list \<times> sm_state) option" where
  "resolve_exceptions env x [] s = Some ([], s)"
| "resolve_exceptions env x (NoStacktrace # es) s =
     map_option (\<lambda>(es', s'). (NoStacktrace # es', s')) (resolve_exceptions env x es s)"
| "resolve_exceptions env x (Stacktrace fs # es) s =
     (case resolve_frames env x fs s of
        None \<Rightarrow> None
      | Some (fs', None, s') \<Rightarrow> Some (Stacktrace fs' # es, s')
      | Some (fs', Some x', s') \<Rightarrow>
          map_option (\<lambda>(es', s''). (Stacktrace fs' # es', s'')) (resolve_exceptions env x' es s'))"

text \<open>\<open>None\<close> is a payload without exceptions, which is returned as it is.\<close>

definition ResolveEventPayload :: "resolve_env \<Rightarrow> ctx \<Rightarrow> js_exception list option \<Rightarrow> parsed_cache
    \<Rightarrow> (js_exception list option \<times> parsed_cache) option" where
  "ResolveEventPayload env x values pc =
     (case values of
        None \<Rightarrow> Some (None, pc)
      | Some es \<Rightarrow> map_option (\<lambda>(es', s). (Some es', snd s)) (resolve_exceptions env x es (Map.empty, pc)))"

section \<open>Verifying an event's maps\<close>

datatype frame_status = MissingRelease | NoMatchingMap | MapUnreadable | NoMapping | FrameVerified
datatype event_status = NoFrames | NotApplicable | NeedsAttention | PartiallyVerified | EventVerified

record event_frame =
  ef_AbsPath :: string
  ef_Filename :: string
  ef_Lineno :: go_int
  ef_Colno :: go_int

record frame_verification =
  fv_URL :: string
  fv_NormalizedURL :: string
  fv_Line :: go_int
  fv_Column :: go_int
  fv_Status :: frame_status
  fv_MapID :: "nat option"
  fv_Source :: string
  fv_OriginalLine :: go_int

record verification =
  ve_Release :: string
  ve_Status :: event_status
  ve_Frames :: "frame_verification list"
  ve_Truncated :: bool

datatype 'a checked = CheckError | CheckPanic | Checked 'a

text \<open>The first candidate URL with a row; a failed query is an error.\<close>

fun find_row :: "resolve_env \<Rightarrow> string list \<Rightarrow> (string \<times> sourcemap_row) option checked" where
  "find_row env [] = Checked None"
| "find_row env (u # us) =
     (if \<not> re_query env u then CheckError
      else case GetSourcemap (re_project env) (re_release env) u (re_store env) of
        None \<Rightarrow> find_row env us
      | Some meta \<Rightarrow> Checked (Some (u, meta)))"

definition frame_url :: "event_frame \<Rightarrow> string" where
  "frame_url f = (if ef_AbsPath f \<noteq> [] then ef_AbsPath f else ef_Filename f)"

definition frame_checked :: "event_frame \<Rightarrow> frame_verification" where
  "frame_checked f = \<lparr>fv_URL = frame_url f, fv_NormalizedURL = NormalizeURL (frame_url f), fv_Line = ef_Lineno f,
     fv_Column = ef_Colno f, fv_Status = MissingRelease, fv_MapID = None, fv_Source = [], fv_OriginalLine = 0\<rparr>"

text \<open>One frame that is checked: its verification and the context after the check of its deadline.\<close>

definition check_frame :: "resolve_env \<Rightarrow> ctx \<Rightarrow> event_frame \<Rightarrow> parsed_cache
    \<Rightarrow> (frame_verification \<times> ctx \<times> parsed_cache) checked" where
  "check_frame env x f pc =
     (let fv = frame_checked f in
      if re_release env = [] then Checked (fv, x, pc)
      else case find_row env (frameURLs (ef_AbsPath f) (ef_Filename f)) of
        CheckError \<Rightarrow> CheckError
      | CheckPanic \<Rightarrow> CheckPanic
      | Checked None \<Rightarrow> Checked (fv\<lparr>fv_Status := NoMatchingMap\<rparr>, x, pc)
      | Checked (Some (u, meta)) \<Rightarrow>
          let fv1 = fv\<lparr>fv_NormalizedURL := u, fv_MapID := Some (sr_id meta)\<rparr> in
          (case load_row env u meta pc of
             ParsePanic \<Rightarrow> CheckPanic
           | NoMap pc' \<Rightarrow> (case poll x of None \<Rightarrow> CheckError
               | Some x' \<Rightarrow> Checked (fv1\<lparr>fv_Status := MapUnreadable\<rparr>, x', pc'))
           | ParsedMap sm pc' \<Rightarrow> (case poll x of None \<Rightarrow> CheckError
               | Some x' \<Rightarrow> (case Resolve sm (ef_Lineno f) (mapColumn (ef_Colno f)) of
                   Panic \<Rightarrow> CheckPanic
                 | NotFound \<Rightarrow> Checked (fv1\<lparr>fv_Status := NoMapping\<rparr>, x', pc')
                 | Found r \<Rightarrow>
                     if rf_source r = [] then Checked (fv1\<lparr>fv_Status := NoMapping\<rparr>, x', pc')
                     else Checked (fv1\<lparr>fv_Status := FrameVerified, fv_Source := rf_source r, fv_OriginalLine := rf_line r\<rparr>,
                       x', pc')))))"

text \<open>The frames of one exception; the break leaves the inner loop only.\<close>

fun verify_frames :: "resolve_env \<Rightarrow> ctx \<Rightarrow> event_frame list \<Rightarrow> frame_verification list \<Rightarrow> bool \<Rightarrow> parsed_cache
    \<Rightarrow> (frame_verification list \<times> bool \<times> ctx \<times> parsed_cache) checked" where
  "verify_frames env x [] out tr pc = Checked (out, tr, x, pc)"
| "verify_frames env x (f # fs) out tr pc =
     (if frame_url f = [] \<or> ef_Lineno f \<le> 0 then verify_frames env x fs out tr pc
      else if 40 \<le> length out then Checked (out, True, x, pc)
      else case check_frame env x f pc of
        CheckError \<Rightarrow> CheckError
      | CheckPanic \<Rightarrow> CheckPanic
      | Checked (fv, x', pc') \<Rightarrow> verify_frames env x' fs (out @ [fv]) tr pc')"

fun verify_exceptions :: "resolve_env \<Rightarrow> ctx \<Rightarrow> event_frame list list \<Rightarrow> frame_verification list \<Rightarrow> bool \<Rightarrow> parsed_cache
    \<Rightarrow> (frame_verification list \<times> bool \<times> parsed_cache) checked" where
  "verify_exceptions env x [] out tr pc = Checked (out, tr, pc)"
| "verify_exceptions env x (fs # es) out tr pc =
     (case verify_frames env x fs out tr pc of
        CheckError \<Rightarrow> CheckError
      | CheckPanic \<Rightarrow> CheckPanic
      | Checked (out', tr', x', pc') \<Rightarrow> verify_exceptions env x' es out' tr' pc')"

definition overall_status :: "frame_verification list \<Rightarrow> bool \<Rightarrow> event_status" where
  "overall_status frames truncated =
     (if frames = [] then NoFrames
      else let verified = length (filter (\<lambda>f. fv_Status f = FrameVerified) frames) in
        if verified = length frames \<and> \<not> truncated then EventVerified
        else if 0 < verified then PartiallyVerified else NeedsAttention)"

text \<open>\<open>env\<close> carries the event's own release; \<open>None\<close> is a payload that does not decode.\<close>

definition VerifyEvent :: "resolve_env \<Rightarrow> ctx \<Rightarrow> (string \<times> event_frame list list) option \<Rightarrow> parsed_cache
    \<Rightarrow> (verification \<times> parsed_cache) checked" where
  "VerifyEvent env x event pc =
     (case event of
        None \<Rightarrow> CheckError
      | Some (platform, exceptions) \<Rightarrow>
          if platform \<noteq> [] \<and> platform \<noteq> ''javascript'' \<and> platform \<noteq> ''node''
          then Checked (\<lparr>ve_Release = re_release env, ve_Status = NotApplicable, ve_Frames = [], ve_Truncated = False\<rparr>, pc)
          else case verify_exceptions env x exceptions [] False pc of
            CheckError \<Rightarrow> CheckError
          | CheckPanic \<Rightarrow> CheckPanic
          | Checked (frames, truncated, pc') \<Rightarrow>
              Checked (\<lparr>ve_Release = re_release env, ve_Status = overall_status frames truncated,
                ve_Frames = frames, ve_Truncated = truncated\<rparr>, pc'))"

text \<open>A number whose truncation is far from the ends of the 64-bit range.\<close>

definition ordinary :: "js_frame \<Rightarrow> bool" where
  "ordinary f \<longleftrightarrow> - (2 ^ 62) \<le> jf_colno f \<and> jf_colno f \<le> 2 ^ 62"

lemma ordinary_column: "ordinary f \<Longrightarrow> 0 \<le> mapColumn (int_of_float (jf_colno f)) \<and> mapColumn (int_of_float (jf_colno f)) < 2 ^ 63 - 70"
proof -
  assume o: "ordinary f"
  define n where "n = (if jf_colno f < 0 then \<lceil>jf_colno f\<rceil> else \<lfloor>jf_colno f\<rfloor>)"
  have "- (2 ^ 62) \<le> n" "n \<le> 2 ^ 62"
    using o by (auto simp: n_def ordinary_def le_floor_iff floor_le_iff le_ceiling_iff ceiling_le_iff)
  then have "is_int64 n" "is_int64 (n - 1)" "n \<le> 2 ^ 62" by (auto simp: is_int64_def)
  moreover have "int_of_float (jf_colno f) = n" using \<open>is_int64 n\<close> by (simp add: int_of_float_def flip: n_def)
  ultimately show ?thesis by (simp add: mapColumn_def)
qed

lemma window_not_None: "0 \<le> c \<Longrightarrow> c < 2 ^ 63 - 70 \<Longrightarrow> window line c \<noteq> None"
  by (cases "ctxLineMax < int (length line)") (auto simp: window_def dest: window_Some)

lemma raw_context_Some:
  assumes "ordinary f"
  shows "\<exists>c. raw_context env url f = Some (f\<lparr>jf_context := c\<rparr>)"
proof -
  have "fetchContextLine fetch url l (mapColumn (int_of_float (jf_colno f))) \<noteq> None" for fetch l
    using window_not_None ordinary_column [OF assms] by (simp add: fetchContextLine_def Let_def)
  then obtain cl where cl: "fetchContextLine (re_fetch env) url (int_of_float (jf_lineno f)) (mapColumn (int_of_float (jf_colno f))) = Some cl"
    by blast
  have self: "\<exists>c. f = f\<lparr>jf_context := c\<rparr>" by (rule exI [of _ "jf_context f"]) simp
  have upd: "\<exists>c. f\<lparr>jf_context := Some cl\<rparr> = f\<lparr>jf_context := c\<rparr>" by blast
  show ?thesis using self upd by (simp add: raw_context_def cl)
qed

abbreviation good_cache :: "resolve_env \<Rightarrow> parsed_cache \<Rightarrow> bool" where
  "good_cache env pc \<equiv> parsed_ok (re_capf env) (\<lambda>_. map_ok) pc"

definition state_ok :: "resolve_env \<Rightarrow> sm_state \<Rightarrow> bool" where
  "state_ok env s \<longleftrightarrow> good_cache env (snd s) \<and> (\<forall>u sm. fst s u = Some (Some sm) \<longrightarrow> map_ok sm)"

lemma load_row_ok:
  assumes "good_cache env pc"
  shows "case load_row env url meta pc of ParsePanic \<Rightarrow> False | NoMap pc' \<Rightarrow> good_cache env pc'
    | ParsedMap sm pc' \<Rightarrow> map_ok sm \<and> good_cache env pc'"
  unfolding load_row_def using parsedSourceMap_ok [OF assms, of "map_file env meta"] parsed_map_ok by simp

lemma loadSourceMap_ok:
  assumes "good_cache env pc"
  shows "case loadSourceMap env url pc of ParsePanic \<Rightarrow> False | NoMap pc' \<Rightarrow> good_cache env pc'
    | ParsedMap sm pc' \<Rightarrow> map_ok sm \<and> good_cache env pc'"
  using assms load_row_ok [OF assms] by (simp add: loadSourceMap_def split: option.split)

lemma first_map_ok:
  "state_ok env s \<Longrightarrow> \<exists>m s'. first_map env us s = Some (m, s') \<and> state_ok env s' \<and> (\<forall>sm. m = Some sm \<longrightarrow> map_ok sm)"
proof (induction env us s rule: first_map.induct)
  case (2 env u us sc pc)
  have pc: "good_cache env pc" using "2.prems" by (simp add: state_ok_def)
  show ?case
  proof (cases "sc u")
    case None
    show ?thesis
    proof (cases "loadSourceMap env u pc")
      case (NoMap pc')
      then have "state_ok env (sc(u \<mapsto> None), pc')" using "2.prems" loadSourceMap_ok [OF pc, of u] by (simp add: state_ok_def)
      with "2.IH"(1) [OF None NoMap] show ?thesis by (simp add: None NoMap)
    next
      case (ParsedMap sm pc')
      then have "map_ok sm" "state_ok env (sc(u \<mapsto> Some sm), pc')"
        using "2.prems" loadSourceMap_ok [OF pc, of u] by (simp_all add: state_ok_def)
      then show ?thesis by (simp add: None ParsedMap)
    qed (use loadSourceMap_ok [OF pc, of u] in simp)
  next
    case (Some m)
    then show ?thesis using 2 by (cases m) (auto simp: state_ok_def)
  qed
qed simp

text \<open>What may change in a frame.\<close>

definition enriched :: "js_frame \<Rightarrow> js_frame \<Rightarrow> bool" where
  "enriched f f' \<longleftrightarrow> (\<exists>orig c. f' = f\<lparr>jf_orig := orig, jf_context := c\<rparr>)"

lemma enriched_refl: "enriched f f"
proof -
  have "f = f\<lparr>jf_orig := jf_orig f, jf_context := jf_context f\<rparr>" by simp
  then show ?thesis unfolding enriched_def by blast
qed

lemma enriched_context: "enriched f (f\<lparr>jf_context := c\<rparr>)"
proof -
  have "f\<lparr>jf_context := c\<rparr> = f\<lparr>jf_orig := jf_orig f, jf_context := c\<rparr>" by simp
  then show ?thesis unfolding enriched_def by blast
qed

lemma resolveFrame_ok:
  assumes "ordinary f" "state_ok env s"
  shows "\<exists>f' s'. resolveFrame env f s = Some (f', s') \<and> enriched f f' \<and> state_ok env s'"
proof -
  define url where "url = (if jf_abs f \<noteq> [] then jf_abs f else jf_filename f)"
  have raw: "\<exists>f'. with_state s1 (raw_context env url f) = Some (f', s1) \<and> enriched f f'" for s1 :: sm_state
  proof -
    obtain c where "raw_context env url f = Some (f\<lparr>jf_context := c\<rparr>)" using raw_context_Some [OF assms(1)] by blast
    then show ?thesis using enriched_context by (auto simp: with_state_def)
  qed
  have raw': "\<exists>f'. with_state s1 (raw_context env url (f\<lparr>jf_orig := orig\<rparr>)) = Some (f', s1) \<and> enriched f f'" for orig and s1 :: sm_state
  proof -
    have "ordinary (f\<lparr>jf_orig := orig\<rparr>)" using assms(1) by (simp add: ordinary_def)
    then obtain c where "raw_context env url (f\<lparr>jf_orig := orig\<rparr>) = Some (f\<lparr>jf_orig := orig, jf_context := c\<rparr>)"
      using raw_context_Some by blast
    then show ?thesis by (auto simp: with_state_def enriched_def)
  qed
  show ?thesis
  proof (cases "url = [] \<or> jf_lineno f = 0")
    case True
    then show ?thesis using assms enriched_refl unfolding resolveFrame_def Let_def url_def [symmetric] by auto
  next
    case False
    obtain m s1 where fm: "first_map env (frameURLs (jf_abs f) (jf_filename f)) s = Some (m, s1)" "state_ok env s1"
      "\<forall>sm. m = Some sm \<longrightarrow> map_ok sm" using first_map_ok [OF assms(2)] by blast
    show ?thesis
    proof (cases "re_release env = []")
      case True
      then show ?thesis using False raw [of s] assms(2) unfolding resolveFrame_def Let_def url_def [symmetric] by (cases s) auto
    next
      case rel: False
      show ?thesis
      proof (cases m)
        case None
        then show ?thesis using False rel fm raw [of s1] unfolding resolveFrame_def Let_def url_def [symmetric] by (cases s1) auto
      next
        case (Some sm)
        let ?R = "Resolve sm (int_of_float (jf_lineno f)) (mapColumn (int_of_float (jf_colno f)))"
        have np: "?R \<noteq> Panic" using Resolve_no_panic fm(3) Some by simp
        have fnd: "\<exists>f'. (if rf_context r \<noteq> [] then Some (f\<lparr>jf_orig := orig\<rparr>\<lparr>jf_context := Some (rf_context r)\<rparr>, s1)
             else with_state s1 (raw_context env url (f\<lparr>jf_orig := orig\<rparr>))) = Some (f', s1) \<and> enriched f f'" for r orig
          using raw' [of s1 orig] by (auto simp: enriched_def)
        have eq: "resolveFrame env f s = (case ?R of Panic \<Rightarrow> None | NotFound \<Rightarrow> with_state s1 (raw_context env url f)
           | Found r \<Rightarrow> (if rf_context r \<noteq> []
               then Some (f\<lparr>jf_orig := Some (rf_source r, rf_line r, wrap64 (rf_col r + 1))\<rparr>\<lparr>jf_context := Some (rf_context r)\<rparr>, s1)
               else with_state s1 (raw_context env url (f\<lparr>jf_orig := Some (rf_source r, rf_line r, wrap64 (rf_col r + 1))\<rparr>))))"
          using False rel fm(1) Some unfolding resolveFrame_def Let_def url_def [symmetric] by (cases s1) auto
        show ?thesis
        proof (cases ?R)
          case (Found r)
          obtain f' where "resolveFrame env f s = Some (f', s1)" "enriched f f'"
            using fnd [of r "Some (rf_source r, rf_line r, wrap64 (rf_col r + 1))"] unfolding eq Found resolve_result.case by blast
          with fm(2) show ?thesis by blast
        next
          case NotFound
          obtain f' where "resolveFrame env f s = Some (f', s1)" "enriched f f'"
            using raw [of s1] unfolding eq NotFound resolve_result.case by blast
          with fm(2) show ?thesis by blast
        qed (use np in simp)
      qed
    qed
  qed
qed

text \<open>The shape of a payload is kept: the same exceptions with the same frames, each enriched at most.\<close>

fun same_shape :: "js_exception \<Rightarrow> js_exception \<Rightarrow> bool" where
  "same_shape NoStacktrace e \<longleftrightarrow> e = NoStacktrace"
| "same_shape (Stacktrace fs) e \<longleftrightarrow> (\<exists>fs'. e = Stacktrace fs' \<and> list_all2 (rel_option enriched) fs fs')"

fun frames_of :: "js_exception \<Rightarrow> js_frame list" where
  "frames_of NoStacktrace = []"
| "frames_of (Stacktrace fs) = List.map_filter id fs"

lemma rel_option_refl: "rel_option enriched f f"
  by (cases f) (simp_all add: enriched_refl)

lemma shape_refl: "same_shape e e"
  by (cases e) (auto simp: list_all2_refl rel_option_refl)

lemma resolve_frames_ok:
  "state_ok env s \<Longrightarrow> \<forall>f. Some f \<in> set fs \<longrightarrow> ordinary f \<Longrightarrow>
     \<exists>fs' x' s'. resolve_frames env x fs s = Some (fs', x', s') \<and> list_all2 (rel_option enriched) fs fs' \<and> state_ok env s'"
proof (induction env x fs s rule: resolve_frames.induct)
  case (2 env x fs s)
  then show ?case by auto
next
  case (3 env x f fs s)
  obtain f' s' where f: "resolveFrame env f s = Some (f', s')" "enriched f f'" "state_ok env s'"
    using resolveFrame_ok [of f env s] "3.prems" by auto
  show ?case
  proof (cases "poll x")
    case None
    with "3.prems" show ?thesis by (simp add: list_all2_refl rel_option_refl enriched_refl)
  next
    case (Some x')
    with "3.IH" [OF Some f(1) refl f(3)] "3.prems" f show ?thesis by auto
  qed
qed simp

lemma resolve_exceptions_ok:
  "state_ok env s \<Longrightarrow> \<forall>e \<in> set es. \<forall>f \<in> set (frames_of e). ordinary f \<Longrightarrow>
     \<exists>es' s'. resolve_exceptions env x es s = Some (es', s') \<and> list_all2 same_shape es es' \<and> state_ok env s'"
proof (induction env x es s rule: resolve_exceptions.induct)
  case (2 env x es s)
  then show ?case by auto
next
  case (3 env x fs es s)
  have "\<forall>f. Some f \<in> set fs \<longrightarrow> ordinary f"
    using "3.prems"(2) by (force simp: List.map_filter_def)
  from resolve_frames_ok [OF "3.prems"(1) this] obtain fs' x' s' where
    r: "resolve_frames env x fs s = Some (fs', x', s')" "list_all2 (rel_option enriched) fs fs'" "state_ok env s'" by blast
  show ?case
  proof (cases x')
    case None
    with r show ?thesis by (auto simp: list_all2_refl shape_refl)
  next
    case (Some x2)
    have "\<forall>e \<in> set es. \<forall>f \<in> set (frames_of e). ordinary f" using "3.prems"(2) by simp
    from "3.IH" [OF r(1) refl refl Some r(3) this] obtain es' s'' where
      "resolve_exceptions env x2 es s' = Some (es', s'')" "list_all2 same_shape es es'" "state_ok env s''" by blast
    with r Some show ?thesis by auto
  qed
qed simp

text \<open>
Resolving an event never panics while the columns of its frames stay within 2^62: whatever maps are
stored and whenever the deadline strikes, the result has the same exceptions and frames, a frame
differing at most in its original position and its context line.
\<close>

theorem resolve_payload_total:
  assumes "parsed_ok (re_capf env) (\<lambda>_. map_ok) pc" "list_all (\<lambda>e. list_all ordinary (frames_of e)) es"
  shows "\<exists>es' pc'. ResolveEventPayload env x (Some es) pc = Some (Some es', pc')
    \<and> list_all2 same_shape es es' \<and> parsed_ok (re_capf env) (\<lambda>_. map_ok) pc'"
proof -
  have "state_ok env (Map.empty, pc)" using assms(1) by (simp add: state_ok_def)
  moreover have "\<forall>e \<in> set es. \<forall>f \<in> set (frames_of e). ordinary f" using assms(2) by (simp add: list_all_iff)
  ultimately obtain es' s' where "resolve_exceptions env x es (Map.empty, pc) = Some (es', s')"
    "list_all2 same_shape es es'" "state_ok env s'" using resolve_exceptions_ok by blast
  then show ?thesis by (auto simp: ResolveEventPayload_def state_ok_def)
qed

text \<open>
  A column beyond the range of an \<open>int\<close>, in a frame without a map whose file has a line longer than the window: the
  conversion gives the least integer, \<open>mapColumn\<close> wraps it around to the greatest, and the window's end overflows.
\<close>

definition demo_env :: resolve_env where
  "demo_env = \<lparr>re_project = ''p'', re_release = [], re_store = empty_store, re_decode = (\<lambda>_. None), re_capf = id,
     re_ctx = (\<lambda>_. None), re_query = (\<lambda>_. True), re_readable = (\<lambda>_. True), re_fetch = (\<lambda>_. [demo_line])\<rparr>"

definition demo_frame :: "rat \<Rightarrow> js_frame" where
  "demo_frame col = \<lparr>jf_abs = ''https://x/a.js'', jf_filename = [], jf_lineno = 1, jf_colno = col, jf_orig = None, jf_context = None\<rparr>"

lemma demo_line_length: "length demo_line = 300"
  by (simp add: demo_line_def)

lemma demo_column: "mapColumn (int_of_float (10 ^ 19)) = 2 ^ 63 - 1"
proof -
  have "\<lfloor>(10 ^ 19 :: rat)\<rfloor> = 10 ^ 19" using floor_of_int [of "10 ^ 19", where 'a = rat] by simp
  then show ?thesis by (simp add: mapColumn_def int_of_float_def is_int64_def wrap64_def)
qed

text \<open>
A column of 10^19 in an event makes the resolver panic: the conversion to int and the subtraction
wrap around to the greatest integer, and the end of the context window overflows.
\<close>

theorem huge_column_panics:
  "ResolveEventPayload demo_env None (Some [Stacktrace [Some (demo_frame (10 ^ 19))]]) empty_parsed = None"
proof -
  have "ctxLineMax < int (length demo_line)" by (simp add: ctxLineMax_def demo_line_length)
  from window_overflow [OF _ _ this, of "2 ^ 63 - 1"] have w: "window demo_line (2 ^ 63 - 1) = None" by simp
  have "demo_line \<noteq> []" using demo_line_length by auto
  then have "fetchContextLine (\<lambda>_. [demo_line]) ''https://x/a.js'' 1 (2 ^ 63 - 1) = None"
    using w by (simp add: fetchContextLine_def)
  then have "raw_context demo_env ''https://x/a.js'' (demo_frame (10 ^ 19)) = None"
    unfolding raw_context_def demo_frame_def demo_env_def js_frame.simps resolve_env.simps demo_column
    by (simp add: int_of_float_def is_int64_def)
  then have "resolveFrame demo_env (demo_frame (10 ^ 19)) (Map.empty, empty_parsed) = None"
    by (simp add: resolveFrame_def with_state_def demo_frame_def demo_env_def)
  then show ?thesis by (simp add: ResolveEventPayload_def)
qed

theorem resolve_payload_total_witness:
  "\<exists>es' pc'. ResolveEventPayload demo_env None (Some [Stacktrace [Some (demo_frame 7), None]]) empty_parsed = Some (Some es', pc')
     \<and> list_all2 same_shape [Stacktrace [Some (demo_frame 7), None]] es'"
proof -
  have "parsed_ok (re_capf demo_env) (\<lambda>_. map_ok) empty_parsed" by (rule empty_parsed_ok)
  moreover have "list_all (\<lambda>e. list_all ordinary (frames_of e)) [Stacktrace [Some (demo_frame 7), None]]"
    by (simp add: List.map_filter_def ordinary_def demo_frame_def)
  ultimately show ?thesis using resolve_payload_total by blast
qed

section \<open>Verification and resolution agree\<close>

definition as_js :: "event_frame \<Rightarrow> js_frame" where
  "as_js f = \<lparr>jf_abs = ef_AbsPath f, jf_filename = ef_Filename f, jf_lineno = of_int (ef_Lineno f),
     jf_colno = of_int (ef_Colno f), jf_orig = None, jf_context = None\<rparr>"





definition demo_row :: sourcemap_row where
  "demo_row = \<lparr>sr_id = 0, sr_project = ''p'', sr_release = ''r'', sr_url = ''~/a.js'', sr_hash = ''h'', sr_size = 1, sr_created = 0\<rparr>"

definition demo_map_env :: resolve_env where
  "demo_map_env = demo_env\<lparr>re_release := ''r'', re_decode := (\<lambda>_. Some demo_map),
     re_store := \<lparr>ms_rows = [demo_row], ms_next = 1, ms_files = (\<lambda>_. Some ''{}'')\<rparr>\<rparr>"


definition checked_frame :: "resolve_env \<Rightarrow> event_frame \<Rightarrow> frame_verification option" where
  "checked_frame env f = (case check_frame env None f empty_parsed of Checked (fv, _) \<Rightarrow> Some fv | _ \<Rightarrow> None)"



text \<open>
  The two do not agree on an unreadable map: the resolver goes on to the map of the file name, while the verification
  stops at the first row.
\<close>

definition both_env :: resolve_env where
  "both_env = demo_map_env\<lparr>re_store := \<lparr>ms_rows = [demo_row\<lparr>sr_id := 1, sr_url := ''~/gone.js'', sr_hash := ''g''\<rparr>, demo_row], ms_next = 2,
     ms_files = (\<lambda>(_, h). if h = ''h'' then Some ''{}'' else None)\<rparr>\<rparr>"

definition both_frame :: event_frame where
  "both_frame = \<lparr>ef_AbsPath = ''https://x/gone.js'', ef_Filename = ''a.js'', ef_Lineno = 1, ef_Colno = 8\<rparr>"

theorem unreadable_map_verdicts_differ:
  "map_option fv_Status (checked_frame both_env both_frame) = Some MapUnreadable
   \<and> map_option (\<lambda>(f, _). map_option fst (jf_orig f)) (resolveFrame both_env (as_js both_frame) (Map.empty, empty_parsed)) = Some (Some ''a.ts'')"
  by code_simp

end
