(* ===== verification/Cron.thy ===== *)
theory Cron
  imports Prelude
begin

text \<open>
  Cron monitors and their check-ins, \<open>internal/storage/cron.go\<close>. The two tables are lists of
  rows and each SQL statement is a function on them, with the constraints of the schema: a slug is
  unique in its project, an SDK check-in id is unique for its monitor (a missing id is never equal to
  another), a check-in belongs to a monitor and goes with it. Row ids are numbers handed out in order.
  The schedule parser is a third-party package: \<open>parse\<close> gives for an expression the function from
  a time to the next run, or nothing.
\<close>

section \<open>Tables\<close>

datatype checkin_status = InProgress | StatusOk | StatusError

datatype monitor_status = Active | Paused

record checkin =
  ck_id :: nat
  ck_monitor :: nat
  ck_status :: checkin_status
  ck_duration :: "go_int option"
  ck_environment :: "string option"
  ck_started :: "nanos option"
  ck_finished :: "nanos option"
  ck_sdk :: "string option"
  ck_received :: nanos

record monitor =
  mo_id :: nat
  mo_project :: string
  mo_name :: string
  mo_slug :: string
  mo_schedule :: string
  mo_grace :: go_int
  mo_status :: monitor_status
  mo_running :: bool
  mo_last_ok :: "nanos option"
  mo_next :: "nanos option"
  mo_last_status :: "checkin_status option"
  mo_last_at :: "nanos option"
  mo_created :: nanos

record cron_db =
  db_monitors :: "monitor list"
  db_checkins :: "checkin list"
  db_next :: nat

type_synonym schedule_parser = "string \<Rightarrow> (nanos \<Rightarrow> nanos) option"

definition seconds :: "go_int \<Rightarrow> nanos" where "seconds n = n * 1000000000"

section \<open>Derived state\<close>

datatype monitor_state = StInProgress | StError | StUnknown | StMissed | StOk

definition computeMonitorState :: "nanos \<Rightarrow> monitor \<Rightarrow> monitor_state" where
  "computeMonitorState now m =
     (if mo_running m then StInProgress
      else if mo_last_status m = Some StatusError then StError
      else (case mo_next m of
          None \<Rightarrow> StUnknown
        | Some next' \<Rightarrow> if next' + seconds (mo_grace m) < now then StMissed else StOk))"

text \<open>\<open>MonitorOverdueSQL\<close>.\<close>

definition overdue :: "nanos \<Rightarrow> monitor \<Rightarrow> bool" where
  "overdue now m \<longleftrightarrow> mo_status m = Active \<and> \<not> mo_running m
     \<and> (case mo_next m of None \<Rightarrow> False | Some next' \<Rightarrow> next' + seconds (mo_grace m) < now)"

section \<open>Slugs\<close>

definition lower_alnum :: "char \<Rightarrow> bool" where
  "lower_alnum c \<longleftrightarrow> (97 \<le> (of_char c :: nat) \<and> (of_char c :: nat) \<le> 122) \<or> (48 \<le> (of_char c :: nat) \<and> (of_char c :: nat) \<le> 57)"

definition ValidMonitorSlug :: "string \<Rightarrow> bool" where
  "ValidMonitorSlug s = (case s of [] \<Rightarrow> False
     | c # cs \<Rightarrow> lower_alnum c \<and> length cs \<le> 49 \<and> list_all (\<lambda>x. lower_alnum x \<or> x = CHR ''_'' \<or> x = CHR ''-'') cs)"

text \<open>
  \<open>strings.ToLower\<close> on UTF-8, as far as a slug can tell: ASCII letters, and the two characters outside
  ASCII whose lower case is an ASCII letter (the dotted I, 0xC4 0xB0, and the Kelvin sign, 0xE2 0x84 0xAA).
\<close>

fun to_lower :: "string \<Rightarrow> string" where
  "to_lower (c # cs) =
     (if c = CHR 0xC4 \<and> has_prefix [CHR 0xB0] cs then CHR ''i'' # to_lower (drop 1 cs)
      else if c = CHR 0xE2 \<and> has_prefix [CHR 0x84, CHR 0xAA] cs then CHR ''k'' # to_lower (drop 2 cs)
      else (if 65 \<le> (of_char c :: nat) \<and> (of_char c :: nat) \<le> 90 then char_of ((of_char c :: nat) + 32) else c) # to_lower cs)"
| "to_lower [] = []"

text \<open>Replacing every run of other characters by a dash; \<open>b\<close> says that a run is open.\<close>

fun dash_runs :: "bool \<Rightarrow> string \<Rightarrow> string" where
  "dash_runs b [] = []"
| "dash_runs b (c # cs) =
     (if lower_alnum c then c # dash_runs False cs
      else if b then dash_runs True cs else CHR ''-'' # dash_runs True cs)"

definition MonitorSlugFromName :: "string \<Rightarrow> string" where
  "MonitorSlugFromName name =
     (let slug = take 40 (dash_runs False (to_lower name));
          slug = trim_right (\<lambda>c. c = CHR ''-'') (trim_left (\<lambda>c. c = CHR ''-'') slug)
      in if slug = [] then ''monitor'' else slug)"

definition slug_candidate :: "string \<Rightarrow> nat \<Rightarrow> string" where
  "slug_candidate base n = (if 1 < n then base @ ''-'' @ decimal n else base)"

section \<open>Monitors\<close>

definition slug_used :: "cron_db \<Rightarrow> string \<Rightarrow> string \<Rightarrow> bool" where
  "slug_used db project slug \<longleftrightarrow> (\<exists>m \<in> set (db_monitors db). mo_project m = project \<and> mo_slug m = slug)"

definition insert_monitor :: "nanos \<Rightarrow> monitor \<Rightarrow> string \<Rightarrow> cron_db \<Rightarrow> (monitor \<times> cron_db) option" where
  "insert_monitor now m slug db =
     (if slug_used db (mo_project m) slug then None
      else let row = \<lparr>mo_id = db_next db, mo_project = mo_project m, mo_name = mo_name m, mo_slug = slug,
              mo_schedule = mo_schedule m, mo_grace = mo_grace m, mo_status = Active, mo_running = False,
              mo_last_ok = None, mo_next = None, mo_last_status = None, mo_last_at = None, mo_created = now\<rparr>
           in Some (row, db\<lparr>db_monitors := db_monitors db @ [row], db_next := db_next db + 1\<rparr>))"

text \<open>The loop over the candidates, \<open>n\<close> being the next one and \<open>k\<close> how many are left.\<close>

fun try_slugs :: "nanos \<Rightarrow> monitor \<Rightarrow> string \<Rightarrow> nat \<Rightarrow> nat \<Rightarrow> cron_db \<Rightarrow> (monitor \<times> cron_db) option" where
  "try_slugs now m base n 0 db = None"
| "try_slugs now m base n (Suc k) db =
     (case insert_monitor now m (slug_candidate base n) db of
        Some r \<Rightarrow> Some r
      | None \<Rightarrow> try_slugs now m base (n + 1) k db)"

definition CreateCronMonitor :: "nanos \<Rightarrow> monitor \<Rightarrow> cron_db \<Rightarrow> (monitor \<times> cron_db) option" where
  "CreateCronMonitor now m db =
     (if mo_slug m \<noteq> [] then insert_monitor now m (mo_slug m) db
      else try_slugs now m (MonitorSlugFromName (mo_name m)) 1 100 db)"

definition update_monitor :: "nat \<Rightarrow> (monitor \<Rightarrow> monitor) \<Rightarrow> cron_db \<Rightarrow> cron_db" where
  "update_monitor i f db = db\<lparr>db_monitors := map (\<lambda>m. if mo_id m = i then f m else m) (db_monitors db)\<rparr>"

datatype 'a update_result = NotFound | SlugTaken | Updated 'a

definition UpdateCronMonitor ::
  "schedule_parser \<Rightarrow> nanos \<Rightarrow> monitor \<Rightarrow> cron_db \<Rightarrow> cron_db update_result" where
  "UpdateCronMonitor parse now m db =
     (let nextAt = (case parse (mo_schedule m) of None \<Rightarrow> None | Some sched \<Rightarrow> Some (sched now)) in
      case find (\<lambda>x. mo_id x = mo_id m) (db_monitors db) of
        None \<Rightarrow> NotFound
      | Some old \<Rightarrow>
          if \<exists>x \<in> set (db_monitors db). mo_id x \<noteq> mo_id m \<and> mo_project x = mo_project old \<and> mo_slug x = mo_slug m
          then SlugTaken
          else Updated (update_monitor (mo_id m)
            (\<lambda>x. x\<lparr>mo_name := mo_name m, mo_slug := mo_slug m, mo_schedule := mo_schedule m,
                   mo_grace := mo_grace m, mo_status := mo_status m,
                   mo_next := (if mo_next x \<noteq> None
                                  \<and> (mo_schedule x \<noteq> mo_schedule m \<or> mo_status x = Paused \<and> mo_status m = Active)
                               then nextAt else mo_next x)\<rparr>) db))"

definition DeleteCronMonitor :: "nat \<Rightarrow> cron_db \<Rightarrow> cron_db" where
  "DeleteCronMonitor i db = db\<lparr>db_monitors := filter (\<lambda>m. mo_id m \<noteq> i) (db_monitors db),
     db_checkins := filter (\<lambda>c. ck_monitor c \<noteq> i) (db_checkins db)\<rparr>"

definition GetCronMonitor :: "nat \<Rightarrow> cron_db \<Rightarrow> monitor option" where
  "GetCronMonitor i db = find (\<lambda>m. mo_id m = i) (db_monitors db)"

definition GetCronMonitorBySlug :: "string \<Rightarrow> string \<Rightarrow> cron_db \<Rightarrow> monitor option" where
  "GetCronMonitorBySlug project slug db =
     find (\<lambda>m. mo_project m = project \<and> mo_slug m = slug) (db_monitors db)"

section \<open>Check-ins\<close>

definition nextExpectedRun :: "schedule_parser \<Rightarrow> nat \<Rightarrow> nanos \<Rightarrow> cron_db \<Rightarrow> nanos option" where
  "nextExpectedRun parse i now db =
     (case GetCronMonitor i db of
        None \<Rightarrow> None
      | Some m \<Rightarrow> (case parse (mo_schedule m) of None \<Rightarrow> None | Some sched \<Rightarrow> Some (sched now)))"

definition updateMonitorAfterCheckin ::
  "schedule_parser \<Rightarrow> nanos \<Rightarrow> nat \<Rightarrow> checkin_status \<Rightarrow> cron_db \<Rightarrow> cron_db option" where
  "updateMonitorAfterCheckin parse now i status db =
     (case nextExpectedRun parse i now db of
        None \<Rightarrow> None
      | Some nextAt \<Rightarrow> Some (update_monitor i
          (case status of
             InProgress \<Rightarrow> (\<lambda>m. m\<lparr>mo_running := True, mo_next := Some nextAt\<rparr>)
           | StatusOk \<Rightarrow> (\<lambda>m. m\<lparr>mo_running := False, mo_last_ok := Some now, mo_next := Some nextAt,
                               mo_last_status := Some StatusOk, mo_last_at := Some now\<rparr>)
           | StatusError \<Rightarrow> (\<lambda>m. m\<lparr>mo_running := False, mo_next := Some nextAt,
                               mo_last_status := Some StatusError, mo_last_at := Some now\<rparr>)) db))"

datatype checkin_result = CkFailed | CkIgnored | CkDone checkin

definition replace_checkin :: "checkin \<Rightarrow> cron_db \<Rightarrow> cron_db" where
  "replace_checkin row db = db\<lparr>db_checkins := map (\<lambda>c. if ck_id c = ck_id row then row else c) (db_checkins db)\<rparr>"

text \<open>
  The upsert of \<open>RecordCheckin\<close>: the row it returns and the table after it, or nothing when the
  conflicting row is not updated. \<open>received\<close> is the clock of the database.
\<close>

definition upsert_checkin :: "nanos \<Rightarrow> nat \<Rightarrow> checkin \<Rightarrow> cron_db \<Rightarrow> (checkin \<times> cron_db) option" where
  "upsert_checkin received i ci db =
     (case (if ck_sdk ci = None then None
            else find (\<lambda>c. ck_monitor c = i \<and> ck_sdk c = ck_sdk ci) (db_checkins db)) of
        None \<Rightarrow>
          let row = ci\<lparr>ck_id := db_next db, ck_monitor := i, ck_received := received\<rparr>
          in Some (row, db\<lparr>db_checkins := db_checkins db @ [row], db_next := db_next db + 1\<rparr>)
      | Some old \<Rightarrow>
          if ck_status old = InProgress \<and> (ck_status ci = StatusOk \<or> ck_status ci = StatusError)
          then let row = old\<lparr>ck_status := ck_status ci, ck_duration := ck_duration ci,
                     ck_environment := (if ck_environment ci \<noteq> None then ck_environment ci else ck_environment old),
                     ck_finished := ck_finished ci\<rparr>
               in Some (row, replace_checkin row db)
          else None)"

definition RecordCheckin ::
  "schedule_parser \<Rightarrow> nanos \<Rightarrow> nanos \<Rightarrow> nat \<Rightarrow> checkin \<Rightarrow> cron_db \<Rightarrow> checkin_result \<times> cron_db" where
  "RecordCheckin parse received now i ci db =
     (if GetCronMonitor i db = None then (CkFailed, db)
      else case upsert_checkin received i ci db of
        None \<Rightarrow> (CkIgnored, db)
      | Some (row, db1) \<Rightarrow>
          (case updateMonitorAfterCheckin parse now i (ck_status ci) db1 of
             None \<Rightarrow> (CkFailed, db)
           | Some db2 \<Rightarrow> (CkDone row, db2)))"

definition FinishCheckin ::
  "schedule_parser \<Rightarrow> nanos \<Rightarrow> nat \<Rightarrow> nat \<Rightarrow> checkin_status \<Rightarrow> go_int option \<Rightarrow> cron_db \<Rightarrow> checkin_result \<times> cron_db" where
  "FinishCheckin parse now i cid status duration db =
     (case find (\<lambda>c. ck_id c = cid \<and> ck_monitor c = i \<and> ck_status c = InProgress) (db_checkins db) of
        None \<Rightarrow> (CkIgnored, db)
      | Some old \<Rightarrow>
          let row = old\<lparr>ck_status := status, ck_duration := duration, ck_finished := Some now\<rparr> in
          (case updateMonitorAfterCheckin parse now i status (replace_checkin row db) of
             None \<Rightarrow> (CkFailed, db)
           | Some db2 \<Rightarrow> (CkDone row, db2)))"

text \<open>One batch of \<open>purgeCronCheckins\<close> of the retention worker: running check-ins are kept.\<close>

definition completed_at :: "checkin \<Rightarrow> nanos" where
  "completed_at c = (case ck_finished c of Some t \<Rightarrow> t | None \<Rightarrow> ck_received c)"

definition purgeCronCheckins :: "nanos \<Rightarrow> nat \<Rightarrow> cron_db \<Rightarrow> cron_db" where
  "purgeCronCheckins cutoff lim db =
     (let gone = map ck_id (take lim (sort_key completed_at
            (filter (\<lambda>c. ck_status c \<in> {StatusOk, StatusError} \<and> completed_at c < cutoff) (db_checkins db))))
      in db\<lparr>db_checkins := filter (\<lambda>c. ck_id c \<notin> set gone) (db_checkins db)\<rparr>)"

section \<open>Queries\<close>

definition in_projects :: "string list \<Rightarrow> monitor \<Rightarrow> bool" where
  "in_projects ps m \<longleftrightarrow> ps = [] \<or> mo_project m \<in> set ps"

definition recent_checkins :: "nat \<Rightarrow> cron_db \<Rightarrow> checkin list" where
  "recent_checkins i db = sort_key ck_received
     (take 20 (sort_key (\<lambda>c. - ck_received c) (filter (\<lambda>c. ck_monitor c = i) (db_checkins db))))"

definition ListCronMonitors :: "nanos \<Rightarrow> string list \<Rightarrow> cron_db \<Rightarrow> (monitor \<times> monitor_state \<times> checkin list) list" where
  "ListCronMonitors now ps db = map (\<lambda>m. (m, computeMonitorState now m, recent_checkins (mo_id m) db))
     (sort_key (\<lambda>m. - mo_created m) (filter (in_projects ps) (db_monitors db)))"

definition ListCheckins :: "nat \<Rightarrow> go_int \<Rightarrow> cron_db \<Rightarrow> checkin list" where
  "ListCheckins i lim db =
     (let lim = (if lim \<le> 0 \<or> 200 < lim then 50 else lim)
      in take (nat lim) (sort_key (\<lambda>c. - ck_received c) (filter (\<lambda>c. ck_monitor c = i) (db_checkins db))))"

definition recent_error :: "nanos \<Rightarrow> cron_db \<Rightarrow> monitor \<Rightarrow> bool" where
  "recent_error since db m \<longleftrightarrow> mo_status m = Active
     \<and> (\<exists>c \<in> set (db_checkins db). ck_monitor c = mo_id m \<and> ck_status c = StatusError
          \<and> since < (case ck_finished c of Some t \<Rightarrow> t | None \<Rightarrow> ck_received c))"

text \<open>
  The two queries of the alert evaluator, without their order (\<open>last_checkin_at\<close> falling, and
  \<open>next_expected_at\<close>).
\<close>

definition ListMonitorsWithRecentErrors :: "string list \<Rightarrow> nanos \<Rightarrow> cron_db \<Rightarrow> monitor set" where
  "ListMonitorsWithRecentErrors ps since db =
     set (filter (\<lambda>m. recent_error since db m \<and> in_projects ps m) (db_monitors db))"

definition ListOverdueMonitors :: "nanos \<Rightarrow> string list \<Rightarrow> cron_db \<Rightarrow> monitor list" where
  "ListOverdueMonitors now ps db = sort_key (\<lambda>m. the (mo_next m))
     (filter (\<lambda>m. overdue now m \<and> in_projects ps m) (db_monitors db))"

section \<open>Histories\<close>

datatype cron_op =
    OpCreate nanos monitor
  | OpUpdate nanos monitor
  | OpDelete nat
  | OpRecord nanos nanos nat checkin
  | OpFinish nanos nat nat checkin_status "go_int option"
  | OpPurge nanos nat

fun cron_step :: "schedule_parser \<Rightarrow> cron_db \<Rightarrow> cron_op \<Rightarrow> cron_db" where
  "cron_step parse db (OpCreate now m) = (case CreateCronMonitor now m db of None \<Rightarrow> db | Some (_, db') \<Rightarrow> db')"
| "cron_step parse db (OpUpdate now m) = (case UpdateCronMonitor parse now m db of Updated db' \<Rightarrow> db' | _ \<Rightarrow> db)"
| "cron_step parse db (OpDelete i) = DeleteCronMonitor i db"
| "cron_step parse db (OpRecord received now i ci) = snd (RecordCheckin parse received now i ci db)"
| "cron_step parse db (OpFinish now i cid status d) = snd (FinishCheckin parse now i cid status d db)"
| "cron_step parse db (OpPurge cutoff lim) = purgeCronCheckins cutoff lim db"

definition empty_db :: cron_db where
  "empty_db = \<lparr>db_monitors = [], db_checkins = [], db_next = 0\<rparr>"

text \<open>
  The constraints of the schema, and what the code keeps on top of them: a monitor that counts as running has a
  check-in in progress.
\<close>

definition ids_ok :: "cron_db \<Rightarrow> bool" where
  "ids_ok db \<longleftrightarrow> distinct (map mo_id (db_monitors db)) \<and> distinct (map ck_id (db_checkins db))
     \<and> (\<forall>m \<in> set (db_monitors db). mo_id m < db_next db) \<and> (\<forall>c \<in> set (db_checkins db). ck_id c < db_next db)"

definition mkey :: "monitor \<Rightarrow> string \<times> string" where "mkey m = (mo_project m, mo_slug m)"

definition ckey :: "checkin \<Rightarrow> nat \<times> string option" where "ckey c = (ck_monitor c, ck_sdk c)"

definition keys_ok :: "cron_db \<Rightarrow> bool" where
  "keys_ok db \<longleftrightarrow> distinct (map mkey (db_monitors db))
     \<and> distinct (map ckey (filter (\<lambda>c. ck_sdk c \<noteq> None) (db_checkins db)))"

definition refs_ok :: "cron_db \<Rightarrow> bool" where
  "refs_ok db \<longleftrightarrow> (\<forall>c \<in> set (db_checkins db). \<exists>m \<in> set (db_monitors db). mo_id m = ck_monitor c)"

definition running_ok :: "cron_db \<Rightarrow> bool" where
  "running_ok db \<longleftrightarrow> (\<forall>m \<in> set (db_monitors db). mo_running m \<longrightarrow>
     (\<exists>c \<in> set (db_checkins db). ck_monitor c = mo_id m \<and> ck_status c = InProgress))"

definition cron_inv :: "cron_db \<Rightarrow> bool" where
  "cron_inv db \<longleftrightarrow> ids_ok db \<and> keys_ok db \<and> refs_ok db \<and> running_ok db"

lemma map_ids [simp]: "(\<And>m. mo_id (f m) = mo_id m) \<Longrightarrow>
    map mo_id (map (\<lambda>m. if mo_id m = i then f m else m) ms) = map mo_id ms"
  by (induction ms) auto

lemma update_monitor_simps [simp]:
  "db_checkins (update_monitor i f db) = db_checkins db" "db_next (update_monitor i f db) = db_next db"
  by (simp_all add: update_monitor_def)

lemma replace_checkin_simps [simp]:
  "db_monitors (replace_checkin r db) = db_monitors db" "db_next (replace_checkin r db) = db_next db"
  by (simp_all add: replace_checkin_def)

lemma replace_ids: "map ck_id (db_checkins (replace_checkin r db)) = map ck_id (db_checkins db)"
proof -
  have "map ck_id (map (\<lambda>c. if ck_id c = ck_id r then r else c) cs) = map ck_id cs" for cs
    by (induction cs) auto
  then show ?thesis by (simp add: replace_checkin_def)
qed

definition upd :: "nat \<Rightarrow> (monitor \<Rightarrow> monitor) \<Rightarrow> monitor \<Rightarrow> monitor" where
  "upd i f m = (if mo_id m = i then f m else m)"

lemma update_monitor_set: "set (db_monitors (update_monitor i f db)) = upd i f ` set (db_monitors db)"
  by (simp add: update_monitor_def upd_def [abs_def])

lemma update_monitor_ids:
  "(\<And>m. mo_id (f m) = mo_id m) \<Longrightarrow> map mo_id (db_monitors (update_monitor i f db)) = map mo_id (db_monitors db)"
  by (simp add: update_monitor_def del: map_map)

lemma ids_ok_update:
  assumes f: "\<And>m. mo_id (f m) = mo_id m" and "ids_ok db"
  shows "ids_ok (update_monitor i f db)"
proof -
  have "mo_id (upd i f m) = mo_id m" for m using f by (simp add: upd_def)
  then show ?thesis using assms(2) unfolding ids_ok_def by (simp add: update_monitor_ids [of f, OF f] update_monitor_set)
qed

lemma refs_ok_update:
  assumes f: "\<And>m. mo_id (f m) = mo_id m" and "refs_ok db"
  shows "refs_ok (update_monitor i f db)"
proof -
  have "mo_id (upd i f m) = mo_id m" for m using f by (simp add: upd_def)
  then show ?thesis using assms(2) unfolding refs_ok_def by (simp add: update_monitor_set)
qed

lemma keys_ok_update:
  assumes f: "\<And>m. mkey (f m) = mkey m" and "keys_ok db"
  shows "keys_ok (update_monitor i f db)"
proof -
  have "map mkey (db_monitors (update_monitor i f db)) = map mkey (db_monitors db)"
    using f by (simp add: update_monitor_def)
  then show ?thesis using assms(2) by (simp add: keys_ok_def)
qed

lemma running_ok_update:
  assumes f: "\<And>m. mo_id (f m) = mo_id m" and "running_ok db"
    and r: "\<And>m. m \<in> set (db_monitors db) \<Longrightarrow> mo_id m = i \<Longrightarrow> mo_running (f m) \<Longrightarrow>
      mo_running m \<or> (\<exists>c \<in> set (db_checkins db). ck_monitor c = i \<and> ck_status c = InProgress)"
  shows "running_ok (update_monitor i f db)"
proof -
  have u: "mo_id (upd i f m) = mo_id m" for m using f by (simp add: upd_def)
  show ?thesis unfolding running_ok_def update_monitor_set update_monitor_simps ball_simps(9)
  proof (intro ballI impI)
    fix m assume m: "m \<in> set (db_monitors db)" "mo_running (upd i f m)"
    show "\<exists>c \<in> set (db_checkins db). ck_monitor c = mo_id (upd i f m) \<and> ck_status c = InProgress"
    proof (cases "mo_id m = i \<and> \<not> mo_running m")
      case True
      with m r [OF m(1)] show ?thesis by (simp add: u) (simp add: upd_def)
    next
      case False
      with m assms(2) show ?thesis unfolding running_ok_def u by (auto simp: upd_def split: if_splits)
    qed
  qed
qed

definition running_but :: "nat \<Rightarrow> cron_db \<Rightarrow> bool" where
  "running_but i db \<longleftrightarrow> (\<forall>m \<in> set (db_monitors db). mo_running m \<and> mo_id m \<noteq> i \<longrightarrow>
     (\<exists>c \<in> set (db_checkins db). ck_monitor c = mo_id m \<and> ck_status c = InProgress))"

lemma running_ok_after:
  assumes f: "\<And>m. mo_id (f m) = mo_id m" and "running_but i db"
    and r: "\<And>m. m \<in> set (db_monitors db) \<Longrightarrow> mo_id m = i \<Longrightarrow> mo_running (f m) \<Longrightarrow>
      \<exists>c \<in> set (db_checkins db). ck_monitor c = i \<and> ck_status c = InProgress"
  shows "running_ok (update_monitor i f db)"
proof -
  have u: "mo_id (upd i f m) = mo_id m" for m using f by (simp add: upd_def)
  show ?thesis unfolding running_ok_def update_monitor_set update_monitor_simps ball_simps(9)
  proof (intro ballI impI)
    fix m assume m: "m \<in> set (db_monitors db)" "mo_running (upd i f m)"
    show "\<exists>c \<in> set (db_checkins db). ck_monitor c = mo_id (upd i f m) \<and> ck_status c = InProgress"
    proof (cases "mo_id m = i")
      case True
      with m r [OF m(1)] show ?thesis by (simp add: u) (simp add: upd_def)
    next
      case False
      with m assms(2) show ?thesis unfolding running_but_def u by (simp add: upd_def)
    qed
  qed
qed

lemma insert_monitor_inv:
  assumes "cron_inv db" "insert_monitor now m slug db = Some (row, db')"
  shows "cron_inv db'"
proof -
  have f: "\<not> slug_used db (mo_project m) slug" "db_checkins db' = db_checkins db" "db_monitors db' = db_monitors db @ [row]"
    "db_next db' = db_next db + 1" "mo_id row = db_next db" "mo_project row = mo_project m" "mo_slug row = slug"
    "\<not> mo_running row"
    using assms(2) by (auto simp: insert_monitor_def Let_def split: if_splits)
  have ids: "ids_ok db" "keys_ok db" "refs_ok db" "running_ok db" using assms(1) by (simp_all add: cron_inv_def)
  have "ids_ok db'" using ids(1) by (auto simp: ids_ok_def f less_SucI)
  moreover have "keys_ok db'"
    using ids(2) f(1) by (auto simp: keys_ok_def f slug_used_def mkey_def)
  moreover have "refs_ok db'" using ids(3) by (simp add: refs_ok_def f)
  moreover have "running_ok db'" using ids(4) by (simp add: running_ok_def f)
  ultimately show ?thesis by (simp add: cron_inv_def)
qed

lemma try_slugs_Some:
  "try_slugs now m base n k db = Some r \<Longrightarrow>
     \<exists>j < k. insert_monitor now m (slug_candidate base (n + j)) db = Some r
       \<and> (\<forall>l < j. slug_used db (mo_project m) (slug_candidate base (n + l)))"
proof (induction now m base n k db rule: try_slugs.induct)
  case (2 now m base n k db)
  show ?case
  proof (cases "insert_monitor now m (slug_candidate base n) db")
    case None
    then have u: "slug_used db (mo_project m) (slug_candidate base n)" by (simp add: insert_monitor_def Let_def split: if_splits)
    obtain j where j: "j < k" "insert_monitor now m (slug_candidate base (n + 1 + j)) db = Some r"
      "\<forall>l < j. slug_used db (mo_project m) (slug_candidate base (n + 1 + l))"
      using 2 None by auto
    have "slug_used db (mo_project m) (slug_candidate base (n + l))" if "l < Suc j" for l
      using u j(3) that by (cases l) auto
    with j show ?thesis by (intro exI [of _ "Suc j"]) auto
  qed (use 2 in auto)
qed simp

lemma create_inv:
  assumes "cron_inv db" "CreateCronMonitor now m db = Some (row, db')"
  shows "cron_inv db'"
  using assms try_slugs_Some insert_monitor_inv by (fastforce simp: CreateCronMonitor_def split: if_splits)

lemma update_inv:
  assumes inv: "cron_inv db" and u: "UpdateCronMonitor parse now m db = Updated db'"
  shows "cron_inv db'"
proof -
  obtain old where old: "find (\<lambda>x. mo_id x = mo_id m) (db_monitors db) = Some old"
    and free: "\<not> (\<exists>x \<in> set (db_monitors db). mo_id x \<noteq> mo_id m \<and> mo_project x = mo_project old \<and> mo_slug x = mo_slug m)"
    using u by (auto simp: UpdateCronMonitor_def Let_def split: option.splits if_splits)
  define f where "f = (\<lambda>x :: monitor. x\<lparr>mo_name := mo_name m, mo_slug := mo_slug m, mo_schedule := mo_schedule m,
                   mo_grace := mo_grace m, mo_status := mo_status m,
                   mo_next := (if mo_next x \<noteq> None
                                  \<and> (mo_schedule x \<noteq> mo_schedule m \<or> mo_status x = Paused \<and> mo_status m = Active)
                               then (case parse (mo_schedule m) of None \<Rightarrow> None | Some sched \<Rightarrow> Some (sched now)) else mo_next x)\<rparr>)"
  have db': "db' = update_monitor (mo_id m) f db"
    using u old free by (simp add: UpdateCronMonitor_def f_def)
  have f: "mo_id (f x) = mo_id x" "mo_running (f x) = mo_running x" "mo_project (f x) = mo_project x" "mo_slug (f x) = mo_slug m"
    for x by (simp_all add: f_def)
  have i: "ids_ok db" "keys_ok db" "refs_ok db" "running_ok db" using inv by (simp_all add: cron_inv_def)
  have o: "old \<in> set (db_monitors db)" "mo_id old = mo_id m" using old by (auto simp: find_Some_iff)
  have uniq: "x = old" if "x \<in> set (db_monitors db)" "mo_id x = mo_id m" for x
    using i(1) that o unfolding ids_ok_def by (metis distinct_map inj_onD)
  have "distinct (map (\<lambda>x. mkey (upd (mo_id m) f x)) (db_monitors db))"
    unfolding distinct_map
  proof
    show "distinct (db_monitors db)" using i(2) by (auto simp: keys_ok_def distinct_map)
    show "inj_on (\<lambda>x. mkey (upd (mo_id m) f x)) (set (db_monitors db))"
    proof (rule inj_onI)
      fix x y assume xy: "x \<in> set (db_monitors db)" "y \<in> set (db_monitors db)"
        "mkey (upd (mo_id m) f x) = mkey (upd (mo_id m) f y)"
      show "x = y"
      proof (cases "mo_id x = mo_id m \<or> mo_id y = mo_id m")
        case True
        with xy free uniq show ?thesis by (auto simp: upd_def f mkey_def split: if_splits)
      next
        case False
        with xy have "mkey x = mkey y" by (simp add: upd_def)
        with i(2) xy show ?thesis unfolding keys_ok_def distinct_map by (meson inj_onD)
      qed
    qed
  qed
  then have "keys_ok db'"
    using i(2) unfolding keys_ok_def db' by (simp add: update_monitor_def comp_def upd_def)
  moreover have "running_ok db'" unfolding db' by (rule running_ok_update) (use i(4) f in auto)
  ultimately show ?thesis unfolding cron_inv_def db' using i f by (simp add: ids_ok_update refs_ok_update)
qed

lemma ckey_filter: "distinct (map ckey (filter P cs)) \<Longrightarrow> distinct (map ckey (filter P (filter Q cs)))"
proof -
  have "filter P (filter Q cs) = filter Q (filter P cs)" by (induction cs) auto
  then show "distinct (map ckey (filter P cs)) \<Longrightarrow> distinct (map ckey (filter P (filter Q cs)))"
    by (simp add: distinct_map_filter del: filter_filter)
qed

lemma delete_inv:
  assumes "cron_inv db"
  shows "cron_inv (DeleteCronMonitor i db)"
proof -
  have i: "ids_ok db" "keys_ok db" "refs_ok db" "running_ok db" using assms by (simp_all add: cron_inv_def)
  have "ids_ok (DeleteCronMonitor i db)" using i(1) by (simp add: ids_ok_def DeleteCronMonitor_def distinct_map_filter)
  moreover have "keys_ok (DeleteCronMonitor i db)"
    using i(2) ckey_filter [of "\<lambda>c. ck_sdk c \<noteq> None"]
    by (simp add: keys_ok_def DeleteCronMonitor_def distinct_map_filter)
  moreover have "refs_ok (DeleteCronMonitor i db)" using i(3) by (fastforce simp: refs_ok_def DeleteCronMonitor_def)
  moreover have "running_ok (DeleteCronMonitor i db)" using i(4) by (fastforce simp: running_ok_def DeleteCronMonitor_def)
  ultimately show ?thesis by (simp add: cron_inv_def)
qed

lemma purge_keeps_running:
  assumes "ids_ok db" "c \<in> set (db_checkins db)" "ck_status c = InProgress"
  shows "c \<in> set (db_checkins (purgeCronCheckins cutoff lim db))"
proof -
  have "ck_id c \<notin> ck_id ` set (take lim (sort_key completed_at
            (filter (\<lambda>c. ck_status c \<in> {StatusOk, StatusError} \<and> completed_at c < cutoff) (db_checkins db))))"
  proof
    assume "ck_id c \<in> ck_id ` set (take lim (sort_key completed_at
            (filter (\<lambda>c. ck_status c \<in> {StatusOk, StatusError} \<and> completed_at c < cutoff) (db_checkins db))))"
    then obtain c' where c': "c' \<in> set (db_checkins db)" "ck_status c' \<in> {StatusOk, StatusError}" "ck_id c' = ck_id c"
      by (auto dest!: in_set_takeD)
    then have "c' = c" using assms(1,2) unfolding ids_ok_def by (metis distinct_map inj_onD)
    with c' assms(3) show False by simp
  qed
  with assms(2) show ?thesis by (simp add: purgeCronCheckins_def Let_def)
qed

lemma purge_inv: "cron_inv db \<Longrightarrow> cron_inv (purgeCronCheckins cutoff lim db)"
proof -
  assume inv: "cron_inv db"
  have s: "set (db_checkins (purgeCronCheckins cutoff lim db)) \<subseteq> set (db_checkins db)"
    "db_monitors (purgeCronCheckins cutoff lim db) = db_monitors db" "db_next (purgeCronCheckins cutoff lim db) = db_next db"
    "distinct (map ck_id (db_checkins db)) \<Longrightarrow> distinct (map ck_id (db_checkins (purgeCronCheckins cutoff lim db)))"
    by (auto simp: purgeCronCheckins_def Let_def distinct_map_filter)
  have i: "ids_ok db" "keys_ok db" "refs_ok db" "running_ok db" using inv by (simp_all add: cron_inv_def)
  have "running_ok (purgeCronCheckins cutoff lim db)"
    using i(4) purge_keeps_running [OF i(1)] unfolding running_ok_def s(2) by blast
  moreover have "ids_ok (purgeCronCheckins cutoff lim db)" using i(1) s unfolding ids_ok_def by auto
  moreover have "keys_ok (purgeCronCheckins cutoff lim db)"
    using i(2) ckey_filter [of "\<lambda>c. ck_sdk c \<noteq> None"] by (simp add: keys_ok_def purgeCronCheckins_def Let_def)
  moreover have "refs_ok (purgeCronCheckins cutoff lim db)" using i(3) s unfolding refs_ok_def by auto
  ultimately show ?thesis by (simp add: cron_inv_def)
qed

lemma GetCronMonitor_Some: "GetCronMonitor i db \<noteq> None \<Longrightarrow> \<exists>m \<in> set (db_monitors db). mo_id m = i"
  by (auto simp: GetCronMonitor_def find_None_iff)

text \<open>The writes to the monitor after a check-in.\<close>

definition after_checkin :: "nanos \<Rightarrow> nanos \<Rightarrow> checkin_status \<Rightarrow> monitor \<Rightarrow> monitor" where
  "after_checkin now nextAt status =
     (case status of
        InProgress \<Rightarrow> (\<lambda>m. m\<lparr>mo_running := True, mo_next := Some nextAt\<rparr>)
      | StatusOk \<Rightarrow> (\<lambda>m. m\<lparr>mo_running := False, mo_last_ok := Some now, mo_next := Some nextAt,
                          mo_last_status := Some StatusOk, mo_last_at := Some now\<rparr>)
      | StatusError \<Rightarrow> (\<lambda>m. m\<lparr>mo_running := False, mo_next := Some nextAt,
                          mo_last_status := Some StatusError, mo_last_at := Some now\<rparr>))"

lemma after_checkin_simps [simp]: "mo_id (after_checkin now n st m) = mo_id m" "mkey (after_checkin now n st m) = mkey m"
  "mo_running (after_checkin now n st m) = (st = InProgress)" "mo_next (after_checkin now n st m) = Some n"
  "mo_grace (after_checkin now n st m) = mo_grace m" "mo_status (after_checkin now n st m) = mo_status m"
  by (cases st; simp add: after_checkin_def mkey_def)+

lemma update_after:
  "updateMonitorAfterCheckin parse now i st db = Some db' \<Longrightarrow>
     \<exists>n. nextExpectedRun parse i now db = Some n \<and> db' = update_monitor i (after_checkin now n st) db"
  by (auto simp: updateMonitorAfterCheckin_def after_checkin_def split: option.splits)

text \<open>What a write to the check-ins leaves intact, up to the running flag of monitor \<open>i\<close>.\<close>

definition write_ok :: "nat \<Rightarrow> checkin_status \<Rightarrow> cron_db \<Rightarrow> bool" where
  "write_ok i st db \<longleftrightarrow> ids_ok db \<and> keys_ok db \<and> refs_ok db \<and> running_but i db
     \<and> (st = InProgress \<longrightarrow> (\<exists>c \<in> set (db_checkins db). ck_monitor c = i \<and> ck_status c = InProgress))"

lemma write_then_update:
  assumes "write_ok i st db" "updateMonitorAfterCheckin parse now i st db = Some db'"
  shows "cron_inv db'"
proof -
  obtain n where d: "db' = update_monitor i (after_checkin now n st) db" using update_after [OF assms(2)] by blast
  have "running_ok db'" unfolding d
    by (rule running_ok_after) (use assms(1) in \<open>auto simp: write_ok_def\<close>)
  then show ?thesis using assms(1)
    by (simp add: cron_inv_def d write_ok_def ids_ok_update keys_ok_update refs_ok_update)
qed

lemma replace_set: "set (db_checkins (replace_checkin r db)) = (\<lambda>c. if ck_id c = ck_id r then r else c) ` set (db_checkins db)"
  by (simp add: replace_checkin_def)

lemma replace_ok:
  assumes inv: "cron_inv db" and o: "old \<in> set (db_checkins db)" "ck_id row = ck_id old" "ckey row = ckey old"
    and st: "ck_status row = st"
  shows "write_ok (ck_monitor old) st (replace_checkin row db)"
proof -
  have i: "ids_ok db" "keys_ok db" "refs_ok db" "running_ok db" using inv by (simp_all add: cron_inv_def)
  have uniq: "c = old" if "c \<in> set (db_checkins db)" "ck_id c = ck_id row" for c
    using i(1) that o unfolding ids_ok_def by (metis distinct_map inj_onD)
  define h where "h = (\<lambda>c. if ck_id c = ck_id row then row else c)"
  have h: "ck_id (h c) = ck_id c" "c \<in> set (db_checkins db) \<Longrightarrow> ckey (h c) = ckey c" for c
    using uniq [of c] o by (auto simp: h_def)
  have hm: "ck_monitor (h c) = ck_monitor c" "ck_sdk (h c) = ck_sdk c" if "c \<in> set (db_checkins db)" for c
    using h(2) [OF that] by (simp_all add: ckey_def)
  have cs: "db_checkins (replace_checkin row db) = map h (db_checkins db)" by (simp add: replace_checkin_def h_def)
  have row: "row \<in> set (db_checkins (replace_checkin row db))"
    unfolding cs using o by (auto simp: h_def image_iff)
  have "ids_ok (replace_checkin row db)" using i(1) unfolding ids_ok_def cs by (simp add: h comp_def)
  moreover have "keys_ok (replace_checkin row db)"
  proof -
    have "map ckey (filter (\<lambda>c. ck_sdk c \<noteq> None) (map h xs)) = map ckey (filter (\<lambda>c. ck_sdk c \<noteq> None) xs)"
      if "set xs \<subseteq> set (db_checkins db)" for xs
      using that by (induction xs) (auto simp: h hm)
    then show ?thesis using i(2) unfolding keys_ok_def cs by simp
  qed
  moreover have "refs_ok (replace_checkin row db)" using i(3) unfolding refs_ok_def cs by (simp add: hm)
  moreover have "running_but (ck_monitor old) (replace_checkin row db)"
    unfolding running_but_def replace_checkin_simps
  proof (intro ballI impI)
    fix m assume m: "m \<in> set (db_monitors db)" "mo_running m \<and> mo_id m \<noteq> ck_monitor old"
    then obtain c where c: "c \<in> set (db_checkins db)" "ck_monitor c = mo_id m" "ck_status c = InProgress"
      using i(4) by (auto simp: running_ok_def)
    then have "c \<noteq> old" using m by auto
    then have "h c = c" using uniq [OF c(1)] by (auto simp: h_def)
    with c show "\<exists>c \<in> set (db_checkins (replace_checkin row db)). ck_monitor c = mo_id m \<and> ck_status c = InProgress"
      unfolding cs by (metis image_eqI list.set_map)
  qed
  moreover have "st = InProgress \<longrightarrow> (\<exists>c \<in> set (db_checkins (replace_checkin row db)). ck_monitor c = ck_monitor old \<and> ck_status c = InProgress)"
    using row st o(3) by (auto simp: ckey_def)
  ultimately show ?thesis by (simp add: write_ok_def)
qed

lemma insert_checkin_ok:
  assumes inv: "cron_inv db" and m: "\<exists>m \<in> set (db_monitors db). mo_id m = ck_monitor row"
    and f: "ck_sdk row = None \<or> \<not> (\<exists>c \<in> set (db_checkins db). ck_monitor c = ck_monitor row \<and> ck_sdk c = ck_sdk row)"
    and id: "ck_id row = db_next db" and db': "db' = db\<lparr>db_checkins := db_checkins db @ [row], db_next := db_next db + 1\<rparr>"
  shows "write_ok (ck_monitor row) (ck_status row) db'"
proof -
  have i: "ids_ok db" "keys_ok db" "refs_ok db" "running_ok db" using inv by (simp_all add: cron_inv_def)
  have "ids_ok db'" using i(1) by (auto simp: ids_ok_def db' id less_SucI)
  moreover have "keys_ok db'" using i(2) f by (auto simp: keys_ok_def db' ckey_def)
  moreover have "refs_ok db'" using i(3) m by (simp add: refs_ok_def db')
  moreover have "running_but (ck_monitor row) db'" using i(4) by (auto simp: running_but_def running_ok_def db')
  ultimately show ?thesis by (auto simp: write_ok_def db')
qed

lemma upsert_ok:
  assumes inv: "cron_inv db" and m: "GetCronMonitor i db \<noteq> None" and u: "upsert_checkin received i ci db = Some (row, db1)"
  shows "write_ok i (ck_status ci) db1 \<and> ck_status row = ck_status ci \<and> ck_monitor row = i"
proof (cases "if ck_sdk ci = None then None
            else find (\<lambda>c. ck_monitor c = i \<and> ck_sdk c = ck_sdk ci) (db_checkins db)")
  case None
  with u have r: "row = ci\<lparr>ck_id := db_next db, ck_monitor := i, ck_received := received\<rparr>"
    "db1 = db\<lparr>db_checkins := db_checkins db @ [row], db_next := db_next db + 1\<rparr>"
    by (auto simp: upsert_checkin_def Let_def)
  have "ck_sdk row = None \<or> \<not> (\<exists>c \<in> set (db_checkins db). ck_monitor c = ck_monitor row \<and> ck_sdk c = ck_sdk row)"
    using None by (auto simp: r find_None_iff split: if_splits)
  moreover have "\<exists>m \<in> set (db_monitors db). mo_id m = ck_monitor row" using GetCronMonitor_Some [OF m] by (simp add: r)
  ultimately have "write_ok (ck_monitor row) (ck_status row) db1"
    by (intro insert_checkin_ok [OF inv _ _ _ r(2)]) (simp_all add: r)
  then show ?thesis by (simp add: r)
next
  case (Some old)
  then have o: "old \<in> set (db_checkins db)" "ck_monitor old = i" "ck_sdk old = ck_sdk ci"
    by (auto simp: find_Some_iff split: if_splits)
  from u Some have r: "ck_id row = ck_id old" "ckey row = ckey old" "ck_status row = ck_status ci" "db1 = replace_checkin row db"
    by (auto simp: upsert_checkin_def Let_def ckey_def split: if_splits)
  from replace_ok [OF inv o(1) r(1-3)] show ?thesis using o r by (simp add: ckey_def)
qed

lemma record_inv: "cron_inv db \<Longrightarrow> cron_inv (snd (RecordCheckin parse received now i ci db))"
  using upsert_ok [of db i received ci] write_then_update
  by (auto simp: RecordCheckin_def split: option.splits prod.splits)

lemma finish_inv: "cron_inv db \<Longrightarrow> cron_inv (snd (FinishCheckin parse now i cid st d db))"
proof -
  assume inv: "cron_inv db"
  show ?thesis
  proof (cases "find (\<lambda>c. ck_id c = cid \<and> ck_monitor c = i \<and> ck_status c = InProgress) (db_checkins db)")
    case (Some old)
    then have o: "old \<in> set (db_checkins db)" "ck_monitor old = i" by (auto simp: find_Some_iff)
    have "write_ok (ck_monitor old) st (replace_checkin (old\<lparr>ck_status := st, ck_duration := d, ck_finished := Some now\<rparr>) db)"
      by (rule replace_ok [OF inv o(1)]) (simp_all add: ckey_def)
    with o write_then_update Some inv show ?thesis
      by (auto simp: FinishCheckin_def Let_def split: option.splits)
  qed (use inv in \<open>simp add: FinishCheckin_def\<close>)
qed

lemma cron_step_inv: "cron_inv db \<Longrightarrow> cron_inv (cron_step parse db op)"
  by (cases op) (auto simp: record_inv finish_inv delete_inv purge_inv dest: create_inv update_inv
      split: option.splits update_result.splits)

interpretation cron: machine "cron_step parse" cron_inv for parse
  by unfold_locales (rule cron_step_inv)

lemma empty_db_inv: "cron_inv empty_db"
  by (simp add: cron_inv_def ids_ok_def keys_ok_def refs_ok_def running_ok_def empty_db_def)

abbreviation cron_run :: "schedule_parser \<Rightarrow> cron_op list \<Rightarrow> cron_db" where
  "cron_run parse ops \<equiv> foldl (cron_step parse) empty_db ops"

text \<open>
C4: After any history of creating, updating and deleting monitors, recording and finishing check-ins and
retention purges, slugs are unique within a project, SDK check-in ids are unique for a monitor,
every check-in belongs to a monitor, and a monitor that counts as running has a check-in in
progress.
\<close>

theorem cron_consistent:
  "let db = cron_run parse ops in
     distinct (map mkey (db_monitors db))
     \<and> distinct (map ckey (filter (\<lambda>c. ck_sdk c \<noteq> None) (db_checkins db)))
     \<and> ck_monitor ` set (db_checkins db) \<subseteq> mo_id ` set (db_monitors db)
     \<and> mo_id ` {m \<in> set (db_monitors db). mo_running m}
         \<subseteq> ck_monitor ` {c \<in> set (db_checkins db). ck_status c = InProgress}"
proof -
  have i: "cron_inv (cron_run parse ops)" by (rule cron.run_inv [OF empty_db_inv])
  then have "ck_monitor ` set (db_checkins (cron_run parse ops)) \<subseteq> mo_id ` set (db_monitors (cron_run parse ops))"
    by (auto simp: cron_inv_def refs_ok_def) (metis imageI)
  moreover have "mo_id ` {m \<in> set (db_monitors (cron_run parse ops)). mo_running m}
      \<subseteq> ck_monitor ` {c \<in> set (db_checkins (cron_run parse ops)). ck_status c = InProgress}"
    using i unfolding cron_inv_def running_ok_def by (clarsimp simp: image_iff) metis
  ultimately show ?thesis using i by (simp add: Let_def cron_inv_def keys_ok_def)
qed

section \<open>Finished check-ins\<close>

definition final :: "checkin \<Rightarrow> cron_db \<Rightarrow> bool" where
  "final c db \<longleftrightarrow> ck_status c \<noteq> InProgress \<and> ck_id c < db_next db
     \<and> (\<forall>c' \<in> set (db_checkins db). ck_id c' = ck_id c \<longrightarrow> c' = c)"

lemma final_mono:
  "final c db \<Longrightarrow> set (db_checkins db') \<subseteq> set (db_checkins db) \<Longrightarrow> db_next db \<le> db_next db' \<Longrightarrow> final c db'"
  by (auto simp: final_def)

lemma insert_monitor_checkins: "insert_monitor now m slug db = Some (row, db') \<Longrightarrow>
    db_checkins db' = db_checkins db \<and> db_next db' = Suc (db_next db)"
  by (auto simp: insert_monitor_def Let_def split: if_splits)

lemma create_checkins: "CreateCronMonitor now m db = Some (row, db') \<Longrightarrow>
    db_checkins db' = db_checkins db \<and> db_next db \<le> db_next db'"
proof -
  assume "CreateCronMonitor now m db = Some (row, db')"
  then have "\<exists>slug. insert_monitor now m slug db = Some (row, db')"
    by (auto simp: CreateCronMonitor_def split: if_splits dest!: try_slugs_Some)
  then show ?thesis using insert_monitor_checkins by fastforce
qed

lemma update_checkins: "UpdateCronMonitor parse now m db = Updated db' \<Longrightarrow> db_checkins db' = db_checkins db \<and> db_next db' = db_next db"
  by (auto simp: UpdateCronMonitor_def Let_def split: option.splits if_splits)

lemma final_replace:
  assumes "final c db" "old \<in> set (db_checkins db)" "ck_status old = InProgress" "ck_id row = ck_id old"
  shows "final c (replace_checkin row db)"
proof -
  have "ck_id old \<noteq> ck_id c" using assms(1-3) by (auto simp: final_def)
  with assms(1,4) show ?thesis by (auto simp: final_def replace_set split: if_splits)
qed

lemma final_record:
  assumes "final c db"
  shows "final c (snd (RecordCheckin parse received now i ci db))"
proof (cases "upsert_checkin received i ci db")
  case (Some p)
  obtain row db1 where p: "p = (row, db1)" by force
  have "final c db1"
  proof (cases "if ck_sdk ci = None then None
            else find (\<lambda>c. ck_monitor c = i \<and> ck_sdk c = ck_sdk ci) (db_checkins db)")
    case None
    with Some p have "db_checkins db1 = db_checkins db @ [row]" "db_next db1 = db_next db + 1" "ck_id row = db_next db"
      by (auto simp: upsert_checkin_def Let_def)
    with assms show ?thesis by (auto simp: final_def)
  next
    case (Some old)
    then have "old \<in> set (db_checkins db)" by (auto simp: find_Some_iff split: if_splits)
    moreover have "ck_status old = InProgress" "ck_id row = ck_id old" "db1 = replace_checkin row db"
      using \<open>upsert_checkin received i ci db = Some p\<close> Some p by (auto simp: upsert_checkin_def Let_def split: if_splits)
    ultimately show ?thesis using final_replace [OF assms] by simp
  qed
  then show ?thesis using Some p assms
    by (auto simp: RecordCheckin_def final_def split: option.splits dest!: update_after)
qed (use assms in \<open>simp add: RecordCheckin_def\<close>)

lemma final_finish:
  assumes "final c db"
  shows "final c (snd (FinishCheckin parse now i cid st d db))"
proof (cases "find (\<lambda>c. ck_id c = cid \<and> ck_monitor c = i \<and> ck_status c = InProgress) (db_checkins db)")
  case (Some old)
  then have "old \<in> set (db_checkins db)" "ck_status old = InProgress" by (auto simp: find_Some_iff)
  then have "final c (replace_checkin (old\<lparr>ck_status := st, ck_duration := d, ck_finished := Some now\<rparr>) db)"
    by (intro final_replace [OF assms]) auto
  then show ?thesis using Some assms
    by (auto simp: FinishCheckin_def Let_def final_def split: option.splits dest!: update_after)
qed (use assms in \<open>simp add: FinishCheckin_def\<close>)

lemma final_step: "final c db \<Longrightarrow> final c (cron_step parse db op)"
proof (cases op)
  case (OpCreate now m)
  assume "final c db"
  with OpCreate show ?thesis by (auto split: option.splits intro: final_mono dest!: create_checkins)
next
  case (OpUpdate now m)
  assume "final c db"
  with OpUpdate show ?thesis by (auto split: update_result.splits intro: final_mono dest!: update_checkins)
qed (auto simp: final_record final_finish DeleteCronMonitor_def purgeCronCheckins_def Let_def elim: final_mono)

interpretation final_checkin: machine "cron_step parse" "final c" for parse c
  by unfold_locales (rule final_step)

text \<open>
C39: A check-in that has finished never changes again: whatever happens later, a row with its id is the
same row or is gone, and the id is never given to another check-in.
\<close>

theorem finished_checkin_immutable:
  assumes "c \<in> set (db_checkins (cron_run parse ops))" "ck_status c \<noteq> InProgress"
    and "c' \<in> set (db_checkins (foldl (cron_step parse) (cron_run parse ops) ops'))" "ck_id c' = ck_id c"
  shows "c' = c"
proof -
  have "ids_ok (cron_run parse ops)" using cron.run_inv [OF empty_db_inv, of parse ops] by (simp add: cron_inv_def)
  then have "final c (cron_run parse ops)"
    using assms(1,2) unfolding final_def ids_ok_def distinct_map by (meson inj_onD)
  from final_checkin.run_inv [OF this, of parse ops'] show ?thesis using assms(3,4) by (simp add: final_def)
qed

text \<open>
A repeated delivery is harmless: recording a check-in whose SDK id belongs to a finished check-in,
or a second start of one in progress, is ignored and leaves the database as it was.
\<close>

theorem duplicate_checkin_ignored:
  assumes "c \<in> set (db_checkins (cron_run parse ops))" "ck_sdk c \<noteq> None" "ck_monitor c = i" "ck_sdk ci = ck_sdk c"
    and "ck_status c \<noteq> InProgress \<or> ck_status ci = InProgress"
  shows "RecordCheckin parse received now i ci (cron_run parse ops) = (CkIgnored, cron_run parse ops)"
proof -
  let ?db = "cron_run parse ops"
  have inv: "keys_ok ?db" "refs_ok ?db" using cron.run_inv [OF empty_db_inv, of parse ops] by (simp_all add: cron_inv_def)
  have "c' = c" if "c' \<in> set (db_checkins ?db)" "ck_monitor c' = i" "ck_sdk c' = ck_sdk ci" for c'
    using inv(1) that assms(1-4) unfolding keys_ok_def distinct_map
    by (intro inj_onD [of ckey "set (filter (\<lambda>c. ck_sdk c \<noteq> None) (db_checkins ?db))"]) (auto simp: ckey_def)
  moreover have "find (\<lambda>c. ck_monitor c = i \<and> ck_sdk c = ck_sdk ci) (db_checkins ?db) \<noteq> None"
    using assms(1-4) by (auto simp: find_None_iff)
  then obtain c0 where "find (\<lambda>c. ck_monitor c = i \<and> ck_sdk c = ck_sdk ci) (db_checkins ?db) = Some c0" by blast
  moreover from find_SomeD [OF this] have "c0 \<in> set (db_checkins ?db)" "ck_monitor c0 = i" "ck_sdk c0 = ck_sdk ci" by simp_all
  ultimately have f: "find (\<lambda>c. ck_monitor c = i \<and> ck_sdk c = ck_sdk ci) (db_checkins ?db) = Some c" by simp
  have "GetCronMonitor i ?db \<noteq> None" using inv(2) assms(1,3) by (auto simp: GetCronMonitor_def find_None_iff refs_ok_def)
  then show ?thesis using f assms(2,4,5) by (auto simp: RecordCheckin_def upsert_checkin_def)
qed

section \<open>Missed runs\<close>

lemma find_update:
  assumes "\<And>m. mo_id (f m) = mo_id m"
  shows "GetCronMonitor i (update_monitor i f db) = map_option f (GetCronMonitor i db)"
proof -
  have "find (\<lambda>m. mo_id m = i) (map (\<lambda>m. if mo_id m = i then f m else m) ms) = map_option f (find (\<lambda>m. mo_id m = i) ms)" for ms
    by (induction ms) (auto simp: assms)
  then show ?thesis by (simp add: GetCronMonitor_def update_monitor_def)
qed

text \<open>
Any recorded check-in, start, success or failure, moves the next expected run to the schedule's next
time, sets the running flag exactly for a start, and keeps the monitor from being overdue or missed
until that time plus the grace period has passed.
\<close>

theorem checkin_prevents_miss:
  assumes "RecordCheckin parse received now i ci db = (CkDone row, db')"
    and "GetCronMonitor i db = Some m" "parse (mo_schedule m) = Some sched"
  shows "\<exists>m'. GetCronMonitor i db' = Some m' \<and> mo_next m' = Some (sched now)
    \<and> (mo_running m' \<longleftrightarrow> ck_status ci = InProgress)
    \<and> (\<forall>t \<le> sched now + seconds (mo_grace m). \<not> overdue t m' \<and> computeMonitorState t m' \<noteq> StMissed)"
proof -
  obtain db1 where u: "upsert_checkin received i ci db = Some (row, db1)"
    "updateMonitorAfterCheckin parse now i (ck_status ci) db1 = Some db'"
    using assms(1,2) by (auto simp: RecordCheckin_def split: option.splits)
  have m1: "db_monitors db1 = db_monitors db"
    using u(1) by (auto simp: upsert_checkin_def Let_def split: option.splits if_splits)
  then have g: "GetCronMonitor i db1 = Some m" using assms(2) by (simp add: GetCronMonitor_def)
  obtain n where n: "nextExpectedRun parse i now db1 = Some n" "db' = update_monitor i (after_checkin now n (ck_status ci)) db1"
    using update_after [OF u(2)] by blast
  have ns: "n = sched now" using n(1) g assms(3) by (simp add: nextExpectedRun_def)
  have "GetCronMonitor i db' = Some (after_checkin now (sched now) (ck_status ci) m)"
    using find_update [of "after_checkin now n (ck_status ci)" i db1] g n(2) ns by simp
  then show ?thesis by (auto simp: overdue_def computeMonitorState_def)
qed

text \<open>
For an active monitor the state shown as missed and the query that drives the missed-run alert
agree, except that a monitor whose last result was an error is shown as an error.
\<close>

theorem missed_iff_overdue:
  assumes "mo_status m = Active"
  shows "computeMonitorState now m = StMissed \<longleftrightarrow> overdue now m \<and> mo_last_status m \<noteq> Some StatusError"
  using assms by (auto simp: computeMonitorState_def overdue_def split: option.splits)

section \<open>Slugs\<close>

lemma dash_runs_chars: "c \<in> set (dash_runs b s) \<Longrightarrow> lower_alnum c \<or> c = CHR ''-''"
  by (induction b s rule: dash_runs.induct) (auto split: if_splits)

lemma set_trims: "set (trim_right p (trim_left p s)) \<subseteq> set s" "length (trim_right p (trim_left p s)) \<le> length s"
proof -
  have "set (dropWhile p xs) \<subseteq> set xs" "length (dropWhile p xs) \<le> length xs" for xs :: string
    by (auto dest: set_dropWhileD simp: length_dropWhile_le)
  then show "set (trim_right p (trim_left p s)) \<subseteq> set s" "length (trim_right p (trim_left p s)) \<le> length s"
    unfolding trim_right_def trim_left_def length_rev set_rev by (metis (no_types) order_trans set_rev, metis (no_types) order_trans length_rev)
qed

lemma hd_trims: "trim_right p (trim_left p s) \<noteq> [] \<Longrightarrow> \<not> p (hd (trim_right p (trim_left p s)))"
proof -
  assume ne: "trim_right p (trim_left p s) \<noteq> []"
  define t where "t = dropWhile p s"
  have "t = rev (takeWhile p (rev t) @ dropWhile p (rev t))" by simp
  then have "t = rev (dropWhile p (rev t)) @ rev (takeWhile p (rev t))" by (metis rev_append)
  moreover have ne': "rev (dropWhile p (rev t)) \<noteq> []" using ne by (simp add: trim_right_def trim_left_def t_def)
  ultimately have "hd t = hd (rev (dropWhile p (rev t)))" "t \<noteq> []" by (metis hd_append2, metis append_is_Nil_conv)
  moreover have "\<not> p (hd t)" using \<open>t \<noteq> []\<close> unfolding t_def by (rule hd_dropWhile)
  ultimately show ?thesis by (simp add: trim_right_def trim_left_def t_def)
qed

definition slug_base :: "string \<Rightarrow> bool" where
  "slug_base s \<longleftrightarrow> s \<noteq> [] \<and> lower_alnum (hd s) \<and> length s \<le> 40 \<and> (\<forall>c \<in> set s. lower_alnum c \<or> c = CHR ''-'')"

lemma MonitorSlugFromName_base: "slug_base (MonitorSlugFromName name)"
proof -
  define s0 where "s0 = take 40 (dash_runs False (to_lower name))"
  define s where "s = trim_right (\<lambda>c. c = CHR ''-'') (trim_left (\<lambda>c. c = CHR ''-'') s0)"
  have c0: "lower_alnum c \<or> c = CHR ''-''" if "c \<in> set s0" for c
    using that dash_runs_chars by (auto simp: s0_def dest: in_set_takeD)
  have c: "\<forall>c \<in> set s. lower_alnum c \<or> c = CHR ''-''" using c0 set_trims(1) unfolding s_def by blast
  have l: "length s \<le> 40" using set_trims(2) [of "\<lambda>c. c = CHR ''-''" s0] by (simp add: s_def s0_def)
  show ?thesis
  proof (cases "s = []")
    case True
    then show ?thesis
      by (simp add: MonitorSlugFromName_def Let_def slug_base_def lower_alnum_def flip: s0_def s_def)
  next
    case False
    then have "hd s \<noteq> CHR ''-''" "hd s \<in> set s" using hd_trims unfolding s_def by auto
    with False c l show ?thesis
      by (auto simp: MonitorSlugFromName_def Let_def slug_base_def simp flip: s0_def s_def)
  qed
qed

lemma is_digit_alnum: "is_digit c \<Longrightarrow> lower_alnum c"
  by (simp add: is_digit_def lower_alnum_def)

lemma candidate_valid:
  assumes "slug_base base" "n \<le> 100"
  shows "ValidMonitorSlug (slug_candidate base n)"
proof -
  obtain c cs where b: "base = c # cs" "lower_alnum c" "length cs \<le> 39" "\<forall>x \<in> set cs. lower_alnum x \<or> x = CHR ''-''"
    using assms(1) by (cases base) (auto simp: slug_base_def)
  have "length (decimal n) \<le> 3" using decimal_length [of n 2] assms(2) by simp
  moreover have "\<forall>x \<in> set (decimal n). lower_alnum x"
    using decimal_digits [of n] is_digit_alnum by (auto simp: list_all_iff)
  ultimately show ?thesis using b
    by (auto simp: ValidMonitorSlug_def slug_candidate_def list_all_iff)
qed

text \<open>
A slug derived from a name is valid (lower-case letters, digits, dashes and underscores, at most 50
characters, starting with a letter or digit), was not used in the project, and is the first free one
of the candidates in the order they are numbered.
\<close>

theorem derived_slug_valid_and_free:
  assumes "CreateCronMonitor now m db = Some (row, db')" "mo_slug m = []"
  shows "\<exists>j < 100. mo_slug row = slug_candidate (MonitorSlugFromName (mo_name m)) (1 + j)
    \<and> ValidMonitorSlug (mo_slug row) \<and> \<not> slug_used db (mo_project m) (mo_slug row)
    \<and> (\<forall>l < j. slug_used db (mo_project m) (slug_candidate (MonitorSlugFromName (mo_name m)) (1 + l)))"
proof -
  have "try_slugs now m (MonitorSlugFromName (mo_name m)) 1 100 db = Some (row, db')"
    using assms by (simp add: CreateCronMonitor_def)
  from try_slugs_Some [OF this] obtain j where j: "j < 100"
    "insert_monitor now m (slug_candidate (MonitorSlugFromName (mo_name m)) (1 + j)) db = Some (row, db')"
    "\<forall>l < j. slug_used db (mo_project m) (slug_candidate (MonitorSlugFromName (mo_name m)) (1 + l))" by blast
  have r: "mo_slug row = slug_candidate (MonitorSlugFromName (mo_name m)) (1 + j)"
    "\<not> slug_used db (mo_project m) (slug_candidate (MonitorSlugFromName (mo_name m)) (1 + j))"
    using j(2) by (auto simp: insert_monitor_def Let_def split: if_splits)
  with j candidate_valid [OF MonitorSlugFromName_base, of "1 + j"] show ?thesis
    by (intro exI [of _ j]) auto
qed

section \<open>A concrete history\<close>

definition demo_monitor :: monitor where
  "demo_monitor = \<lparr>mo_id = 0, mo_project = ''p'', mo_name = ''Nightly Backup!'', mo_slug = [], mo_schedule = ''* * * * *'',
     mo_grace = 60, mo_status = Active, mo_running = False, mo_last_ok = None, mo_next = None,
     mo_last_status = None, mo_last_at = None, mo_created = 0\<rparr>"

definition demo_checkin :: "checkin_status \<Rightarrow> checkin" where
  "demo_checkin st = \<lparr>ck_id = 0, ck_monitor = 0, ck_status = st, ck_duration = None, ck_environment = None,
     ck_started = None, ck_finished = Some 5, ck_sdk = Some ''s'', ck_received = 0\<rparr>"

definition demo_parse :: schedule_parser where
  "demo_parse s = (if s = ''* * * * *'' then Some (\<lambda>t. (t div 60000000000 + 1) * 60000000000) else None)"

definition demo_ops :: "cron_op list" where
  "demo_ops = [OpCreate 1 demo_monitor, OpRecord 2 2 0 (demo_checkin InProgress), OpRecord 3 3 0 (demo_checkin StatusOk)]"

definition demo_final :: checkin where
  "demo_final = (demo_checkin StatusOk)\<lparr>ck_id := 1, ck_received := 2\<rparr>"

lemma demo_checkins: "db_checkins (cron_run demo_parse demo_ops) = [demo_final]"
  by code_simp

theorem finished_checkin_immutable_witness:
  "set (filter (\<lambda>c. ck_id c = 1) (db_checkins
       (foldl (cron_step demo_parse) (cron_run demo_parse demo_ops) [OpFinish 9 0 1 StatusError None]))) \<subseteq> {demo_final}"
proof -
  have a: "demo_final \<in> set (db_checkins (cron_run demo_parse demo_ops))" unfolding demo_checkins by simp
  have b: "ck_status demo_final \<noteq> InProgress" "ck_id demo_final = 1" by (simp_all add: demo_final_def demo_checkin_def)
  show ?thesis using finished_checkin_immutable [OF a b(1)] b(2) by (auto simp del: foldl_Cons)
qed

theorem duplicate_checkin_ignored_witness:
  "RecordCheckin demo_parse 7 7 0 (demo_checkin StatusError) (cron_run demo_parse demo_ops)
     = (CkIgnored, cron_run demo_parse demo_ops)"
  by (rule duplicate_checkin_ignored [of demo_final]) (simp_all add: demo_checkins, simp_all add: demo_final_def demo_checkin_def)

definition demo_started :: cron_db where "demo_started = cron_run demo_parse [OpCreate 1 demo_monitor]"

theorem checkin_prevents_miss_witness:
  "\<exists>m'. GetCronMonitor 0 (snd (RecordCheckin demo_parse 2 2 0 (demo_checkin StatusOk) demo_started)) = Some m'
     \<and> \<not> overdue 120000000000 m'"
proof -
  have "case RecordCheckin demo_parse 2 2 0 (demo_checkin StatusOk) demo_started of (CkDone _, _) \<Rightarrow> True | _ \<Rightarrow> False"
    by code_simp
  then have "\<exists>row db'. RecordCheckin demo_parse 2 2 0 (demo_checkin StatusOk) demo_started = (CkDone row, db')"
    by (auto split: prod.splits checkin_result.splits)
  then obtain row db' where r: "RecordCheckin demo_parse 2 2 0 (demo_checkin StatusOk) demo_started = (CkDone row, db')" by blast
  have "map_option (\<lambda>m. (mo_schedule m, mo_grace m)) (GetCronMonitor 0 demo_started) = Some (''* * * * *'', 60)"
    by code_simp
  then obtain m where m: "GetCronMonitor 0 demo_started = Some m" "mo_schedule m = ''* * * * *''" "mo_grace m = 60" by auto
  have p: "demo_parse (mo_schedule m) = Some (\<lambda>t. (t div 60000000000 + 1) * 60000000000)" by (simp add: demo_parse_def m)
  from checkin_prevents_miss [OF r m(1) p] show ?thesis using m(3) r by (auto simp: seconds_def)
qed

theorem missed_iff_overdue_witness:
  "computeMonitorState 200 (demo_monitor\<lparr>mo_next := Some 100, mo_grace := 0\<rparr>) = StMissed"
  using missed_iff_overdue [of "demo_monitor\<lparr>mo_next := Some 100, mo_grace := 0\<rparr>" 200]
  by (simp add: demo_monitor_def overdue_def seconds_def)

theorem derived_slug_valid_and_free_witness:
  "\<exists>row db'. CreateCronMonitor 4 demo_monitor demo_started = Some (row, db') \<and> ValidMonitorSlug (mo_slug row)"
proof -
  have "(case CreateCronMonitor 4 demo_monitor demo_started of None \<Rightarrow> False | Some _ \<Rightarrow> True)" by code_simp
  then obtain row db' where r: "CreateCronMonitor 4 demo_monitor demo_started = Some (row, db')"
    by (auto split: option.splits)
  from derived_slug_valid_and_free [OF r] show ?thesis using r by (auto simp: demo_monitor_def)
qed

end
