(* ===== verification/Uptime.thy ===== *)
theory Uptime
  imports Cron
begin

text \<open>
  Uptime monitors: the state machine and the queries of \<open>internal/storage/uptime.go\<close> and the probe of
  \<open>internal/uptime/worker.go\<close>. What the HTTP client answers is an argument of the probe; an error
  message is a value of \<open>check_error\<close> with the text it quotes. Row ids are numbers handed out in order.
\<close>

section \<open>Expected codes\<close>

text \<open>\<open>strconv.Atoi\<close>: an optional sign and decimal digits, within 64 bits.\<close>

definition Atoi :: "string \<Rightarrow> int option" where
  "Atoi s =
     (let (neg, ds) = (case s of [] \<Rightarrow> (False, [])
            | c # cs \<Rightarrow> if c = CHR ''-'' then (True, cs) else if c = CHR ''+'' then (False, cs) else (False, s)) in
      if ds = [] \<or> \<not> list_all is_digit ds then None
      else let n = int (digits_value ds); v = (if neg then - n else n) in
        if is_int64 v then Some v else None)"

datatype codes_error = InvalidRange string | InvalidCode string | EmptyCodes

definition expand_part :: "string \<Rightarrow> codes_error + int list" where
  "expand_part part =
     (case index_byte part CHR ''-'' of
        Some idx \<Rightarrow>
          if 0 < idx then
            (case (Atoi (take idx part), Atoi (drop (idx + 1) part)) of
               (Some lo, Some hi) \<Rightarrow>
                 if lo < 100 \<or> 599 < hi \<or> hi < lo then Inl (InvalidRange part) else Inr [lo..hi]
             | _ \<Rightarrow> Inl (InvalidRange part))
          else (case Atoi part of Some c \<Rightarrow> if c < 100 \<or> 599 < c then Inl (InvalidCode part) else Inr [c]
                | None \<Rightarrow> Inl (InvalidCode part))
      | None \<Rightarrow> (case Atoi part of Some c \<Rightarrow> if c < 100 \<or> 599 < c then Inl (InvalidCode part) else Inr [c]
                | None \<Rightarrow> Inl (InvalidCode part)))"

fun expand_parts :: "string list \<Rightarrow> int list \<Rightarrow> codes_error + int list" where
  "expand_parts [] codes = Inr codes"
| "expand_parts (p # ps) codes =
     (let part = trim_space p in
      if part = [] then expand_parts ps codes
      else (case expand_part part of Inl e \<Rightarrow> Inl e | Inr cs \<Rightarrow> expand_parts ps (codes @ cs)))"

definition ParseExpectedCodes :: "string \<Rightarrow> codes_error + int list" where
  "ParseExpectedCodes s =
     (case expand_parts (split_on CHR '','' s) [] of
        Inl e \<Rightarrow> Inl e
      | Inr codes \<Rightarrow> if codes = [] then Inl EmptyCodes else Inr codes)"

section \<open>Tables\<close>

datatype probe_status = ProbeUp | ProbeDown

datatype uptime_state = UpUnknown | UpUp | UpDown

datatype check_error =
    BuildRequest string
  | Timeout
  | Transport string
  | InvalidCodes codes_error
  | ReadBody string
  | BodyMissing string

record uptime_check =
  uc_id :: nat
  uc_monitor :: nat
  uc_status :: probe_status
  uc_code :: "go_int option"
  uc_ms :: "go_int option"
  uc_error :: "check_error option"
  uc_at :: nanos

record uptime_monitor =
  um_id :: nat
  um_project :: string
  um_name :: string
  um_url :: string
  um_method :: string
  um_interval :: go_int
  um_timeout :: go_int
  um_codes :: string
  um_body :: "string option"
  um_status :: monitor_status
  um_state :: uptime_state
  um_failures :: nat
  um_last_checked :: "nanos option"
  um_last_ok :: "nanos option"
  um_next :: "nanos option"
  um_last_code :: "go_int option"
  um_last_ms :: "go_int option"
  um_last_error :: "check_error option"
  um_down_at :: "nanos option"
  um_recovered :: "nanos option"
  um_created :: nanos

record uptime_db =
  ud_monitors :: "uptime_monitor list"
  ud_checks :: "uptime_check list"
  ud_next :: nat

definition failureThreshold :: nat where "failureThreshold = 2"

definition CreateUptimeMonitor :: "nanos \<Rightarrow> uptime_monitor \<Rightarrow> uptime_db \<Rightarrow> uptime_monitor \<times> uptime_db" where
  "CreateUptimeMonitor now m db =
     (let row = \<lparr>um_id = ud_next db, um_project = um_project m, um_name = um_name m, um_url = um_url m,
            um_method = um_method m, um_interval = um_interval m, um_timeout = um_timeout m, um_codes = um_codes m,
            um_body = um_body m, um_status = Active, um_state = UpUnknown, um_failures = 0, um_last_checked = None,
            um_last_ok = None, um_next = None, um_last_code = None, um_last_ms = None, um_last_error = None,
            um_down_at = None, um_recovered = None, um_created = now\<rparr>
      in (row, db\<lparr>ud_monitors := ud_monitors db @ [row], ud_next := ud_next db + 1\<rparr>))"

definition on_monitor :: "nat \<Rightarrow> (uptime_monitor \<Rightarrow> uptime_monitor) \<Rightarrow> uptime_db \<Rightarrow> uptime_db" where
  "on_monitor i f db = db\<lparr>ud_monitors := map (\<lambda>m. if um_id m = i then f m else m) (ud_monitors db)\<rparr>"

definition UpdateUptimeMonitor :: "uptime_monitor \<Rightarrow> uptime_db \<Rightarrow> uptime_db" where
  "UpdateUptimeMonitor m db = on_monitor (um_id m)
     (\<lambda>x. x\<lparr>um_name := um_name m, um_url := um_url m, um_method := um_method m, um_interval := um_interval m,
            um_timeout := um_timeout m, um_codes := um_codes m, um_body := um_body m, um_status := um_status m\<rparr>) db"

definition DeleteUptimeMonitor :: "nat \<Rightarrow> uptime_db \<Rightarrow> uptime_db" where
  "DeleteUptimeMonitor i db = db\<lparr>ud_monitors := filter (\<lambda>m. um_id m \<noteq> i) (ud_monitors db),
     ud_checks := filter (\<lambda>c. uc_monitor c \<noteq> i) (ud_checks db)\<rparr>"

definition GetUptimeMonitor :: "nat \<Rightarrow> uptime_db \<Rightarrow> uptime_monitor option" where
  "GetUptimeMonitor i db = find (\<lambda>m. um_id m = i) (ud_monitors db)"

section \<open>Recording a check\<close>

text \<open>The two updates of a monitor, with the old row on the right of every assignment, as in SQL.\<close>

definition apply_up :: "uptime_check \<Rightarrow> uptime_monitor \<Rightarrow> uptime_monitor" where
  "apply_up c m = m\<lparr>um_state := UpUp, um_failures := 0, um_last_checked := Some (uc_at c),
     um_last_ok := Some (uc_at c), um_next := Some (uc_at c + seconds (um_interval m)),
     um_last_code := uc_code c, um_last_ms := uc_ms c, um_last_error := None,
     um_recovered := (if um_state m = UpDown then Some (uc_at c) else um_recovered m)\<rparr>"

definition apply_down :: "uptime_check \<Rightarrow> uptime_monitor \<Rightarrow> uptime_monitor" where
  "apply_down c m = m\<lparr>um_failures := um_failures m + 1,
     um_state := (if failureThreshold \<le> um_failures m + 1 then UpDown else um_state m),
     um_down_at := (if failureThreshold \<le> um_failures m + 1 \<and> um_state m \<noteq> UpDown then Some (uc_at c) else um_down_at m),
     um_last_checked := Some (uc_at c), um_next := Some (uc_at c + seconds (um_interval m)),
     um_last_code := uc_code c, um_last_ms := uc_ms c, um_last_error := uc_error c\<rparr>"

definition apply_check :: "uptime_check \<Rightarrow> uptime_monitor \<Rightarrow> uptime_monitor" where
  "apply_check c m = (if uc_status c = ProbeUp then apply_up c m else apply_down c m)"

text \<open>\<open>None\<close> when the insertion fails because the monitor is gone.\<close>

definition RecordUptimeCheck :: "nanos \<Rightarrow> nat \<Rightarrow> uptime_check \<Rightarrow> uptime_db \<Rightarrow> (uptime_check \<times> uptime_db) option" where
  "RecordUptimeCheck now i check db =
     (if GetUptimeMonitor i db = None then None
      else let row = check\<lparr>uc_id := ud_next db, uc_monitor := i, uc_at := now\<rparr>;
               db1 = db\<lparr>ud_checks := ud_checks db @ [row], ud_next := ud_next db + 1\<rparr>
           in Some (row, on_monitor i (apply_check row) db1))"

section \<open>Queries\<close>

definition chosen :: "string list \<Rightarrow> uptime_monitor \<Rightarrow> bool" where
  "chosen ps m \<longleftrightarrow> ps = [] \<or> um_project m \<in> set ps"

definition recent_checks :: "nat \<Rightarrow> uptime_db \<Rightarrow> uptime_check list" where
  "recent_checks i db = sort_key uc_at
     (take 20 (sort_key (\<lambda>c. - uc_at c) (filter (\<lambda>c. uc_monitor c = i) (ud_checks db))))"

definition ListUptimeMonitors :: "string list \<Rightarrow> uptime_db \<Rightarrow> (uptime_monitor \<times> uptime_check list) list" where
  "ListUptimeMonitors ps db = map (\<lambda>m. (m, recent_checks (um_id m) db))
     (sort_key (\<lambda>m. - um_created m) (filter (chosen ps) (ud_monitors db)))"

definition due :: "nanos \<Rightarrow> uptime_monitor \<Rightarrow> bool" where
  "due now m \<longleftrightarrow> um_status m = Active \<and> (case um_next m of None \<Rightarrow> True | Some t \<Rightarrow> t \<le> now)"

definition GetDueUptimeMonitors :: "nanos \<Rightarrow> uptime_db \<Rightarrow> uptime_monitor list" where
  "GetDueUptimeMonitors now db =
     sort_key (\<lambda>m. case um_next m of Some t \<Rightarrow> t | None \<Rightarrow> um_created m) (filter (due now) (ud_monitors db))"

definition ListUptimeChecks :: "nat \<Rightarrow> go_int \<Rightarrow> uptime_db \<Rightarrow> uptime_check list" where
  "ListUptimeChecks i lim db =
     (let lim = (if lim \<le> 0 \<or> 500 < lim then 100 else lim)
      in take (nat lim) (sort_key (\<lambda>c. - uc_at c) (filter (\<lambda>c. uc_monitor c = i) (ud_checks db))))"

definition opt_key :: "nanos option \<Rightarrow> nanos" where
  "opt_key t = (case t of None \<Rightarrow> 0 | Some x \<Rightarrow> x)"

definition ListDownUptimeMonitors :: "string list \<Rightarrow> uptime_db \<Rightarrow> uptime_monitor list" where
  "ListDownUptimeMonitors ps db = sort_key (\<lambda>m. - opt_key (um_last_checked m))
     (filter (\<lambda>m. um_status m = Active \<and> um_state m = UpDown \<and> chosen ps m) (ud_monitors db))"

definition recovered_since :: "nanos \<Rightarrow> uptime_monitor \<Rightarrow> bool" where
  "recovered_since since m \<longleftrightarrow> um_status m = Active \<and> um_state m = UpUp \<and> um_down_at m \<noteq> None
     \<and> (case um_recovered m of None \<Rightarrow> False | Some t \<Rightarrow> since < t)"

definition ListRecoveredUptimeMonitors :: "string list \<Rightarrow> nanos \<Rightarrow> uptime_db \<Rightarrow> uptime_monitor list" where
  "ListRecoveredUptimeMonitors ps since db = sort_key (\<lambda>m. - opt_key (um_last_ok m))
     (filter (\<lambda>m. recovered_since since m \<and> chosen ps m) (ud_monitors db))"

section \<open>The probe\<close>

text \<open>What becomes of the request; the body is what the client reads of it, at most 1 MB.\<close>

datatype http_outcome =
    BadRequest string
  | Failed_Do bool string
  | Response go_int "string + string"

definition probe :: "uptime_monitor \<Rightarrow> http_outcome \<Rightarrow> go_int \<Rightarrow> probe_status \<times> go_int option \<times> go_int option \<times> check_error option" where
  "probe m outcome responseMs =
     (case outcome of
        BadRequest e \<Rightarrow> (ProbeDown, None, None, Some (BuildRequest e))
      | Failed_Do deadline e \<Rightarrow>
          if deadline \<or> contains ''context deadline exceeded'' e
          then (ProbeDown, None, Some responseMs, Some Timeout)
          else (ProbeDown, None, Some responseMs, if e = [] then None else Some (Transport e))
      | Response statusCode body \<Rightarrow>
          (case ParseExpectedCodes (um_codes m) of
             Inl e \<Rightarrow> (ProbeDown, Some statusCode, Some responseMs, Some (InvalidCodes e))
           | Inr allowed \<Rightarrow>
               if statusCode \<notin> set allowed then (ProbeDown, Some statusCode, Some responseMs, None)
               else (case um_body m of
                   Some needle \<Rightarrow>
                     if um_method m = ''GET'' \<and> needle \<noteq> [] then
                       (case body of
                          Inl e \<Rightarrow> (ProbeDown, Some statusCode, Some responseMs, Some (ReadBody e))
                        | Inr text' \<Rightarrow>
                            if \<not> contains needle (take (2 ^ 20) text')
                            then (ProbeDown, Some statusCode, Some responseMs, Some (BodyMissing needle))
                            else (ProbeUp, Some statusCode, Some responseMs, None))
                     else (ProbeUp, Some statusCode, Some responseMs, None)
                 | None \<Rightarrow> (ProbeUp, Some statusCode, Some responseMs, None))))"

definition record_probe :: "nanos \<Rightarrow> uptime_monitor \<Rightarrow> http_outcome \<Rightarrow> go_int \<Rightarrow> uptime_db \<Rightarrow> uptime_db" where
  "record_probe now m outcome responseMs db =
     (let (st, code, ms, err) = probe m outcome responseMs in
      case RecordUptimeCheck now (um_id m)
             \<lparr>uc_id = 0, uc_monitor = 0, uc_status = st, uc_code = code, uc_ms = ms, uc_error = err, uc_at = 0\<rparr> db of
        None \<Rightarrow> db
      | Some (_, db') \<Rightarrow> db')"

section \<open>What the state means\<close>

text \<open>The state after a history of results, oldest first, as the interface explains it.\<close>

definition trailing_failures :: "uptime_check list \<Rightarrow> nat" where
  "trailing_failures cs = length (takeWhile (\<lambda>c. uc_status c = ProbeDown) (rev cs))"

definition state_after :: "uptime_check list \<Rightarrow> uptime_state" where
  "state_after cs =
     (if failureThreshold \<le> trailing_failures cs then UpDown
      else if \<exists>c \<in> set cs. uc_status c = ProbeUp then UpUp else UpUnknown)"

text \<open>When the monitor went down, and when it came back.\<close>

definition outages :: "uptime_check list \<Rightarrow> nanos list" where
  "outages cs = [uc_at (cs ! i). i \<leftarrow> [0..<length cs],
     state_after (take i cs) \<noteq> UpDown \<and> state_after (take (Suc i) cs) = UpDown]"

definition recoveries :: "uptime_check list \<Rightarrow> nanos list" where
  "recoveries cs = [uc_at (cs ! i). i \<leftarrow> [0..<length cs],
     state_after (take i cs) = UpDown \<and> state_after (take (Suc i) cs) = UpUp]"

definition last_opt :: "'a list \<Rightarrow> 'a option" where
  "last_opt xs = (if xs = [] then None else Some (last xs))"

lemma last_opt_snoc [simp]: "last_opt (xs @ [x]) = Some x" "last_opt [] = None"
  by (simp_all add: last_opt_def)

lemma trailing_snoc [simp]:
  "trailing_failures (cs @ [c]) = (if uc_status c = ProbeDown then Suc (trailing_failures cs) else 0)"
  by (simp add: trailing_failures_def)

lemma state_after_snoc:
  "state_after (cs @ [c]) =
     (if uc_status c = ProbeUp then UpUp
      else if failureThreshold \<le> Suc (trailing_failures cs) then UpDown else state_after cs)"
  by (cases "uc_status c") (auto simp: state_after_def failureThreshold_def)

lemma concat_snoc:
  "[f i. i \<leftarrow> [0..<length (cs @ [c])], P i] = [f i. i \<leftarrow> [0..<length cs], P i] @ (if P (length cs) then [f (length cs)] else [])"
  by simp

lemma list_comp_cong: "(\<And>i. i < n \<Longrightarrow> f i = g i) \<Longrightarrow> concat (map f [0..<n]) = concat (map g [0..<n])"
  by (rule arg_cong [of _ _ concat], rule map_cong) auto

lemma outages_snoc: "outages (cs @ [c]) = outages cs @
    (if state_after cs \<noteq> UpDown \<and> state_after (cs @ [c]) = UpDown then [uc_at c] else [])"
proof -
  have "[uc_at ((cs @ [c]) ! i). i \<leftarrow> [0..<length cs],
     state_after (take i (cs @ [c])) \<noteq> UpDown \<and> state_after (take (Suc i) (cs @ [c])) = UpDown] = outages cs"
    unfolding outages_def by (rule list_comp_cong) (simp add: nth_append)
  then show ?thesis by (simp add: outages_def [of "cs @ [c]"])
qed

lemma recoveries_snoc: "recoveries (cs @ [c]) = recoveries cs @
    (if state_after cs = UpDown \<and> state_after (cs @ [c]) = UpUp then [uc_at c] else [])"
proof -
  have "[uc_at ((cs @ [c]) ! i). i \<leftarrow> [0..<length cs],
     state_after (take i (cs @ [c])) = UpDown \<and> state_after (take (Suc i) (cs @ [c])) = UpUp] = recoveries cs"
    unfolding recoveries_def by (rule list_comp_cong) (simp add: nth_append)
  then show ?thesis by (simp add: recoveries_def [of "cs @ [c]"])
qed

text \<open>The columns that follow from the checks of a monitor.\<close>

definition reflects :: "uptime_check list \<Rightarrow> uptime_monitor \<Rightarrow> bool" where
  "reflects cs m \<longleftrightarrow> um_failures m = trailing_failures cs \<and> um_state m = state_after cs
     \<and> um_down_at m = last_opt (outages cs) \<and> um_recovered m = last_opt (recoveries cs)
     \<and> um_last_checked m = map_option uc_at (last_opt cs)"

lemma reflects_check: "reflects cs m \<Longrightarrow> reflects (cs @ [c]) (apply_check c m)"
proof (cases "uc_status c")
  case ProbeUp
  assume "reflects cs m"
  with ProbeUp show ?thesis
    by (auto simp: reflects_def apply_check_def apply_up_def state_after_snoc outages_snoc recoveries_snoc)
next
  case ProbeDown
  assume "reflects cs m"
  moreover have "failureThreshold \<le> trailing_failures cs \<longleftrightarrow> state_after cs = UpDown"
    by (simp add: state_after_def)
  ultimately show ?thesis using ProbeDown
    by (auto simp: reflects_def apply_check_def apply_down_def state_after_snoc outages_snoc recoveries_snoc failureThreshold_def)
qed

section \<open>Histories of the tables\<close>

datatype uptime_op =
    UOpCreate nanos uptime_monitor
  | UOpUpdate uptime_monitor
  | UOpDelete nat
  | UOpProbe nanos nat http_outcome go_int

fun uptime_step :: "uptime_db \<Rightarrow> uptime_op \<Rightarrow> uptime_db" where
  "uptime_step db (UOpCreate now m) = snd (CreateUptimeMonitor now m db)"
| "uptime_step db (UOpUpdate m) = UpdateUptimeMonitor m db"
| "uptime_step db (UOpDelete i) = DeleteUptimeMonitor i db"
| "uptime_step db (UOpProbe now i outcome ms) =
     (case GetUptimeMonitor i db of None \<Rightarrow> db | Some m \<Rightarrow> record_probe now m outcome ms db)"

definition empty_uptime :: uptime_db where
  "empty_uptime = \<lparr>ud_monitors = [], ud_checks = [], ud_next = 0\<rparr>"

definition history :: "nat \<Rightarrow> uptime_db \<Rightarrow> uptime_check list" where
  "history i db = filter (\<lambda>c. uc_monitor c = i) (ud_checks db)"

definition uptime_inv :: "uptime_db \<Rightarrow> bool" where
  "uptime_inv db \<longleftrightarrow> (\<forall>m \<in> set (ud_monitors db). reflects (history (um_id m) db) m \<and> um_id m < ud_next db)
     \<and> (\<forall>c \<in> set (ud_checks db). uc_monitor c < ud_next db)"

lemma reflects_new: "um_failures m = 0 \<Longrightarrow> um_state m = UpUnknown \<Longrightarrow> um_down_at m = None \<Longrightarrow> um_recovered m = None
    \<Longrightarrow> um_last_checked m = None \<Longrightarrow> reflects [] m"
  by (simp add: reflects_def trailing_failures_def state_after_def failureThreshold_def outages_def recoveries_def)

lemma create_uptime_inv: "uptime_inv db \<Longrightarrow> uptime_inv (snd (CreateUptimeMonitor now m db))"
proof -
  assume inv: "uptime_inv db"
  have "history (ud_next db) db = []"
    using inv by (auto simp: history_def uptime_inv_def filter_empty_conv)
  with inv show ?thesis
    by (auto simp: uptime_inv_def CreateUptimeMonitor_def Let_def history_def intro!: reflects_new less_SucI)
qed

lemma update_uptime_inv: "uptime_inv db \<Longrightarrow> uptime_inv (UpdateUptimeMonitor m db)"
  by (auto simp: uptime_inv_def UpdateUptimeMonitor_def on_monitor_def history_def reflects_def)

lemma delete_uptime_inv: "uptime_inv db \<Longrightarrow> uptime_inv (DeleteUptimeMonitor i db)"
proof -
  assume inv: "uptime_inv db"
  have "history j (DeleteUptimeMonitor i db) = history j db" if "j \<noteq> i" for j
    using that by (auto simp: history_def DeleteUptimeMonitor_def intro!: filter_cong)
  with inv show ?thesis by (auto simp: uptime_inv_def) (auto simp: DeleteUptimeMonitor_def)
qed

lemma apply_check_id [simp]: "um_id (apply_check c m) = um_id m"
  by (simp add: apply_check_def apply_up_def apply_down_def)

lemma record_uptime_inv:
  assumes inv: "uptime_inv db" and r: "RecordUptimeCheck now i check db = Some (row, db')"
  shows "uptime_inv db'"
proof -
  define db1 where "db1 = db\<lparr>ud_checks := ud_checks db @ [row], ud_next := ud_next db + 1\<rparr>"
  have row: "uc_monitor row = i" and db': "db' = on_monitor i (apply_check row) db1"
    using r by (auto simp: RecordUptimeCheck_def Let_def db1_def split: if_splits)
  have "\<exists>m \<in> set (ud_monitors db). um_id m = i"
    using r by (auto simp: RecordUptimeCheck_def GetUptimeMonitor_def find_None_iff split: if_splits)
  then have i: "i < ud_next db" using inv by (auto simp: uptime_inv_def)
  have h: "history j db' = history j db @ (if j = i then [row] else [])" for j
    by (simp add: history_def db' db1_def on_monitor_def row)
  have "reflects (history (um_id m) db') m \<and> um_id m < ud_next db'" if m: "m \<in> set (ud_monitors db')" for m
  proof -
    obtain m0 where m0: "m0 \<in> set (ud_monitors db)" "m = (if um_id m0 = i then apply_check row m0 else m0)"
      using m by (auto simp: db' on_monitor_def db1_def)
    then have "reflects (history (um_id m0) db) m0" "um_id m0 < ud_next db" using inv by (auto simp: uptime_inv_def)
    with m0 show ?thesis by (auto simp: h reflects_check) (simp_all add: db' db1_def on_monitor_def)
  qed
  moreover have "\<forall>c \<in> set (ud_checks db'). uc_monitor c < ud_next db'"
    using inv i row by (auto simp: db' db1_def on_monitor_def uptime_inv_def)
  ultimately show ?thesis by (simp add: uptime_inv_def)
qed

lemma uptime_step_inv: "uptime_inv db \<Longrightarrow> uptime_inv (uptime_step db op)"
  by (cases op) (auto simp: create_uptime_inv update_uptime_inv delete_uptime_inv record_probe_def
      dest: record_uptime_inv split: option.splits prod.splits)

interpretation uptime: machine uptime_step uptime_inv
  by unfold_locales (rule uptime_step_inv)

text \<open>
C22: Whatever monitors are created, edited, deleted and probed, the stored failure counter, state, outage
time and recovery time of a monitor are what its history of results says: down exactly when the last
two or more results failed, up when the last outage was followed by a success, with the time of the
last outage and of the last recovery.
\<close>

theorem uptime_state_correct:
  assumes "m \<in> set (ud_monitors (foldl uptime_step empty_uptime ops))"
  shows "let cs = history (um_id m) (foldl uptime_step empty_uptime ops) in
     um_failures m = trailing_failures cs \<and> um_state m = state_after cs
     \<and> um_down_at m = last_opt (outages cs) \<and> um_recovered m = last_opt (recoveries cs)"
proof -
  have "uptime_inv empty_uptime" by (simp add: uptime_inv_def empty_uptime_def)
  from uptime.run_inv [OF this, of ops] assms show ?thesis by (simp add: uptime_inv_def Let_def reflects_def)
qed

lemma outage_before_recovery: "recoveries cs \<noteq> [] \<or> state_after cs = UpDown \<Longrightarrow> outages cs \<noteq> []"
proof (induction cs rule: rev_induct)
  case Nil
  then show ?case by (simp add: recoveries_def state_after_def trailing_failures_def failureThreshold_def)
next
  case (snoc c cs)
  then show ?case by (auto simp: outages_snoc recoveries_snoc split: if_splits)
qed

text \<open>
The query behind the recovery alert selects an active monitor exactly when its history ends in the
up state and its last change from down to up lies after the given time.
\<close>

theorem recovery_alert_correct:
  assumes "m \<in> set (ud_monitors (foldl uptime_step empty_uptime ops))" "um_status m = Active"
  shows "let cs = history (um_id m) (foldl uptime_step empty_uptime ops) in
     recovered_since since m \<longleftrightarrow> state_after cs = UpUp \<and> recoveries cs \<noteq> [] \<and> since < last (recoveries cs)"
proof -
  have "uptime_inv empty_uptime" by (simp add: uptime_inv_def empty_uptime_def)
  from uptime.run_inv [OF this, of ops] assms(1)
  have "reflects (history (um_id m) (foldl uptime_step empty_uptime ops)) m" by (simp add: uptime_inv_def)
  with assms(2) outage_before_recovery show ?thesis
    by (auto simp: Let_def recovered_since_def reflects_def last_opt_def split: if_splits)
qed

section \<open>Reading expected codes\<close>

text \<open>The expressions the interface writes, and what they stand for.\<close>

datatype code_item = One nat | Range nat nat

fun render_item :: "code_item \<Rightarrow> string" where
  "render_item (One c) = decimal c"
| "render_item (Range lo hi) = decimal lo @ CHR ''-'' # decimal hi"

fun item_codes :: "code_item \<Rightarrow> int list" where
  "item_codes (One c) = [int c]"
| "item_codes (Range lo hi) = [int lo..int hi]"

fun item_ok :: "code_item \<Rightarrow> bool" where
  "item_ok (One c) \<longleftrightarrow> 100 \<le> c \<and> c \<le> 599"
| "item_ok (Range lo hi) \<longleftrightarrow> 100 \<le> lo \<and> lo \<le> hi \<and> hi \<le> 599"

lemma digit_not: "is_digit c \<Longrightarrow> c \<noteq> CHR ''-'' \<and> c \<noteq> CHR ''+'' \<and> c \<noteq> CHR '','' \<and> \<not> ascii_space c"
  by (auto simp: is_digit_def ascii_space_def)

lemma decimal_no: "x \<in> set (decimal n) \<Longrightarrow> is_digit x"
  using decimal_digits [of n] by (simp add: list_all_iff)

lemma Atoi_decimal: "n < 1000 \<Longrightarrow> Atoi (decimal n) = Some (int n)"
proof -
  assume n: "n < 1000"
  obtain c cs where d: "decimal n = c # cs" by (cases "decimal n") auto
  have "is_digit c" using decimal_no [of c n] d by simp
  then have "c \<noteq> CHR ''-''" "c \<noteq> CHR ''+''" using digit_not by auto
  moreover have "list_all is_digit (c # cs)" using decimal_digits [of n] d by simp
  moreover have "digits_value (c # cs) = n" using digits_value_decimal [of n] d by simp
  moreover have "is_int64 (int n)" using n by (simp add: is_int64_def)
  ultimately show ?thesis unfolding d by (simp add: Atoi_def Let_def)
qed

lemma index_byte_append_notin: "c \<notin> set xs \<Longrightarrow> index_byte (xs @ c # ys) c = Some (length xs)"
  by (induction xs) auto

lemma render_chars: "x \<in> set (render_item it) \<Longrightarrow> is_digit x \<or> x = CHR ''-''"
  by (cases it) (auto dest: decimal_no)

lemma render_nonempty: "render_item it \<noteq> []"
  by (cases it) simp_all

lemma dash_notin_decimal: "CHR ''-'' \<notin> set (decimal n)"
  using decimal_no digit_not by blast

lemma expand_render: "item_ok it \<Longrightarrow> expand_part (render_item it) = Inr (item_codes it)"
proof (cases it)
  case (One c)
  assume "item_ok it"
  with One have "100 \<le> c" "c < 1000" "c \<le> 599" by auto
  moreover have "index_byte (decimal c) CHR ''-'' = None" by (simp add: index_byte_None dash_notin_decimal)
  ultimately show ?thesis using One by (simp add: expand_part_def Atoi_decimal)
next
  case (Range lo hi)
  assume "item_ok it"
  with Range have r: "100 \<le> lo" "lo \<le> hi" "hi \<le> 599" "lo < 1000" "hi < 1000" by auto
  have "0 < length (decimal lo)" by simp
  with Range r show ?thesis
    by (simp add: expand_part_def index_byte_append_notin dash_notin_decimal Atoi_decimal)
qed

lemma trim_clean: "\<forall>c \<in> set s. \<not> ascii_space c \<Longrightarrow> trim_space s = s"
proof -
  have d: "dropWhile ascii_space xs = xs" if "\<forall>c \<in> set xs. \<not> ascii_space c" for xs using that by (cases xs) auto
  assume "\<forall>c \<in> set s. \<not> ascii_space c"
  then show ?thesis by (simp add: trim_space_def trim_left_def trim_right_def d)
qed

lemma expand_parts_render:
  "\<forall>it \<in> set its. item_ok it \<Longrightarrow> expand_parts (map render_item its) codes = Inr (codes @ concat (map item_codes its))"
proof (induction its arbitrary: codes)
  case (Cons it its)
  have "trim_space (render_item it) = render_item it"
    using render_chars digit_not by (intro trim_clean) (fastforce simp: ascii_space_def)
  with Cons show ?case by (simp add: expand_render render_nonempty)
qed simp

text \<open>
Every non-empty list of codes and ranges between 100 and 599, written with commas and dashes, is
read back by ParseExpectedCodes as the codes it lists, in order.
\<close>

theorem expected_codes_round_trip:
  assumes "its \<noteq> []" "\<forall>it \<in> set its. item_ok it"
  shows "ParseExpectedCodes (join_with [CHR '',''] (map render_item its)) = Inr (concat (map item_codes its))"
proof -
  have "\<forall>x \<in> set (map render_item its). CHR '','' \<notin> set x"
    using render_chars digit_not by fastforce
  then have "split_on CHR '','' (join_with [CHR '',''] (map render_item its)) = map render_item its"
    using assms(1) by (intro split_join) auto
  moreover have "concat (map item_codes its) \<noteq> []"
  proof -
    obtain it its' where i: "its = it # its'" using assms(1) by (cases its) auto
    then have "item_codes it \<noteq> []" using assms(2) by (cases it) auto
    then show ?thesis using i by simp
  qed
  ultimately show ?thesis using expand_parts_render [OF assms(2), of "[]"] by (simp add: ParseExpectedCodes_def)
qed

lemma expand_part_bounds: "expand_part p = Inr cs \<Longrightarrow> cs \<noteq> [] \<and> (\<forall>c \<in> set cs. 100 \<le> c \<and> c \<le> 599)"
  by (auto simp: expand_part_def split: option.splits if_splits)

lemma expand_parts_bounds:
  "expand_parts ps codes = Inr cs \<Longrightarrow> \<forall>c \<in> set codes. 100 \<le> c \<and> c \<le> 599 \<Longrightarrow> \<forall>c \<in> set cs. 100 \<le> c \<and> c \<le> 599"
proof (induction ps codes rule: expand_parts.induct)
  case (2 p ps codes)
  show ?case
  proof (cases "trim_space p = []")
    case True
    with 2 show ?thesis by simp
  next
    case False
    with 2(3) obtain xs where x: "expand_part (trim_space p) = Inr xs" "expand_parts ps (codes @ xs) = Inr cs"
      by (auto split: sum.splits)
    have "\<forall>c \<in> set (codes @ xs). 100 \<le> c \<and> c \<le> 599" using 2(4) expand_part_bounds [OF x(1)] by auto
    with 2(2) [OF refl False x(1) x(2)] show ?thesis by blast
  qed
qed simp

theorem expected_codes_bounds:
  assumes "ParseExpectedCodes s = Inr codes"
  shows "codes \<noteq> [] \<and> (\<forall>c \<in> set codes. 100 \<le> c \<and> c \<le> 599)"
  using assms expand_parts_bounds [of "split_on CHR '','' s" "[]" codes]
  by (auto simp: ParseExpectedCodes_def split: sum.splits if_splits)

section \<open>A concrete monitor\<close>

definition demo_site :: uptime_monitor where
  "demo_site = \<lparr>um_id = 0, um_project = ''p'', um_name = ''site'', um_url = ''https://x'', um_method = ''GET'', um_interval = 60,
     um_timeout = 5, um_codes = ''200-204, 301'', um_body = None, um_status = Active, um_state = UpUnknown, um_failures = 0,
     um_last_checked = None, um_last_ok = None, um_next = None, um_last_code = None, um_last_ms = None, um_last_error = None,
     um_down_at = None, um_recovered = None, um_created = 0\<rparr>"

definition demo_probes :: "uptime_op list" where
  "demo_probes = [UOpCreate 0 demo_site, UOpProbe 1 0 (Response 500 (Inr [])) 9, UOpProbe 2 0 (Failed_Do True []) 9,
     UOpProbe 3 0 (Response 301 (Inr [])) 9]"

lemma demo_site_monitor:
  "ud_monitors (foldl uptime_step empty_uptime demo_probes) \<noteq> []
   \<and> um_id (hd (ud_monitors (foldl uptime_step empty_uptime demo_probes))) = 0
   \<and> um_status (hd (ud_monitors (foldl uptime_step empty_uptime demo_probes))) = Active
   \<and> um_state (hd (ud_monitors (foldl uptime_step empty_uptime demo_probes))) = UpUp
   \<and> um_recovered (hd (ud_monitors (foldl uptime_step empty_uptime demo_probes))) = Some 3
   \<and> recovered_since 2 (hd (ud_monitors (foldl uptime_step empty_uptime demo_probes)))"
  by code_simp

theorem uptime_state_correct_witness:
  "state_after (history 0 (foldl uptime_step empty_uptime demo_probes)) = UpUp
   \<and> last_opt (recoveries (history 0 (foldl uptime_step empty_uptime demo_probes))) = Some 3"
proof -
  note d = demo_site_monitor
  from d have "hd (ud_monitors (foldl uptime_step empty_uptime demo_probes)) \<in> set (ud_monitors (foldl uptime_step empty_uptime demo_probes))"
    by (simp del: foldl_Cons)
  from uptime_state_correct [OF this] d show ?thesis by (simp add: Let_def)
qed

theorem recovery_alert_correct_witness:
  "recovered_since 2 (hd (ud_monitors (foldl uptime_step empty_uptime demo_probes)))
   \<and> 2 < last (recoveries (history 0 (foldl uptime_step empty_uptime demo_probes)))"
proof -
  note d = demo_site_monitor
  from d have "hd (ud_monitors (foldl uptime_step empty_uptime demo_probes)) \<in> set (ud_monitors (foldl uptime_step empty_uptime demo_probes))"
    by (simp del: foldl_Cons)
  from recovery_alert_correct [OF this, of 2] d show ?thesis by (simp add: Let_def)
qed

theorem expected_codes_round_trip_witness:
  "ParseExpectedCodes (join_with [CHR '',''] [decimal 200 @ CHR ''-'' # decimal 202, decimal 301]) = Inr [200, 201, 202, 301]"
  using expected_codes_round_trip [of "[Range 200 202, One 301]"] by (simp add: upto.simps)

theorem expected_codes_bounds_witness:
  "ParseExpectedCodes ''200, 404'' = Inr [200, 404] \<and> 100 \<le> (404::int) \<and> (404::int) \<le> 599"
proof -
  have p: "ParseExpectedCodes ''200, 404'' = Inr [200, 404]" by code_simp
  from expected_codes_bounds [OF p] p show ?thesis by simp
qed

end
