(* ===== verification/Runes.thy ===== *)
theory Runes
  imports Prelude
begin

text \<open>
  Strings as sequences of runes: what \<open>[]rune(s)\<close> and \<open>string(r[:n])\<close> do. A rune is kept as the bytes that
  encode it; a byte that starts no valid encoding counts as one rune, U+FFFD, and is written back as such. The
  truncations of titles and tags (issues/fingerprint.go, issues/implicit_tags.go, storage/issues.go) are built on it.
\<close>

definition byte_in :: "string \<Rightarrow> nat \<Rightarrow> nat \<Rightarrow> nat \<Rightarrow> bool" where
  "byte_in s i lo hi \<longleftrightarrow> i < length s \<and> lo \<le> (of_char (s ! i) :: nat) \<and> (of_char (s ! i) :: nat) \<le> hi"

text \<open>The length of an encoding by its first byte, and the range of its second (unicode/utf8); 0 for no first byte.\<close>

definition rune_class :: "nat \<Rightarrow> nat \<times> nat \<times> nat" where
  "rune_class x =
     (if x < 0x80 then (1, 0x80, 0xBF)
      else if x < 0xC2 then (0, 0x80, 0xBF)
      else if x \<le> 0xDF then (2, 0x80, 0xBF)
      else if x = 0xE0 then (3, 0xA0, 0xBF)
      else if x = 0xED then (3, 0x80, 0x9F)
      else if x \<le> 0xEF then (3, 0x80, 0xBF)
      else if x = 0xF0 then (4, 0x90, 0xBF)
      else if x \<le> 0xF3 then (4, 0x80, 0xBF)
      else if x = 0xF4 then (4, 0x80, 0x8F)
      else (0, 0x80, 0xBF))"

text \<open>The length of the encoding at the start of the string, 0 when there is none (utf8.DecodeRune).\<close>

definition rune_size :: "string \<Rightarrow> nat" where
  "rune_size s =
     (case s of
        [] \<Rightarrow> 0
      | b # _ \<Rightarrow> (case rune_class (of_char b) of (n, lo, hi) \<Rightarrow>
          if n \<le> 1 \<or> byte_in s 1 lo hi \<and> list_all (\<lambda>i. byte_in s i 0x80 0xBF) [2..<n] then n else 0))"

definition replacement :: string where "replacement = [CHR 0xEF, CHR 0xBF, CHR 0xBD]"
definition ellipsis :: string where "ellipsis = [CHR 0xE2, CHR 0x80, CHR 0xA6]"

function runes :: "string \<Rightarrow> string list" where
  "runes s =
     (if s = [] then []
      else if rune_size s = 0 then replacement # runes (tl s)
      else take (rune_size s) s # runes (drop (rune_size s) s))"
  by auto
termination
proof (relation "measure length")
  fix s :: string
  assume "s \<noteq> []" "rune_size s \<noteq> 0"
  then show "(drop (rune_size s) s, s) \<in> measure length" by simp
qed auto

declare runes.simps [simp del]

definition is_rune :: "string \<Rightarrow> bool" where
  "is_rune u \<longleftrightarrow> u \<noteq> [] \<and> rune_size u = length u"

lemma byte_in_append_iff: "i < length s \<Longrightarrow> byte_in (s @ t) i lo hi = byte_in s i lo hi"
  by (simp add: byte_in_def nth_append)

lemma byte_in_take: "i < n \<Longrightarrow> byte_in (take n s) i lo hi = byte_in s i lo hi"
  by (simp add: byte_in_def)

lemma rune_size_cases:
  assumes "rune_size s = n" "n \<noteq> 0"
  obtains b t lo hi where "s = b # t" "rune_class (of_char b) = (n, lo, hi)"
    "n \<le> 1 \<or> byte_in s 1 lo hi \<and> list_all (\<lambda>i. byte_in s i 0x80 0xBF) [2..<n]" "n \<le> length s"
proof -
  from assms obtain b t lo hi where s: "s = b # t" "rune_class (of_char b) = (n, lo, hi)"
    "n \<le> 1 \<or> byte_in s 1 lo hi \<and> list_all (\<lambda>i. byte_in s i 0x80 0xBF) [2..<n]"
    by (auto simp: rune_size_def split: list.splits prod.splits if_splits)
  have "n \<le> length s"
  proof (cases "n \<le> 2")
    case True
    with s show ?thesis by (cases t) (auto simp: byte_in_def)
  next
    case False
    then have "n - 1 \<in> set [2..<n]" by simp
    with s(3) False have "byte_in s (n - 1) 0x80 0xBF" unfolding list_all_iff by auto
    then show ?thesis by (auto simp: byte_in_def)
  qed
  with s that show ?thesis by blast
qed

lemma rune_size_length: "rune_size s \<le> length s"
proof (cases "rune_size s = 0")
  case False
  show ?thesis by (rule rune_size_cases [OF refl False])
qed simp

lemma rune_size_append:
  assumes "is_rune u"
  shows "rune_size (u @ t) = length u"
proof -
  have n: "rune_size u = length u" "length u \<noteq> 0" using assms by (auto simp: is_rune_def)
  from n obtain b r lo hi where u: "u = b # r" "rune_class (of_char b) = (length u, lo, hi)"
    "length u \<le> 1 \<or> byte_in u 1 lo hi \<and> list_all (\<lambda>i. byte_in u i 0x80 0xBF) [2..<length u]"
    by (rule rune_size_cases)
  have "length u \<le> 1 \<or> byte_in (u @ t) 1 lo hi \<and> list_all (\<lambda>i. byte_in (u @ t) i 0x80 0xBF) [2..<length u]"
    using u(3) by (auto simp: byte_in_append_iff list_all_iff not_le)
  with u(1,2) show ?thesis by (simp add: rune_size_def)
qed

lemma is_rune_take:
  assumes "rune_size s \<noteq> 0"
  shows "is_rune (take (rune_size s) s)"
proof -
  define n where "n = rune_size s"
  have n: "n \<noteq> 0" using assms by (simp add: n_def)
  obtain b r lo hi where s: "s = b # r" "rune_class (of_char b) = (n, lo, hi)"
    "n \<le> 1 \<or> byte_in s 1 lo hi \<and> list_all (\<lambda>i. byte_in s i 0x80 0xBF) [2..<n]" "n \<le> length s"
    by (rule rune_size_cases [OF n_def [symmetric] n]) blast
  have t: "take n s = b # take (n - 1) r" using s(1) n by (cases n) auto
  have "n \<le> 1 \<or> byte_in (take n s) 1 lo hi \<and> list_all (\<lambda>i. byte_in (take n s) i 0x80 0xBF) [2..<n]"
    using s(3) by (auto simp: byte_in_take list_all_iff)
  then have "rune_size (take n s) = n" using s(2) unfolding t by (simp add: rune_size_def)
  with n s(4) show ?thesis by (auto simp: is_rune_def simp flip: n_def)
qed

lemma is_rune_replacement: "is_rune replacement"
  by (simp add: is_rune_def rune_size_def replacement_def rune_class_def byte_in_def upt_rec)

lemma is_rune_ellipsis: "is_rune ellipsis"
  by (simp add: is_rune_def rune_size_def ellipsis_def rune_class_def byte_in_def upt_rec)

lemma runes_are_runes: "u \<in> set (runes s) \<Longrightarrow> is_rune u"
proof (induction s rule: runes.induct)
  case (1 s)
  then show ?case
    by (subst (asm) (3) runes.simps) (auto simp: is_rune_replacement is_rune_take split: if_splits)
qed

lemma runes_Nil [simp]: "runes [] = []"
  by (simp add: runes.simps)

lemma runes_append: "is_rune u \<Longrightarrow> runes (u @ t) = u # runes t"
  by (subst runes.simps) (use rune_size_append [of u t] in \<open>auto simp: is_rune_def\<close>)

lemma runes_concat: "\<forall>u \<in> set us. is_rune u \<Longrightarrow> runes (concat us) = us"
  by (induction us) (auto simp: runes_append)

lemma runes_take: "runes (concat (take n (runes s))) = take n (runes s)"
  using runes_are_runes by (intro runes_concat) (blast dest: in_set_takeD)

section \<open>Truncation\<close>

definition truncRunes :: "string \<Rightarrow> nat \<Rightarrow> string" where
  "truncRunes s m = (if length (runes s) \<le> m then s else concat (take (m - 1) (runes s)) @ ellipsis)"

definition truncate :: "string \<Rightarrow> nat \<Rightarrow> string" where
  "truncate s m = (if length (runes s) \<le> m then s else concat (take m (runes s)) @ ''...'')"

definition tagMaxLen :: nat where "tagMaxLen = 200"

definition truncateTag :: "string \<Rightarrow> string" where
  "truncateTag v = (if length (runes v) \<le> tagMaxLen then v else concat (take tagMaxLen (runes v)))"

lemma truncateTag_runes: "runes (truncateTag v) = take tagMaxLen (runes v)"
  by (simp add: truncateTag_def runes_take)

lemma truncateTag_idem: "truncateTag (truncateTag v) = truncateTag v"
proof -
  have "length (runes (truncateTag v)) \<le> tagMaxLen" by (simp add: truncateTag_runes)
  then show ?thesis by (subst truncateTag_def) simp
qed

lemma truncRunes_runes:
  assumes "0 < m"
  shows "runes (truncRunes s m) = (if length (runes s) \<le> m then runes s else take (m - 1) (runes s) @ [ellipsis])"
proof (cases "length (runes s) \<le> m")
  case False
  have "runes (concat (take (m - 1) (runes s) @ [ellipsis])) = take (m - 1) (runes s) @ [ellipsis]"
    using runes_are_runes is_rune_ellipsis by (intro runes_concat) (auto dest: in_set_takeD)
  with False show ?thesis by (simp add: truncRunes_def)
qed (simp add: truncRunes_def)

theorem titles_fit:
  assumes "0 < m"
  shows "length (runes (truncRunes s m)) \<le> m
    \<and> (if length (runes s) \<le> m then truncRunes s m = s
        else runes (truncRunes s m) = take (m - 1) (runes s) @ [ellipsis])"
proof (cases "length (runes s) \<le> m")
  case True
  then show ?thesis by (simp add: truncRunes_def)
next
  case False
  with assms truncRunes_runes [OF assms, of s] show ?thesis by simp
qed

theorem titles_fit_witness: "length (runes (truncRunes ''Error: disk full'' 5)) \<le> 5"
  using titles_fit [of 5 "''Error: disk full''"] by simp

end
