(* ===== verification/Payload.thy ===== *)
theory Payload
  imports Runes "HOL-Library.Sublist"
begin

text \<open>
  The decode of an event that grouping works on (issues/fingerprint.go): a JSON value is what encoding/json has parsed,
  each value with the text it was parsed from where the code looks at it; \<open>None\<close> is text that is not JSON, which
  includes an empty \<open>json.RawMessage\<close>. Objects keep their members in order, with duplicates, because a struct is
  decoded member by member, names are compared without regard to case, and a later member writes over an earlier one.
\<close>

section \<open>JSON values and the rules of encoding/json\<close>

datatype json =
    JNull
  | JBool bool
  | JNum (num_text: string)
  | JStr (str_text: string) (str_value: string)
  | JArr (arr_text: string) (arr_items: "json list")
  | JObj (obj_text: string) (obj_members: "(string \<times> json) list")

fun json_text :: "json \<Rightarrow> string" where
  "json_text JNull = ''null''"
| "json_text (JBool b) = (if b then ''true'' else ''false'')"
| "json_text (JNum t) = t"
| "json_text (JStr t v) = t"
| "json_text (JArr t xs) = t"
| "json_text (JObj t ms) = t"

text \<open>
  The folding of member names: ASCII letters, and the two letters outside ASCII that fold to one (the Kelvin sign and
  the long s). Other letters are left as they are, which no name of a field here is equal to.
\<close>

definition upper_ascii :: "char \<Rightarrow> char" where
  "upper_ascii c = (if 97 \<le> (of_char c :: nat) \<and> (of_char c :: nat) \<le> 122 then char_of ((of_char c :: nat) - 32) else c)"

fun fold_name :: "string \<Rightarrow> string" where
  "fold_name [] = []"
| "fold_name (c # cs) =
     (if take 1 cs = [CHR 0xBF] \<and> c = CHR 0xC5 then CHR 0x53 # fold_name (drop 1 cs)
      else if take 2 cs = [CHR 0x84, CHR 0xAA] \<and> c = CHR 0xE2 then CHR 0x4B # fold_name (drop 2 cs)
      else upper_ascii c # fold_name cs)"

definition same_name :: "string \<Rightarrow> string \<Rightarrow> bool" where
  "same_name name key \<longleftrightarrow> fold_name key = fold_name name"

text \<open>The values an object has for a field, in order.\<close>

definition members :: "string \<Rightarrow> (string \<times> json) list \<Rightarrow> json list" where
  "members name ms = map snd (filter (\<lambda>m. same_name name (fst m)) ms)"

text \<open>A \<open>json.RawMessage\<close> field: the last value, nothing when there is none.\<close>

definition raw_field :: "string \<Rightarrow> (string \<times> json) list \<Rightarrow> json option" where
  "raw_field name ms = (case members name ms of [] \<Rightarrow> None | vs \<Rightarrow> Some (last vs))"

section \<open>Tolerant field types\<close>

fun looseString :: "json \<Rightarrow> string" where
  "looseString JNull = []"
| "looseString (JStr t v) = v"
| "looseString j = json_text j"

definition loose_field :: "string \<Rightarrow> (string \<times> json) list \<Rightarrow> string" where
  "loose_field name ms = (case raw_field name ms of None \<Rightarrow> [] | Some j \<Rightarrow> looseString j)"

datatype optionalBool = Unset | SetTrue | SetFalse

definition optional_bool :: "json \<Rightarrow> optionalBool" where
  "optional_bool j =
     (if json_text j = ''true'' \<or> json_text j = CHR 34 # ''true'' @ [CHR 34] then SetTrue
      else if json_text j = ''false'' \<or> json_text j = CHR 34 # ''false'' @ [CHR 34] then SetFalse
      else Unset)"

record messageField =
  mf_formatted :: string
  mf_template :: string

text \<open>Any other value than a string, \<open>null\<close> or an object leaves the field as it was.\<close>

fun message_field :: "json \<Rightarrow> messageField \<Rightarrow> messageField" where
  "message_field JNull m = \<lparr>mf_formatted = [], mf_template = []\<rparr>"
| "message_field (JStr t v) m = \<lparr>mf_formatted = v, mf_template = v\<rparr>"
| "message_field (JObj t ms) m = \<lparr>mf_formatted = loose_field ''formatted'' ms, mf_template = loose_field ''message'' ms\<rparr>"
| "message_field _ m = m"

definition groupKey :: "messageField \<Rightarrow> string" where
  "groupKey m = (if mf_template m \<noteq> [] then mf_template m else mf_formatted m)"

definition display :: "messageField \<Rightarrow> string" where
  "display m = (if mf_formatted m \<noteq> [] then mf_formatted m else mf_template m)"

text \<open>Decoding a list item by item; items that do not fit are left out. A value that is no list has no items.\<close>

definition decodeEach :: "(json \<Rightarrow> 'a option) \<Rightarrow> json option \<Rightarrow> 'a list" where
  "decodeEach dec raw = (case raw of Some (JArr t items) \<Rightarrow> List.map_filter dec items | _ \<Rightarrow> [])"

text \<open>A struct: an object, or \<open>null\<close>, which leaves every field empty; any other value is an error.\<close>

fun struct_members :: "json \<Rightarrow> (string \<times> json) list option" where
  "struct_members (JObj t ms) = Some ms"
| "struct_members JNull = Some []"
| "struct_members _ = None"

record stackFrame =
  sf_function :: string
  sf_module :: string
  sf_in_app :: optionalBool

definition stack_frame :: "json \<Rightarrow> stackFrame option" where
  "stack_frame j = map_option (\<lambda>ms. \<lparr>sf_function = loose_field ''function'' ms, sf_module = loose_field ''module'' ms,
     sf_in_app = (case raw_field ''in_app'' ms of None \<Rightarrow> Unset | Some v \<Rightarrow> optional_bool v)\<rparr>) (struct_members j)"

text \<open>
  The pointer to a stacktrace is set by any value but \<open>null\<close>; its frames only by a value that is an object, which
  replaces those an earlier member had.
\<close>

fun stacktrace :: "json \<Rightarrow> stackFrame list option \<Rightarrow> stackFrame list option" where
  "stacktrace JNull old = None"
| "stacktrace (JObj t ms) old = Some (decodeEach stack_frame (raw_field ''frames'' ms))"
| "stacktrace _ old = Some (case old of None \<Rightarrow> [] | Some fs \<Rightarrow> fs)"

record exceptionValue =
  ex_type :: string
  ex_value :: string
  ex_stacktrace :: "stackFrame list option"
  ex_mechanism :: "json option"

definition exception_value :: "json \<Rightarrow> exceptionValue option" where
  "exception_value j = map_option (\<lambda>ms. \<lparr>ex_type = loose_field ''type'' ms, ex_value = loose_field ''value'' ms,
     ex_stacktrace = fold stacktrace (members ''stacktrace'' ms) None, ex_mechanism = raw_field ''mechanism'' ms\<rparr>) (struct_members j)"

section \<open>The payload\<close>

record eventPayload =
  ep_fingerprint :: "json option"
  ep_platform :: string
  ep_exception :: "json option"
  ep_message :: messageField
  ep_logentry :: messageField
  ep_transaction :: string
  ep_level :: string
  ep_environment :: string
  ep_release :: string
  ep_server_name :: string
  ep_tags :: "json option"
  ep_request :: "json option"
  ep_contexts :: "json option"

definition payload_of :: "(string \<times> json) list \<Rightarrow> eventPayload" where
  "payload_of ms =
     \<lparr>ep_fingerprint = raw_field ''fingerprint'' ms, ep_platform = loose_field ''platform'' ms,
      ep_exception = raw_field ''exception'' ms,
      ep_message = fold message_field (members ''message'' ms) \<lparr>mf_formatted = [], mf_template = []\<rparr>,
      ep_logentry = fold message_field (members ''logentry'' ms) \<lparr>mf_formatted = [], mf_template = []\<rparr>,
      ep_transaction = loose_field ''transaction'' ms, ep_level = loose_field ''level'' ms,
      ep_environment = loose_field ''environment'' ms, ep_release = loose_field ''release'' ms,
      ep_server_name = loose_field ''server_name'' ms, ep_tags = raw_field ''tags'' ms,
      ep_request = raw_field ''request'' ms, ep_contexts = raw_field ''contexts'' ms\<rparr>"

text \<open>The flag is false for text that is not JSON and for a value that is neither an object nor \<open>null\<close>.\<close>

definition decodeEvent :: "json option \<Rightarrow> eventPayload \<times> bool" where
  "decodeEvent raw =
     (case Option.bind raw struct_members of None \<Rightarrow> (payload_of [], False) | Some ms \<Rightarrow> (payload_of ms, True))"

definition fingerprintParts :: "eventPayload \<Rightarrow> string list" where
  "fingerprintParts p = (case ep_fingerprint p of Some (JArr t items) \<Rightarrow> map looseString items | _ \<Rightarrow> [])"

text \<open>Both forms of the exception list.\<close>

definition exceptions :: "eventPayload \<Rightarrow> exceptionValue list" where
  "exceptions p =
     (let wrapped = (case Option.bind (ep_exception p) struct_members of None \<Rightarrow> []
        | Some ms \<Rightarrow> decodeEach exception_value (raw_field ''values'' ms))
      in if wrapped \<noteq> [] then wrapped else decodeEach exception_value (ep_exception p))"

definition message :: "eventPayload \<Rightarrow> messageField" where
  "message p = (if groupKey (ep_message p) \<noteq> [] then ep_message p else ep_logentry p)"

section \<open>What does not matter\<close>

text \<open>A member a struct has no field for changes nothing.\<close>

lemma members_append: "members name (ms @ ns) = members name ms @ members name ns"
  by (simp add: members_def)

lemma members_other: "\<not> same_name name k \<Longrightarrow> members name (ms @ (k, v) # ns) = members name (ms @ ns)"
  by (simp add: members_def)

lemma raw_field_other: "\<not> same_name name k \<Longrightarrow> raw_field name (ms @ (k, v) # ns) = raw_field name (ms @ ns)"
  by (simp add: raw_field_def members_other)

lemma loose_field_other: "\<not> same_name name k \<Longrightarrow> loose_field name (ms @ (k, v) # ns) = loose_field name (ms @ ns)"
  by (simp add: loose_field_def raw_field_other)

lemmas field_other = members_other raw_field_other loose_field_other

lemma decodeEach_append: "decodeEach dec (Some (JArr t (xs @ ys))) = decodeEach dec (Some (JArr t xs)) @ decodeEach dec (Some (JArr t ys))"
  by (simp add: decodeEach_def List.map_filter_def)

lemma decodeEach_Cons: "decodeEach dec (Some (JArr t (x # xs))) = (case dec x of None \<Rightarrow> [] | Some y \<Rightarrow> [y]) @ decodeEach dec (Some (JArr t xs))"
  by (simp add: decodeEach_def List.map_filter_def split: option.split)

text \<open>The last decodable exception decides: items that do not decode may stand anywhere around it.\<close>

lemma decodeEach_junk: "dec x = None \<Longrightarrow> decodeEach dec (Some (JArr t (xs @ x # ys))) = decodeEach dec (Some (JArr t (xs @ ys)))"
  by (simp add: decodeEach_def List.map_filter_def)

end
