(* ===== verification/Issue_Store.thy ===== *)
theory Issue_Store
  imports Runes "HOL-Library.List_Lexorder" "HOL-Library.Char_ord"
begin

text \<open>
  The issues of a project (storage/issues.go), with the tables they hang together with: the fingerprints that route
  events to issues, the events, their tags, and the rows that belong to an issue (performance events, comments,
  history). The event writer's insert (ingest/buffer.go), the retention purge of events (retention/worker.go) and the
  merge request (api/issues.go) are included, because they keep the same counts and references. Every operation is one
  database transaction: a query that fails leaves the tables as they were, so a history with failures is the shorter
  history of what was committed. Columns the operations only copy are left out. \<open>now\<close> is the database's \<open>NOW()\<close>.
\<close>

section \<open>Tables\<close>

datatype issue_status = Open | Resolved | Ignored | Regressed

record issue =
  is_id :: nat
  is_project :: string
  is_fingerprint :: string
  is_title :: string
  is_level :: string
  is_kind :: string
  is_first_seen :: nanos
  is_last_seen :: nanos
  is_event_count :: int
  is_status :: issue_status
  is_assignee :: "string option"
  is_environment :: "string option"
  is_ignore_until :: "nanos option"
  is_ignore_limit :: "int option"
  is_ignore_count :: int
  is_first_release :: "string option"
  is_snooze_ended :: "nanos option"
  is_regressed_at :: "nanos option"
  is_regressed_release :: "string option"
  is_created :: nanos

text \<open>An event; from \<open>ev_title\<close> on the fields are what the queries read off its payload and its columns.\<close>

record event_row =
  ev_id :: nat
  ev_project :: string
  ev_event_id :: "string option"
  ev_timestamp :: nanos
  ev_received :: nanos
  ev_fingerprint :: "string option"
  ev_issue :: "nat option"
  ev_title :: string
  ev_level :: "string option"
  ev_release :: "string option"
  ev_environment :: "string option"

record fingerprint_row =
  fp_project :: string
  fp_fingerprint :: string
  fp_issue :: nat

record event_tag =
  et_event :: nat
  et_issue :: nat
  et_key :: string
  et_value :: string

text \<open>A row of \<open>perf_events\<close>, \<open>issue_comments\<close> or \<open>issue_history\<close>: its table, its id and its issue.\<close>

record owned_row =
  ow_table :: string
  ow_id :: nat
  ow_issue :: nat

record issue_db =
  db_issues :: "issue list"
  db_fps :: "fingerprint_row list"
  db_events :: "event_row list"
  db_tags :: "event_tag list"
  db_owned :: "owned_row list"
  db_next :: nat

section \<open>Finding and creating issues\<close>

definition null_if_empty :: "string \<Rightarrow> string option" where
  "null_if_empty s = (if s = [] then None else Some s)"

definition lookup_fp :: "string \<Rightarrow> string \<Rightarrow> issue_db \<Rightarrow> nat option" where
  "lookup_fp project fingerprint db =
     map_option fp_issue (find (\<lambda>r. fp_project r = project \<and> fp_fingerprint r = fingerprint) (db_fps db))"

definition GetIssueMetadata :: "nat \<Rightarrow> issue_db \<Rightarrow> issue option" where
  "GetIssueMetadata i db = find (\<lambda>s. is_id s = i) (db_issues db)"

definition update_issue :: "nat \<Rightarrow> (issue \<Rightarrow> issue) \<Rightarrow> issue_db \<Rightarrow> issue_db" where
  "update_issue i f db = db\<lparr>db_issues := map (\<lambda>s. if is_id s = i then f s else s) (db_issues db)\<rparr>"

text \<open>The two conditions that end an ignore, and all that bring an issue back.\<close>

definition ignore_over :: "nanos \<Rightarrow> issue \<Rightarrow> bool" where
  "ignore_over now s \<longleftrightarrow> is_status s = Ignored
     \<and> ((case is_ignore_until s of None \<Rightarrow> False | Some u \<Rightarrow> u < now)
        \<or> (case is_ignore_limit s of None \<Rightarrow> False | Some l \<Rightarrow> l \<le> is_ignore_count s + 1))"

definition comes_back :: "nanos \<Rightarrow> issue \<Rightarrow> bool" where
  "comes_back now s \<longleftrightarrow> is_status s = Resolved \<or> is_status s = Open \<and> is_snooze_ended s \<noteq> None \<or> ignore_over now s"

text \<open>The update of an existing issue by one more event.\<close>

definition touch_issue :: "nanos \<Rightarrow> nanos \<Rightarrow> string \<Rightarrow> string \<Rightarrow> string \<Rightarrow> issue \<Rightarrow> issue" where
  "touch_issue now ts level environment release s =
     s\<lparr>is_event_count := is_event_count s + 1,
       is_last_seen := max (is_last_seen s) ts,
       is_level := level,
       is_environment := (if environment = [] then is_environment s else Some environment),
       is_ignore_count := (if is_status s = Ignored \<and> is_ignore_limit s \<noteq> None then is_ignore_count s + 1 else is_ignore_count s),
       is_status := (if comes_back now s then Regressed else is_status s),
       is_ignore_until := (if ignore_over now s then None else is_ignore_until s),
       is_ignore_limit := (if ignore_over now s then None else is_ignore_limit s),
       is_regressed_at := (if comes_back now s then Some now else is_regressed_at s),
       is_regressed_release := (if comes_back now s then null_if_empty release else is_regressed_release s),
       is_snooze_ended := None\<rparr>"

definition was_regressed :: "issue \<Rightarrow> issue \<Rightarrow> bool" where
  "was_regressed prev s \<longleftrightarrow> is_status s = Regressed
     \<and> (is_status prev = Resolved \<or> is_status prev = Ignored \<or> is_status prev = Open \<and> is_snooze_ended prev \<noteq> None)"

definition new_issue :: "nat \<Rightarrow> string \<Rightarrow> string \<Rightarrow> string \<Rightarrow> string \<Rightarrow> string \<Rightarrow> string option \<Rightarrow> string option \<Rightarrow> nanos \<Rightarrow> nanos \<Rightarrow> int \<Rightarrow> nanos \<Rightarrow> issue" where
  "new_issue i project fingerprint title level kind environment release firstSeen lastSeen count created =
     \<lparr>is_id = i, is_project = project, is_fingerprint = fingerprint, is_title = title, is_level = level, is_kind = kind,
      is_first_seen = firstSeen, is_last_seen = lastSeen, is_event_count = count, is_status = Open, is_assignee = None,
      is_environment = environment, is_ignore_until = None, is_ignore_limit = None, is_ignore_count = 0,
      is_first_release = release, is_snooze_ended = None, is_regressed_at = None, is_regressed_release = None,
      is_created = created\<rparr>"

text \<open>
  \<open>seen\<close> is the database as the lookup saw it: without a surrounding transaction another writer may commit between
  the lookup and the insert, which then conflicts. \<open>UpsertFailed\<close>: the issue is gone when it is to be updated.
\<close>

datatype upsert_result = FingerprintConflict | UpsertFailed | Upserted issue bool bool issue_db

definition upsertIssueOnce :: "nanos \<Rightarrow> issue_db \<Rightarrow> string \<Rightarrow> string \<Rightarrow> string \<Rightarrow> string \<Rightarrow> string \<Rightarrow> string \<Rightarrow> string \<Rightarrow> nanos
    \<Rightarrow> issue_db \<Rightarrow> upsert_result" where
  "upsertIssueOnce now seen project fingerprint title level kind environment release ts db =
     (case lookup_fp project fingerprint seen of
        Some i \<Rightarrow> (case GetIssueMetadata i db of
            None \<Rightarrow> UpsertFailed
          | Some prev \<Rightarrow>
              let s = touch_issue now ts level environment release prev in
              Upserted s False (was_regressed prev s) (update_issue i (touch_issue now ts level environment release) db))
      | None \<Rightarrow>
          if lookup_fp project fingerprint db \<noteq> None then FingerprintConflict
          else
            let s = new_issue (db_next db) project fingerprint title level kind (null_if_empty environment)
                      (null_if_empty release) ts ts 1 now
            in Upserted s True False (db\<lparr>db_issues := db_issues db @ [s],
                 db_fps := db_fps db @ [\<lparr>fp_project = project, fp_fingerprint = fingerprint, fp_issue = is_id s\<rparr>],
                 db_next := Suc (db_next db)\<rparr>))"

text \<open>One retry after a conflict, with a second lookup.\<close>

definition upsertIssue :: "nanos \<Rightarrow> issue_db \<Rightarrow> issue_db \<Rightarrow> string \<Rightarrow> string \<Rightarrow> string \<Rightarrow> string \<Rightarrow> string \<Rightarrow> string \<Rightarrow> string \<Rightarrow> nanos
    \<Rightarrow> issue_db \<Rightarrow> upsert_result" where
  "upsertIssue now seen1 seen2 project fingerprint title level kind environment release ts db =
     (case upsertIssueOnce now seen1 project fingerprint title level kind environment release ts db of
        FingerprintConflict \<Rightarrow> upsertIssueOnce now seen2 project fingerprint title level kind environment release ts db
      | r \<Rightarrow> r)"

definition UpsertIssue :: "nanos \<Rightarrow> issue_db \<Rightarrow> issue_db \<Rightarrow> string \<Rightarrow> string \<Rightarrow> string \<Rightarrow> string \<Rightarrow> string \<Rightarrow> string \<Rightarrow> string \<Rightarrow> nanos
    \<Rightarrow> issue_db \<Rightarrow> upsert_result" where
  "UpsertIssue = upsertIssue"

section \<open>Events\<close>

text \<open>The event writer's insert of one row, skipped when the project has the SDK's event id already.\<close>

definition insert_event :: "event_row \<Rightarrow> issue_db \<Rightarrow> issue_db" where
  "insert_event e db =
     (if ev_event_id e \<noteq> None \<and> (\<exists>d \<in> set (db_events db). ev_project d = ev_project e \<and> ev_event_id d = ev_event_id e) then db
      else db\<lparr>db_events := db_events db @ [e\<lparr>ev_id := db_next db, ev_fingerprint := None, ev_issue := None\<rparr>],
              db_next := Suc (db_next db)\<rparr>)"

definition link_event :: "nat \<Rightarrow> string \<Rightarrow> nat \<Rightarrow> issue_db \<Rightarrow> issue_db" where
  "link_event e fingerprint i db =
     db\<lparr>db_events := map (\<lambda>r. if ev_id r = e then r\<lparr>ev_fingerprint := Some fingerprint, ev_issue := Some i\<rparr> else r) (db_events db)\<rparr>"

definition route_fp :: "string \<Rightarrow> string \<Rightarrow> string \<Rightarrow> issue_db \<Rightarrow> string" where
  "route_fp project fingerprint legacy db =
     (if legacy \<noteq> [] \<and> legacy \<noteq> fingerprint \<and> lookup_fp project legacy db \<noteq> None then legacy else fingerprint)"

text \<open>The result has no issue when the event is gone or already grouped, and when the upsert failed.\<close>

definition GroupEvent :: "nanos \<Rightarrow> nat \<Rightarrow> string \<Rightarrow> string \<Rightarrow> string \<Rightarrow> string \<Rightarrow> string \<Rightarrow> string \<Rightarrow> issue_db
    \<Rightarrow> (issue \<times> bool \<times> bool) option \<times> issue_db" where
  "GroupEvent now eventID fingerprint legacy title level environment release db =
     (case find (\<lambda>e. ev_id e = eventID) (db_events db) of
        None \<Rightarrow> (None, db)
      | Some e \<Rightarrow>
          if ev_issue e \<noteq> None then (None, db)
          else
            let fp = route_fp (ev_project e) fingerprint legacy db in
            (case upsertIssue now db db (ev_project e) fp title level ''error'' environment release (ev_timestamp e) db of
               Upserted s created regressed db' \<Rightarrow> (Some (s, created, regressed), link_event eventID fp (is_id s) db')
             | _ \<Rightarrow> (None, db)))"

text \<open>The tags of an event, inserted one by one; both references must exist, and the first value of a key stays.\<close>

fun insert_tags :: "nat \<Rightarrow> nat \<Rightarrow> (string \<times> string) list \<Rightarrow> event_tag list \<Rightarrow> event_tag list" where
  "insert_tags e i [] tags = tags"
| "insert_tags e i ((k, v) # kvs) tags =
     insert_tags e i kvs (if \<exists>t \<in> set tags. et_event t = e \<and> et_key t = k then tags
       else tags @ [\<lparr>et_event = e, et_issue = i, et_key = k, et_value = v\<rparr>])"

definition InsertEventTags :: "nat \<Rightarrow> nat \<Rightarrow> (string \<times> string) list \<Rightarrow> issue_db \<Rightarrow> issue_db option" where
  "InsertEventTags e i tags db =
     (if tags = [] then Some db
      else if find (\<lambda>r. ev_id r = e) (db_events db) = None \<or> GetIssueMetadata i db = None then None
      else Some (db\<lparr>db_tags := insert_tags e i tags (db_tags db)\<rparr>))"

text \<open>A row of one of the tables that belong to an issue: a comment, a history entry, a performance event.\<close>

definition insert_owned :: "string \<Rightarrow> nat \<Rightarrow> issue_db \<Rightarrow> issue_db option" where
  "insert_owned table i db =
     (if GetIssueMetadata i db = None then None
      else Some (db\<lparr>db_owned := db_owned db @ [\<lparr>ow_table = table, ow_id = db_next db, ow_issue = i\<rparr>], db_next := Suc (db_next db)\<rparr>))"

definition InsertIssueHistory :: "nat \<Rightarrow> issue_db \<Rightarrow> issue_db option" where
  "InsertIssueHistory = insert_owned ''issue_history''"

definition InsertPerfEvent :: "nat \<Rightarrow> issue_db \<Rightarrow> issue_db option" where
  "InsertPerfEvent = insert_owned ''perf_events''"

section \<open>Merge and unmerge\<close>

definition moved :: "nat list \<Rightarrow> nat \<Rightarrow> nat \<Rightarrow> nat" where
  "moved merged primary i = (if i \<in> set merged then primary else i)"

text \<open>The reassignments, in the order of the code: fingerprints, events, tags and owned rows.\<close>

definition reassign :: "nat list \<Rightarrow> nat \<Rightarrow> issue_db \<Rightarrow> issue_db" where
  "reassign merged primary db =
     db\<lparr>db_fps := map (\<lambda>r. r\<lparr>fp_issue := moved merged primary (fp_issue r)\<rparr>) (db_fps db),
       db_events := map (\<lambda>e. e\<lparr>ev_issue := map_option (moved merged primary) (ev_issue e)\<rparr>) (db_events db),
       db_tags := map (\<lambda>t. t\<lparr>et_issue := moved merged primary (et_issue t)\<rparr>) (db_tags db),
       db_owned := map (\<lambda>r. r\<lparr>ow_issue := moved merged primary (ow_issue r)\<rparr>) (db_owned db)\<rparr>"

definition absorb :: "issue list \<Rightarrow> issue \<Rightarrow> issue" where
  "absorb gone s =
     s\<lparr>is_event_count := is_event_count s + (\<Sum>g\<leftarrow>gone. is_event_count g),
       is_first_seen := foldl min (is_first_seen s) (map is_first_seen gone),
       is_last_seen := foldl max (is_last_seen s) (map is_last_seen gone)\<rparr>"

text \<open>
  Deleting issues deletes their fingerprints, tags and owned rows and unlinks their events, by the references'
  \<open>ON DELETE\<close> clauses.
\<close>

definition delete_issues :: "(issue \<Rightarrow> bool) \<Rightarrow> issue_db \<Rightarrow> issue_db" where
  "delete_issues doomed db =
     (let ids = map is_id (filter doomed (db_issues db)) in
      db\<lparr>db_issues := filter (\<lambda>s. \<not> doomed s) (db_issues db),
        db_fps := filter (\<lambda>r. fp_issue r \<notin> set ids) (db_fps db),
        db_events := map (\<lambda>e. case ev_issue e of None \<Rightarrow> e | Some i \<Rightarrow> if i \<in> set ids then e\<lparr>ev_issue := None\<rparr> else e) (db_events db),
        db_tags := filter (\<lambda>t. et_issue t \<notin> set ids) (db_tags db),
        db_owned := filter (\<lambda>r. ow_issue r \<notin> set ids) (db_owned db)\<rparr>)"

text \<open>
  \<open>None\<close> is an error, after which everything is rolled back: without a merged issue the sum is \<open>NULL\<close>, which the
  count column refuses, and the primary must still be there at the end.
\<close>

definition MergeIssues :: "nat \<Rightarrow> nat list \<Rightarrow> issue_db \<Rightarrow> (issue option \<times> issue_db) option" where
  "MergeIssues primary merged db =
     (if merged = [] then Some (GetIssueMetadata primary db, db)
      else
        let gone = filter (\<lambda>s. is_id s \<in> set merged) (db_issues db);
            db1 = reassign merged primary db;
            db2 = update_issue primary (absorb gone) db1;
            db3 = delete_issues (\<lambda>s. is_id s \<in> set merged) db2
        in if GetIssueMetadata primary db \<noteq> None \<and> gone = [] then None
           else (case GetIssueMetadata primary db3 of None \<Rightarrow> None | Some s \<Rightarrow> Some (Some s, db3)))"

fun uniqueStrings :: "nat list \<Rightarrow> nat list \<Rightarrow> nat list" where
  "uniqueStrings seen [] = []"
| "uniqueStrings seen (i # is) = (if i \<in> set seen then uniqueStrings seen is else i # uniqueStrings (i # seen) is)"

definition maxIssueIDsPerRequest :: nat where "maxIssueIDsPerRequest = 1000"

datatype merge_response = BadRequest | NotFound nat | MergeError | Merged "issue option"

definition handleMergeIssues :: "string \<Rightarrow> nat list \<Rightarrow> issue_db \<Rightarrow> merge_response \<times> issue_db" where
  "handleMergeIssues project issueIDs db =
     (let ids = uniqueStrings [] issueIDs in
      if length ids < 2 \<or> maxIssueIDsPerRequest < length ids then (BadRequest, db)
      else case find (\<lambda>i. case GetIssueMetadata i db of None \<Rightarrow> True | Some s \<Rightarrow> is_project s \<noteq> project) ids of
        Some i \<Rightarrow> (NotFound i, db)
      | None \<Rightarrow> (case MergeIssues (hd ids) (tl ids) db of
          None \<Rightarrow> (MergeError, db)
        | Some (s, db') \<Rightarrow> (Merged s, db')))"

text \<open>The first of the rows with the greatest key.\<close>

definition latest :: "('a \<Rightarrow> nanos) \<Rightarrow> 'a \<Rightarrow> 'a list \<Rightarrow> 'a" where
  "latest key x xs = foldl (\<lambda>b y. if key b < key y then y else b) x xs"

definition truncRunesStorage :: "string \<Rightarrow> nat \<Rightarrow> string" where
  "truncRunesStorage s m = (if length (runes s) \<le> m then s else concat (take (m - 1) (runes s)) @ ellipsis)"

text \<open>One fingerprint split off: the new issue, derived from its events, and the rows that move with it.\<close>

definition split_issue :: "nanos \<Rightarrow> issue \<Rightarrow> string \<Rightarrow> issue_db \<Rightarrow> issue" where
  "split_issue now src fp db =
     (case filter (\<lambda>e. ev_issue e = Some (is_id src) \<and> ev_fingerprint e = Some fp) (db_events db) of
        [] \<Rightarrow> new_issue (db_next db) (is_project src) fp (truncRunesStorage ''Unknown error'' 200) ''error'' (is_kind src)
                (is_environment src) None now now 0 now
      | e # es \<Rightarrow>
          let l = latest ev_received e es;
              f = latest (\<lambda>d. - ev_timestamp d) e es
          in new_issue (db_next db) (is_project src) fp (truncRunesStorage (ev_title l) 200)
               (case ev_level l of None \<Rightarrow> ''error'' | Some v \<Rightarrow> v) (is_kind src) (is_environment src) (ev_release f)
               (ev_timestamp f) (ev_timestamp (latest ev_timestamp e es)) (int (Suc (length es))) now)"

definition split_off :: "nanos \<Rightarrow> issue \<Rightarrow> string \<Rightarrow> issue_db \<Rightarrow> issue_db" where
  "split_off now src fp db =
     (let s = split_issue now src fp db;
          mine = map ev_id (filter (\<lambda>e. ev_issue e = Some (is_id src) \<and> ev_fingerprint e = Some fp) (db_events db))
      in db\<lparr>db_issues := db_issues db @ [s],
          db_fps := map (\<lambda>r. if fp_issue r = is_id src \<and> fp_fingerprint r = fp then r\<lparr>fp_issue := is_id s\<rparr> else r) (db_fps db),
          db_events := map (\<lambda>e. if ev_issue e = Some (is_id src) \<and> ev_fingerprint e = Some fp
             then e\<lparr>ev_issue := Some (is_id s)\<rparr> else e) (db_events db),
          db_tags := map (\<lambda>t. if et_issue t = is_id src \<and> et_event t \<in> set mine then t\<lparr>et_issue := is_id s\<rparr> else t) (db_tags db),
          db_next := Suc (db_next db)\<rparr>)"

fun split_all :: "nanos \<Rightarrow> issue \<Rightarrow> string list \<Rightarrow> int \<Rightarrow> issue_db \<Rightarrow> int \<times> issue_db" where
  "split_all now src [] tot db = (tot, db)"
| "split_all now src (fp # fps) tot db =
     split_all now src fps (tot + is_event_count (split_issue now src fp db)) (split_off now src fp db)"

text \<open>What stays on the original issue.\<close>

definition remaining :: "int \<Rightarrow> event_row list \<Rightarrow> issue \<Rightarrow> issue" where
  "remaining tot evs s =
     (let mine = filter (\<lambda>e. ev_issue e = Some (is_id s)) evs in
      s\<lparr>is_event_count := max (is_event_count s - tot) 0,
        is_first_seen := (case map ev_timestamp mine of [] \<Rightarrow> is_first_seen s | t # ts \<Rightarrow> foldl min t ts),
        is_last_seen := (case map ev_timestamp mine of [] \<Rightarrow> is_last_seen s | t # ts \<Rightarrow> foldl max t ts)\<rparr>)"

datatype unmerge_result = NothingToDo | UnknownFingerprint | UnmergeAll | UnmergeFailed | Unmerged issue_db

definition UnmergeFingerprints :: "nanos \<Rightarrow> nat \<Rightarrow> string list \<Rightarrow> issue_db \<Rightarrow> unmerge_result" where
  "UnmergeFingerprints now i fingerprints db =
     (let fps = sort (remdups fingerprints);
          mine = filter (\<lambda>r. fp_issue r = i) (db_fps db);
          matched = filter (\<lambda>r. fp_fingerprint r \<in> set fps) mine
      in if fps = [] then NothingToDo
         else if length matched \<noteq> length fps then UnknownFingerprint
         else if length mine \<le> length fps then UnmergeAll
         else (case GetIssueMetadata i db of
             None \<Rightarrow> UnmergeFailed
           | Some src \<Rightarrow> (case split_all now src fps 0 db of
               (tot, db') \<Rightarrow> Unmerged (update_issue i (remaining tot (db_events db')) db'))))"

section \<open>Status\<close>

text \<open>The status a request may set; \<open>options\<close> are the limits of an ignore, an instant and a number of events.\<close>

definition valid_status :: "issue_status \<Rightarrow> bool" where
  "valid_status status \<longleftrightarrow> status \<noteq> Regressed"

definition set_status :: "issue_status \<Rightarrow> (nanos option \<times> int option) option \<Rightarrow> issue \<Rightarrow> issue" where
  "set_status status options s =
     (let (until, limit) = (if status = Ignored then (case options of None \<Rightarrow> (None, None) | Some o' \<Rightarrow> o') else (None, None))
      in s\<lparr>is_status := status, is_ignore_until := until, is_ignore_limit := limit, is_ignore_count := 0, is_snooze_ended := None\<rparr>)"

text \<open>The result is \<open>None\<close> for an invalid status, and no issue when none matches.\<close>

definition UpdateIssueStatus :: "string \<Rightarrow> nat \<Rightarrow> issue_status \<Rightarrow> (nanos option \<times> int option) option \<Rightarrow> issue_db
    \<Rightarrow> (issue option \<times> issue_db) option" where
  "UpdateIssueStatus project i status options db =
     (if \<not> valid_status status then None
      else case find (\<lambda>s. is_id s = i \<and> is_project s = project) (db_issues db) of
        None \<Rightarrow> Some (None, db)
      | Some s \<Rightarrow> Some (Some (set_status status options s), update_issue i (set_status status options) db))"

definition update_where :: "(issue \<Rightarrow> bool) \<Rightarrow> (issue \<Rightarrow> issue) \<Rightarrow> issue_db \<Rightarrow> issue list \<times> issue_db" where
  "update_where P f db =
     (map f (filter P (db_issues db)), db\<lparr>db_issues := map (\<lambda>s. if P s then f s else s) (db_issues db)\<rparr>)"

definition BulkUpdateIssueStatus :: "nat list \<Rightarrow> issue_status \<Rightarrow> (nanos option \<times> int option) option \<Rightarrow> string list option
    \<Rightarrow> issue_db \<Rightarrow> (nat list \<times> issue_db) option" where
  "BulkUpdateIssueStatus ids status options projectIDs db =
     (if \<not> valid_status status then None
      else case update_where (\<lambda>s. is_id s \<in> set ids \<and> (case projectIDs of None \<Rightarrow> True | Some ps \<Rightarrow> is_project s \<in> set ps))
             (set_status status options) db of
        (updated, db') \<Rightarrow> Some (map is_id updated, db'))"

definition AutoResolvePerformanceIssues :: "nanos \<Rightarrow> nanos \<Rightarrow> issue_db \<Rightarrow> issue list \<times> issue_db" where
  "AutoResolvePerformanceIssues now olderThan db =
     update_where (\<lambda>s. is_kind s \<noteq> ''error'' \<and> (is_status s = Open \<or> is_status s = Regressed) \<and> is_last_seen s < now - olderThan)
       (\<lambda>s. s\<lparr>is_status := Resolved, is_snooze_ended := None\<rparr>) db"

definition ExpireIgnoredIssues :: "nanos \<Rightarrow> issue_db \<Rightarrow> nat \<times> issue_db" where
  "ExpireIgnoredIssues now db =
     (case update_where (\<lambda>s. is_status s = Ignored \<and> (case is_ignore_until s of None \<Rightarrow> False | Some u \<Rightarrow> u < now))
        (\<lambda>s. s\<lparr>is_status := Open, is_snooze_ended := Some now, is_ignore_until := None, is_ignore_limit := None, is_ignore_count := 0\<rparr>) db of
      (updated, db') \<Rightarrow> (length updated, db'))"

definition UpdateIssueAssignee :: "nat \<Rightarrow> string option \<Rightarrow> issue_db \<Rightarrow> issue option \<times> issue_db" where
  "UpdateIssueAssignee i assignee db =
     (case GetIssueMetadata i db of
        None \<Rightarrow> (None, db)
      | Some s \<Rightarrow> (Some (s\<lparr>is_assignee := assignee\<rparr>), update_issue i (\<lambda>s. s\<lparr>is_assignee := assignee\<rparr>) db))"

section \<open>Retention\<close>

definition linked :: "nat \<Rightarrow> event_row list \<Rightarrow> nat" where
  "linked i evs = length (filter (\<lambda>e. ev_issue e = Some i) evs)"

text \<open>The oldest expired events, at most \<open>batch\<close> of them.\<close>

definition expired_events :: "nanos \<Rightarrow> nat \<Rightarrow> issue_db \<Rightarrow> event_row list" where
  "expired_events cutoff batch db =
     take batch (sort_key (\<lambda>e. ev_received e) (sort_key ev_id (filter (\<lambda>e. ev_received e < cutoff) (db_events db))))"

definition purgeEventBatch :: "nanos \<Rightarrow> nat \<Rightarrow> issue_db \<Rightarrow> nat \<times> nat \<times> issue_db" where
  "purgeEventBatch cutoff batch db =
     (let doomed = expired_events cutoff batch db;
          ids = set (map ev_id doomed);
          evs = filter (\<lambda>e. ev_id e \<notin> ids) (db_events db);
          db1 = db\<lparr>db_events := evs, db_tags := filter (\<lambda>t. et_event t \<notin> ids) (db_tags db)\<rparr>;
          db2 = db1\<lparr>db_issues := map (\<lambda>s.
             if 0 < linked (is_id s) doomed
             then s\<lparr>is_event_count := (if 0 < linked (is_id s) evs then max (is_event_count s - int (linked (is_id s) doomed)) 0 else 0)\<rparr>
             else s) (db_issues db1)\<rparr>;
          empty = (\<lambda>s. 0 < linked (is_id s) doomed \<and> (is_status s = Resolved \<or> is_status s = Ignored) \<and> linked (is_id s) evs = 0)
      in (length doomed, length (filter empty (db_issues db2)), delete_issues empty db2))"

end
