(* ===== verification/Issue_Inv.thy ===== *)
theory Issue_Inv
  imports Issue_Store
begin

text \<open>
  What holds of the issue tables after any history of their writers (storage/issues.go and the writers around it), and
  what grouping, ignoring, merging, splitting and purging do to the events.
\<close>

section \<open>Histories\<close>

text \<open>
  The writes of the grouper for one event: the event joins its issue, then its tags and the history entries are
  written, each of which may fail on its own without undoing the rest.
\<close>

definition or_same :: "bool \<Rightarrow> (issue_db \<Rightarrow> issue_db option) \<Rightarrow> issue_db \<Rightarrow> issue_db" where
  "or_same ok f db = (if ok then (case f db of None \<Rightarrow> db | Some db' \<Rightarrow> db') else db)"

definition group_writes :: "nanos \<Rightarrow> nat \<Rightarrow> string \<Rightarrow> string \<Rightarrow> string \<Rightarrow> string \<Rightarrow> string \<Rightarrow> string \<Rightarrow> (string \<times> string) list
    \<Rightarrow> bool \<Rightarrow> bool \<Rightarrow> bool \<Rightarrow> issue_db \<Rightarrow> bool \<times> issue_db" where
  "group_writes now eventID fp legacy title level environment release tags tags_ok created_ok regressed_ok db =
     (case GroupEvent now eventID fp legacy title level environment release db of
        (None, db1) \<Rightarrow> (False, db1)
      | (Some (s, isNew, regressed), db1) \<Rightarrow>
          let db2 = or_same tags_ok (InsertEventTags eventID (is_id s) tags) db1;
              db3 = or_same (isNew \<and> created_ok) (InsertIssueHistory (is_id s)) db2;
              db4 = or_same (regressed \<and> regressed_ok) (InsertIssueHistory (is_id s)) db3
          in (True, db4))"

text \<open>The writes of the N+1 detector for one group of spans.\<close>

definition perf_writes :: "nanos \<Rightarrow> string \<Rightarrow> string \<Rightarrow> string \<Rightarrow> string \<Rightarrow> nanos \<Rightarrow> bool \<Rightarrow> issue_db \<Rightarrow> issue_db" where
  "perf_writes now project fp title environment ts perf_ok db =
     (case UpsertIssue now db db project fp title ''performance'' ''n1_query'' environment [] ts db of
        Upserted s _ _ db1 \<Rightarrow> or_same perf_ok (InsertPerfEvent (is_id s)) db1
      | _ \<Rightarrow> db)"

datatype issue_op =
    IInsert event_row
  | IGroup nanos nat string string string string string string "(string \<times> string) list" bool bool bool
  | IPerf nanos string string string string nanos bool
  | IOwn string nat
  | IMerge string "nat list"
  | IUnmerge nanos nat "string list"
  | IStatus string nat issue_status "(nanos option \<times> int option) option"
  | IBulk "nat list" issue_status "(nanos option \<times> int option) option" "string list option"
  | IAutoResolve nanos nanos
  | IExpire nanos
  | IAssign nat "string option"
  | IPurge nanos nat

fun issue_step :: "issue_db \<Rightarrow> issue_op \<Rightarrow> issue_db" where
  "issue_step db (IInsert e) = insert_event e db"
| "issue_step db (IGroup now e fp legacy title level env release tags a b c) =
     snd (group_writes now e fp legacy title level env release tags a b c db)"
| "issue_step db (IPerf now project fp title env ts ok) = perf_writes now project fp title env ts ok db"
| "issue_step db (IOwn table i) = or_same True (insert_owned table i) db"
| "issue_step db (IMerge project ids) = snd (handleMergeIssues project ids db)"
| "issue_step db (IUnmerge now i fps) = (case UnmergeFingerprints now i fps db of Unmerged db' \<Rightarrow> db' | _ \<Rightarrow> db)"
| "issue_step db (IStatus project i status options) =
     (case UpdateIssueStatus project i status options db of None \<Rightarrow> db | Some (_, db') \<Rightarrow> db')"
| "issue_step db (IBulk ids status options projects) =
     (case BulkUpdateIssueStatus ids status options projects db of None \<Rightarrow> db | Some (_, db') \<Rightarrow> db')"
| "issue_step db (IAutoResolve now age) = snd (AutoResolvePerformanceIssues now age db)"
| "issue_step db (IExpire now) = snd (ExpireIgnoredIssues now db)"
| "issue_step db (IAssign i assignee) = snd (UpdateIssueAssignee i assignee db)"
| "issue_step db (IPurge cutoff batch) = snd (snd (purgeEventBatch cutoff batch db))"

definition no_issues :: issue_db where
  "no_issues = \<lparr>db_issues = [], db_fps = [], db_events = [], db_tags = [], db_owned = [], db_next = 0\<rparr>"

section \<open>What the tables satisfy\<close>

definition fp_key :: "fingerprint_row \<Rightarrow> string \<times> string" where
  "fp_key r = (fp_project r, fp_fingerprint r)"

definition ids_ok :: "issue_db \<Rightarrow> bool" where
  "ids_ok db \<longleftrightarrow> distinct (map is_id (db_issues db)) \<and> distinct (map ev_id (db_events db)) \<and> distinct (map fp_key (db_fps db))
     \<and> (\<forall>s \<in> set (db_issues db). is_id s < db_next db) \<and> (\<forall>e \<in> set (db_events db). ev_id e < db_next db)"

definition fps_ok :: "issue_db \<Rightarrow> bool" where
  "fps_ok db \<longleftrightarrow> (\<forall>r \<in> set (db_fps db). \<exists>s \<in> set (db_issues db). is_id s = fp_issue r \<and> is_project s = fp_project r)"

definition event_routed :: "fingerprint_row list \<Rightarrow> event_row \<Rightarrow> bool" where
  "event_routed fps e \<longleftrightarrow> (\<forall>i. ev_issue e = Some i \<longrightarrow>
     (\<exists>r \<in> set fps. fp_project r = ev_project e \<and> ev_fingerprint e = Some (fp_fingerprint r) \<and> fp_issue r = i))"

definition tags_ok :: "issue_db \<Rightarrow> bool" where
  "tags_ok db \<longleftrightarrow> (\<forall>t \<in> set (db_tags db). \<exists>e \<in> set (db_events db). ev_id e = et_event t \<and> ev_issue e = Some (et_issue t))"

definition owned_ok :: "issue_db \<Rightarrow> bool" where
  "owned_ok db \<longleftrightarrow> ow_issue ` set (db_owned db) \<subseteq> is_id ` set (db_issues db)"

definition struct_ok :: "issue_db \<Rightarrow> bool" where
  "struct_ok db \<longleftrightarrow> ids_ok db \<and> fps_ok db \<and> (\<forall>e \<in> set (db_events db). event_routed (db_fps db) e) \<and> tags_ok db \<and> owned_ok db"

definition covered :: "issue_db \<Rightarrow> bool" where
  "covered db \<longleftrightarrow> is_id ` set (db_issues db) \<subseteq> fp_issue ` set (db_fps db)"

definition counts :: "bool \<Rightarrow> nat \<Rightarrow> int \<Rightarrow> bool" where
  "counts exact n c \<longleftrightarrow> int n \<le> c \<and> (exact \<longrightarrow> c = int n)"

definition counts_ok :: "bool \<Rightarrow> issue_db \<Rightarrow> bool" where
  "counts_ok exact db \<longleftrightarrow> (\<forall>s \<in> set (db_issues db). counts exact (linked (is_id s) (db_events db)) (is_event_count s))"

definition issue_ok :: "issue \<Rightarrow> bool" where
  "issue_ok s \<longleftrightarrow> (is_status s \<noteq> Ignored \<longrightarrow> is_ignore_until s = None \<and> is_ignore_limit s = None)
     \<and> (is_snooze_ended s \<noteq> None \<longrightarrow> is_status s = Open) \<and> is_first_seen s \<le> is_last_seen s"

definition issues_inv :: "bool \<Rightarrow> issue_db \<Rightarrow> bool" where
  "issues_inv exact db \<longleftrightarrow> struct_ok db \<and> covered db \<and> counts_ok exact db \<and> list_all issue_ok (db_issues db)"

lemmas issues_inv_defs = issues_inv_def struct_ok_def ids_ok_def fps_ok_def tags_ok_def owned_ok_def covered_def counts_ok_def

section \<open>Updates of issues only\<close>

lemma map_issues_struct:
  assumes "struct_ok db" "\<And>s. is_id (f s) = is_id s \<and> is_project (f s) = is_project s"
  shows "struct_ok (db\<lparr>db_issues := map f (db_issues db)\<rparr>)"
proof -
  have "map is_id (map f xs) = map is_id xs" for xs using assms(2) by simp
  moreover have "is_id \<circ> f = is_id" using assms(2) by (simp add: comp_def)
  ultimately show ?thesis using assms unfolding struct_ok_def ids_ok_def fps_ok_def tags_ok_def owned_ok_def
    by (simp add: image_image)
qed

lemma map_issues_inv:
  assumes "issues_inv exact db" "\<And>s. is_id (f s) = is_id s \<and> is_project (f s) = is_project s"
    and "\<And>s. is_event_count (f s) = is_event_count s" "\<And>s. issue_ok s \<Longrightarrow> issue_ok (f s)"
  shows "issues_inv exact (db\<lparr>db_issues := map f (db_issues db)\<rparr>)"
proof -
  have "struct_ok (db\<lparr>db_issues := map f (db_issues db)\<rparr>)"
    using assms(1,2) by (intro map_issues_struct) (simp_all add: issues_inv_def)
  then show ?thesis using assms
    by (auto simp: issues_inv_def covered_def counts_ok_def list_all_iff image_image)
qed

lemma update_issue_inv:
  assumes "issues_inv exact db" "\<And>s. is_id (f s) = is_id s \<and> is_project (f s) = is_project s"
    and "\<And>s. is_event_count (f s) = is_event_count s" "\<And>s. issue_ok s \<Longrightarrow> issue_ok (f s)"
  shows "issues_inv exact (update_issue i f db)"
  unfolding update_issue_def by (rule map_issues_inv [OF assms(1)]) (auto simp: assms(2,3,4))

lemma update_where_inv:
  assumes "issues_inv exact db" "\<And>s. is_id (f s) = is_id s \<and> is_project (f s) = is_project s"
    and "\<And>s. is_event_count (f s) = is_event_count s" "\<And>s. issue_ok s \<Longrightarrow> P s \<Longrightarrow> issue_ok (f s)"
  shows "issues_inv exact (snd (update_where P f db))"
  unfolding update_where_def snd_conv by (rule map_issues_inv [OF assms(1)]) (auto simp: assms(2,3,4))

lemma set_status_ok: "issue_ok s \<Longrightarrow> issue_ok (set_status st options s)"
  by (auto simp: issue_ok_def set_status_def split: prod.splits option.splits)

lemma set_status_same [simp]:
  "is_id (set_status st options s) = is_id s" "is_project (set_status st options s) = is_project s"
  "is_event_count (set_status st options s) = is_event_count s" "is_status (set_status st options s) = st"
  by (simp_all add: set_status_def split: prod.splits)

lemma status_inv: "issues_inv exact db \<Longrightarrow> issues_inv exact (issue_step db (IStatus project i st options))"
  by (auto simp: UpdateIssueStatus_def set_status_ok intro!: update_issue_inv split: option.splits)

lemma bulk_inv: "issues_inv exact db \<Longrightarrow> issues_inv exact (issue_step db (IBulk ids st options projects))"
proof -
  assume "issues_inv exact db"
  then have "issues_inv exact (snd (update_where P (set_status st options) db))" for P
    by (rule update_where_inv) (simp_all add: set_status_ok)
  then show ?thesis using \<open>issues_inv exact db\<close> by (simp add: BulkUpdateIssueStatus_def case_prod_beta)
qed

lemma auto_resolve_inv: "issues_inv exact db \<Longrightarrow> issues_inv exact (issue_step db (IAutoResolve now age))"
  unfolding issue_step.simps AutoResolvePerformanceIssues_def by (rule update_where_inv) (auto simp: issue_ok_def)

lemma expire_inv: "issues_inv exact db \<Longrightarrow> issues_inv exact (issue_step db (IExpire now))"
proof -
  assume "issues_inv exact db"
  then have "issues_inv exact (snd (update_where (\<lambda>s. is_status s = Ignored \<and> (case is_ignore_until s of None \<Rightarrow> False | Some u \<Rightarrow> u < now))
    (\<lambda>s. s\<lparr>is_status := Open, is_snooze_ended := Some now, is_ignore_until := None, is_ignore_limit := None, is_ignore_count := 0\<rparr>) db))"
    by (rule update_where_inv) (auto simp: issue_ok_def)
  then show ?thesis by (simp add: ExpireIgnoredIssues_def case_prod_beta)
qed

lemma assign_inv: "issues_inv exact db \<Longrightarrow> issues_inv exact (issue_step db (IAssign i assignee))"
  by (auto simp: UpdateIssueAssignee_def issue_ok_def intro!: update_issue_inv split: option.splits)

section \<open>Grouping an event\<close>

lemma distinct_map_eq: "distinct (map f xs) \<Longrightarrow> x \<in> set xs \<Longrightarrow> y \<in> set xs \<Longrightarrow> f x = f y \<Longrightarrow> x = y"
  by (simp add: distinct_map inj_on_def)

lemma metadata_mem: "GetIssueMetadata i db = Some s \<Longrightarrow> s \<in> set (db_issues db) \<and> is_id s = i"
  unfolding GetIssueMetadata_def by (rule find_SomeD)

lemma metadata_unique: "ids_ok db \<Longrightarrow> s \<in> set (db_issues db) \<Longrightarrow> GetIssueMetadata (is_id s) db = Some s"
proof -
  assume ids: "ids_ok db" and s: "s \<in> set (db_issues db)"
  have "GetIssueMetadata (is_id s) db \<noteq> None"
    using s find_NoneD [of "\<lambda>x. is_id x = is_id s" "db_issues db" s] by (auto simp: GetIssueMetadata_def)
  then obtain x where x: "GetIssueMetadata (is_id s) db = Some x" by blast
  have "x = s" using metadata_mem [OF x] s ids unfolding ids_ok_def by (metis distinct_map_eq)
  then show ?thesis using x by simp
qed

lemma lookup_fp_mem:
  "lookup_fp p f db = Some i \<Longrightarrow> \<exists>r \<in> set (db_fps db). fp_project r = p \<and> fp_fingerprint r = f \<and> fp_issue r = i"
  unfolding lookup_fp_def using find_SomeD by fastforce

lemma lookup_fp_unique:
  assumes "ids_ok db" "r \<in> set (db_fps db)"
  shows "lookup_fp (fp_project r) (fp_fingerprint r) db = Some (fp_issue r)"
proof -
  let ?P = "\<lambda>x. fp_project x = fp_project r \<and> fp_fingerprint x = fp_fingerprint r"
  have "find ?P (db_fps db) \<noteq> None" using assms(2) find_NoneD [of ?P "db_fps db" r] by auto
  then obtain x where x: "find ?P (db_fps db) = Some x" by blast
  have "x = r" using find_SomeD [OF x] assms unfolding ids_ok_def by (intro distinct_map_eq [of fp_key]) (auto simp: fp_key_def)
  then show ?thesis using x by (simp add: lookup_fp_def)
qed

lemma lookup_fp_None: "lookup_fp p f db = None \<Longrightarrow> (p, f) \<notin> fp_key ` set (db_fps db)"
  unfolding lookup_fp_def fp_key_def using find_NoneD by fastforce

lemma struct_event_issue:
  assumes "struct_ok db" "e \<in> set (db_events db)" "ev_issue e = Some i"
  shows "i \<in> is_id ` set (db_issues db)"
proof -
  have "event_routed (db_fps db) e" "fps_ok db" using assms(1,2) by (auto simp: struct_ok_def)
  then obtain r where "r \<in> set (db_fps db)" "fp_issue r = i" using assms(3) by (auto simp: event_routed_def)
  then show ?thesis using \<open>fps_ok db\<close> unfolding fps_ok_def by (metis image_eqI)
qed

lemma linked_fresh: "struct_ok db \<Longrightarrow> i \<notin> is_id ` set (db_issues db) \<Longrightarrow> linked i (db_events db) = 0"
  using struct_event_issue [of db] by (auto simp: linked_def filter_empty_conv)

lemma fresh_id: "struct_ok db \<Longrightarrow> db_next db \<notin> is_id ` set (db_issues db)"
  by (auto simp: struct_ok_def ids_ok_def)

definition counts_upd :: "bool \<Rightarrow> nat \<Rightarrow> issue_db \<Rightarrow> bool" where
  "counts_upd exact i db \<longleftrightarrow> (\<forall>s \<in> set (db_issues db).
     counts exact (if is_id s = i then Suc (linked i (db_events db)) else linked (is_id s) (db_events db)) (is_event_count s))"

lemma touch_same [simp]:
  "is_id (touch_issue now ts level env release s) = is_id s" "is_project (touch_issue now ts level env release s) = is_project s"
  "is_event_count (touch_issue now ts level env release s) = is_event_count s + 1"
  by (simp_all add: touch_issue_def)

lemma touch_ok: "issue_ok s \<Longrightarrow> issue_ok (touch_issue now ts level env release s)"
  by (auto simp: issue_ok_def touch_issue_def comes_back_def ignore_over_def)

lemma counts_Suc: "counts exact n c \<Longrightarrow> counts exact (Suc n) (c + 1)"
  by (auto simp: counts_def)

lemma touch_upd:
  assumes inv: "issues_inv exact db" and s: "prev \<in> set (db_issues db)"
    and db': "db' = update_issue (is_id prev) (touch_issue now ts level env release) db"
  shows "struct_ok db'" "covered db'" "list_all issue_ok (db_issues db')" "counts_upd exact (is_id prev) db'"
proof -
  show "struct_ok db'" unfolding db' update_issue_def
    by (rule map_issues_struct) (use inv in \<open>auto simp: issues_inv_def\<close>)
  have "map is_id (db_issues db') = map is_id (db_issues db)" unfolding db' update_issue_def by simp
  then have "is_id ` set (db_issues db') = is_id ` set (db_issues db)" by (metis list.set_map)
  then show "covered db'" using inv by (simp add: issues_inv_def covered_def db' update_issue_def)
  show "list_all issue_ok (db_issues db')" using inv unfolding db' update_issue_def
    by (auto simp: issues_inv_def list_all_iff touch_ok)
  have c: "counts exact (linked (is_id x) (db_events db)) (is_event_count x)" if "x \<in> set (db_issues db)" for x
    using inv that by (simp add: issues_inv_def counts_ok_def)
  then have "counts exact (Suc (linked (is_id prev) (db_events db))) (is_event_count x + 1)"
    if "x \<in> set (db_issues db)" "is_id x = is_id prev" for x using that counts_Suc by metis
  then show "counts_upd exact (is_id prev) db'" using c unfolding db' update_issue_def counts_upd_def by auto
qed

lemma create_upd:
  assumes inv: "issues_inv exact db" and none: "lookup_fp project fp db = None" and id: "is_id s = db_next db"
    and p: "is_project s = project" "is_event_count s = 1" "issue_ok s"
    and db': "db' = db\<lparr>db_issues := db_issues db @ [s],
    db_fps := db_fps db @ [\<lparr>fp_project = project, fp_fingerprint = fp, fp_issue = is_id s\<rparr>], db_next := Suc (db_next db)\<rparr>"
  shows "struct_ok db'" "covered db'" "list_all issue_ok (db_issues db')" "counts_upd exact (is_id s) db'"
proof -
  have st: "struct_ok db" using inv by (simp add: issues_inv_def)
  have fresh: "linked (is_id s) (db_events db) = 0" using linked_fresh [OF st fresh_id [OF st]] id by simp
  have ids: "ids_ok db'" using st none lookup_fp_None [OF none] unfolding db' struct_ok_def ids_ok_def
    by (auto simp: id fp_key_def less_Suc_eq)
  have fps: "fps_ok db'" using st p unfolding db' struct_ok_def fps_ok_def by auto
  show "struct_ok db'" using st ids fps unfolding struct_ok_def
    by (auto simp: db' event_routed_def tags_ok_def owned_ok_def)
  show "covered db'" using inv unfolding db' by (auto simp: issues_inv_def covered_def)
  show "list_all issue_ok (db_issues db')" using inv p unfolding db' by (simp add: issues_inv_def)
  have "is_id x \<noteq> is_id s" if "x \<in> set (db_issues db)" for x
    using st that by (auto simp: struct_ok_def ids_ok_def id)
  then show "counts_upd exact (is_id s) db'" using inv p fresh unfolding db' counts_upd_def
    by (auto simp: issues_inv_def counts_ok_def counts_def)
qed

lemma new_issue_same [simp]:
  "is_id (new_issue i p f t l k e r a b c d) = i" "is_project (new_issue i p f t l k e r a b c d) = p"
  "is_event_count (new_issue i p f t l k e r a b c d) = c" "is_status (new_issue i p f t l k e r a b c d) = Open"
  "a \<le> b \<Longrightarrow> issue_ok (new_issue i p f t l k e r a b c d)"
  by (simp_all add: new_issue_def issue_ok_def)

lemma upsert_cases:
  assumes "upsertIssue now db db project fp title level kind env release ts db = Upserted s created regressed db'"
  obtains (old) i prev where "lookup_fp project fp db = Some i" "GetIssueMetadata i db = Some prev"
      "s = touch_issue now ts level env release prev" "created = False" "regressed = was_regressed prev s"
      "db' = update_issue i (touch_issue now ts level env release) db"
    | (new) "lookup_fp project fp db = None" "created = True" "regressed = False"
      "s = new_issue (db_next db) project fp title level kind (null_if_empty env) (null_if_empty release) ts ts 1 now"
      "db' = db\<lparr>db_issues := db_issues db @ [s],
         db_fps := db_fps db @ [\<lparr>fp_project = project, fp_fingerprint = fp, fp_issue = is_id s\<rparr>], db_next := Suc (db_next db)\<rparr>"
  using assms unfolding upsertIssue_def upsertIssueOnce_def
  by (auto simp: Let_def split: option.splits if_splits)

lemma upsert_upd:
  assumes inv: "issues_inv exact db"
    and up: "upsertIssue now db db project fp title level kind env release ts db = Upserted s created regressed db'"
  shows "struct_ok db'" "covered db'" "list_all issue_ok (db_issues db')" "counts_upd exact (is_id s) db'"
    "s \<in> set (db_issues db')" "lookup_fp project fp db' = Some (is_id s)" "db_events db' = db_events db" "db_tags db' = db_tags db"
proof -
  have "struct_ok db' \<and> covered db' \<and> list_all issue_ok (db_issues db') \<and> counts_upd exact (is_id s) db' \<and> s \<in> set (db_issues db')
    \<and> lookup_fp project fp db' = Some (is_id s) \<and> db_events db' = db_events db \<and> db_tags db' = db_tags db"
    using up
  proof (cases rule: upsert_cases)
    case (old i prev)
    have prev: "prev \<in> set (db_issues db)" "is_id prev = i" using metadata_mem [OF old(2)] by auto
    then show ?thesis using touch_upd [OF inv prev(1) refl, of now ts level env release] old
      by (auto simp: update_issue_def lookup_fp_def)
  next
    case new
    have ok: "struct_ok db'" "covered db'" "list_all issue_ok (db_issues db')" "counts_upd exact (is_id s) db'"
      unfolding new(5) by (rule create_upd [OF inv new(1) _ _ _ _ refl]; simp add: new(4))+
    have "lookup_fp project fp db' = Some (is_id s)"
      using lookup_fp_unique [of db' "\<lparr>fp_project = project, fp_fingerprint = fp, fp_issue = is_id s\<rparr>"] ok(1)
      by (simp add: struct_ok_def new(5))
    then show ?thesis using ok by (simp add: new(5))
  qed
  then show "struct_ok db'" "covered db'" "list_all issue_ok (db_issues db')" "counts_upd exact (is_id s) db'"
    "s \<in> set (db_issues db')" "lookup_fp project fp db' = Some (is_id s)" "db_events db' = db_events db" "db_tags db' = db_tags db"
    by auto
qed

lemma counts_upd_weak: "counts_upd exact i db \<Longrightarrow> counts_ok False db"
  unfolding counts_upd_def counts_ok_def counts_def by (fastforce split: if_splits)

lemma linked_simps [simp]:
  "linked i [] = 0" "linked i (e # es) = (if ev_issue e = Some i then Suc (linked i es) else linked i es)"
  "linked i (es @ fs) = linked i es + linked i fs"
  by (simp_all add: linked_def)

lemma linked_link:
  assumes "distinct (map ev_id evs)" "e \<in> set evs" "ev_issue e = None"
  shows "linked j (map (\<lambda>r. if ev_id r = ev_id e then r\<lparr>ev_fingerprint := Some fp, ev_issue := Some i\<rparr> else r) evs)
    = (if j = i then Suc (linked j evs) else linked j evs)"
  using assms
proof (induction evs)
  case (Cons a evs)
  show ?case
  proof (cases "a = e")
    case True
    then have "map (\<lambda>r. if ev_id r = ev_id e then r\<lparr>ev_fingerprint := Some fp, ev_issue := Some i\<rparr> else r) evs = evs"
      using Cons.prems(1) by (intro map_idI) (auto simp: image_iff)
    then show ?thesis using True Cons.prems(3) by simp
  next
    case False
    then have "ev_id a \<noteq> ev_id e" using Cons.prems by (auto simp: image_iff)
    then show ?thesis using Cons False by auto
  qed
qed simp

lemma link_struct:
  assumes st: "struct_ok db" and e: "e \<in> set (db_events db)" "ev_issue e = None"
    and r: "lookup_fp (ev_project e) fp db = Some i"
  shows "struct_ok (link_event (ev_id e) fp i db)"
proof -
  let ?f = "\<lambda>r. if ev_id r = ev_id e then r\<lparr>ev_fingerprint := Some fp, ev_issue := Some i\<rparr> else r"
  have same: "x = e" if "x \<in> set (db_events db)" "ev_id x = ev_id e" for x
    using st that e(1) by (auto simp: struct_ok_def ids_ok_def dest: distinct_map_eq)
  have map_id: "map ev_id (map ?f (db_events db)) = map ev_id (db_events db)" by simp
  then have ids: "ids_ok (link_event (ev_id e) fp i db)"
    using st unfolding struct_ok_def ids_ok_def link_event_def by (auto simp del: map_map)
  have "event_routed (db_fps db) (e\<lparr>ev_fingerprint := Some fp, ev_issue := Some i\<rparr>)"
    using lookup_fp_mem [OF r] by (auto simp: event_routed_def)
  then have routed: "event_routed (db_fps db) (?f x)" if "x \<in> set (db_events db)" for x
    using that st same by (auto simp: struct_ok_def)
  have "\<exists>x \<in> set (map ?f (db_events db)). ev_id x = et_event t \<and> ev_issue x = Some (et_issue t)" if t: "t \<in> set (db_tags db)" for t
  proof -
    obtain x where x: "x \<in> set (db_events db)" "ev_id x = et_event t" "ev_issue x = Some (et_issue t)"
      using st t by (auto simp: struct_ok_def tags_ok_def)
    then have "ev_id x \<noteq> ev_id e" using same [of x] e(2) by fastforce
    then show ?thesis using x by force
  qed
  then have "tags_ok (link_event (ev_id e) fp i db)" by (simp add: tags_ok_def link_event_def)
  moreover have "\<forall>x \<in> set (db_events (link_event (ev_id e) fp i db)). event_routed (db_fps db) x"
    using routed by (simp add: link_event_def del: if_image_distrib)
  ultimately show ?thesis using st ids
    by (simp add: struct_ok_def link_event_def fps_ok_def owned_ok_def)
qed

lemma link_inv:
  assumes inv: "struct_ok db" "covered db" "list_all issue_ok (db_issues db)" "counts_upd exact i db"
    and e: "e \<in> set (db_events db)" "ev_issue e = None" and r: "lookup_fp (ev_project e) fp db = Some i"
  shows "issues_inv exact (link_event (ev_id e) fp i db)"
proof -
  have "linked j (db_events (link_event (ev_id e) fp i db)) = (if j = i then Suc (linked j (db_events db)) else linked j (db_events db))" for j
    using inv(1) linked_link [OF _ e] by (simp add: struct_ok_def ids_ok_def link_event_def)
  moreover have "db_issues (link_event (ev_id e) fp i db) = db_issues db" by (simp add: link_event_def)
  ultimately have "counts_ok exact (link_event (ev_id e) fp i db)"
    using inv(4) unfolding counts_ok_def counts_upd_def by auto
  then show ?thesis using inv link_struct [OF inv(1) e r]
    by (simp add: issues_inv_def covered_def link_event_def)
qed

text \<open>The possible results of grouping: nothing, or one of the two kinds of upsert.\<close>

lemma group_cases:
  assumes "GroupEvent now eventID fingerprint legacy title level env release db = (res, db')"
  obtains (none) "res = None" "db' = db"
    | (grouped) e s created regressed db1 where "res = Some (s, created, regressed)"
        "e \<in> set (db_events db)" "ev_id e = eventID" "ev_issue e = None"
        "upsertIssue now db db (ev_project e) (route_fp (ev_project e) fingerprint legacy db) title level ''error'' env release
           (ev_timestamp e) db = Upserted s created regressed db1"
        "db' = link_event eventID (route_fp (ev_project e) fingerprint legacy db) (is_id s) db1"
proof (cases "find (\<lambda>e. ev_id e = eventID) (db_events db)")
  case None
  then show thesis using assms none by (simp add: GroupEvent_def)
next
  case (Some e)
  let ?fp = "route_fp (ev_project e) fingerprint legacy db"
  note e = find_SomeD [OF Some]
  show thesis
  proof (cases "ev_issue e = None \<and> (\<exists>s created regressed db1. upsertIssue now db db (ev_project e) ?fp title level ''error'' env release
      (ev_timestamp e) db = Upserted s created regressed db1)")
    case True
    then obtain s created regressed db1 where "upsertIssue now db db (ev_project e) ?fp title level ''error'' env release
      (ev_timestamp e) db = Upserted s created regressed db1" by blast
    then show thesis using assms e True Some by (intro grouped [of s created regressed e db1]) (simp_all add: GroupEvent_def Let_def)
  next
    case False
    then show thesis using assms Some
      by (intro none) (auto simp: GroupEvent_def Let_def split: upsert_result.splits if_splits)
  qed
qed

lemma group_inv:
  assumes inv: "issues_inv exact db" and g: "GroupEvent now eventID fingerprint legacy title level env release db = (res, db')"
  shows "issues_inv exact db'"
  using g
proof (cases rule: group_cases)
  case (grouped e s created regressed db1)
  note up = upsert_upd [OF inv grouped(5)]
  have "issues_inv exact (link_event (ev_id e) (route_fp (ev_project e) fingerprint legacy db) (is_id s) db1)"
    by (rule link_inv) (simp_all add: up grouped(2,4))
  then show ?thesis using grouped(3,6) by simp
qed (use inv in simp)

lemma group_linked:
  assumes inv: "issues_inv exact db"
    and g: "GroupEvent now eventID fingerprint legacy title level env release db = (Some (s, created, regressed), db')"
  shows "\<exists>e \<in> set (db_events db'). ev_id e = eventID \<and> ev_issue e = Some (is_id s)" "s \<in> set (db_issues db')"
  using g
proof (atomize(full), cases rule: group_cases)
  case (grouped e s' created' regressed' db1)
  note up = upsert_upd [OF inv grouped(5)]
  let ?fp = "route_fp (ev_project e) fingerprint legacy db"
  have "e \<in> set (db_events db1)" using grouped(2) up(7) by simp
  then have mem: "e\<lparr>ev_fingerprint := Some ?fp, ev_issue := Some (is_id s')\<rparr> \<in> set (db_events db')"
    unfolding grouped(6) link_event_def using grouped(3) by (auto intro!: image_eqI [of _ _ e])
  have "s \<in> set (db_issues db')" "s' = s" using grouped(1,6) up(5) by (simp_all add: link_event_def)
  then show "(\<exists>e \<in> set (db_events db'). ev_id e = eventID \<and> ev_issue e = Some (is_id s)) \<and> s \<in> set (db_issues db')"
    using grouped(3) by (intro conjI bexI [OF _ mem]) simp_all
qed simp

lemma insert_tags_set:
  "set (insert_tags e i kvs tags) \<subseteq> set tags \<union> {t. et_event t = e \<and> et_issue t = i}"
  by (induction e i kvs tags rule: insert_tags.induct) (auto split: if_splits)

lemma insert_tags_inv:
  assumes inv: "issues_inv exact db" and e: "\<exists>r \<in> set (db_events db). ev_id r = e \<and> ev_issue r = Some i"
  shows "issues_inv exact (or_same ok (InsertEventTags e i tags) db)"
proof -
  have "tags_ok (db\<lparr>db_tags := insert_tags e i tags (db_tags db)\<rparr>)"
    using insert_tags_set [of e i tags "db_tags db"] inv e by (fastforce simp: issues_inv_def struct_ok_def tags_ok_def)
  then have "issues_inv exact (db\<lparr>db_tags := insert_tags e i tags (db_tags db)\<rparr>)"
    using inv by (simp add: issues_inv_defs)
  then show ?thesis using inv by (simp add: or_same_def InsertEventTags_def)
qed

lemma insert_owned_inv:
  assumes inv: "issues_inv exact db"
  shows "issues_inv exact (or_same ok (insert_owned table i) db)"
proof (cases "GetIssueMetadata i db")
  case (Some s)
  then have "i \<in> is_id ` set (db_issues db)" using metadata_mem [OF Some] by auto
  then show ?thesis using inv Some by (auto simp: or_same_def insert_owned_def issues_inv_defs less_Suc_eq)
qed (use inv in \<open>simp add: or_same_def insert_owned_def\<close>)

lemma group_writes_inv:
  assumes inv: "issues_inv exact db"
  shows "issues_inv exact (issue_step db (IGroup now e fp legacy title level env release tags a b c))"
proof -
  obtain res db1 where g: "GroupEvent now e fp legacy title level env release db = (res, db1)" by fastforce
  note ok = group_inv [OF inv g]
  show ?thesis
  proof (cases res)
    case (Some x)
    obtain s created regressed where x: "x = (s, created, regressed)" by (cases x)
    have tags: "issues_inv exact (or_same a (InsertEventTags e (is_id s) tags) db1)"
      using insert_tags_inv [OF ok] group_linked(1) [OF inv g [unfolded Some x]] by blast
    show ?thesis using g Some x tags insert_owned_inv
      by (simp add: group_writes_def Let_def InsertIssueHistory_def)
  qed (use g ok in \<open>simp add: group_writes_def\<close>)
qed

lemma perf_writes_inv:
  assumes inv: "issues_inv exact db"
  shows "issues_inv False (issue_step db (IPerf now project fp title env ts ok))"
proof (cases "UpsertIssue now db db project fp title ''performance'' ''n1_query'' env [] ts db")
  case (Upserted s created regressed db1)
  note up = upsert_upd [OF inv Upserted [unfolded UpsertIssue_def]]
  have "issues_inv False db1" using up(1-3) counts_upd_weak [OF up(4)] by (simp add: issues_inv_def)
  then show ?thesis using Upserted insert_owned_inv by (simp add: perf_writes_def InsertPerfEvent_def)
qed (use inv in \<open>auto simp: perf_writes_def issues_inv_def counts_ok_def counts_def\<close>)

lemma insert_event_inv:
  assumes inv: "issues_inv exact db"
  shows "issues_inv exact (issue_step db (IInsert e))"
proof -
  have "linked i (xs @ [x\<lparr>ev_id := n, ev_fingerprint := None, ev_issue := None\<rparr>]) = linked i xs" for i xs n and x :: event_row
    by (simp add: linked_def)
  then show ?thesis using inv
    by (auto simp: insert_event_def issues_inv_defs less_Suc_eq event_routed_def image_iff)
qed

section \<open>Merging\<close>

text \<open>Deleting issues that no event is linked to any more.\<close>

lemma delete_issues_inv:
  assumes st: "struct_ok db" and empty: "\<And>s. s \<in> set (db_issues db) \<Longrightarrow> doomed s \<Longrightarrow> linked (is_id s) (db_events db) = 0"
    and live: "\<And>s. s \<in> set (db_issues db) \<Longrightarrow> \<not> doomed s \<Longrightarrow> is_id s \<in> fp_issue ` set (db_fps db)
      \<and> counts exact (linked (is_id s) (db_events db)) (is_event_count s) \<and> issue_ok s"
  shows "issues_inv exact (delete_issues doomed db)" and "db_events (delete_issues doomed db) = db_events db"
    and "db_tags (delete_issues doomed db) = db_tags db"
proof -
  let ?ids = "is_id ` {s \<in> set (db_issues db). doomed s}"
  have ids: "set (map is_id (filter doomed (db_issues db))) = ?ids" by auto
  have free: "ev_issue e \<noteq> Some i" if "i \<in> ?ids" "e \<in> set (db_events db)" for e i
    using that empty by (auto simp: linked_def filter_empty_conv)
  have evs: "map (\<lambda>e. case ev_issue e of None \<Rightarrow> e | Some i \<Rightarrow> if i \<in> ?ids then e\<lparr>ev_issue := None\<rparr> else e) (db_events db) = db_events db"
    using free by (intro map_idI) (auto split: option.split)
  then show ev: "db_events (delete_issues doomed db) = db_events db"
    by (simp only: delete_issues_def Let_def ids) simp
  have "et_issue t \<notin> ?ids" if "t \<in> set (db_tags db)" for t
    using that st free by (fastforce simp: struct_ok_def tags_ok_def)
  then show tags: "db_tags (delete_issues doomed db) = db_tags db"
    by (simp add: delete_issues_def Let_def ids del: set_map set_filter)
  have keep: "is_id s \<notin> ?ids" if "s \<in> set (db_issues db)" "\<not> doomed s" for s
    using st that by (auto simp: struct_ok_def ids_ok_def dest: distinct_map_eq)
  have issues: "db_issues (delete_issues doomed db) = filter (\<lambda>s. \<not> doomed s) (db_issues db)"
    and fps: "db_fps (delete_issues doomed db) = filter (\<lambda>r. fp_issue r \<notin> ?ids) (db_fps db)"
    and owned: "db_owned (delete_issues doomed db) = filter (\<lambda>r. ow_issue r \<notin> ?ids) (db_owned db)"
    and nx: "db_next (delete_issues doomed db) = db_next db"
    by (simp_all add: delete_issues_def Let_def ids del: set_map set_filter)
  have 1: "ids_ok (delete_issues doomed db)" using st
    by (simp add: struct_ok_def ids_ok_def issues fps ev nx distinct_map_filter)
  have "\<exists>s \<in> set (db_issues db). \<not> doomed s \<and> is_id s = fp_issue r \<and> is_project s = fp_project r"
    if r: "r \<in> set (db_fps db)" "fp_issue r \<notin> ?ids" for r
  proof -
    obtain s where s: "s \<in> set (db_issues db)" "is_id s = fp_issue r" "is_project s = fp_project r"
      using st r(1) by (auto simp: struct_ok_def fps_ok_def)
    have "\<not> doomed s" using r(2) s(1,2) by (auto simp: image_iff)
    then show ?thesis using s by blast
  qed
  then have 2: "fps_ok (delete_issues doomed db)" unfolding fps_ok_def issues fps by (simp only: set_filter mem_Collect_eq Ball_def Bex_def) blast
  have "event_routed (db_fps (delete_issues doomed db)) e" if e: "e \<in> set (db_events db)" for e
  proof -
    have "event_routed (db_fps db) e" "\<And>i. ev_issue e = Some i \<Longrightarrow> i \<notin> ?ids" using st e free by (auto simp: struct_ok_def)
    then show ?thesis unfolding event_routed_def fps set_filter Bex_def mem_Collect_eq by metis
  qed
  moreover have "tags_ok (delete_issues doomed db)" using st by (simp add: struct_ok_def tags_ok_def ev tags)
  moreover have "ow_issue r \<in> is_id ` {s \<in> set (db_issues db). \<not> doomed s}" if r: "r \<in> set (db_owned db)" "ow_issue r \<notin> ?ids" for r
  proof -
    have "ow_issue r \<in> is_id ` set (db_issues db)" using st r(1) by (auto simp: struct_ok_def owned_ok_def)
    then show ?thesis using r(2) by blast
  qed
  then have "owned_ok (delete_issues doomed db)" by (auto simp: owned_ok_def owned issues)
  moreover have "is_id s \<in> fp_issue ` {r \<in> set (db_fps db). fp_issue r \<notin> ?ids}" if s: "s \<in> set (db_issues db)" "\<not> doomed s" for s
  proof -
    obtain r where r: "r \<in> set (db_fps db)" "fp_issue r = is_id s" using live [OF s] by auto
    show ?thesis by (rule image_eqI [of _ _ r]) (use r keep [OF s] in simp_all)
  qed
  then have "covered (delete_issues doomed db)" by (auto simp: covered_def issues fps)
  ultimately show "issues_inv exact (delete_issues doomed db)" using live 1 2
    by (auto simp: issues_inv_def struct_ok_def counts_ok_def list_all_iff issues ev)
qed

lemma linked_moved:
  assumes "p \<notin> set merged" "distinct merged"
  shows "linked i (map (\<lambda>e. e\<lparr>ev_issue := map_option (moved merged p) (ev_issue e)\<rparr>) evs) =
    (if i = p then linked p evs + (\<Sum>j\<leftarrow>merged. linked j evs) else if i \<in> set merged then 0 else linked i evs)"
proof (induction evs)
  case (Cons e evs)
  have one: "(\<Sum>j\<leftarrow>merged. if ev_issue e = Some j then Suc (linked j evs) else linked j evs) = (case ev_issue e of None \<Rightarrow> 0 | Some j \<Rightarrow> if j \<in> set merged then 1 else 0) + (\<Sum>j\<leftarrow>merged. linked j evs)"
    using assms(2) by (induction merged) (auto split: option.splits)
  show ?case unfolding list.map linked_simps(2) Cons.IH one using assms(1)
    by (auto simp: moved_def split: option.splits if_splits)
qed simp

lemma reassign_struct:
  assumes st: "struct_ok db" and p: "s \<in> set (db_issues db)" "is_id s = p"
    and proj: "\<forall>x \<in> set (db_issues db). is_id x \<in> set merged \<longrightarrow> is_project x = is_project s"
  shows "struct_ok (reassign merged p db)"
proof -
  have "fp_key \<circ> (\<lambda>r. r\<lparr>fp_issue := moved merged p (fp_issue r)\<rparr>) = fp_key" by (simp add: comp_def fp_key_def fun_eq_iff)
  then have ids: "ids_ok (reassign merged p db)" using st
    by (simp add: struct_ok_def ids_ok_def reassign_def) (simp add: comp_def)
  have "\<exists>x \<in> set (db_issues db). is_id x = moved merged p (fp_issue r) \<and> is_project x = fp_project r" if "r \<in> set (db_fps db)" for r
    using st p proj that unfolding struct_ok_def fps_ok_def moved_def by metis
  then have fps: "fps_ok (reassign merged p db)" by (simp add: fps_ok_def reassign_def)
  have routed: "event_routed (map (\<lambda>r. r\<lparr>fp_issue := moved merged p (fp_issue r)\<rparr>) (db_fps db)) (e\<lparr>ev_issue := map_option (moved merged p) (ev_issue e)\<rparr>)"
    if "e \<in> set (db_events db)" for e
    using st that by (fastforce simp: struct_ok_def event_routed_def)
  have tags: "tags_ok (reassign merged p db)" using st
    by (fastforce simp: struct_ok_def tags_ok_def reassign_def)
  have "owned_ok (reassign merged p db)" using st p
    by (auto simp: struct_ok_def owned_ok_def reassign_def moved_def image_image)
  then show ?thesis using ids fps tags routed by (simp add: struct_ok_def) (simp add: reassign_def)
qed

lemma uniqueStrings_props:
  "set (uniqueStrings seen xs) = set xs - set seen" "distinct (uniqueStrings seen xs)"
  by (induction seen xs rule: uniqueStrings.induct) auto

lemma foldl_min_le: "foldl min (a::nanos) xs \<le> a"
proof (induction xs arbitrary: a)
  case (Cons x xs)
  show ?case using Cons [of "min a x"] by simp
qed simp

lemma foldl_max_ge: "(a::nanos) \<le> foldl max a xs"
proof (induction xs arbitrary: a)
  case (Cons x xs)
  show ?case using Cons [of "max a x"] by simp
qed simp


lemma sum_linked_moved:
  assumes inv: "counts_ok exact db" "ids_ok db" and m: "distinct merged" "set merged \<subseteq> is_id ` set (db_issues db)"
  shows "counts exact (\<Sum>j\<leftarrow>merged. linked j (db_events db)) (\<Sum>g\<leftarrow>filter (\<lambda>s. is_id s \<in> set merged) (db_issues db). is_event_count g)"
proof -
  let ?gone = "filter (\<lambda>s. is_id s \<in> set merged) (db_issues db)"
  have d: "distinct (map is_id ?gone)" using inv(2) by (simp add: ids_ok_def distinct_map_filter)
  have "set (map is_id ?gone) = set merged" using m(2) by auto
  then have "(\<Sum>j\<leftarrow>merged. linked j (db_events db)) = (\<Sum>j\<leftarrow>map is_id ?gone. linked j (db_events db))"
    using sum_list_distinct_conv_sum_set [OF d, of "\<lambda>j. linked j (db_events db)"]
      sum_list_distinct_conv_sum_set [OF m(1), of "\<lambda>j. linked j (db_events db)"] by metis
  also have "\<dots> = (\<Sum>g\<leftarrow>?gone. linked (is_id g) (db_events db))" by (simp add: comp_def)
  finally have eq: "(\<Sum>j\<leftarrow>merged. linked j (db_events db)) = (\<Sum>g\<leftarrow>?gone. linked (is_id g) (db_events db))" .
  have "counts exact (\<Sum>g\<leftarrow>gs. linked (is_id g) (db_events db)) (\<Sum>g\<leftarrow>gs. is_event_count g)" if "set gs \<subseteq> set (db_issues db)" for gs
    using that inv(1) by (induction gs) (auto simp: counts_def counts_ok_def)
  from this [of ?gone] show ?thesis unfolding eq by auto
qed

lemma absorb_same [simp]:
  "is_id (absorb gone s) = is_id s" "is_project (absorb gone s) = is_project s"
  "is_event_count (absorb gone s) = is_event_count s + (\<Sum>g\<leftarrow>gone. is_event_count g)"
  by (simp_all add: absorb_def)

lemma absorb_ok: "issue_ok s \<Longrightarrow> issue_ok (absorb gone s)"
  using foldl_min_le [of "is_first_seen s" "map is_first_seen gone"] foldl_max_ge [of "is_last_seen s" "map is_last_seen gone"]
  by (simp add: issue_ok_def absorb_def)

lemma find_map_keep: "find P (map (\<lambda>s. if Q s then f s else s) xs) = map_option (\<lambda>s. if Q s then f s else s) (find P xs)"
  if "\<And>s. P (f s) = P s"
  using that by (induction xs) auto

text \<open>A merge of existing issues of one project succeeds, and is these three steps.\<close>

lemma merge_run:
  assumes ids: "ids_ok db" and p: "s \<in> set (db_issues db)" "is_id s = p"
    and m: "merged \<noteq> []" "p \<notin> set merged" "set merged \<subseteq> is_id ` set (db_issues db)"
  defines "gone \<equiv> filter (\<lambda>s. is_id s \<in> set merged) (db_issues db)"
  shows "MergeIssues p merged db = Some (Some (absorb gone s),
    delete_issues (\<lambda>s. is_id s \<in> set merged) (update_issue p (absorb gone) (reassign merged p db)))"
proof -
  have "gone \<noteq> []" using m(1,3) unfolding gone_def by (cases merged) (auto simp: filter_empty_conv)
  moreover have "GetIssueMetadata p (delete_issues (\<lambda>s. is_id s \<in> set merged) (update_issue p (absorb gone) (reassign merged p db)))
    = Some (absorb gone s)"
  proof -
    have f: "find (\<lambda>x. is_id x = p) (filter (\<lambda>s. is_id s \<notin> set merged) xs) = find (\<lambda>x. is_id x = p) xs" for xs
      using m(2) by (induction xs) auto
    show ?thesis using metadata_unique [OF ids p(1)] p(2)
      by (simp add: GetIssueMetadata_def delete_issues_def update_issue_def reassign_def Let_def f find_map_keep)
  qed
  ultimately show ?thesis using m(1) metadata_unique [OF ids p(1)] p(2)
    by (simp add: MergeIssues_def Let_def gone_def)
qed

lemma merge_inv:
  assumes inv: "issues_inv exact db" and p: "s \<in> set (db_issues db)" "is_id s = p"
    and m: "distinct (p # merged)" "set merged \<subseteq> is_id ` set (db_issues db)"
    and proj: "\<forall>x \<in> set (db_issues db). is_id x \<in> set merged \<longrightarrow> is_project x = is_project s"
  defines "gone \<equiv> filter (\<lambda>s. is_id s \<in> set merged) (db_issues db)"
    and "db2 \<equiv> update_issue p (absorb (filter (\<lambda>s. is_id s \<in> set merged) (db_issues db))) (reassign merged p db)"
  shows "issues_inv exact (delete_issues (\<lambda>s. is_id s \<in> set merged) db2)"
    "db_events (delete_issues (\<lambda>s. is_id s \<in> set merged) db2) = db_events (reassign merged p db)"
    "db_tags (delete_issues (\<lambda>s. is_id s \<in> set merged) db2) = db_tags (reassign merged p db)"
proof -
  have st: "struct_ok db" and c: "counts_ok exact db" and ids: "ids_ok db" and pm: "p \<notin> set merged" "distinct merged"
    using inv m(1) by (auto simp: issues_inv_def struct_ok_def)
  have st2: "struct_ok db2" unfolding db2_def update_issue_def
    by (rule map_issues_struct [OF reassign_struct [OF st p proj]]) simp
  have ev: "db_events db2 = db_events (reassign merged p db)" "db_tags db2 = db_tags (reassign merged p db)"
    by (simp_all add: db2_def update_issue_def)
  note lm = linked_moved [OF pm]
  have lk: "linked i (db_events db2) = (if i = p then linked p (db_events db) + (\<Sum>j\<leftarrow>merged. linked j (db_events db))
      else if i \<in> set merged then 0 else linked i (db_events db))" for i
    unfolding ev(1) reassign_def by (simp add: lm)
  note sm = sum_linked_moved [OF c ids pm(2) m(2)]
  have fp: "db_fps db2 = map (\<lambda>r. r\<lparr>fp_issue := moved merged p (fp_issue r)\<rparr>) (db_fps db)"
    and iss: "db_issues db2 = map (\<lambda>x. if is_id x = p then absorb gone x else x) (db_issues db)"
    by (simp_all add: db2_def update_issue_def reassign_def gone_def)
  have "is_id x \<in> fp_issue ` set (db_fps db2) \<and> counts exact (linked (is_id x) (db_events db2)) (is_event_count x) \<and> issue_ok x"
    if x: "x \<in> set (db_issues db2)" "is_id x \<notin> set merged" for x
  proof -
    obtain y where y: "y \<in> set (db_issues db)" "x = (if is_id y = p then absorb gone y else y)" "is_id x = is_id y"
      using x(1) unfolding iss by (auto simp del: if_image_distrib)
    have "is_id y \<in> fp_issue ` set (db_fps db)" using inv y(1) by (auto simp: issues_inv_def covered_def)
    then obtain r where r: "r \<in> set (db_fps db)" "fp_issue r = is_id y" by auto
    then have "moved merged p (fp_issue r) = is_id x" using x(2) y(3) by (simp add: moved_def)
    then have 1: "is_id x \<in> fp_issue ` set (db_fps db2)" using r(1) unfolding fp by force
    have cy: "counts exact (linked (is_id y) (db_events db)) (is_event_count y)" "issue_ok y"
      using c y(1) inv by (simp_all add: counts_ok_def issues_inv_def list_all_iff)
    then have "counts exact (linked (is_id x) (db_events db2)) (is_event_count x)"
      using y(2,3) x(2) sm by (auto simp: lk counts_def gone_def)
    then show ?thesis using 1 cy(2) y(2) by (simp add: absorb_ok)
  qed
  note live = this
  have empty: "linked (is_id x) (db_events db2) = 0" if "x \<in> set (db_issues db2)" "is_id x \<in> set merged" for x
    using that pm by (auto simp: lk)
  note d = delete_issues_inv [of db2 "\<lambda>s. is_id s \<in> set merged" exact, OF st2 empty live]
  show "issues_inv exact (delete_issues (\<lambda>s. is_id s \<in> set merged) db2)" by (rule d(1))
  show "db_events (delete_issues (\<lambda>s. is_id s \<in> set merged) db2) = db_events (reassign merged p db)"
    "db_tags (delete_issues (\<lambda>s. is_id s \<in> set merged) db2) = db_tags (reassign merged p db)"
    using d(2,3) ev by simp_all
qed

text \<open>What a merge request that is not refused does.\<close>

lemma handle_merge_cases:
  assumes "ids_ok db"
  obtains (refused) "snd (handleMergeIssues project issueIDs db) = db" "\<nexists>r. fst (handleMergeIssues project issueIDs db) = Merged r"
  | (merged) s p merged where "uniqueStrings [] issueIDs = p # merged" "merged \<noteq> []" "distinct (p # merged)"
      "s \<in> set (db_issues db)" "is_id s = p" "is_project s = project" "set merged \<subseteq> is_id ` set (db_issues db)"
      "\<forall>x \<in> set (db_issues db). is_id x \<in> set merged \<longrightarrow> is_project x = project"
      "handleMergeIssues project issueIDs db = (Merged (Some (absorb (filter (\<lambda>s. is_id s \<in> set merged) (db_issues db)) s)),
        delete_issues (\<lambda>s. is_id s \<in> set merged)
          (update_issue p (absorb (filter (\<lambda>s. is_id s \<in> set merged) (db_issues db))) (reassign merged p db)))"
proof -
  let ?ids = "uniqueStrings [] issueIDs"
  let ?bad = "\<lambda>i. case GetIssueMetadata i db of None \<Rightarrow> True | Some s \<Rightarrow> is_project s \<noteq> project"
  show thesis
  proof (cases "length ?ids < 2 \<or> maxIssueIDsPerRequest < length ?ids \<or> (\<exists>i. find ?bad ?ids = Some i)")
    case True
    then show thesis by (intro refused) (auto simp: handleMergeIssues_def Let_def)
  next
    case False
    then obtain p merged where pm: "?ids = p # merged" "merged \<noteq> []" by (cases ?ids; cases "tl ?ids") auto
    have find: "find ?bad ?ids = None" using False by (cases "find ?bad ?ids") auto
    then have ok: "\<exists>s \<in> set (db_issues db). is_id s = i \<and> is_project s = project \<and> GetIssueMetadata i db = Some s" if "i \<in> set ?ids" for i
      using find_NoneD [OF find that] metadata_mem [of i db] by (auto split: option.splits)
    then obtain s where s: "s \<in> set (db_issues db)" "is_id s = p" "is_project s = project" using pm(1) by auto
    have d: "distinct (p # merged)" using uniqueStrings_props(2) [of "[]" issueIDs] pm(1) by simp
    have sub: "set merged \<subseteq> is_id ` set (db_issues db)" using ok pm(1) by force
    have proj: "is_project x = project" if "x \<in> set (db_issues db)" "is_id x \<in> set merged" for x
      using ok [of "is_id x"] that pm(1) metadata_unique [OF assms that(1)] by auto
    have run: "handleMergeIssues project issueIDs db = (case MergeIssues p merged db of None \<Rightarrow> (MergeError, db) | Some (s, db') \<Rightarrow> (Merged s, db'))"
      using False find pm(1) by (auto simp: handleMergeIssues_def Let_def)
    show thesis
      by (rule merged [OF pm d s sub]) (use proj merge_run [OF assms s(1,2) pm(2) _ sub] d run in auto)
  qed
qed

lemma handle_merge_inv:
  assumes inv: "issues_inv exact db"
  shows "issues_inv exact (issue_step db (IMerge project ids))"
proof -
  have "ids_ok db" using inv by (simp add: issues_inv_def struct_ok_def)
  then show ?thesis
  proof (cases rule: handle_merge_cases [where project = project and issueIDs = ids])
    case (merged s p merged)
    show ?thesis using merge_inv(1) [OF inv merged(4,5,3,7)] merged(6,8,9) by simp
  qed (use inv in simp)
qed

section \<open>Splitting off\<close>

lemma latest_mem: "latest key x xs \<in> set (x # xs)"
proof (induction xs arbitrary: x)
  case (Cons y ys)
  show ?case using Cons [of "if key x < key y then y else x"] by (auto simp: latest_def split: if_splits)
qed (simp add: latest_def)

lemma latest_ge: "y \<in> set (x # xs) \<Longrightarrow> key y \<le> key (latest key x xs)"
proof (induction xs arbitrary: x y)
  case (Cons z zs)
  let ?w = "if key x < key z then z else x"
  have "key ?w \<le> key (latest key ?w zs)" "\<And>v. v \<in> set zs \<Longrightarrow> key v \<le> key (latest key ?w zs)"
    using Cons.IH [of _ ?w] by auto
  then show ?case using Cons.prems by (auto simp: latest_def split: if_splits)
qed (simp add: latest_def)

lemma split_issue_fields:
  "is_id (split_issue now src fp db) = db_next db" "is_project (split_issue now src fp db) = is_project src"
  "is_event_count (split_issue now src fp db) =
     int (length (filter (\<lambda>e. ev_issue e = Some (is_id src) \<and> ev_fingerprint e = Some fp) (db_events db)))"
  "issue_ok (split_issue now src fp db)"
proof -
  have "ev_timestamp (latest (\<lambda>d. - ev_timestamp d) e es) \<le> ev_timestamp (latest ev_timestamp e es)" for e es
    using latest_ge [OF latest_mem, of ev_timestamp "\<lambda>d. - ev_timestamp d" e es] .
  then have "issue_ok (split_issue now src fp db)"
    by (cases "filter (\<lambda>e. ev_issue e = Some (is_id src) \<and> ev_fingerprint e = Some fp) (db_events db)")
      (simp_all add: split_issue_def Let_def issue_ok_def new_issue_def)
  then show "is_id (split_issue now src fp db) = db_next db" "is_project (split_issue now src fp db) = is_project src"
    "is_event_count (split_issue now src fp db) =
       int (length (filter (\<lambda>e. ev_issue e = Some (is_id src) \<and> ev_fingerprint e = Some fp) (db_events db)))"
    "issue_ok (split_issue now src fp db)"
    by (simp_all add: split_issue_def Let_def split: list.splits)
qed

text \<open>While fingerprints are split off, the count of the original issue still includes the events that left.\<close>

definition split_inv :: "bool \<Rightarrow> nat \<Rightarrow> int \<Rightarrow> issue_db \<Rightarrow> bool" where
  "split_inv exact i tot db \<longleftrightarrow> struct_ok db \<and> list_all issue_ok (db_issues db) \<and> 0 \<le> tot
     \<and> (\<forall>s \<in> set (db_issues db). counts exact (linked (is_id s) (db_events db)) (if is_id s = i then is_event_count s - tot else is_event_count s))"

lemma split_linked:
  assumes "n \<noteq> i" "\<forall>e \<in> set evs. ev_issue e \<noteq> Some n"
  shows "linked j (map (\<lambda>e. if ev_issue e = Some i \<and> ev_fingerprint e = Some fp then e\<lparr>ev_issue := Some n\<rparr> else e) evs) =
    (if j = n then length (filter (\<lambda>e. ev_issue e = Some i \<and> ev_fingerprint e = Some fp) evs)
     else if j = i then linked i evs - length (filter (\<lambda>e. ev_issue e = Some i \<and> ev_fingerprint e = Some fp) evs)
     else linked j evs)"
    and "length (filter (\<lambda>e. ev_issue e = Some i \<and> ev_fingerprint e = Some fp) evs) \<le> linked i evs"
proof (atomize(full), use assms(2) in \<open>induction evs\<close>)
  case (Cons e evs)
  then show ?case using assms(1) by (auto simp: Suc_diff_le)
qed simp

lemma split_off_sel:
  "db_issues (split_off now src fp db) = db_issues db @ [split_issue now src fp db]"
  "db_fps (split_off now src fp db) =
     map (\<lambda>r. if fp_issue r = is_id src \<and> fp_fingerprint r = fp then r\<lparr>fp_issue := db_next db\<rparr> else r) (db_fps db)"
  "db_events (split_off now src fp db) = map (\<lambda>e. if ev_issue e = Some (is_id src) \<and> ev_fingerprint e = Some fp
     then e\<lparr>ev_issue := Some (db_next db)\<rparr> else e) (db_events db)"
  "db_owned (split_off now src fp db) = db_owned db" "db_next (split_off now src fp db) = Suc (db_next db)"
  by (simp_all add: split_off_def Let_def split_issue_fields)

lemma routedI:
  "r \<in> set fps \<Longrightarrow> fp_project r = ev_project e \<Longrightarrow> ev_fingerprint e = Some (fp_fingerprint r) \<Longrightarrow> ev_issue e = Some (fp_issue r)
   \<Longrightarrow> event_routed fps e"
  by (auto simp: event_routed_def)

lemma covered_map: "covered db \<Longrightarrow> (\<And>s. is_id (f s) = is_id s) \<Longrightarrow> covered (db\<lparr>db_issues := map f (db_issues db)\<rparr>)"
  by (simp add: covered_def image_image)

lemma split_off_struct:
  assumes st: "struct_ok db" and src: "x \<in> set (db_issues db)" "is_id x = is_id src" "is_project x = is_project src"
  shows "struct_ok (split_off now src fp db)"
proof -
  let ?n = "db_next db" and ?db = "split_off now src fp db"
  let ?e = "\<lambda>e. if ev_issue e = Some (is_id src) \<and> ev_fingerprint e = Some fp then e\<lparr>ev_issue := Some ?n\<rparr> else e"
  let ?r = "\<lambda>r. if fp_issue r = is_id src \<and> fp_fingerprint r = fp then r\<lparr>fp_issue := ?n\<rparr> else r"
  have "map ev_id (map ?e (db_events db)) = map ev_id (db_events db)" "map fp_key (map ?r (db_fps db)) = map fp_key (db_fps db)"
    by (simp_all add: fp_key_def)
  then have "distinct (map ev_id (db_events ?db))" "distinct (map fp_key (db_fps ?db))"
    using st unfolding split_off_sel struct_ok_def ids_ok_def by presburger+
  moreover have "distinct (map is_id (db_issues ?db))"
    using st fresh_id [OF st] by (simp add: split_off_sel split_issue_fields struct_ok_def ids_ok_def)
  moreover have "ev_id e < Suc ?n" if "e \<in> set (db_events db)" for e using st that by (simp add: struct_ok_def ids_ok_def less_Suc_eq)
  then have "\<forall>e \<in> set (db_events ?db). ev_id e < Suc ?n" unfolding split_off_sel by auto
  moreover have "\<forall>s \<in> set (db_issues ?db). is_id s < Suc ?n"
    using st by (auto simp: split_off_sel split_issue_fields struct_ok_def ids_ok_def less_Suc_eq)
  ultimately have ids: "ids_ok ?db" unfolding ids_ok_def split_off_sel(5) by blast
  have "\<exists>s \<in> set (db_issues ?db). is_id s = fp_issue (?r r) \<and> is_project s = fp_project (?r r)" if r: "r \<in> set (db_fps db)" for r
  proof -
    obtain s where s: "s \<in> set (db_issues db)" "is_id s = fp_issue r" "is_project s = fp_project r"
      using st r by (auto simp: struct_ok_def fps_ok_def)
    have "is_project src = fp_project r" if "fp_issue r = is_id src"
      using st s src that by (auto simp: struct_ok_def ids_ok_def dest: distinct_map_eq)
    then show ?thesis using s by (auto simp: split_off_sel split_issue_fields)
  qed
  then have fps: "fps_ok ?db" unfolding fps_ok_def split_off_sel(2) by (simp del: if_image_distrib)
  have "event_routed (map ?r (db_fps db)) (?e e)" if e: "e \<in> set (db_events db)" for e
  proof (cases "ev_issue e")
    case (Some i)
    then obtain r where r: "r \<in> set (db_fps db)" "fp_project r = ev_project e" "ev_fingerprint e = Some (fp_fingerprint r)" "fp_issue r = i"
      using st e by (auto simp: struct_ok_def event_routed_def)
    have "?r r \<in> set (map ?r (db_fps db))" using r(1) by (simp del: if_image_distrib)
    moreover have "fp_project (?r r) = ev_project (?e e)" "ev_fingerprint (?e e) = Some (fp_fingerprint (?r r))"
      "ev_issue (?e e) = Some (fp_issue (?r r))" using r(2-) Some by simp_all
    ultimately show ?thesis by (rule routedI)
  qed (simp add: event_routed_def)
  then have routed: "\<forall>e \<in> set (db_events ?db). event_routed (db_fps ?db) e"
    unfolding split_off_sel(2,3) by (simp del: if_image_distrib)
  let ?mine = "ev_id ` set (filter (\<lambda>e. ev_issue e = Some (is_id src) \<and> ev_fingerprint e = Some fp) (db_events db))"
  let ?t = "\<lambda>t. if et_issue t = is_id src \<and> et_event t \<in> ?mine then t\<lparr>et_issue := ?n\<rparr> else t"
  have tg: "db_tags ?db = map ?t (db_tags db)" by (simp add: split_off_def Let_def split_issue_fields)
  have "\<exists>e \<in> set (map ?e (db_events db)). ev_id e = et_event (?t t) \<and> ev_issue e = Some (et_issue (?t t))" if t: "t \<in> set (db_tags db)" for t
  proof -
    obtain e where e: "e \<in> set (db_events db)" "ev_id e = et_event t" "ev_issue e = Some (et_issue t)"
      using st t by (auto simp: struct_ok_def tags_ok_def)
    have same: "e' = e" if "e' \<in> set (db_events db)" "ev_id e' = et_event t" for e'
      using st e that by (auto simp: struct_ok_def ids_ok_def dest: distinct_map_eq)
    have "et_issue t = is_id src \<and> ev_fingerprint e = Some fp" if mine: "et_event t \<in> ?mine"
    proof -
      obtain e' where e': "e' \<in> set (db_events db)" "ev_issue e' = Some (is_id src)" "ev_fingerprint e' = Some fp" "ev_id e' = et_event t"
        using mine by auto
      show ?thesis using same [OF e'(1,4)] e' e(3) by simp
    qed
    moreover have "et_event t \<in> ?mine" if "et_issue t = is_id src \<and> ev_fingerprint e = Some fp"
      by (rule image_eqI [of _ _ e]) (use that e in simp_all)
    ultimately have "et_event t \<in> ?mine \<longleftrightarrow> et_issue t = is_id src \<and> ev_fingerprint e = Some fp" by blast
    then have "ev_id (?e e) = et_event (?t t) \<and> ev_issue (?e e) = Some (et_issue (?t t))" using e(2,3) by simp
    moreover have "?e e \<in> set (map ?e (db_events db))" using e(1) by (simp del: if_image_distrib)
    ultimately show ?thesis by blast
  qed
  then have "tags_ok ?db" unfolding tags_ok_def tg split_off_sel(3) by (simp del: if_image_distrib)
  moreover have "owned_ok ?db" using st by (auto simp: struct_ok_def owned_ok_def split_off_sel)
  ultimately show ?thesis using ids fps routed by (simp add: struct_ok_def)
qed

lemma split_off_inv:
  assumes inv: "split_inv exact (is_id src) tot db" and src: "x \<in> set (db_issues db)" "is_id x = is_id src" "is_project x = is_project src"
  shows "split_inv exact (is_id src) (tot + is_event_count (split_issue now src fp db)) (split_off now src fp db)"
proof -
  let ?k = "length (filter (\<lambda>e. ev_issue e = Some (is_id src) \<and> ev_fingerprint e = Some fp) (db_events db))"
  have st: "struct_ok db" using inv by (simp add: split_inv_def)
  have fresh: "db_next db \<notin> is_id ` set (db_issues db)" by (rule fresh_id [OF st])
  then have ne: "db_next db \<noteq> is_id src" using src by (metis image_eqI)
  have no: "\<forall>e \<in> set (db_events db). ev_issue e \<noteq> Some (db_next db)" using struct_event_issue [OF st] fresh by blast
  note lk = split_linked [OF ne no, where fp = fp]
  have c: "counts exact (linked (is_id s) (db_events db)) (if is_id s = is_id src then is_event_count s - tot else is_event_count s)"
    "is_id s \<noteq> db_next db" if "s \<in> set (db_issues db)" for s
    using inv that fresh by (simp_all add: split_inv_def) (metis image_eqI)
  have "counts exact (linked (is_id s) (db_events (split_off now src fp db)))
      (if is_id s = is_id src then is_event_count s - (tot + int ?k) else is_event_count s)"
    if s: "s \<in> set (db_issues db)" for s
    using c [OF s] lk(2) unfolding split_off_sel(3) lk(1) by (auto simp: counts_def)
  moreover have "counts exact (linked (db_next db) (db_events (split_off now src fp db))) (int ?k)"
    unfolding split_off_sel(3) lk(1) by (simp add: counts_def)
  ultimately show ?thesis using inv split_off_struct [OF st src] ne
    by (simp add: split_inv_def split_off_sel(1) split_issue_fields)
qed

lemma split_all_inv:
  assumes "split_inv exact (is_id src) tot db" "x \<in> set (db_issues db)" "is_id x = is_id src" "is_project x = is_project src"
    and "covered db" "distinct fps" "\<exists>r \<in> set (db_fps db). fp_issue r = is_id src \<and> fp_fingerprint r \<notin> set fps"
    and "\<forall>fp \<in> set fps. \<exists>r \<in> set (db_fps db). fp_issue r = is_id src \<and> fp_fingerprint r = fp"
    and "split_all now src fps tot db = (tot', db')"
  shows "split_inv exact (is_id src) tot' db' \<and> covered db' \<and> x \<in> set (db_issues db')"
  using assms
proof (induction now src fps tot db rule: split_all.induct)
  case (2 now src fp fps tot db)
  let ?db = "split_off now src fp db"
  let ?r = "\<lambda>r. if fp_issue r = is_id src \<and> fp_fingerprint r = fp then r\<lparr>fp_issue := db_next db\<rparr> else r"
  have mem: "?r r \<in> set (db_fps ?db)" if "r \<in> set (db_fps db)" for r
    using that unfolding split_off_sel(2) by (simp del: if_image_distrib)
  obtain r0 where r0: "r0 \<in> set (db_fps db)" "fp_issue r0 = is_id src" "fp_fingerprint r0 \<notin> set (fp # fps)" using "2.prems"(7) by blast
  have keep: "\<exists>r \<in> set (db_fps ?db). fp_issue r = is_id src \<and> fp_fingerprint r \<notin> set fps"
    using mem [OF r0(1)] r0 by auto
  have rest: "\<forall>f \<in> set fps. \<exists>r \<in> set (db_fps ?db). fp_issue r = is_id src \<and> fp_fingerprint r = f"
  proof
    fix f assume f: "f \<in> set fps"
    then obtain r where r: "r \<in> set (db_fps db)" "fp_issue r = is_id src" "fp_fingerprint r = f" using "2.prems"(8) by auto
    have "f \<noteq> fp" using f "2.prems"(6) by auto
    then show "\<exists>r \<in> set (db_fps ?db). fp_issue r = is_id src \<and> fp_fingerprint r = f" using mem [OF r(1)] r by auto
  qed
  have "is_id s \<in> fp_issue ` set (db_fps ?db)" if s: "s \<in> set (db_issues ?db)" for s
  proof (cases "s = split_issue now src fp db")
    case True
    obtain r where r: "r \<in> set (db_fps db)" "fp_issue r = is_id src" "fp_fingerprint r = fp" using "2.prems"(8) by auto
    show ?thesis by (rule image_eqI [OF _ mem [OF r(1)]]) (simp add: True split_issue_fields r)
  next
    case False
    then have "s \<in> set (db_issues db)" using s by (simp add: split_off_sel)
    then obtain r where r: "r \<in> set (db_fps db)" "fp_issue r = is_id s" using "2.prems"(5) by (auto simp: covered_def image_iff)
    show ?thesis
    proof (cases "is_id s = is_id src")
      case True
      then show ?thesis using keep by (metis image_eqI)
    next
      case False
      then show ?thesis using r by (intro image_eqI [OF _ mem [OF r(1)]]) auto
    qed
  qed
  then have cov: "covered ?db" by (auto simp: covered_def)
  show ?case
    by (rule "2.IH") (use split_off_inv [OF "2.prems"(1-4)] "2.prems" cov keep rest in \<open>simp_all add: split_off_sel\<close>)
qed simp

lemma remaining_ok:
  assumes "issue_ok s" shows "issue_ok (remaining tot evs s)"
proof (cases "map ev_timestamp (filter (\<lambda>e. ev_issue e = Some (is_id s)) evs)")
  case (Cons t ts)
  have "foldl min t ts \<le> foldl max t ts" using foldl_min_le foldl_max_ge order_trans by blast
  then show ?thesis using assms unfolding remaining_def Let_def Cons by (simp add: issue_ok_def)
qed (use assms in \<open>simp add: remaining_def Let_def issue_ok_def\<close>)

lemma remaining_same [simp]:
  "is_id (remaining tot evs s) = is_id s" "is_project (remaining tot evs s) = is_project s"
  "is_event_count (remaining tot evs s) = max (is_event_count s - tot) 0"
  by (simp_all add: remaining_def Let_def)

lemma unmerge_run:
  assumes inv: "issues_inv exact db" and run: "UnmergeFingerprints now i fingerprints db = Unmerged db'"
  obtains src tot db1 where "src \<in> set (db_issues db)" "is_id src = i"
    "\<forall>fp \<in> set fingerprints. lookup_fp (is_project src) fp db = Some i"
    "\<exists>r \<in> set (db_fps db). fp_issue r = i \<and> fp_fingerprint r \<notin> set fingerprints"
    "split_all now src (sort (remdups fingerprints)) 0 db = (tot, db1)"
    "db' = update_issue i (remaining tot (db_events db1)) db1"
proof -
  define fps where "fps = sort (remdups fingerprints)"
  let ?mine = "filter (\<lambda>r. fp_issue r = i) (db_fps db)"
  let ?matched = "filter (\<lambda>r. fp_fingerprint r \<in> set fps) ?mine"
  have len: "length ?matched = length fps" "length fps < length ?mine"
    using run by (auto simp: UnmergeFingerprints_def Let_def fps_def [symmetric] split: if_splits)
  obtain src where src: "GetIssueMetadata i db = Some src"
    using run by (auto simp: UnmergeFingerprints_def Let_def split: if_splits option.splits)
  obtain tot db1 where all: "split_all now src fps 0 db = (tot, db1)" by fastforce
  have db': "db' = update_issue i (remaining tot (db_events db1)) db1"
    using run src all by (simp add: UnmergeFingerprints_def Let_def fps_def [symmetric] split: if_splits)
  have st: "struct_ok db" and ids: "ids_ok db" and s: "src \<in> set (db_issues db)" "is_id src = i"
    using inv metadata_mem [OF src] by (auto simp: issues_inv_def struct_ok_def)
  have proj: "fp_project r = is_project src" if "r \<in> set ?mine" for r
    using st s that by (fastforce simp: struct_ok_def fps_ok_def ids_ok_def dest: distinct_map_eq)
  have "distinct (map fp_key ?matched)" using st by (simp add: struct_ok_def ids_ok_def distinct_map_filter)
  then have "distinct (map fp_fingerprint ?matched)" using proj by (fastforce simp: distinct_map inj_on_def fp_key_def)
  then have "card (fp_fingerprint ` set ?matched) = length fps" using len(1) by (metis distinct_card length_map list.set_map)
  moreover have fps: "distinct fps" "set fps = set fingerprints" by (simp_all add: fps_def)
  ultimately have eq: "fp_fingerprint ` set ?matched = set fps"
    using distinct_card [OF fps(1)] by (intro card_subset_eq) auto
  have "\<forall>fp \<in> set fingerprints. lookup_fp (is_project src) fp db = Some i"
  proof
    fix fp assume "fp \<in> set fingerprints"
    then have "fp \<in> fp_fingerprint ` set ?matched" using eq fps(2) by blast
    then obtain r where r: "r \<in> set ?mine" "fp_fingerprint r = fp" by auto
    then show "lookup_fp (is_project src) fp db = Some i" using lookup_fp_unique [OF ids, of r] proj [OF r(1)] by auto
  qed
  moreover have "\<exists>r \<in> set ?mine. fp_fingerprint r \<notin> set fps"
    using len filter_id_conv [of "\<lambda>r. fp_fingerprint r \<in> set fps" ?mine] by (metis less_irrefl)
  then have "\<exists>r \<in> set (db_fps db). fp_issue r = i \<and> fp_fingerprint r \<notin> set fingerprints" using fps(2) by auto
  ultimately show thesis using that s all db' unfolding fps_def by blast
qed

lemma unmerge_inv:
  assumes inv: "issues_inv exact db" and run: "UnmergeFingerprints now i fingerprints db = Unmerged db'"
  shows "issues_inv exact db'"
  using inv run
proof (rule unmerge_run)
  fix src tot db1
  assume s: "src \<in> set (db_issues db)" "is_id src = i"
    and fps: "\<forall>fp \<in> set fingerprints. lookup_fp (is_project src) fp db = Some i"
    and keep: "\<exists>r \<in> set (db_fps db). fp_issue r = i \<and> fp_fingerprint r \<notin> set fingerprints"
    and all: "split_all now src (sort (remdups fingerprints)) 0 db = (tot, db1)"
    and db': "db' = update_issue i (remaining tot (db_events db1)) db1"
  have ex: "\<forall>fp \<in> set (sort (remdups fingerprints)). \<exists>r \<in> set (db_fps db). fp_issue r = is_id src \<and> fp_fingerprint r = fp"
    using fps lookup_fp_mem s(2) by fastforce
  have "split_inv exact (is_id src) 0 db" using inv by (auto simp: split_inv_def issues_inv_def counts_ok_def)
  note fin = split_all_inv [OF this s(1) refl refl _ _ _ ex all]
  have d: "split_inv exact i tot db1" "covered db1"
    using fin inv s(2) keep by (simp_all add: issues_inv_def)
  have "struct_ok db'" unfolding db' update_issue_def
    by (rule map_issues_struct) (use d(1) in \<open>simp_all add: split_inv_def\<close>)
  moreover have "covered db'" unfolding db' update_issue_def by (rule covered_map [OF d(2)]) simp
  moreover have "counts_ok exact db'" using d(1) unfolding db' update_issue_def counts_ok_def split_inv_def
    by (auto simp: counts_def)
  moreover have "list_all issue_ok (db_issues db')" using d(1) unfolding db' update_issue_def
    by (auto simp: split_inv_def list_all_iff remaining_ok)
  ultimately show "issues_inv exact db'" by (simp add: issues_inv_def)
qed

section \<open>Retention keeps the counts\<close>

lemma linked_split: "linked i (filter P evs) + linked i (filter (\<lambda>e. \<not> P e) evs) = linked i evs"
  by (induction evs) auto

lemma linked_sub: "distinct (map ev_id evs) \<Longrightarrow> distinct (map ev_id ds) \<Longrightarrow> set ds \<subseteq> set evs \<Longrightarrow>
  linked i ds + linked i (filter (\<lambda>e. ev_id e \<notin> ev_id ` set ds) evs) = linked i evs"
proof -
  assume evs: "distinct (map ev_id evs)" and ds: "distinct (map ev_id ds)" and sub: "set ds \<subseteq> set evs"
  have same: "e \<in> set ds" if "e \<in> set evs" "ev_id e \<in> ev_id ` set ds" for e
    using that sub evs by (auto dest: distinct_map_eq)
  have "set (filter (\<lambda>e. ev_issue e = Some i) ds) = set (filter (\<lambda>e. ev_issue e = Some i) (filter (\<lambda>e. ev_id e \<in> ev_id ` set ds) evs))"
    using same sub by auto
  moreover have "distinct (filter (\<lambda>e. ev_issue e = Some i) ds)"
    "distinct (filter (\<lambda>e. ev_issue e = Some i) (filter (\<lambda>e. ev_id e \<in> ev_id ` set ds) evs))"
    using ds evs by (simp_all add: distinct_map)
  ultimately have "linked i ds = linked i (filter (\<lambda>e. ev_id e \<in> ev_id ` set ds) evs)"
    unfolding linked_def by (metis distinct_card)
  then show ?thesis using linked_split [of i "\<lambda>e. ev_id e \<in> ev_id ` set ds" evs] by simp
qed

lemma expired_sub: "set (expired_events cutoff batch db) \<subseteq> {e \<in> set (db_events db). ev_received e < cutoff}"
  unfolding expired_events_def by (rule subset_trans [OF set_take_subset]) auto

lemma expired_distinct: "ids_ok db \<Longrightarrow> distinct (map ev_id (expired_events cutoff batch db))"
proof -
  assume "ids_ok db"
  then have d: "distinct (db_events db)" "inj_on ev_id (set (db_events db))" by (simp_all add: ids_ok_def distinct_map)
  have "distinct (expired_events cutoff batch db)" unfolding expired_events_def using d(1) by (intro distinct_take) simp
  moreover have "inj_on ev_id (set (expired_events cutoff batch db))"
    using d(2) expired_sub [of cutoff batch db] by (blast intro: inj_on_subset)
  ultimately show ?thesis by (simp add: distinct_map)
qed

lemma purge_events_inv:
  assumes inv: "issues_inv exact db"
  shows "issues_inv exact (issue_step db (IPurge cutoff batch))"
proof -
  have st: "struct_ok db" and cov: "covered db" and ids: "ids_ok db" using inv by (auto simp: issues_inv_def struct_ok_def)
  let ?doomed = "expired_events cutoff batch db"
  let ?ids = "ev_id ` set ?doomed"
  let ?evs = "filter (\<lambda>e. ev_id e \<notin> ?ids) (db_events db)"
  let ?db1 = "db\<lparr>db_events := ?evs, db_tags := filter (\<lambda>t. et_event t \<notin> ?ids) (db_tags db)\<rparr>"
  let ?f = "\<lambda>s. if 0 < linked (is_id s) ?doomed
    then s\<lparr>is_event_count := (if 0 < linked (is_id s) ?evs then max (is_event_count s - int (linked (is_id s) ?doomed)) 0 else 0)\<rparr> else s"
  let ?db2 = "?db1\<lparr>db_issues := map ?f (db_issues ?db1)\<rparr>"
  let ?empty = "\<lambda>s. 0 < linked (is_id s) ?doomed \<and> (is_status s = Resolved \<or> is_status s = Ignored) \<and> linked (is_id s) ?evs = 0"
  have run: "snd (snd (purgeEventBatch cutoff batch db)) = delete_issues ?empty ?db2"
    by (simp add: purgeEventBatch_def Let_def)
  have sum: "linked i ?doomed + linked i ?evs = linked i (db_events db)" for i
    using ids expired_sub [of cutoff batch db] expired_distinct [OF ids] by (intro linked_sub) (auto simp: ids_ok_def)
  have t: "\<exists>e \<in> set ?evs. ev_id e = et_event t \<and> ev_issue e = Some (et_issue t)" if tt: "t \<in> set (db_tags db)" "et_event t \<notin> ?ids" for t
  proof -
    obtain e where "e \<in> set (db_events db)" "ev_id e = et_event t" "ev_issue e = Some (et_issue t)"
      using st tt(1) by (auto simp: struct_ok_def tags_ok_def)
    then show ?thesis using tt(2) by (intro bexI [of _ e]) simp_all
  qed
  have "ids_ok ?db1" using ids by (simp add: ids_ok_def distinct_map_filter)
  moreover have "tags_ok ?db1" using t by (auto simp: tags_ok_def)
  ultimately have st1: "struct_ok ?db1" using st by (simp add: struct_ok_def fps_ok_def owned_ok_def)
  have same: "is_id (?f s) = is_id s \<and> is_project (?f s) = is_project s" for s by simp
  have st2: "struct_ok ?db2" by (rule map_issues_struct [OF st1 same])
  have live: "is_id s \<in> fp_issue ` set (db_fps ?db2) \<and> counts exact (linked (is_id s) (db_events ?db2)) (is_event_count s) \<and> issue_ok s"
    if s: "s \<in> set (db_issues ?db2)" for s
  proof -
    obtain x where x: "x \<in> set (db_issues db)" "s = ?f x" using s by (auto simp del: if_image_distrib)
    have "is_id s \<in> fp_issue ` set (db_fps db)" using cov x same [of x] by (auto simp: covered_def)
    moreover have cx: "counts exact (linked (is_id x) (db_events db)) (is_event_count x)" "issue_ok x"
      using inv x(1) by (simp_all add: issues_inv_def counts_ok_def list_all_iff)
    have "counts exact (linked (is_id x) ?evs) (is_event_count s)"
      using cx(1) sum [of "is_id x"] x(2) by (auto simp: counts_def)
    moreover have "issue_ok s" using cx(2) x(2) by (simp add: issue_ok_def)
    ultimately show ?thesis using same [of x] x(2) by simp
  qed
  show ?thesis unfolding issue_step.simps run
    by (rule delete_issues_inv(1) [OF st2]) (use live in simp_all)
qed

section \<open>Every history\<close>

theorem issues_step_inv: "issues_inv exact db \<Longrightarrow> (case op of IPerf _ _ _ _ _ _ _ \<Rightarrow> \<not> exact | _ \<Rightarrow> True) \<Longrightarrow> issues_inv exact (issue_step db op)"
proof (cases op)
  case (IOwn table i)
  then show "issues_inv exact db \<Longrightarrow> ?thesis" using insert_owned_inv [of exact db True table i] by simp
next
  case (IUnmerge now i fps)
  assume inv: "issues_inv exact db"
  show ?thesis unfolding IUnmerge issue_step.simps
    by (cases "UnmergeFingerprints now i fps db") (use inv unmerge_inv [OF inv] in simp_all)
next
  case (IPerf now project fp title env ts ok)
  assume "issues_inv exact db" "case op of IPerf _ _ _ _ _ _ _ \<Rightarrow> \<not> exact | _ \<Rightarrow> True"
  then show ?thesis unfolding IPerf using perf_writes_inv [of exact db] by simp
qed (simp_all only: insert_event_inv group_writes_inv handle_merge_inv status_inv bulk_inv auto_resolve_inv expire_inv assign_inv purge_events_inv)

lemma no_issues_inv: "issues_inv exact no_issues"
  by (simp add: issues_inv_defs no_issues_def)

interpretation issues: machine issue_step "issues_inv False"
  by unfold_locales (simp add: issues_step_inv split: issue_op.split)

fun writes_no_perf :: "issue_op \<Rightarrow> bool" where
  "writes_no_perf (IPerf _ _ _ _ _ _ _) = False"
| "writes_no_perf _ = True"

lemma error_histories: "list_all writes_no_perf ops \<Longrightarrow> issues_inv True db \<Longrightarrow> issues_inv True (foldl issue_step db ops)"
proof (induction ops arbitrary: db)
  case (Cons op ops)
  have "case op of IPerf _ _ _ _ _ _ _ \<Rightarrow> \<not> True | _ \<Rightarrow> True" using Cons.prems(1) by (cases op) simp_all
  from issues_step_inv [OF Cons.prems(2) this] show ?case using Cons by simp
qed simp

lemma event_owner:
  assumes inv: "issues_inv exact db" and e: "e \<in> set (db_events db)" "ev_issue e = Some i"
  shows "\<exists>fp s. ev_fingerprint e = Some fp \<and> lookup_fp (ev_project e) fp db = Some i
    \<and> GetIssueMetadata i db = Some s \<and> is_project s = ev_project e"
proof -
  have st: "struct_ok db" using inv by (simp add: issues_inv_def)
  then obtain r where r: "r \<in> set (db_fps db)" "fp_project r = ev_project e" "ev_fingerprint e = Some (fp_fingerprint r)" "fp_issue r = i"
    using e by (auto simp: struct_ok_def event_routed_def)
  obtain s where s: "s \<in> set (db_issues db)" "is_id s = i" "is_project s = ev_project e"
    using st r by (auto simp: struct_ok_def fps_ok_def)
  have ids: "ids_ok db" using st by (simp add: struct_ok_def)
  show ?thesis using lookup_fp_unique [OF ids r(1)] metadata_unique [OF ids s(1)] r s by auto
qed

text \<open>
C2: After any history of the writers (event inserts, grouping, the N+1 detector, comments, merges, unmerges, status
changes, assignments, the hourly sweeps and retention), interrupted or failing where they may: an event that is
grouped belongs to the issue its project's table of fingerprints maps its fingerprint to, that issue exists and is of
the event's project; every issue has a fingerprint that leads to it, counts at least the events it has, is limited by
an ignore only while it is ignored, and carries the mark of an expired snooze only while it is open.
\<close>

theorem issue_histories:
  "let db = foldl issue_step no_issues ops in
     list_all (\<lambda>e. case ev_issue e of None \<Rightarrow> True | Some i \<Rightarrow>
         \<exists>fp s. ev_fingerprint e = Some fp \<and> lookup_fp (ev_project e) fp db = Some i
           \<and> GetIssueMetadata i db = Some s \<and> is_project s = ev_project e) (db_events db)
     \<and> list_all (\<lambda>s. is_id s \<in> fp_issue ` set (db_fps db) \<and> int (linked (is_id s) (db_events db)) \<le> is_event_count s
         \<and> (is_status s = Ignored \<or> is_ignore_until s = None \<and> is_ignore_limit s = None)
         \<and> (is_status s = Open \<or> is_snooze_ended s = None)) (db_issues db)"
proof -
  define db where "db = foldl issue_step no_issues ops"
  have inv: "issues_inv False db" unfolding db_def by (rule issues.run_inv) (rule no_issues_inv)
  have "list_all (\<lambda>e. case ev_issue e of None \<Rightarrow> True | Some i \<Rightarrow>
         \<exists>fp s. ev_fingerprint e = Some fp \<and> lookup_fp (ev_project e) fp db = Some i
           \<and> GetIssueMetadata i db = Some s \<and> is_project s = ev_project e) (db_events db)"
    using event_owner [OF inv] by (auto simp: list_all_iff split: option.split)
  moreover have "is_id s \<in> fp_issue ` set (db_fps db) \<and> int (linked (is_id s) (db_events db)) \<le> is_event_count s
         \<and> (is_status s = Ignored \<or> is_ignore_until s = None \<and> is_ignore_limit s = None)
         \<and> (is_status s = Open \<or> is_snooze_ended s = None)" if "s \<in> set (db_issues db)" for s
    using inv that by (auto simp: issues_inv_def covered_def counts_ok_def counts_def list_all_iff issue_ok_def)
  ultimately show ?thesis by (simp add: db_def [symmetric] list_all_iff)
qed

text \<open>
C28: Without the N+1 detector's issues, which count calls and not events, the number an issue shows is exactly the
number of events grouped into it, after any history of grouping, merging, unmerging, status changes and retention.
\<close>

theorem event_counts_exact:
  assumes "list_all writes_no_perf ops"
  defines "db \<equiv> foldl issue_step no_issues ops"
  assumes "s \<in> set (db_issues db)"
  shows "is_event_count s = int (linked (is_id s) (db_events db))"
  using error_histories [OF assms(1) no_issues_inv] assms(3) unfolding db_def
  by (simp add: issues_inv_def counts_ok_def counts_def)

definition sample_event :: event_row where
  "sample_event = \<lparr>ev_id = 0, ev_project = ''p'', ev_event_id = None, ev_timestamp = 5, ev_received = 6, ev_fingerprint = None,
     ev_issue = None, ev_title = ''Boom'', ev_level = None, ev_release = None, ev_environment = None\<rparr>"

definition sample_ops :: "issue_op list" where
  "sample_ops = [IInsert sample_event, IGroup 7 0 ''f1'' [] ''Boom'' ''error'' [] [] [(''k'', ''v'')] True True True,
     IInsert sample_event, IGroup 8 3 ''f2'' [] ''Bang'' ''error'' [] [] [] True True True, IMerge ''p'' [1, 4]]"

lemma sample_tables:
  "map (\<lambda>s. (is_id s, is_event_count s)) (db_issues (foldl issue_step no_issues sample_ops)) = [(1, 2)]"
  by code_simp

theorem event_counts_exact_witness:
  "\<exists>s \<in> set (db_issues (foldl issue_step no_issues sample_ops)). is_event_count s = 2
     \<and> is_event_count s = int (linked (is_id s) (db_events (foldl issue_step no_issues sample_ops)))"
proof -
  obtain s where s: "s \<in> set (db_issues (foldl issue_step no_issues sample_ops))" "is_event_count s = 2"
    using sample_tables by (auto simp: map_eq_Cons_conv)
  have "list_all writes_no_perf sample_ops" by (simp add: sample_ops_def)
  from event_counts_exact [OF this s(1)] show ?thesis using s by blast
qed

section \<open>Grouping, ignoring, merging and splitting\<close>

lemma was_regressed_iff: "was_regressed prev (touch_issue now ts level env release prev) \<longleftrightarrow> comes_back now prev"
  by (auto simp: was_regressed_def touch_issue_def comes_back_def ignore_over_def)

lemma metadata_update:
  "GetIssueMetadata j (update_issue i f db) = map_option (\<lambda>s. if is_id s = i then f s else s) (GetIssueMetadata j db)"
  if "\<And>s. is_id (f s) = is_id s"
  unfolding GetIssueMetadata_def update_issue_def by (simp add: find_map_keep that)

lemma metadata_link [simp]: "GetIssueMetadata j (link_event e fp i db) = GetIssueMetadata j db"
  by (simp add: GetIssueMetadata_def link_event_def)

text \<open>
C23: When an event is grouped into an existing issue, the grouper is told of a regression exactly when the issue was
resolved, was open after an expired snooze, or was ignored and this event ended the ignore; the issue then is
regressed, with the time and release of the regression, and otherwise keeps its status. The issue stored is the one
reported, with one event more.
\<close>

theorem regression_reported:
  assumes "GroupEvent now eventID fingerprint legacy title level env release db = (Some (s, False, regressed), db')"
  shows "case GetIssueMetadata (is_id s) db of
      None \<Rightarrow> False
    | Some prev \<Rightarrow> (regressed \<longleftrightarrow> comes_back now prev)
        \<and> is_status s = (if regressed then Regressed else is_status prev)
        \<and> (regressed \<longrightarrow> is_regressed_at s = Some now \<and> is_regressed_release s = null_if_empty release)
        \<and> is_snooze_ended s = None \<and> is_event_count s = is_event_count prev + 1 \<and> GetIssueMetadata (is_id s) db' = Some s"
  using assms
proof (cases rule: group_cases)
  case (grouped e s' created' regressed' db1)
  let ?fp = "route_fp (ev_project e) fingerprint legacy db"
  have eq: "s' = s" "created' = False" "regressed' = regressed" using grouped(1) by simp_all
  show ?thesis using grouped(5) unfolding eq
  proof (cases rule: upsert_cases)
    case (old i prev)
    have i: "is_id prev = i" using metadata_mem [OF old(2)] by simp
    then have si: "is_id s = i" by (simp add: old(3))
    have "GetIssueMetadata i db' = Some s" using grouped(6) old(2) i by (simp add: metadata_update old(3,6))
    moreover have "regressed \<longleftrightarrow> comes_back now prev" using old(3,5) was_regressed_iff by simp
    ultimately show ?thesis using old(2) si i
      by (auto simp: old(3) touch_issue_def comes_back_def split: option.splits)
  next
    case new
    then show ?thesis by simp
  qed
qed simp


definition resolved_db :: issue_db where
  "resolved_db = foldl issue_step no_issues [IInsert sample_event,
     IGroup 7 0 ''f1'' [] ''Boom'' ''error'' [] [] [] True True True, IStatus ''p'' 1 Resolved None, IInsert sample_event]"

lemma resolved_group:
  "case GroupEvent 9 3 ''f1'' [] ''Boom'' ''error'' [] ''v2'' resolved_db of
     (Some (s, created, regressed), db') \<Rightarrow> \<not> created \<and> regressed | _ \<Rightarrow> False"
  by code_simp

theorem regression_reported_witness:
  "\<exists>s db'. GroupEvent 9 3 ''f1'' [] ''Boom'' ''error'' [] ''v2'' resolved_db = (Some (s, False, True), db')
     \<and> is_status s = Regressed \<and> is_regressed_at s = Some 9 \<and> GetIssueMetadata (is_id s) db' = Some s"
proof -
  obtain s db' where g: "GroupEvent 9 3 ''f1'' [] ''Boom'' ''error'' [] ''v2'' resolved_db = (Some (s, False, True), db')"
    using resolved_group by (auto split: prod.splits option.splits)
  show ?thesis using regression_reported [OF g] g by (auto split: option.splits)
qed

text \<open>Events that hit an issue one after the other, and no other change.\<close>

fun hits :: "nanos list \<Rightarrow> issue \<Rightarrow> issue" where
  "hits [] s = s"
| "hits (now # ts) s = hits ts (touch_issue now now ''error'' [] [] s)"

lemma hits_ignored:
  "is_status s = Ignored \<Longrightarrow> is_ignore_until s = None \<Longrightarrow> is_ignore_limit s = Some l \<Longrightarrow> is_ignore_count s + int (length ts) < l \<Longrightarrow>
   is_status (hits ts s) = Ignored \<and> is_ignore_until (hits ts s) = None \<and> is_ignore_limit (hits ts s) = Some l
   \<and> is_ignore_count (hits ts s) = is_ignore_count s + int (length ts)"
proof (induction ts arbitrary: s)
  case (Cons now ts)
  let ?s = "touch_issue now now ''error'' [] [] s"
  have "is_status ?s = Ignored" "is_ignore_until ?s = None" "is_ignore_limit ?s = Some l" "is_ignore_count ?s = is_ignore_count s + 1"
    using Cons.prems by (simp_all add: touch_issue_def comes_back_def ignore_over_def)
  with Cons.IH [of ?s] Cons.prems show ?case by simp
qed simp

lemma hits_append: "hits (ts @ us) s = hits us (hits ts s)"
  by (induction ts arbitrary: s) auto

lemma hits_regressed:
  "is_status s = Regressed \<Longrightarrow> is_ignore_limit s = None \<Longrightarrow> is_status (hits ts s) = Regressed \<and> is_ignore_limit (hits ts s) = None"
proof (induction ts arbitrary: s)
  case (Cons now ts)
  show ?case unfolding hits.simps
    by (rule Cons.IH) (use Cons.prems in \<open>simp_all add: touch_issue_def comes_back_def ignore_over_def\<close>)
qed simp

text \<open>
An issue ignored until it has had \<open>n\<close> more events (\<open>n\<close> positive) stays ignored through the first \<open>n - 1\<close>, is
regressed by the \<open>n\<close>-th, not before and not after, and stays so; from then on no limit is left on it.
\<close>

theorem ignore_limit_exact:
  assumes "0 < n"
  shows "is_status (hits ts (set_status Ignored (Some (None, Some (int n))) s)) = (if length ts < n then Ignored else Regressed)
    \<and> is_ignore_limit (hits ts (set_status Ignored (Some (None, Some (int n))) s)) = (if length ts < n then Some (int n) else None)"
proof -
  let ?s = "set_status Ignored (Some (None, Some (int n))) s"
  have start: "is_status ?s = Ignored" "is_ignore_until ?s = None" "is_ignore_limit ?s = Some (int n)" "is_ignore_count ?s = 0"
    by (simp_all add: set_status_def)
  note early = hits_ignored [OF start(1-3)]
  show ?thesis
  proof (cases "length ts < n")
    case True
    then show ?thesis using early [of ts] start(4) by simp
  next
    case False
    let ?a = "take (n - 1) ts" and ?h = "ts ! (n - 1)" and ?r = "drop n ts"
    have ts: "ts = ?a @ [?h] @ ?r" using False assms id_take_nth_drop [of "n - 1" ts] by simp
    have a: "length ?a = n - 1" using False by simp
    have "is_ignore_count ?s + int (length ?a) < int n" using a start(4) assms by simp
    note at = early [OF this]
    have "is_status (hits [?h] (hits ?a ?s)) = Regressed \<and> is_ignore_limit (hits [?h] (hits ?a ?s)) = None"
      using at a start(4) assms by (simp add: touch_issue_def comes_back_def ignore_over_def)
    then have "is_status (hits ?r (hits [?h] (hits ?a ?s))) = Regressed \<and> is_ignore_limit (hits ?r (hits [?h] (hits ?a ?s))) = None"
      using hits_regressed by blast
    then have "is_status (hits ts ?s) = Regressed \<and> is_ignore_limit (hits ts ?s) = None"
      by (metis hits_append ts)
    then show ?thesis using False by simp
  qed
qed

theorem ignore_limit_exact_witness:
  "let s = new_issue 1 ''p'' ''f'' ''Boom'' ''error'' ''error'' None None 0 0 1 0 in
     is_status (hits [1, 2] (set_status Ignored (Some (None, Some (int 3))) s)) = Ignored
     \<and> is_status (hits [1, 2, 3] (set_status Ignored (Some (None, Some (int 3))) s)) = Regressed"
  using ignore_limit_exact [of 3 "[1, 2]" "new_issue 1 ''p'' ''f'' ''Boom'' ''error'' ''error'' None None 0 0 1 0"]
    ignore_limit_exact [of 3 "[1, 2, 3]" "new_issue 1 ''p'' ''f'' ''Boom'' ''error'' ''error'' None None 0 0 1 0"] by simp

lemma sum_filter_disj:
  "(\<And>x. x \<in> set xs \<Longrightarrow> \<not> (P x \<and> Q x)) \<Longrightarrow> (\<Sum>x\<leftarrow>filter (\<lambda>x. P x \<or> Q x) xs. f x) = (\<Sum>x\<leftarrow>filter P xs. f x) + (\<Sum>x\<leftarrow>filter Q xs. (f x :: int))"
  by (induction xs) auto

lemma filter_unique: "distinct (map f xs) \<Longrightarrow> x \<in> set xs \<Longrightarrow> filter (\<lambda>y. f y = f x) xs = [x]"
  by (induction xs) (auto simp: image_iff filter_empty_conv)

lemma lookup_fp_map:
  "db_fps db' = map (\<lambda>r. r\<lparr>fp_issue := g (fp_issue r)\<rparr>) (db_fps db) \<Longrightarrow> lookup_fp q f db' = map_option g (lookup_fp q f db)"
proof -
  have "find (\<lambda>r. fp_project r = q \<and> fp_fingerprint r = f) (map (\<lambda>r. r\<lparr>fp_issue := g (fp_issue r)\<rparr>) rs)
    = map_option (\<lambda>r. r\<lparr>fp_issue := g (fp_issue r)\<rparr>) (find (\<lambda>r. fp_project r = q \<and> fp_fingerprint r = f) rs)" for rs
    by (induction rs) auto
  from this [of "db_fps db"]
  show "db_fps db' = map (\<lambda>r. r\<lparr>fp_issue := g (fp_issue r)\<rparr>) (db_fps db) \<Longrightarrow> ?thesis"
    by (cases "find (\<lambda>r. fp_project r = q \<and> fp_fingerprint r = f) (db_fps db)") (simp_all add: lookup_fp_def)
qed

text \<open>
C5: A merge request that is answered with an issue has moved everything to the first of the issues it names and has
lost nothing: every event, tag and fingerprint of the others is the first one's now, those of other issues are as they
were, the others are gone, and the count of the first is the sum of all of them.
\<close>

theorem merge_keeps_everything:
  assumes "issues_inv exact db" "handleMergeIssues project issueIDs db = (Merged r, db')"
  shows "let p = hd issueIDs; ids = set issueIDs; to = (\<lambda>i. if i \<in> ids then p else i) in
    db_events db' = map (\<lambda>e. e\<lparr>ev_issue := map_option to (ev_issue e)\<rparr>) (db_events db)
    \<and> db_tags db' = map (\<lambda>t. t\<lparr>et_issue := to (et_issue t)\<rparr>) (db_tags db)
    \<and> (\<forall>q f. lookup_fp q f db' = map_option to (lookup_fp q f db))
    \<and> map is_id (db_issues db') = filter (\<lambda>i. i \<notin> ids - {p}) (map is_id (db_issues db))
    \<and> (\<exists>s. r = Some s \<and> GetIssueMetadata p db' = Some s \<and> is_event_count s = (\<Sum>x\<leftarrow>filter (\<lambda>x. is_id x \<in> ids) (db_issues db). is_event_count x))"
proof -
  have inv: "issues_inv exact db" by fact
  have ids: "ids_ok db" using inv by (simp add: issues_inv_def struct_ok_def)
  then show ?thesis
  proof (cases rule: handle_merge_cases [where project = project and issueIDs = issueIDs])
    case (merged s p merged)
    let ?gone = "filter (\<lambda>s. is_id s \<in> set merged) (db_issues db)"
    let ?db3 = "delete_issues (\<lambda>s. is_id s \<in> set merged) (update_issue p (absorb ?gone) (reassign merged p db))"
    have db': "db' = ?db3" and r: "r = Some (absorb ?gone s)" using assms(2) merged(9) by simp_all
    have p: "p = hd issueIDs" using merged(1) by (cases issueIDs) simp_all
    have all: "set issueIDs = insert p (set merged)" using uniqueStrings_props(1) [of "[]" issueIDs] merged(1) by auto
    have "p \<notin> set merged" using merged(3) by simp
    have to: "moved merged p = (\<lambda>i. if i \<in> set issueIDs then p else i)" by (auto simp: moved_def all fun_eq_iff)
    have proj: "\<forall>x \<in> set (db_issues db). is_id x \<in> set merged \<longrightarrow> is_project x = is_project s" using merged(6,8) by simp
    note m = merge_inv [OF inv merged(4,5,3,7) proj]
    have 1: "db_events db' = map (\<lambda>e. e\<lparr>ev_issue := map_option (moved merged p) (ev_issue e)\<rparr>) (db_events db)"
      "db_tags db' = map (\<lambda>t. t\<lparr>et_issue := moved merged p (et_issue t)\<rparr>) (db_tags db)"
      using m(2,3) unfolding db' by (simp_all add: reassign_def)
    have doomed: "set (map is_id (filter (\<lambda>s. is_id s \<in> set merged) (db_issues (update_issue p (absorb ?gone) (reassign merged p db))))) \<subseteq> set merged"
      by auto
    have "moved merged p i \<notin> set merged" for i using \<open>p \<notin> set merged\<close> by (simp add: moved_def)
    then have fps: "db_fps db' = map (\<lambda>r. r\<lparr>fp_issue := moved merged p (fp_issue r)\<rparr>) (db_fps db)"
      unfolding db' delete_issues_def Let_def using doomed by (auto simp: update_issue_def reassign_def filter_id_conv)
    note 2 = lookup_fp_map [OF fps]
    have is_filter: "map is_id (filter (\<lambda>s. is_id s \<notin> set merged) xs) = filter (\<lambda>i. i \<notin> set merged) (map is_id xs)" for xs
      by (induction xs) auto
    have iss: "db_issues db' = filter (\<lambda>s. is_id s \<notin> set merged) (map (\<lambda>x. if is_id x = p then absorb ?gone x else x) (db_issues db))"
      unfolding db' by (simp add: delete_issues_def Let_def update_issue_def reassign_def)
    have "map is_id (map (\<lambda>x. if is_id x = p then absorb ?gone x else x) (db_issues db)) = map is_id (db_issues db)" by simp
    then have 3: "map is_id (db_issues db') = filter (\<lambda>i. i \<notin> set merged) (map is_id (db_issues db))"
      unfolding iss is_filter by (rule arg_cong)
    have "absorb ?gone s \<in> set (db_issues db')" unfolding iss using merged(4,5) \<open>p \<notin> set merged\<close> by auto
    moreover have "ids_ok db'" using m(1) unfolding db' by (simp add: issues_inv_def struct_ok_def)
    ultimately have 4: "GetIssueMetadata p db' = Some (absorb ?gone s)"
      using metadata_unique [of db' "absorb ?gone s"] merged(5) by simp
    have "filter (\<lambda>x. is_id x = p) (db_issues db) = [s]" using filter_unique [of is_id] ids merged(4,5) by (auto simp: ids_ok_def)
    moreover have "(\<Sum>x\<leftarrow>filter (\<lambda>x. is_id x = p \<or> is_id x \<in> set merged) (db_issues db). is_event_count x)
      = (\<Sum>x\<leftarrow>filter (\<lambda>x. is_id x = p) (db_issues db). is_event_count x) + (\<Sum>x\<leftarrow>?gone. is_event_count x)"
      by (rule sum_filter_disj) (use \<open>p \<notin> set merged\<close> in auto)
    ultimately have 5: "is_event_count (absorb ?gone s) = (\<Sum>x\<leftarrow>filter (\<lambda>x. is_id x \<in> set issueIDs) (db_issues db). is_event_count x)"
      unfolding all by simp
    have rest: "set issueIDs - {p} = set merged" using all \<open>p \<notin> set merged\<close> by auto
    show ?thesis unfolding Let_def p [symmetric] rest using 1 2 3 4 5 r unfolding to by simp
  qed (use assms(2) in auto)
qed

theorem merge_keeps_everything_witness:
  "\<exists>r db'. handleMergeIssues ''p'' [1, 4] (foldl issue_step no_issues (butlast sample_ops)) = (Merged r, db')
     \<and> (\<exists>s. r = Some s \<and> is_event_count s = 2 \<and> GetIssueMetadata 1 db' = Some s)"
proof -
  let ?db = "foldl issue_step no_issues (butlast sample_ops)"
  have c: "case handleMergeIssues ''p'' [1, 4] ?db of (Merged r, db') \<Rightarrow> True | _ \<Rightarrow> False"
    "(\<Sum>x\<leftarrow>filter (\<lambda>x. is_id x \<in> {1, 4}) (db_issues ?db). is_event_count x) = 2"
    by code_simp+
  obtain r db' where run: "handleMergeIssues ''p'' [1, 4] ?db = (Merged r, db')"
    using c(1) by (auto split: prod.splits merge_response.splits)
  have inv: "issues_inv False ?db" by (rule issues.run_inv) (rule no_issues_inv)
  have "\<exists>s. r = Some s \<and> GetIssueMetadata 1 db' = Some s \<and> is_event_count s = 2"
    using merge_keeps_everything [OF inv run] c(2) unfolding Let_def list.sel(1) list.set 
    by (elim conjE exE) (intro exI conjI, assumption, assumption, rule trans, assumption, assumption)
  then show ?thesis using run by blast
qed

lemma lookup_fp_None_iff: "lookup_fp p f db = None \<longleftrightarrow> (p, f) \<notin> fp_key ` set (db_fps db)"
  by (auto simp: lookup_fp_def find_None_iff fp_key_def)

lemma split_all_events:
  assumes "struct_ok db" "x \<in> set (db_issues db)" "is_id x = is_id src" "is_project x = is_project src" "distinct fps"
    and "\<forall>fp \<in> set fps. lookup_fp (is_project src) fp db = Some (is_id src)"
    and "split_all now src fps tot db = (tot', db')"
  shows "\<exists>f. inj_on f (set fps) \<and> f ` set fps \<inter> is_id ` set (db_issues db) = {}
    \<and> db_events db' = map (\<lambda>e. case ev_fingerprint e of None \<Rightarrow> e
        | Some fp \<Rightarrow> if ev_issue e = Some (is_id src) \<and> fp \<in> set fps then e\<lparr>ev_issue := Some (f fp)\<rparr> else e) (db_events db)
    \<and> (\<forall>q fp. lookup_fp q fp db' = (if q = is_project src \<and> fp \<in> set fps then Some (f fp) else lookup_fp q fp db))
    \<and> map is_id (db_issues db') = map is_id (db_issues db) @ map f fps"
  using assms
proof (induction now src fps tot db rule: split_all.induct)
  case (1 now src tot db)
  then show ?case by (auto intro!: exI [of _ "\<lambda>_. 0"] map_idI [symmetric] split: option.split)
next
  case (2 now src fp fps tot db)
  let ?db = "split_off now src fp db" and ?n = "db_next db"
  have st: "struct_ok ?db" by (rule split_off_struct [OF "2.prems"(1-4)])
  have fresh: "?n \<notin> is_id ` set (db_issues db)" by (rule fresh_id [OF "2.prems"(1)])
  then have ne: "?n \<noteq> is_id src" using "2.prems"(2,3) by (metis image_eqI)
  have lk: "lookup_fp q f ?db = (if q = is_project src \<and> f = fp then Some ?n else lookup_fp q f db)" for q f
  proof (cases "lookup_fp q f db")
    case None
    have "map fp_key (db_fps ?db) = map fp_key (db_fps db)" by (simp add: split_off_sel(2) fp_key_def)
    then have "fp_key ` set (db_fps ?db) = fp_key ` set (db_fps db)" by (metis list.set_map)
    then have "lookup_fp q f ?db = None" using None by (simp add: lookup_fp_None_iff)
    moreover have "\<not> (q = is_project src \<and> f = fp)" using None "2.prems"(6) by auto
    ultimately show ?thesis using None by auto
  next
    case (Some i)
    obtain r where r: "r \<in> set (db_fps db)" "fp_project r = q" "fp_fingerprint r = f" "fp_issue r = i"
      using lookup_fp_mem [OF Some] by blast
    let ?r = "\<lambda>r. if fp_issue r = is_id src \<and> fp_fingerprint r = fp then r\<lparr>fp_issue := ?n\<rparr> else r"
    have "?r r \<in> set (db_fps ?db)" using r(1) unfolding split_off_sel(2) by (simp del: if_image_distrib)
    moreover have "ids_ok ?db" using st by (simp add: struct_ok_def)
    ultimately have "lookup_fp (fp_project (?r r)) (fp_fingerprint (?r r)) ?db = Some (fp_issue (?r r))"
      by (intro lookup_fp_unique)
    moreover have "fp_project (?r r) = q" "fp_fingerprint (?r r) = f" using r by simp_all
    ultimately have at: "lookup_fp q f ?db = Some (fp_issue (?r r))" by (simp only:)
    obtain s where "s \<in> set (db_issues db)" "is_id s = fp_issue r" "is_project s = fp_project r"
      using "2.prems"(1) r(1) by (auto simp: struct_ok_def fps_ok_def)
    then have "fp_issue r = is_id src \<Longrightarrow> q = is_project src"
      using "2.prems"(1-4) r(2) by (auto simp: struct_ok_def ids_ok_def dest: distinct_map_eq)
    moreover have "q = is_project src \<Longrightarrow> f = fp \<Longrightarrow> i = is_id src" using "2.prems"(6) Some by simp
    ultimately show ?thesis using at r Some by auto
  qed
  have pre: "\<forall>f \<in> set fps. lookup_fp (is_project src) f ?db = Some (is_id src)" using "2.prems"(5,6) lk by auto
  have mem: "x \<in> set (db_issues ?db)" using "2.prems"(2) by (simp add: split_off_sel)
  obtain f where f: "inj_on f (set fps)" "f ` set fps \<inter> is_id ` set (db_issues ?db) = {}"
    "db_events db' = map (\<lambda>e. case ev_fingerprint e of None \<Rightarrow> e
        | Some fp \<Rightarrow> if ev_issue e = Some (is_id src) \<and> fp \<in> set fps then e\<lparr>ev_issue := Some (f fp)\<rparr> else e) (db_events ?db)"
    "\<And>q f'. lookup_fp q f' db' = (if q = is_project src \<and> f' \<in> set fps then Some (f f') else lookup_fp q f' ?db)"
    "map is_id (db_issues db') = map is_id (db_issues ?db) @ map f fps"
    using "2.IH" [OF st mem "2.prems"(3,4) _ pre] "2.prems"(5,7) by (auto simp del: split_off_sel)
  let ?f = "f(fp := ?n)"
  have nf: "fp \<notin> set fps" using "2.prems"(5) by simp
  have iss: "is_id ` set (db_issues ?db) = insert ?n (is_id ` set (db_issues db))" by (simp add: split_off_sel split_issue_fields)
  have same: "map ?f fps = map f fps" "?f ` set fps = f ` set fps" using nf by (auto intro!: map_cong image_cong)
  have "?n \<notin> f ` set fps" using f(2) unfolding iss by blast
  then have 1: "inj_on ?f (set (fp # fps))" using inj_on_fun_updI [OF f(1)] same(2) nf by simp
  have 2: "?f ` set (fp # fps) \<inter> is_id ` set (db_issues db) = {}" using f(2) same(2) fresh unfolding iss by auto
  have 3: "db_events db' = map (\<lambda>e. case ev_fingerprint e of None \<Rightarrow> e
      | Some f' \<Rightarrow> if ev_issue e = Some (is_id src) \<and> f' \<in> set (fp # fps) then e\<lparr>ev_issue := Some (?f f')\<rparr> else e) (db_events db)"
    unfolding f(3) split_off_sel(3) map_map using nf ne by (intro map_cong) (auto split: option.splits)
  have 4: "\<forall>q f'. lookup_fp q f' db' = (if q = is_project src \<and> f' \<in> set (fp # fps) then Some (?f f') else lookup_fp q f' db)"
    using f(4) lk nf by auto
  have 5: "map is_id (db_issues db') = map is_id (db_issues db) @ map ?f (fp # fps)"
    unfolding f(5) using same(1) by (simp add: split_off_sel split_issue_fields)
  show ?case using 1 2 3 4 5 by blast
qed


text \<open>
C10: An unmerge that succeeds gives each named fingerprint an issue of its own that did not exist before, distinct ones
for distinct fingerprints: exactly the original issue's events with that fingerprint move to it, later events with the
fingerprint go to it, and every other event and every other fingerprint keeps its issue.
\<close>

theorem unmerge_separates:
  assumes "issues_inv exact db" "UnmergeFingerprints now i fingerprints db = Unmerged db'"
  shows "\<exists>f project. inj_on f (set fingerprints) \<and> f ` set fingerprints \<inter> is_id ` set (db_issues db) = {}
    \<and> db_events db' = map (\<lambda>e. case ev_fingerprint e of None \<Rightarrow> e
        | Some fp \<Rightarrow> if ev_issue e = Some i \<and> fp \<in> set fingerprints then e\<lparr>ev_issue := Some (f fp)\<rparr> else e) (db_events db)
    \<and> (\<forall>q fp. lookup_fp q fp db' = (if q = project \<and> fp \<in> set fingerprints then Some (f fp) else lookup_fp q fp db))
    \<and> set (map is_id (db_issues db')) = set (map is_id (db_issues db)) \<union> f ` set fingerprints
    \<and> issues_inv exact db'"
  using assms
proof (rule unmerge_run)
  fix src tot db1
  assume src: "src \<in> set (db_issues db)" "is_id src = i"
    and fps: "\<forall>fp \<in> set fingerprints. lookup_fp (is_project src) fp db = Some i"
    and run: "split_all now src (sort (remdups fingerprints)) 0 db = (tot, db1)"
    and db': "db' = update_issue i (remaining tot (db_events db1)) db1"
  have st: "struct_ok db" using assms(1) by (simp add: issues_inv_def)
  have dist: "distinct (sort (remdups fingerprints))" and same: "set (sort (remdups fingerprints)) = set fingerprints" by simp_all
  have "map is_id (db_issues db') = map is_id (db_issues db1)" unfolding db' update_issue_def by simp
  moreover have "db_events db' = db_events db1" "\<And>q fp. lookup_fp q fp db' = lookup_fp q fp db1"
    unfolding db' update_issue_def by (simp_all add: lookup_fp_def)
  moreover obtain f where f: "inj_on f (set fingerprints)" "f ` set fingerprints \<inter> is_id ` set (db_issues db) = {}"
    "db_events db1 = map (\<lambda>e. case ev_fingerprint e of None \<Rightarrow> e
        | Some fp \<Rightarrow> if ev_issue e = Some i \<and> fp \<in> set fingerprints then e\<lparr>ev_issue := Some (f fp)\<rparr> else e) (db_events db)"
    "\<forall>q fp. lookup_fp q fp db1 = (if q = is_project src \<and> fp \<in> set fingerprints then Some (f fp) else lookup_fp q fp db)"
    "map is_id (db_issues db1) = map is_id (db_issues db) @ map f (sort (remdups fingerprints))"
    using split_all_events [OF st src(1) refl refl dist _ run, unfolded src(2) same, OF fps] by blast
  ultimately have "db_events db' = map (\<lambda>e. case ev_fingerprint e of None \<Rightarrow> e
        | Some fp \<Rightarrow> if ev_issue e = Some i \<and> fp \<in> set fingerprints then e\<lparr>ev_issue := Some (f fp)\<rparr> else e) (db_events db)"
    "\<forall>q fp. lookup_fp q fp db' = (if q = is_project src \<and> fp \<in> set fingerprints then Some (f fp) else lookup_fp q fp db)"
    "set (map is_id (db_issues db')) = set (map is_id (db_issues db)) \<union> f ` set fingerprints" by simp_all
  with f(1,2) unmerge_inv [OF assms] show ?thesis by blast
qed


theorem unmerge_separates_witness:
  "\<exists>db'. UnmergeFingerprints 9 1 [''f2''] (foldl issue_step no_issues sample_ops) = Unmerged db' \<and> issues_inv False db'
     \<and> (\<exists>i. i \<notin> is_id ` set (db_issues (foldl issue_step no_issues sample_ops)) \<and> i \<in> is_id ` set (db_issues db'))"
proof -
  let ?db = "foldl issue_step no_issues sample_ops"
  have c: "case UnmergeFingerprints 9 1 [''f2''] ?db of Unmerged db' \<Rightarrow> True | _ \<Rightarrow> False" by code_simp
  obtain db' where run: "UnmergeFingerprints 9 1 [''f2''] ?db = Unmerged db'"
    using c by (auto split: unmerge_result.splits)
  have inv: "issues_inv False ?db" by (rule issues.run_inv) (rule no_issues_inv)
  obtain f where "f ` set [''f2''] \<inter> is_id ` set (db_issues ?db) = {}"
    "set (map is_id (db_issues db')) = set (map is_id (db_issues ?db)) \<union> f ` set [''f2'']" "issues_inv False db'"
    using unmerge_separates [OF inv run] by blast
  then show ?thesis using run by (intro exI [of _ db'] conjI exI [of _ "f ''f2''"]) auto
qed

text \<open>
Two writers that see a new fingerprint at the same time make one issue: the second one's insert conflicts with the
first one's, its single retry finds the issue and counts the event there, and no second row for the fingerprint is made.
\<close>

theorem upsert_race_absorbed:
  assumes "issues_inv exact db" "lookup_fp project fp seen = None" "lookup_fp project fp db = Some i"
  shows "upsertIssueOnce now seen project fp title level kind env release ts db = FingerprintConflict
    \<and> (\<exists>s regressed db'. upsertIssue now seen db project fp title level kind env release ts db = Upserted s False regressed db'
      \<and> is_id s = i \<and> GetIssueMetadata i db' = Some s \<and> db_fps db' = db_fps db \<and> length (db_issues db') = length (db_issues db))"
proof -
  have once: "upsertIssueOnce now seen project fp title level kind env release ts db = FingerprintConflict"
    using assms(2,3) by (simp add: upsertIssueOnce_def)
  have st: "struct_ok db" using assms(1) by (simp add: issues_inv_def)
  obtain r where "r \<in> set (db_fps db)" "fp_issue r = i" using lookup_fp_mem [OF assms(3)] by blast
  then obtain s where s: "s \<in> set (db_issues db)" "is_id s = i" using st by (auto simp: struct_ok_def fps_ok_def)
  have m: "GetIssueMetadata i db = Some s" using metadata_unique [OF _ s(1)] st s(2) by (simp add: struct_ok_def)
  let ?s = "touch_issue now ts level env release s"
  let ?db = "update_issue i (touch_issue now ts level env release) db"
  have "upsertIssue now seen db project fp title level kind env release ts db = Upserted ?s False (was_regressed s ?s) ?db"
    using assms(3) m by (simp add: upsertIssue_def once) (simp add: upsertIssueOnce_def Let_def)
  moreover have "GetIssueMetadata i ?db = Some ?s" using m s(2) by (simp add: metadata_update)
  moreover have "db_fps ?db = db_fps db" "length (db_issues ?db) = length (db_issues db)" by (simp_all add: update_issue_def)
  ultimately show ?thesis using once s(2) by auto
qed

theorem upsert_race_absorbed_witness:
  "\<exists>s regressed db'. upsertIssue 9 no_issues resolved_db ''p'' ''f1'' ''Boom'' ''error'' ''error'' [] [] 9 resolved_db
     = Upserted s False regressed db' \<and> is_id s = 1"
proof -
  have inv: "issues_inv False resolved_db" unfolding resolved_db_def by (rule issues.run_inv) (rule no_issues_inv)
  have l: "lookup_fp ''p'' ''f1'' no_issues = None" "lookup_fp ''p'' ''f1'' resolved_db = Some 1" by code_simp+
  show ?thesis using upsert_race_absorbed [OF inv l] by blast
qed

text \<open>
An event is counted once: when it has been grouped, grouping it again, with whatever fingerprint, title or
release, finds nothing to do and changes nothing. So a grouper that repeats a page after a crash, or two that overlap,
count every event once.
\<close>

theorem grouped_once:
  assumes "issues_inv exact db" "GroupEvent now eventID fp legacy title level env release db = (Some r, db')"
  shows "GroupEvent now' eventID fp' legacy' title' level' env' release' db' = (None, db')"
proof -
  obtain s created regressed where r: "r = (s, created, regressed)" by (cases r)
  have inv: "issues_inv exact db'" by (rule group_inv [OF assms])
  obtain e where e: "e \<in> set (db_events db')" "ev_id e = eventID" "ev_issue e = Some (is_id s)"
    using group_linked(1) [OF assms(1) assms(2) [unfolded r]] by blast
  have "x = e" if "find (\<lambda>e. ev_id e = eventID) (db_events db') = Some x" for x
    using find_SomeD [OF that] e inv by (auto simp: issues_inv_def struct_ok_def ids_ok_def dest: distinct_map_eq)
  then show ?thesis using e(3) by (auto simp: GroupEvent_def split: option.split)
qed

theorem grouped_once_witness:
  "\<exists>r db'. GroupEvent 9 3 ''f1'' [] ''Boom'' ''error'' [] ''v2'' resolved_db = (Some r, db')
     \<and> GroupEvent 10 3 ''f2'' [] ''Bang'' ''error'' [] [] db' = (None, db')"
proof -
  obtain s db' where g: "GroupEvent 9 3 ''f1'' [] ''Boom'' ''error'' [] ''v2'' resolved_db = (Some (s, False, True), db')"
    using resolved_group by (auto split: prod.splits option.splits)
  have inv: "issues_inv False resolved_db" unfolding resolved_db_def by (rule issues.run_inv) (rule no_issues_inv)
  show ?thesis using grouped_once [OF inv g] g by blast
qed

end
