(* ===== verification/Fingerprint.thy ===== *)
theory Fingerprint
  imports Payload Issue_Inv
begin

text \<open>
  How an event gets its fingerprint and its title (issues/fingerprint.go). \<open>H\<close> is \<open>sha256hex\<close>.
\<close>

section \<open>Keys\<close>

text \<open>The keys of the frames a predicate picks, repeats next to each other once.\<close>

definition frame_name :: "stackFrame \<Rightarrow> string" where
  "frame_name f = (if sf_module f \<noteq> [] then sf_module f @ ''.'' @ sf_function f else sf_function f)"

definition named :: "stackFrame \<Rightarrow> bool" where
  "named f \<longleftrightarrow> sf_function f \<noteq> [] \<and> sf_function f \<noteq> ''?'' \<and> sf_function f \<noteq> ''<anonymous>''"

definition pick :: "(stackFrame \<Rightarrow> bool) \<Rightarrow> stackFrame list \<Rightarrow> string list" where
  "pick incl frames = foldl (\<lambda>keys f.
     if \<not> incl f \<or> \<not> named f then keys
     else if keys \<noteq> [] \<and> last keys = frame_name f then keys else keys @ [frame_name f]) [] frames"

definition frameKeys :: "exceptionValue \<Rightarrow> string list" where
  "frameKeys e =
     (case ex_stacktrace e of
        None \<Rightarrow> []
      | Some frames \<Rightarrow>
          if pick (\<lambda>f. sf_in_app f = SetTrue) frames \<noteq> [] then pick (\<lambda>f. sf_in_app f = SetTrue) frames
          else pick (\<lambda>f. sf_in_app f = Unset) frames)"

definition defaultKeyV1 :: "eventPayload \<Rightarrow> string" where
  "defaultKeyV1 p =
     (if exceptions p \<noteq> [] then
        (let l = last (exceptions p); key = ex_type l @ ''|'' @ ex_value l
         in if ep_transaction p \<noteq> [] then key @ ''|'' @ ep_transaction p else key)
      else if groupKey (message p) \<noteq> [] then
        (if ep_transaction p \<noteq> [] then groupKey (message p) @ ''|'' @ ep_transaction p else groupKey (message p))
      else ''unlabeled|'' @ ep_transaction p)"

definition defaultKeyV2 :: "eventPayload \<Rightarrow> string" where
  "defaultKeyV2 p =
     (if exceptions p = [] \<or> ep_platform p = ''javascript'' then defaultKeyV1 p
      else let l = last (exceptions p) in
        if frameKeys l = [] then defaultKeyV1 p
        else ''v2|'' @ ex_type l @ ''|'' @ join_with ''>'' (frameKeys l))"

definition default_part :: "string \<Rightarrow> string \<Rightarrow> string" where
  "default_part def part = (if part = ''{{ default }}'' \<or> part = ''{{default}}'' then def else part)"

definition fingerprintFor :: "(string \<Rightarrow> string) \<Rightarrow> eventPayload \<Rightarrow> string \<Rightarrow> string" where
  "fingerprintFor H p def =
     (let custom = fingerprintParts p in
      if custom \<noteq> [] then H (join_with ''|'' (map (default_part def) custom)) else H def)"

definition computeFrom :: "(string \<Rightarrow> string) \<Rightarrow> eventPayload \<times> bool \<Rightarrow> string \<times> string" where
  "computeFrom H d =
     (case d of (p, decoded) \<Rightarrow>
        if \<not> decoded then (H ''unparseable'', [])
        else let fingerprint = fingerprintFor H p (defaultKeyV2 p); v1 = fingerprintFor H p (defaultKeyV1 p)
          in (fingerprint, if v1 \<noteq> fingerprint then v1 else []))"

definition titleFrom :: "eventPayload \<times> bool \<Rightarrow> string" where
  "titleFrom d =
     (case d of (p, decoded) \<Rightarrow>
        let unknown = ''Unknown error'';
            msg = (if display (message p) \<noteq> [] then truncRunes (display (message p)) 200 else unknown)
        in if \<not> decoded then unknown
           else if exceptions p \<noteq> [] then
             (let l = last (exceptions p) in
              if ex_value l \<noteq> [] then truncRunes (ex_type l @ '': '' @ ex_value l) 200
              else if ex_type l \<noteq> [] then ex_type l
              else msg)
           else msg)"

section \<open>What a fingerprint depends on\<close>

lemma exceptions_cong: "ep_exception p = ep_exception q \<Longrightarrow> exceptions p = exceptions q"
  by (simp add: exceptions_def Let_def)

lemma message_cong: "ep_message p = ep_message q \<Longrightarrow> ep_logentry p = ep_logentry q \<Longrightarrow> message p = message q"
  by (simp add: message_def)

lemma keys_cong:
  assumes "exceptions p = exceptions q" "message p = message q" "ep_transaction p = ep_transaction q"
  shows "defaultKeyV1 p = defaultKeyV1 q" "ep_platform p = ep_platform q \<Longrightarrow> defaultKeyV2 p = defaultKeyV2 q"
proof -
  show v1: "defaultKeyV1 p = defaultKeyV1 q" unfolding defaultKeyV1_def assms ..
  show "ep_platform p = ep_platform q \<Longrightarrow> defaultKeyV2 p = defaultKeyV2 q" unfolding defaultKeyV2_def assms v1 by simp
qed

text \<open>
Nothing but the fingerprint, platform, exception, message, logentry and transaction members of an event takes part
in grouping: any other member, such as the event id, the timestamp, the release, tags or line-by-line context, may be
there or not, anywhere in the payload, without changing the fingerprint or the legacy fingerprint.
\<close>

theorem other_members_do_not_split:
  assumes "list_all (\<lambda>n. \<not> same_name n k) [''fingerprint'', ''platform'', ''exception'', ''message'', ''logentry'', ''transaction'']"
  shows "computeFrom H (decodeEvent (Some (JObj t (ms @ (k, v) # ns)))) = computeFrom H (decodeEvent (Some (JObj t' (ms @ ns))))"
proof -
  let ?p = "payload_of (ms @ (k, v) # ns)" and ?q = "payload_of (ms @ ns)"
  have same: "ep_fingerprint ?p = ep_fingerprint ?q" "ep_platform ?p = ep_platform ?q" "ep_exception ?p = ep_exception ?q"
    "ep_message ?p = ep_message ?q" "ep_logentry ?p = ep_logentry ?q" "ep_transaction ?p = ep_transaction ?q"
    using assms by (simp_all add: payload_of_def field_other)
  have ex: "exceptions ?p = exceptions ?q" by (rule exceptions_cong [OF same(3)])
  have msg: "message ?p = message ?q" by (rule message_cong [OF same(4,5)])
  have parts: "fingerprintParts ?p = fingerprintParts ?q" unfolding fingerprintParts_def same(1) ..
  note k = keys_cong [OF ex msg same(6)]
  show ?thesis unfolding computeFrom_def decodeEvent_def by (simp add: fingerprintFor_def parts k(1) k(2) [OF same(2)])
qed

theorem other_members_do_not_split_witness:
  "computeFrom (\<lambda>x. x) (decodeEvent (Some (JObj [] [(''event_id'', JNum ''17''), (''message'', JStr [] ''Boom'')])))
   = computeFrom (\<lambda>x. x) (decodeEvent (Some (JObj [] [(''message'', JStr [] ''Boom'')])))"
  using other_members_do_not_split [of "''event_id''" "\<lambda>x. x" "[]" "[]" "JNum ''17''" "[(''message'', JStr [] ''Boom'')]" "[]"]
  by (simp add: same_name_def upper_ascii_def)

lemma pick_append: "pick incl (xs @ ys) = foldl (\<lambda>keys f.
     if \<not> incl f \<or> \<not> named f then keys
     else if keys \<noteq> [] \<and> last keys = frame_name f then keys else keys @ [frame_name f]) (pick incl xs) ys"
  by (simp add: pick_def)

lemma pick_repeat: "pick incl (xs @ f # f # ys) = pick incl (xs @ f # ys)"
  by (simp add: pick_append)

lemma pick_replicate: "pick incl (xs @ replicate (Suc n) f @ ys) = pick incl (xs @ f # ys)"
  by (induction n) (simp_all add: pick_repeat)

lemma pick_skip: "\<not> incl f \<or> \<not> named f \<Longrightarrow> pick incl (xs @ f # ys) = pick incl (xs @ ys)"
  by (simp add: pick_append)

text \<open>
The depth of a recursion and frames without a usable name do not split issues: an exception whose stacktrace repeats
a frame any number of times, and has anonymous frames besides, has the frame keys of the one without.
\<close>

theorem recursion_does_not_split:
  "frameKeys (e\<lparr>ex_stacktrace := Some (us @ filter (\<lambda>f. \<not> named f) vs @ replicate (Suc n) f @ ws)\<rparr>)
   = frameKeys (e\<lparr>ex_stacktrace := Some (us @ f # ws)\<rparr>)"
proof -
  have junk: "pick incl (us @ filter (\<lambda>f. \<not> named f) vs @ zs) = pick incl (us @ zs)" for incl zs
    by (induction vs) (simp_all add: pick_skip)
  have "pick incl (us @ filter (\<lambda>f. \<not> named f) vs @ replicate (Suc n) f @ ws) = pick incl (us @ f # ws)" for incl
    unfolding junk by (rule pick_replicate)
  then show ?thesis by (simp add: frameKeys_def)
qed

text \<open>
A custom fingerprint that is only the placeholder for the default one groups an event exactly as an event without a
custom fingerprint is, in both versions.
\<close>

theorem default_placeholder:
  assumes "ep_fingerprint p = Some (JArr t [JStr r part])" "part \<in> {''{{ default }}'', ''{{default}}''}"
  shows "computeFrom H (p, True) = computeFrom H (p\<lparr>ep_fingerprint := None\<rparr>, True)"
proof -
  have same: "exceptions (p\<lparr>ep_fingerprint := None\<rparr>) = exceptions p" "message (p\<lparr>ep_fingerprint := None\<rparr>) = message p"
    by (rule exceptions_cong, simp) (simp add: message_def)
  then have k: "defaultKeyV1 (p\<lparr>ep_fingerprint := None\<rparr>) = defaultKeyV1 p" "defaultKeyV2 (p\<lparr>ep_fingerprint := None\<rparr>) = defaultKeyV2 p"
    using keys_cong [OF same] by simp_all
  have "fingerprintFor H p def = H def" "fingerprintFor H (p\<lparr>ep_fingerprint := None\<rparr>) def = H def" for def
    using assms by (auto simp: fingerprintFor_def fingerprintParts_def Let_def default_part_def)
  then show ?thesis by (simp add: computeFrom_def k)
qed

theorem default_placeholder_witness:
  "computeFrom H ((payload_of [])\<lparr>ep_fingerprint := Some (JArr [] [JStr [] ''{{default}}''])\<rparr>, True) = computeFrom H (payload_of [], True)"
  using default_placeholder [of "(payload_of [])\<lparr>ep_fingerprint := Some (JArr [] [JStr [] ''{{default}}''])\<rparr>" "[]" "[]" "''{{default}}''" H]
  by (simp add: payload_of_def raw_field_def members_def)

text \<open>
C24: The switch of the grouping version does not duplicate issues: an event whose version 1 fingerprint has an issue in
its project already goes to that issue, whatever its version 2 fingerprint is, and no issue is made.
\<close>

theorem v1_issue_kept:
  assumes "issues_inv exact db" "\<And>x. H x \<noteq> []"
    and "find (\<lambda>e. ev_id e = eventID) (db_events db) = Some e" "ev_issue e = None"
    and "lookup_fp (ev_project e) (fingerprintFor H p (defaultKeyV1 p)) db = Some i"
  shows "\<exists>s regressed db'. GroupEvent now eventID (fst (computeFrom H (p, True))) (snd (computeFrom H (p, True))) title level env release db
      = (Some (s, False, regressed), db') \<and> is_id s = i \<and> map is_id (db_issues db') = map is_id (db_issues db)"
proof -
  let ?v1 = "fingerprintFor H p (defaultKeyV1 p)" and ?v2 = "fingerprintFor H p (defaultKeyV2 p)"
  have ne: "?v1 \<noteq> []" using assms(2) by (simp add: fingerprintFor_def Let_def)
  have route: "route_fp (ev_project e) (fst (computeFrom H (p, True))) (snd (computeFrom H (p, True))) db = ?v1"
    using assms(5) ne by (simp add: route_fp_def computeFrom_def Let_def)
  have st: "struct_ok db" using assms(1) by (simp add: issues_inv_def)
  obtain r where "r \<in> set (db_fps db)" "fp_issue r = i" using lookup_fp_mem [OF assms(5)] by blast
  then obtain s where s: "s \<in> set (db_issues db)" "is_id s = i" using st by (auto simp: struct_ok_def fps_ok_def)
  have m: "GetIssueMetadata i db = Some s" using metadata_unique [OF _ s(1)] st s(2) by (simp add: struct_ok_def)
  let ?s = "touch_issue now (ev_timestamp e) level env release s"
  let ?db = "update_issue i (touch_issue now (ev_timestamp e) level env release) db"
  have "upsertIssue now db db (ev_project e) ?v1 title level ''error'' env release (ev_timestamp e) db
      = Upserted ?s False (was_regressed s ?s) ?db"
    using assms(5) m by (simp add: upsertIssue_def upsertIssueOnce_def Let_def)
  then have "GroupEvent now eventID (fst (computeFrom H (p, True))) (snd (computeFrom H (p, True))) title level env release db
      = (Some (?s, False, was_regressed s ?s), link_event eventID ?v1 i ?db)"
    using assms(3,4) s(2) unfolding GroupEvent_def by (simp add: route)
  moreover have "map is_id (db_issues (link_event eventID ?v1 i ?db)) = map is_id (db_issues db)"
    by (simp add: link_event_def update_issue_def)
  ultimately show ?thesis using s(2) by auto
qed

definition old_issue_db :: issue_db where
  "old_issue_db = foldl issue_step no_issues [IInsert sample_event,
     IGroup 7 0 ''hunlabeled|'' [] ''Boom'' ''error'' [] [] [] True True True, IInsert sample_event]"

theorem v1_issue_kept_witness:
  "\<exists>s regressed db'. GroupEvent 9 3 (fst (computeFrom (\<lambda>x. CHR ''h'' # x) (payload_of [], True)))
     (snd (computeFrom (\<lambda>x. CHR ''h'' # x) (payload_of [], True))) [] [] [] [] old_issue_db = (Some (s, False, regressed), db') \<and> is_id s = 1"
proof -
  have inv: "issues_inv False old_issue_db" unfolding old_issue_db_def by (rule issues.run_inv) (rule no_issues_inv)
  obtain e where f: "find (\<lambda>e. ev_id e = 3) (db_events old_issue_db) = Some e" "ev_issue e = None" "ev_project e = ''p''"
  proof -
    have "case find (\<lambda>e. ev_id e = 3) (db_events old_issue_db) of Some e \<Rightarrow> ev_issue e = None \<and> ev_project e = ''p'' | None \<Rightarrow> False"
      by code_simp
    then show thesis using that by (auto split: option.splits)
  qed
  have key: "fingerprintFor (\<lambda>x. CHR ''h'' # x) (payload_of []) (defaultKeyV1 (payload_of [])) = ''hunlabeled|''"
    by (simp add: fingerprintFor_def fingerprintParts_def defaultKeyV1_def exceptions_def message_def groupKey_def payload_of_def
      raw_field_def loose_field_def members_def decodeEach_def Let_def)
  have "lookup_fp ''p'' ''hunlabeled|'' old_issue_db = Some 1" by code_simp
  then have l: "lookup_fp ''p'' (fingerprintFor (\<lambda>x. CHR ''h'' # x) (payload_of []) (defaultKeyV1 (payload_of []))) old_issue_db = Some 1"
    unfolding key .
  have ne: "\<And>x. CHR ''h'' # x \<noteq> []" by simp
  show ?thesis using v1_issue_kept [of False old_issue_db "\<lambda>x. CHR ''h'' # x", OF inv ne f(1,2), of "payload_of []" 1 9 "[]" "[]" "[]" "[]"] l unfolding f(3) by blast
qed

text \<open>
A title is never empty, and has at most 200 characters unless the event's last exception has a type and no value,
in which case the title is that type, of whatever length.
\<close>

theorem title_bounds:
  "titleFrom (p, decoded) \<noteq> [] \<and>
   (length (runes (titleFrom (p, decoded))) \<le> 200 \<or>
    decoded \<and> exceptions p \<noteq> [] \<and> ex_value (last (exceptions p)) = [] \<and> titleFrom (p, decoded) = ex_type (last (exceptions p)))"
proof -
  have unknown: "length (runes ''Unknown error'') = 13" by code_simp
  have cut: "truncRunes s 200 \<noteq> [] \<and> length (runes (truncRunes s 200)) \<le> 200" if "s \<noteq> []" for s
    using that titles_fit [of 200 s] by (auto simp: truncRunes_def ellipsis_def)
  let ?l = "last (exceptions p)"
  consider (unknown) "titleFrom (p, decoded) = ''Unknown error''"
    | (msg) s where "s \<noteq> []" "titleFrom (p, decoded) = truncRunes s 200"
    | (type) "decoded" "exceptions p \<noteq> []" "ex_value ?l = []" "ex_type ?l \<noteq> []" "titleFrom (p, decoded) = ex_type ?l"
  proof (cases "decoded \<and> exceptions p \<noteq> [] \<and> (ex_value ?l \<noteq> [] \<or> ex_type ?l \<noteq> [])")
    case True
    show thesis
    proof (cases "ex_value ?l = []")
      case False
      show thesis by (rule msg [of "ex_type ?l @ '': '' @ ex_value ?l"]) (use True False in \<open>simp_all add: titleFrom_def Let_def\<close>)
    qed (use True type in \<open>simp add: titleFrom_def Let_def\<close>)
  next
    case False
    then have eq: "titleFrom (p, decoded) = (if decoded \<and> display (message p) \<noteq> [] then truncRunes (display (message p)) 200 else ''Unknown error'')"
      by (cases decoded; cases "exceptions p = []") (simp_all add: titleFrom_def Let_def)
    show thesis
    proof (cases "decoded \<and> display (message p) \<noteq> []")
      case True
      show thesis by (rule msg [of "display (message p)"]) (use True eq in simp_all)
    next
      case False
      show thesis by (rule unknown) (simp only: eq False if_False)
    qed
  qed
  then show ?thesis
  proof cases
    case (msg s)
    then show ?thesis using cut by simp
  qed (use unknown in simp_all)
qed

end
