(* ===== verification/Implicit_Tags.thy ===== *)
theory Implicit_Tags
  imports Fingerprint
begin

text \<open>
  The tags of an event: those the SDK sent (storage/tags.go) and those derived from the payload
  (issues/implicit_tags.go). The user agent parser is a parameter: the families and versions it reads from a header.
  Maps are visited in an order Go leaves open: \<open>order\<close> puts the members of a map in the order of the visit.
\<close>

section \<open>White space\<close>

text \<open>The white space of Unicode, as it is encoded, and \<open>strings.TrimSpace\<close>.\<close>

definition space_runes :: "string list" where
  "space_runes = [[CHR 0x09], [CHR 0x0A], [CHR 0x0B], [CHR 0x0C], [CHR 0x0D], [CHR 0x20], [CHR 0xC2, CHR 0x85], [CHR 0xC2, CHR 0xA0],
     [CHR 0xE1, CHR 0x9A, CHR 0x80]] @ map (\<lambda>n. [CHR 0xE2, CHR 0x80, char_of (n :: nat)]) ([0x80..<0x8B] @ [0xA8, 0xA9, 0xAF])
     @ [[CHR 0xE2, CHR 0x81, CHR 0x9F], [CHR 0xE3, CHR 0x80, CHR 0x80]]"

function strip_left :: "string list \<Rightarrow> string \<Rightarrow> string" where
  "strip_left us s = (case find (\<lambda>u. u \<noteq> [] \<and> take (length u) s = u) us of None \<Rightarrow> s | Some u \<Rightarrow> strip_left us (drop (length u) s))"
  by auto
termination
proof (relation "measure (\<lambda>(us, s). length s)")
  fix us :: "string list" and s u
  assume "find (\<lambda>u. u \<noteq> [] \<and> take (length u) s = u) us = Some u"
  then have u: "u \<noteq> []" "take (length u) s = u" using find_SomeD by fastforce+
  then have "s \<noteq> []" by auto
  then show "((us, drop (length u) s), (us, s)) \<in> measure (\<lambda>(us, s). length s)" using u(1) by simp
qed simp

declare strip_left.simps [simp del]

definition TrimSpace :: "string \<Rightarrow> string" where
  "TrimSpace s = rev (strip_left (map rev space_runes) (rev (strip_left space_runes s)))"

section \<open>Tags of the SDK\<close>

text \<open>A string, or \<open>null\<close>, which leaves the target empty; any other value is an error.\<close>

fun string_value :: "json \<Rightarrow> string option" where
  "string_value (JStr t v) = Some v"
| "string_value JNull = Some []"
| "string_value _ = None"

fun all_some :: "'a option list \<Rightarrow> 'a list option" where
  "all_some [] = Some []"
| "all_some (None # xs) = None"
| "all_some (Some x # xs) = map_option ((#) x) (all_some xs)"

text \<open>A pair: a list whose first two items are strings; missing items are empty and further ones ignored.\<close>

fun pair_value :: "json \<Rightarrow> (string \<times> string) option" where
  "pair_value (JArr t []) = Some ([], [])"
| "pair_value (JArr t [k]) = map_option (\<lambda>k. (k, [])) (string_value k)"
| "pair_value (JArr t (k # v # _)) = (case (string_value k, string_value v) of (Some k, Some v) \<Rightarrow> Some (k, v) | _ \<Rightarrow> None)"
| "pair_value JNull = Some ([], [])"
| "pair_value _ = None"

text \<open>A map: the last of the members with a name, at the place of the first.\<close>

fun map_members :: "(string \<times> 'a) list \<Rightarrow> (string \<times> 'a) list" where
  "map_members [] = []"
| "map_members ((k, v) # ms) =
     (k, (case filter (\<lambda>m. fst m = k) ms of [] \<Rightarrow> v | ns \<Rightarrow> snd (last ns))) # map_members (filter (\<lambda>m. fst m \<noteq> k) ms)"

type_synonym tags = "(string \<times> string) list"

definition ParseTags :: "(tags \<Rightarrow> tags) \<Rightarrow> json option \<Rightarrow> tags" where
  "ParseTags order raw =
     (case raw of
        Some (JArr t items) \<Rightarrow> (case all_some (map pair_value items) of None \<Rightarrow> [] | Some ps \<Rightarrow> ps)
      | Some (JObj t ms) \<Rightarrow>
          (case all_some (map (\<lambda>m. map_option (\<lambda>v. (fst m, v)) (string_value (snd m))) ms) of
             None \<Rightarrow> [] | Some kvs \<Rightarrow> order (map_members kvs))
      | _ \<Rightarrow> [])"

section \<open>Tags from the payload\<close>

definition joinVersion :: "string \<Rightarrow> string \<Rightarrow> string" where
  "joinVersion major minor = (if major = [] then [] else if minor = [] then major else major @ ''.'' @ minor)"

text \<open>One tag, unless its value is blank.\<close>

definition add_tag :: "string \<Rightarrow> string \<Rightarrow> tags" where
  "add_tag k v = (if TrimSpace v = [] then [] else [(k, truncateTag (TrimSpace v))])"

text \<open>The request; a member that does not fit leaves its field as it was, and maps of several members are joined.\<close>

definition request_of :: "json option \<Rightarrow> string \<times> (string \<times> json) list" where
  "request_of raw =
     (case Option.bind raw struct_members of
        None \<Rightarrow> ([], [])
      | Some ms \<Rightarrow> (loose_field ''url'' ms,
          map_members (fold (\<lambda>j hs. case j of JObj t ns \<Rightarrow> hs @ ns | JNull \<Rightarrow> [] | _ \<Rightarrow> hs) (members ''headers'' ms) [])))"

definition contexts_of :: "json option \<Rightarrow> (string \<times> json) list" where
  "contexts_of raw = (case raw of Some (JObj t ms) \<Rightarrow> map_members ms | _ \<Rightarrow> [])"

text \<open>A string field of a context; \<open>None\<close> when one of its values is no string, which fails the whole context.\<close>

definition string_field :: "string \<Rightarrow> (string \<times> json) list \<Rightarrow> string option" where
  "string_field name ms =
     map_option (\<lambda>vs. fold (\<lambda>(j, v) old. if j = JNull then old else v) (zip (members name ms) vs) [])
       (all_some (map string_value (members name ms)))"

definition context_of :: "json \<Rightarrow> (string \<times> string \<times> string) option" where
  "context_of raw =
     (case struct_members raw of
        None \<Rightarrow> None
      | Some ms \<Rightarrow> (case (string_field ''name'' ms, string_field ''version'' ms, string_field ''build'' ms) of
            (Some n, Some v, Some b) \<Rightarrow> if n = [] then None else Some (n, v, b)
          | _ \<Rightarrow> None))"

definition context_tags :: "string \<Rightarrow> string \<times> string \<times> string \<Rightarrow> tags" where
  "context_tags k c =
     (case c of (name, version, build) \<Rightarrow>
        add_tag k (if version \<noteq> [] then name @ '' '' @ version else name) @ add_tag (k @ ''.name'') name
        @ (if version \<noteq> [] then add_tag (k @ ''.version'') version else [])
        @ (if build \<noteq> [] then add_tag (k @ ''.build'') build else []))"

text \<open>The first header of that name with a usable value, a string or a list of strings.\<close>

definition header_value :: "json \<Rightarrow> string option" where
  "header_value j =
     (case string_value j of
        Some s \<Rightarrow> Some s
      | None \<Rightarrow> (case j of JArr t items \<Rightarrow> (case all_some (map string_value items) of Some (s # _) \<Rightarrow> Some s | _ \<Rightarrow> None) | _ \<Rightarrow> None))"

definition extractUserAgent :: "(string \<times> json) list \<Rightarrow> string" where
  "extractUserAgent headers =
     (case List.map_filter (\<lambda>h. if same_name ''user-agent'' (fst h) then header_value (snd h) else None) headers of
        [] \<Rightarrow> [] | s # _ \<Rightarrow> s)"

definition agent_tags :: "string \<Rightarrow> string \<times> string \<times> string \<Rightarrow> tags" where
  "agent_tags k c =
     (case c of (family, major, minor) \<Rightarrow>
        let version = joinVersion major minor in
        add_tag k (if version \<noteq> [] then family @ '' '' @ version else family) @ add_tag (k @ ''.name'') family
        @ (if version \<noteq> [] then add_tag (k @ ''.version'') version else []))"

text \<open>
  The pointer to \<open>handled\<close>: any value but \<open>null\<close> allocates it, and it then holds false until a truth value is
  stored; a value of another type is an error that is not looked at.
\<close>

fun handled :: "json \<Rightarrow> bool option \<Rightarrow> bool option" where
  "handled JNull old = None"
| "handled (JBool b) old = Some b"
| "handled _ old = Some (case old of None \<Rightarrow> False | Some b \<Rightarrow> b)"

definition mechanism_tags :: "json option \<Rightarrow> tags" where
  "mechanism_tags raw =
     (let ms = (case Option.bind raw struct_members of None \<Rightarrow> [] | Some ms \<Rightarrow> ms) in
      add_tag ''mechanism'' (loose_field ''type'' ms)
      @ (case fold handled (members ''handled'' ms) None of
           None \<Rightarrow> [] | Some True \<Rightarrow> add_tag ''handled'' ''yes'' | Some False \<Rightarrow> add_tag ''handled'' ''no''))"

definition implicitTagsFrom :: "(string \<Rightarrow> (string \<times> string \<times> string) \<times> (string \<times> string \<times> string))
    \<Rightarrow> ((string \<times> json) list \<Rightarrow> (string \<times> json) list) \<Rightarrow> eventPayload \<Rightarrow> tags" where
  "implicitTagsFrom uaParse order p =
     (let (url, headers) = request_of (ep_request p);
          found = List.map_filter (\<lambda>m. map_option (Pair (fst m)) (context_of (snd m))) (order (contexts_of (ep_contexts p)));
          ua = extractUserAgent (order headers);
          agent = (if ua = [] then []
            else (let (browser, os) = uaParse ua in
              (if ''browser'' \<notin> fst ` set found \<and> fst browser \<noteq> ''Other'' then agent_tags ''browser'' browser else [])
              @ (if ''os'' \<notin> fst ` set found \<and> fst os \<noteq> ''Other'' then agent_tags ''os'' os else [])))
      in add_tag ''level'' (ep_level p) @ add_tag ''environment'' (ep_environment p) @ add_tag ''transaction'' (ep_transaction p)
         @ add_tag ''server_name'' (ep_server_name p) @ add_tag ''url'' url
         @ concat (map (\<lambda>(k, c). context_tags k c) found) @ agent
         @ (if exceptions p \<noteq> [] then mechanism_tags (ex_mechanism (last (exceptions p))) else []))"

definition mergeImplicitTags :: "tags \<Rightarrow> tags \<Rightarrow> tags" where
  "mergeImplicitTags explicit implicit =
     (if implicit = [] then explicit else explicit @ filter (\<lambda>t. fst t \<notin> fst ` set explicit) implicit)"

definition capTags :: "tags \<Rightarrow> tags" where
  "capTags tags = map (\<lambda>(k, v). (truncateTag k, truncateTag v)) tags"

section \<open>What is stored\<close>

definition tag_value :: "nat \<Rightarrow> string \<Rightarrow> event_tag list \<Rightarrow> string option" where
  "tag_value e k tags = map_option et_value (find (\<lambda>t. et_event t = e \<and> et_key t = k) tags)"

lemma insert_tags_value:
  "tag_value e k (insert_tags e i kvs tags) = (case tag_value e k tags of None \<Rightarrow> map_of kvs k | Some v \<Rightarrow> Some v)"
proof (induction e i kvs tags rule: insert_tags.induct)
  case (2 e i k' v kvs tags)
  show ?case
  proof (cases "\<exists>t \<in> set tags. et_event t = e \<and> et_key t = k'")
    case True
    then have "tag_value e k' tags \<noteq> None" by (auto simp: tag_value_def find_None_iff)
    then show ?thesis using "2.IH" True by (auto split: option.splits)
  next
    case False
    then have "tag_value e k' tags = None" by (auto simp: tag_value_def find_None_iff)
    moreover have "tag_value e k (tags @ [\<lparr>et_event = e, et_issue = i, et_key = k', et_value = v\<rparr>]) =
      (case tag_value e k tags of None \<Rightarrow> if k' = k then Some v else None | Some w \<Rightarrow> Some w)"
      by (auto simp: tag_value_def find_append split: option.splits)
    ultimately show ?thesis using "2.IH" False by (auto split: option.splits)
  qed
qed (simp split: option.split)

lemma tag_value_fresh: "\<forall>t \<in> set tags. et_event t \<noteq> e \<Longrightarrow> tag_value e k tags = None"
  by (auto simp: tag_value_def find_None_iff)

text \<open>
C35: Tags the SDK sends win over derived ones: when the tags of an event are stored, every key the SDK sent has the
value the SDK sent (the first one, when several keys are the same once shortened), whatever is derived from the
payload for the same key; and no key or value stored for the event is longer than 200 characters.
\<close>

theorem sdk_tags_win:
  assumes "k \<in> fst ` set explicit" "\<forall>t \<in> set tags. et_event t \<noteq> e"
    and stored: "stored = insert_tags e i (capTags (mergeImplicitTags explicit implicit)) tags"
  shows "tag_value e (truncateTag k) stored = map_of (capTags explicit) (truncateTag k)
    \<and> tag_value e (truncateTag k) stored \<noteq> None
    \<and> list_all (\<lambda>t. et_event t \<noteq> e \<or> length (runes (et_key t)) \<le> tagMaxLen \<and> length (runes (et_value t)) \<le> tagMaxLen) stored"
proof -
  let ?merged = "capTags (mergeImplicitTags explicit implicit)"
  have val: "tag_value e (truncateTag k) stored = map_of ?merged (truncateTag k)"
    unfolding stored by (simp add: insert_tags_value tag_value_fresh [OF assms(2)])
  have "truncateTag k \<in> fst ` set (capTags explicit)" using assms(1) by (force simp: capTags_def image_iff)
  then obtain v where v: "map_of (capTags explicit) (truncateTag k) = Some v"
    by (metis map_of_eq_None_iff option.exhaust)
  obtain rest where "?merged = capTags explicit @ rest"
    by (cases "implicit = []") (auto simp: mergeImplicitTags_def capTags_def)
  then have "map_of ?merged (truncateTag k) = Some v" using v by (simp add: map_add_Some_iff)
  moreover have "list_all (\<lambda>t. et_event t \<noteq> e \<or> length (runes (et_key t)) \<le> tagMaxLen \<and> length (runes (et_value t)) \<le> tagMaxLen) stored"
  proof -
    have "t \<in> set tags \<or> (et_key t, et_value t) \<in> set kvs" if "t \<in> set (insert_tags e i kvs tags)" for t kvs
      using that by (induction e i kvs tags rule: insert_tags.induct) (auto split: if_splits)
    then have "et_event t \<noteq> e \<or> (et_key t, et_value t) \<in> set ?merged" if "t \<in> set stored" for t
      using that assms(2) unfolding stored by blast
    then show ?thesis by (fastforce simp: list_all_iff capTags_def truncateTag_runes)
  qed
  ultimately show ?thesis using val v by simp
qed

theorem sdk_tags_win_witness:
  "tag_value 1 ''os'' (insert_tags 1 2 (capTags (mergeImplicitTags [(''os'', ''mine'')] [(''os'', ''derived''), (''url'', ''/'')])) [])
   = Some ''mine''"
proof -
  have t: "truncateTag ''os'' = ''os''" "truncateTag ''mine'' = ''mine''" by code_simp+
  show ?thesis
    using sdk_tags_win [OF _ _ refl, of "''os''" "[(''os'', ''mine'')]" "[]" 1 2 "[(''os'', ''derived''), (''url'', ''/'')]"]
    by (simp add: t capTags_def)
qed

text \<open>
An exception mechanism whose \<open>handled\<close> is a text, even the text "true", is tagged as not handled: the decoder
allocates the flag before it finds that the value does not fit, and the error is dropped. With no such member, or
\<open>null\<close>, there is no tag.
\<close>

theorem handled_text_counts_as_no:
  "mechanism_tags (Some (JObj t [(''handled'', JStr r v)])) = [(''handled'', ''no'')]
   \<and> mechanism_tags (Some (JObj t [(''handled'', JNull)])) = []"
proof -
  have trims: "TrimSpace ''no'' = ''no''" "TrimSpace [] = []" "truncateTag ''no'' = ''no''" by code_simp+
  have names: "same_name ''handled'' ''handled''" "\<not> same_name ''type'' ''handled''" by code_simp+
  show ?thesis by (simp add: mechanism_tags_def loose_field_def raw_field_def members_def names add_tag_def trims)
qed

end
