(* ===== verification/Grouper.thy ===== *)
theory Grouper
  imports Implicit_Tags "HOL-Library.Product_Lexorder"
begin

text \<open>
  The grouper's passes over the events without an issue (issues/grouper.go). What a pass cannot know is given by
  oracles: the end of the context, the time budget and query errors, by the number of events observed so far.
\<close>

section \<open>Grouping one event\<close>

record grouper_env =
  ge_hash :: "string \<Rightarrow> string"
  ge_agent :: "string \<Rightarrow> (string \<times> string \<times> string) \<times> (string \<times> string \<times> string)"
  ge_members :: "(string \<times> json) list \<Rightarrow> (string \<times> json) list"
  ge_tags :: "tags \<Rightarrow> tags"
  ge_payload :: "nat \<Rightarrow> json option"

text \<open>What the database does to one attempt: the transaction's outcome and time, and the three writes after it.\<close>

record attempt =
  at_now :: nanos
  at_fails :: bool
  at_tags_ok :: bool
  at_created_ok :: bool
  at_regressed_ok :: bool

definition group :: "grouper_env \<Rightarrow> attempt \<Rightarrow> event_row \<Rightarrow> issue_db \<Rightarrow> bool option \<times> issue_db" where
  "group env a e db =
     (if at_fails a then (None, db)
      else
        let (payload, decoded) = decodeEvent (ge_payload env (ev_id e));
            (fp, legacyFP) = computeFrom (ge_hash env) (payload, decoded);
            title = titleFrom (payload, decoded);
            level = (if ep_level payload = [] then ''error'' else ep_level payload);
            implicit = (if decoded then implicitTagsFrom (ge_agent env) (ge_members env) payload else []);
            tags = capTags (mergeImplicitTags (ParseTags (ge_tags env) (ep_tags payload)) implicit);
            (grouped, db') = group_writes (at_now a) (ev_id e) fp legacyFP title level (ep_environment payload) (ep_release payload) tags
              (at_tags_ok a) (at_created_ok a) (at_regressed_ok a) db
        in (Some grouped, db'))"

section \<open>Passes\<close>

definition grouperPageSize :: nat where "grouperPageSize = 200"
definition grouperPassLimit :: nat where "grouperPassLimit = 2000"

type_synonym event_key = "nanos \<times> nat"

definition ev_key :: "event_row \<Rightarrow> event_key" where
  "ev_key e = (ev_received e, ev_id e)"

record groupingCursor =
  gc_after :: "event_key option"
  gc_through :: event_key

record groupingStats =
  gs_observed :: nat
  gs_grouped :: nat
  gs_failed :: nat
  gs_batches :: nat
  gs_budget :: bool
  gs_next :: "groupingCursor option"

definition ungrouped :: "issue_db \<Rightarrow> event_row list" where
  "ungrouped db = filter (\<lambda>e. ev_issue e = None) (db_events db)"

definition past :: "event_key option \<Rightarrow> event_row \<Rightarrow> bool" where
  "past after e = (case after of None \<Rightarrow> True | Some a \<Rightarrow> a < ev_key e)"

definition readPage :: "groupingCursor \<Rightarrow> issue_db \<Rightarrow> event_row list" where
  "readPage c db = take grouperPageSize (sort_key ev_key
     (filter (\<lambda>e. ev_key e \<le> gc_through c \<and> past (gc_after c) e) (ungrouped db)))"

text \<open>Whether a check finds the context ended or the time used up, and whether a query fails.\<close>

record schedule =
  page_done :: "nat \<Rightarrow> bool"
  page_late :: "nat \<Rightarrow> bool"
  page_fails :: "nat \<Rightarrow> bool"
  event_done :: "nat \<Rightarrow> bool"
  event_late :: "nat \<Rightarrow> bool"

definition attempted :: "event_key \<Rightarrow> event_row \<Rightarrow> bool option \<Rightarrow> groupingStats \<Rightarrow> groupingStats" where
  "attempted through e res st =
     st\<lparr>gs_observed := Suc (gs_observed st), gs_next := Some \<lparr>gc_after = Some (ev_key e), gc_through = through\<rparr>,
        gs_failed := (if res = None then Suc (gs_failed st) else gs_failed st),
        gs_grouped := (if res = Some True then Suc (gs_grouped st) else gs_grouped st)\<rparr>"

text \<open>The events of a page; the flag says that the pass has ended among them.\<close>

fun page_events :: "schedule \<Rightarrow> (nat \<Rightarrow> event_row \<Rightarrow> issue_db \<Rightarrow> bool option \<times> issue_db) \<Rightarrow> event_key \<Rightarrow> event_row list
    \<Rightarrow> groupingStats \<Rightarrow> issue_db \<Rightarrow> bool \<times> groupingStats \<times> issue_db" where
  "page_events s g through [] st db = (False, st, db)"
| "page_events s g through (e # es) st db =
     (if event_done s (gs_observed st) then (True, st, db)
      else if event_late s (gs_observed st) then (True, st\<lparr>gs_budget := True\<rparr>, db)
      else (case g (gs_observed st) e db of (res, db') \<Rightarrow> page_events s g through es (attempted through e res st) db'))"

lemma page_events_observed:
  "page_events s g through es st db = (False, st', db') \<Longrightarrow> gs_observed st' = gs_observed st + length es"
  by (induction s g through es st db rule: page_events.induct) (auto simp: attempted_def split: if_splits prod.splits)

function pass_loop :: "schedule \<Rightarrow> (nat \<Rightarrow> event_row \<Rightarrow> issue_db \<Rightarrow> bool option \<times> issue_db) \<Rightarrow> groupingCursor
    \<Rightarrow> groupingStats \<Rightarrow> issue_db \<Rightarrow> groupingStats \<times> issue_db" where
  "pass_loop s g c st db =
     (if page_done s (gs_observed st) then (st, db)
      else if grouperPassLimit \<le> gs_observed st \<or> page_late s (gs_observed st) then (st\<lparr>gs_budget := True\<rparr>, db)
      else if page_fails s (gs_observed st) then (st\<lparr>gs_failed := Suc (gs_failed st)\<rparr>, db)
      else if readPage c db = [] then (st\<lparr>gs_next := None\<rparr>, db)
      else
        (case page_events s g (gc_through c) (readPage c db) (st\<lparr>gs_batches := Suc (gs_batches st)\<rparr>) db of
           (True, st', db') \<Rightarrow> (st', db')
         | (False, st', db') \<Rightarrow>
             if length (readPage c db) < grouperPageSize then (st'\<lparr>gs_next := None\<rparr>, db')
             else pass_loop s g (c\<lparr>gc_after := Some (ev_key (last (readPage c db)))\<rparr>) st' db'))"
  by pat_completeness auto
termination
proof (relation "measure (\<lambda>(s, g, c, st, db). grouperPassLimit - gs_observed st)", goal_cases)
  case (2 s g c st db x y st' db')
  then have "gs_observed st' = gs_observed st + length (readPage c db)"
    using page_events_observed [of s g "gc_through c" "readPage c db" "st\<lparr>gs_batches := Suc (gs_batches st)\<rparr>" db st' db'] by simp
  then show ?case using 2(2,4) by (cases "readPage c db") auto
qed simp

declare pass_loop.simps [simp del]

definition no_stats :: groupingStats where
  "no_stats = \<lparr>gs_observed = 0, gs_grouped = 0, gs_failed = 0, gs_batches = 0, gs_budget = False, gs_next = None\<rparr>"

text \<open>A pass without a cursor starts a sweep: its upper boundary is the last event there is now.\<close>

definition runPass :: "bool \<Rightarrow> schedule \<Rightarrow> (nat \<Rightarrow> event_row \<Rightarrow> issue_db \<Rightarrow> bool option \<times> issue_db) \<Rightarrow> groupingCursor option
    \<Rightarrow> issue_db \<Rightarrow> groupingStats \<times> issue_db" where
  "runPass sweep_fails s g cursor db =
     (case cursor of
        Some c \<Rightarrow> pass_loop s g c (no_stats\<lparr>gs_next := Some c\<rparr>) db
      | None \<Rightarrow>
          if sweep_fails then (no_stats\<lparr>gs_failed := 1\<rparr>, db)
          else if ungrouped db = [] then (no_stats, db)
          else let c = \<lparr>gc_after = None, gc_through = Max (ev_key ` set (ungrouped db))\<rparr>
            in pass_loop s g c (no_stats\<lparr>gs_next := Some c\<rparr>) db)"

definition RunOnce :: "bool \<Rightarrow> schedule \<Rightarrow> (nat \<Rightarrow> event_row \<Rightarrow> issue_db \<Rightarrow> bool option \<times> issue_db) \<Rightarrow> issue_db \<Rightarrow> groupingStats \<times> issue_db" where
  "RunOnce sweep_fails s g db = runPass sweep_fails s g None db"

text \<open>Passes one after the other, each with the cursor the one before left.\<close>

fun passes :: "(bool \<times> schedule \<times> (nat \<Rightarrow> event_row \<Rightarrow> issue_db \<Rightarrow> bool option \<times> issue_db)) list \<Rightarrow> groupingCursor option \<Rightarrow> issue_db
    \<Rightarrow> groupingCursor option \<times> issue_db" where
  "passes [] cursor db = (cursor, db)"
| "passes ((f, s, g) # ps) cursor db = (case runPass f s g cursor db of (st, db') \<Rightarrow> passes ps (gs_next st) db')"

section \<open>What a pass does\<close>

text \<open>The events a pass with the cursor has before it, in the order it takes them.\<close>

definition worklist :: "groupingCursor \<Rightarrow> issue_db \<Rightarrow> event_row list" where
  "worklist c db = sort_key ev_key (filter (\<lambda>e. ev_key e \<le> gc_through c \<and> past (gc_after c) e) (ungrouped db))"

text \<open>
  What the passes rely on: an attempt fails and changes nothing, or takes its event out of the ungrouped ones and no
  other.
\<close>

lemma readPage_worklist: "readPage c db = take grouperPageSize (worklist c db)"
  by (simp add: readPage_def worklist_def)

lemma worklist_set: "set (worklist c db) = {e \<in> set (ungrouped db). ev_key e \<le> gc_through c \<and> past (gc_after c) e}"
  by (auto simp: worklist_def)

lemma keys_distinct: "distinct (map ev_id es) \<Longrightarrow> distinct (map ev_key es)"
  by (induction es) (auto simp: ev_key_def image_iff)

lemma ungrouped_distinct: "distinct (map ev_id (db_events db)) \<Longrightarrow> distinct (map ev_id (ungrouped db))"
  by (simp add: ungrouped_def distinct_map_filter)

lemma worklist_distinct:
  assumes "distinct (map ev_id (db_events db))"
  shows "distinct (map ev_id (worklist c db))" and "sorted_wrt (\<lambda>x y. ev_key x < ev_key y) (worklist c db)"
proof -
  let ?fs = "filter (\<lambda>e. ev_key e \<le> gc_through c \<and> past (gc_after c) e) (ungrouped db)"
  have d: "distinct (map ev_id ?fs)" using ungrouped_distinct [OF assms] by (simp add: distinct_map_filter)
  then show dw: "distinct (map ev_id (worklist c db))" by (simp add: worklist_def distinct_map)
  have "sorted (map ev_key (worklist c db))" by (simp add: worklist_def)
  then have "sorted_wrt (<) (map ev_key (worklist c db))" using keys_distinct [OF dw] by (simp add: strict_sorted_iff)
  then show "sorted_wrt (\<lambda>x y. ev_key x < ev_key y) (worklist c db)" by (simp add: sorted_wrt_map)
qed

text \<open>What is left of the work after its first events are done is the work of the cursor moved behind them.\<close>

lemma sorted_drop:
  "sorted_wrt (\<lambda>x y. f x < (f y :: 'b :: linorder)) xs \<Longrightarrow> n < length xs \<Longrightarrow> filter (\<lambda>x. f (xs ! n) < f x) xs = drop (Suc n) xs"
proof (induction xs arbitrary: n)
  case (Cons x xs)
  show ?case
  proof (cases n)
    case 0
    then show ?thesis using Cons.prems(1) by (simp add: filter_id_conv)
  next
    case (Suc m)
    then have "f x < f (xs ! m)" using Cons.prems by simp
    then have "\<not> f (xs ! m) < f x" by simp
    then show ?thesis using Cons Suc by simp
  qed
qed simp

lemma worklist_moved:
  assumes d: "distinct (map ev_id (db_events db))" and n: "n < length (worklist c db)"
    and G: "set G \<subseteq> ev_id ` set (take (Suc n) (worklist c db))"
    and u: "ungrouped db' = filter (\<lambda>x. ev_id x \<notin> set G) (ungrouped db)"
  shows "worklist (c\<lparr>gc_after := Some (ev_key (worklist c db ! n))\<rparr>) db' = drop (Suc n) (worklist c db)"
proof -
  let ?W = "worklist c db" and ?k = "ev_key (worklist c db ! n)"
  let ?P = "\<lambda>e. ev_key e \<le> gc_through c \<and> past (gc_after c) e"
  have sw: "sorted_wrt (\<lambda>x y. ev_key x < ev_key y) ?W" by (rule worklist_distinct [OF d])
  have mem: "?W ! n \<in> set ?W" using n by simp
  have before: "ev_key x \<le> ?k" if x: "x \<in> set (take (Suc n) ?W)" for x
  proof -
    obtain i where i: "i \<le> n" "x = ?W ! i" using x n by (auto simp: in_set_conv_nth less_Suc_eq_le)
    then show ?thesis using sorted_wrt_nth_less [OF sw, of i n] n by (cases "i = n") auto
  qed
  have "filter (\<lambda>e. ev_key e \<le> gc_through c \<and> past (Some ?k) e) (ungrouped db') = filter (\<lambda>e. ?k < ev_key e) (filter ?P (ungrouped db))"
  proof -
    have "(ev_key e \<le> gc_through c \<and> ?k < ev_key e \<and> ev_id e \<notin> set G) = (?P e \<and> ?k < ev_key e)" if e: "e \<in> set (ungrouped db)" for e
    proof -
      have "past (gc_after c) e" if "?k < ev_key e"
        using mem that by (auto simp: worklist_set past_def split: option.splits)
      moreover have "ev_id e \<notin> set G" if k: "?k < ev_key e"
      proof
        assume "ev_id e \<in> set G"
        then obtain x where x: "x \<in> set (take (Suc n) ?W)" "ev_id x = ev_id e" using G by auto
        then have "x \<in> set (ungrouped db)" using in_set_takeD worklist_set by fastforce
        then have "x = e" using e x(2) ungrouped_distinct [OF d] by (auto dest: distinct_map_eq)
        then show False using before [OF x(1)] k by simp
      qed
      ultimately show ?thesis by blast
    qed
    then show ?thesis unfolding u filter_filter past_def by (auto intro!: filter_cong)
  qed
  then have "worklist (c\<lparr>gc_after := Some ?k\<rparr>) db' = filter (\<lambda>e. ?k < ev_key e) ?W"
    by (simp add: worklist_def filter_sort)
  then show ?thesis using sorted_drop [OF sw n] by simp
qed

definition quiet :: "schedule \<Rightarrow> bool" where
  "quiet s \<longleftrightarrow> (\<forall>k. \<not> page_done s k \<and> \<not> page_late s k \<and> \<not> page_fails s k \<and> \<not> event_done s k \<and> \<not> event_late s k)"

definition succeeds :: "(nat \<Rightarrow> event_row \<Rightarrow> issue_db \<Rightarrow> bool option \<times> issue_db) \<Rightarrow> bool" where
  "succeeds g \<longleftrightarrow> (\<forall>k e db. fst (g k e db) \<noteq> None)"

locale event_worker =
  fixes g :: "nat \<Rightarrow> event_row \<Rightarrow> issue_db \<Rightarrow> bool option \<times> issue_db"
    and inv :: "issue_db \<Rightarrow> bool"
  assumes ids: "inv db \<Longrightarrow> distinct (map ev_id (db_events db))"
    and worked: "inv db \<Longrightarrow> e \<in> set (ungrouped db) \<Longrightarrow> g k e db = (res, db') \<Longrightarrow>
      inv db' \<and> (res = None \<and> ungrouped db' = ungrouped db
        \<or> res = Some True \<and> ungrouped db' = filter (\<lambda>x. ev_id x \<noteq> ev_id e) (ungrouped db))"
begin

lemma page_run:
  assumes "inv db" "set es \<subseteq> set (ungrouped db)" "distinct (map ev_id es)" "page_events s g through es st db = (r, st', db')"
  shows "\<exists>n G. n \<le> length es \<and> (\<not> r \<longrightarrow> n = length es) \<and> (quiet s \<longrightarrow> \<not> r) \<and> (succeeds g \<longrightarrow> length G = n) \<and> distinct G \<and> set G \<subseteq> ev_id ` set (take n es) \<and> inv db'
    \<and> ungrouped db' = filter (\<lambda>x. ev_id x \<notin> set G) (ungrouped db)
    \<and> gs_observed st' = gs_observed st + n \<and> gs_grouped st' = gs_grouped st + length G
    \<and> gs_failed st' = gs_failed st + (n - length G)
    \<and> gs_next st' = (if n = 0 then gs_next st else Some \<lparr>gc_after = Some (ev_key (es ! (n - 1))), gc_through = through\<rparr>)"
  using assms
proof (induction es arbitrary: st db)
  case Nil
  then show ?case by (intro exI [of _ 0] exI [of _ "[]"]) simp
next
  case (Cons e es)
  show ?case
  proof (cases "event_done s (gs_observed st) \<or> event_late s (gs_observed st)")
    case True
    then have "r \<and> db' = db \<and> (st' = st \<or> st' = st\<lparr>gs_budget := True\<rparr>)" using Cons.prems(4) by (auto split: if_splits)
    moreover have "\<not> quiet s" using True by (auto simp: quiet_def)
    ultimately show ?thesis using Cons.prems(1) by (intro exI [of _ 0] exI [of _ "[]"]) auto
  next
    case False
    obtain res db1 where g: "g (gs_observed st) e db = (res, db1)" by fastforce
    let ?st = "attempted through e res st"
    have run: "page_events s g through es ?st db1 = (r, st', db')" using Cons.prems(4) False g by simp
    have e: "e \<in> set (ungrouped db)" "ev_id e \<notin> ev_id ` set es" using Cons.prems(2,3) by auto
    note w = worked [OF Cons.prems(1) e(1) g]
    have sub: "set es \<subseteq> set (ungrouped db1)" 
    proof
      fix x assume x: "x \<in> set es"
      have "x \<in> set (ungrouped db)" using Cons.prems(2) x by auto
      moreover have "ev_id x \<noteq> ev_id e" using e(2) x by (metis image_eqI)
      ultimately show "x \<in> set (ungrouped db1)" using w by auto
    qed
    obtain n G where q: "quiet s \<longrightarrow> \<not> r" "succeeds g \<longrightarrow> length G = n"
      and i: "n \<le> length es" "\<not> r \<longrightarrow> n = length es" "distinct G" "set G \<subseteq> ev_id ` set (take n es)" "inv db'"
      "ungrouped db' = filter (\<lambda>x. ev_id x \<notin> set G) (ungrouped db1)"
      "gs_observed st' = gs_observed ?st + n" "gs_grouped st' = gs_grouped ?st + length G" "gs_failed st' = gs_failed ?st + (n - length G)"
      "gs_next st' = (if n = 0 then gs_next ?st else Some \<lparr>gc_after = Some (ev_key (es ! (n - 1))), gc_through = through\<rparr>)"
      using Cons.IH [OF _ sub _ run] w Cons.prems(3) by auto
    let ?G = "if res = None then G else ev_id e # G"
    have "card (set G) \<le> card (ev_id ` set (take n es))" using i(4) by (intro card_mono) auto
    also have "\<dots> \<le> n" using i(1) by (metis card_image_le card_length finite_set le_trans length_take min.absorb2)
    finally have len: "length G \<le> n" using i(3) by (simp add: distinct_card)
    have "ev_id e \<notin> set G" using i(4) e(2) by (auto dest: in_set_takeD)
    then have "distinct ?G" using i(3) by simp
    moreover have "set ?G \<subseteq> ev_id ` set (take (Suc n) (e # es))" using i(4) by auto
    moreover have "ungrouped db' = filter (\<lambda>x. ev_id x \<notin> set ?G) (ungrouped db)"
      using w unfolding i(6) by (auto intro: filter_cong)
    moreover have "gs_failed st' = gs_failed st + (Suc n - length ?G)" using i(9) w len by (auto simp: attempted_def)
    moreover have "gs_grouped st' = gs_grouped st + length ?G" using i(8) w by (auto simp: attempted_def)
    moreover have "gs_next st' = Some \<lparr>gc_after = Some (ev_key ((e # es) ! (Suc n - 1))), gc_through = through\<rparr>"
      using i(10) by (cases n) (simp_all add: attempted_def)
    moreover have "succeeds g \<longrightarrow> length ?G = Suc n"
    proof
      assume sg: "succeeds g"
      then have "res \<noteq> None" using g unfolding succeeds_def by (metis fst_conv)
      then show "length ?G = Suc n" using q(2) sg by simp
    qed
    ultimately show ?thesis using i(1,2,5,7) q(1)
      by (intro exI [of _ "Suc n"] exI [of _ ?G]) (simp add: attempted_def)
  qed
qed

lemma pass_run:
  assumes "inv db" "gs_next st = Some c" "pass_loop s g c st db = (st', db')"
  shows "\<exists>n G. n \<le> length (worklist c db) \<and> distinct G \<and> set G \<subseteq> ev_id ` set (take n (worklist c db)) \<and> inv db'
    \<and> ungrouped db' = filter (\<lambda>x. ev_id x \<notin> set G) (ungrouped db)
    \<and> gs_observed st' = gs_observed st + n \<and> gs_grouped st' = gs_grouped st + length G
    \<and> (gs_failed st' = gs_failed st + (n - length G) \<or> gs_failed st' = Suc (gs_failed st + (n - length G)))
    \<and> (case gs_next st' of None \<Rightarrow> n = length (worklist c db)
       | Some c' \<Rightarrow> c' = c\<lparr>gc_after := (if n = 0 then gc_after c else Some (ev_key (worklist c db ! (n - 1))))\<rparr>)
    \<and> (quiet s \<longrightarrow> (gs_next st' = None \<or> grouperPassLimit \<le> gs_observed st') \<and> gs_failed st' = gs_failed st + (n - length G))
    \<and> (succeeds g \<longrightarrow> length G = n)"
  using assms
proof (induction "grouperPassLimit - gs_observed st" arbitrary: c st db rule: less_induct)
  case less
  let ?W = "worklist c db" and ?page = "readPage c db" and ?st = "st\<lparr>gs_batches := Suc (gs_batches st)\<rparr>"
  have d: "distinct (map ev_id (db_events db))" by (rule ids [OF less.prems(1)])
  note run = less.prems(3) [unfolded pass_loop.simps [of s g c st db]]
  consider (stop) "page_done s (gs_observed st) \<or> grouperPassLimit \<le> gs_observed st \<or> page_late s (gs_observed st) \<or> page_fails s (gs_observed st)"
    | (empty) "\<not> page_done s (gs_observed st)" "\<not> (grouperPassLimit \<le> gs_observed st \<or> page_late s (gs_observed st))"
        "\<not> page_fails s (gs_observed st)" "?page = []"
    | (page) "\<not> page_done s (gs_observed st)" "\<not> (grouperPassLimit \<le> gs_observed st \<or> page_late s (gs_observed st))"
        "\<not> page_fails s (gs_observed st)" "?page \<noteq> []" by blast
  then show ?case
  proof cases
    case stop
    then have "db' = db \<and> gs_next st' = Some c \<and> gs_observed st' = gs_observed st \<and> gs_grouped st' = gs_grouped st
      \<and> (gs_failed st' = gs_failed st \<or> gs_failed st' = Suc (gs_failed st))
      \<and> (quiet s \<longrightarrow> grouperPassLimit \<le> gs_observed st \<and> gs_failed st' = gs_failed st)"
      using run less.prems(2) by (auto simp: quiet_def split: if_splits)
    then show ?thesis using less.prems(1) by (intro exI [of _ 0] exI [of _ "[]"]) simp
  next
    case empty
    then have "?W = []" by (simp add: readPage_worklist grouperPageSize_def)
    then show ?thesis using run empty less.prems(1) by (intro exI [of _ 0] exI [of _ "[]"]) auto
  next
    case page
    obtain r st1 db1 where pe: "page_events s g (gc_through c) ?page ?st db = (r, st1, db1)" by (metis prod_cases3)
    have sub: "set ?page \<subseteq> set (ungrouped db)" unfolding readPage_worklist using worklist_set [of c db] by (auto dest: in_set_takeD)
    have dp: "distinct (map ev_id ?page)" unfolding readPage_worklist using worklist_distinct(1) [OF d, of c]
      by (simp add: take_map [symmetric] distinct_take)
    have nx: "gs_next ?st = Some c" using less.prems(2) by simp
    have st: "gs_observed ?st = gs_observed st" "gs_grouped ?st = gs_grouped st" "gs_failed ?st = gs_failed st" by simp_all
    obtain n G where q: "quiet s \<longrightarrow> \<not> r" "succeeds g \<longrightarrow> length G = n"
      and i: "n \<le> length ?page" "\<not> r \<longrightarrow> n = length ?page" "distinct G" "set G \<subseteq> ev_id ` set (take n ?page)" "inv db1"
      "ungrouped db1 = filter (\<lambda>x. ev_id x \<notin> set G) (ungrouped db)"
      "gs_observed st1 = gs_observed st + n" "gs_grouped st1 = gs_grouped st + length G" "gs_failed st1 = gs_failed st + (n - length G)"
      "gs_next st1 = (if n = 0 then Some c else Some \<lparr>gc_after = Some (ev_key (?page ! (n - 1))), gc_through = gc_through c\<rparr>)"
      using page_run [OF less.prems(1) sub dp pe, unfolded nx] unfolding st by blast
    have nW: "n \<le> length ?W" and nP: "n \<le> grouperPageSize" using i(1) by (simp_all add: readPage_worklist)
    have tk: "take n ?page = take n ?W" using nP by (simp add: readPage_worklist min.absorb1)
    have nth: "?page ! (n - 1) = ?W ! (n - 1)" if "0 < n"
    proof -
      have "n - 1 < grouperPageSize" using that nP by simp
      then show ?thesis by (simp add: readPage_worklist)
    qed
    have cur: "\<lparr>gc_after = a, gc_through = gc_through c\<rparr> = c\<lparr>gc_after := a\<rparr>" for a by simp
    show ?thesis
    proof (cases r)
      case True
      then have "st' = st1" "db' = db1" using run page pe by simp_all
      then show ?thesis using i nW tk nth cur q True by (intro exI [of _ n] exI [of _ G]) auto
    next
      case False
      then have n: "n = length ?page" "0 < n" using i(2) page(4) by simp_all
      show ?thesis
      proof (cases "length ?page < grouperPageSize")
        case True
        then have "st' = st1\<lparr>gs_next := None\<rparr>" "db' = db1" using run page pe False by simp_all
        moreover have "n = length ?W" using True n(1) by (simp add: readPage_worklist)
        ultimately show ?thesis using i tk q by (intro exI [of _ n] exI [of _ G]) auto
      next
        case more: False
        let ?c = "c\<lparr>gc_after := Some (ev_key (last ?page))\<rparr>"
        have last: "last ?page = ?W ! (n - 1)" using n nth by (simp add: last_conv_nth)
        have next1: "gs_next st1 = Some ?c" using i(10) n(2) last nth cur by simp
        have run1: "pass_loop s g ?c st1 db1 = (st', db')" using run page pe False more by simp
        have W1: "worklist ?c db1 = drop n ?W" unfolding last
          using worklist_moved [OF d, of "n - 1" c G db1] i(4,6) n(2) nW tk by simp
        have smaller: "grouperPassLimit - gs_observed st1 < grouperPassLimit - gs_observed st" using page(2) i(7) n(2) by linarith
        obtain m H where p: "quiet s \<longrightarrow> (gs_next st' = None \<or> grouperPassLimit \<le> gs_observed st') \<and> gs_failed st' = gs_failed st1 + (m - length H)"
            "succeeds g \<longrightarrow> length H = m"
          and j0: "m \<le> length (drop n ?W)" and j1: "case gs_next st' of None \<Rightarrow> m = length (drop n ?W)
           | Some c' \<Rightarrow> c' = ?c\<lparr>gc_after := (if m = 0 then gc_after ?c else Some (ev_key (drop n ?W ! (m - 1))))\<rparr>"
          and j: "distinct H" "set H \<subseteq> ev_id ` set (take m (drop n ?W))" "inv db'"
          "ungrouped db' = filter (\<lambda>x. ev_id x \<notin> set H) (ungrouped db1)"
          "gs_observed st' = gs_observed st1 + m" "gs_grouped st' = gs_grouped st1 + length H"
          "gs_failed st' = gs_failed st1 + (m - length H) \<or> gs_failed st' = Suc (gs_failed st1 + (m - length H))"
          using less.hyps [OF smaller i(5) next1 run1, unfolded W1] by (elim exE conjE) blast
        have lt: "take (n + m) ?W = take n ?W @ take m (drop n ?W)" by (simp add: take_add)
        have dW: "distinct (map ev_id ?W)" by (rule worklist_distinct(1) [OF d])
        then have "distinct (map ev_id (take n ?W @ drop n ?W))" by simp
        then have "ev_id ` set (take n ?W) \<inter> ev_id ` set (drop n ?W) = {}" unfolding map_append distinct_append by simp
        moreover have "set G \<subseteq> ev_id ` set (take n ?W)" using i(4) tk by simp
        moreover have "set H \<subseteq> ev_id ` set (drop n ?W)" using j(2) by (auto dest: in_set_takeD)
        ultimately have "set G \<inter> set H = {}" by blast
        then have GH: "distinct (G @ H)" using i(3) j(1) by simp
        have sGH: "set (G @ H) \<subseteq> ev_id ` set (take (n + m) ?W)" unfolding lt using i(4) j(2) tk by auto
        have u: "ungrouped db' = filter (\<lambda>x. ev_id x \<notin> set (G @ H)) (ungrouped db)" unfolding j(4) i(6) by (auto intro: filter_cong)
        have "length G = card (set G)" using i(3) by (simp add: distinct_card)
        also have "\<dots> \<le> card (ev_id ` set (take n ?page))" using i(4) by (intro card_mono) auto
        also have "\<dots> \<le> n" using card_image_le [of "set (take n ?page)" ev_id] card_length [of "take n ?page"] by simp
        finally have lG: "length G \<le> n" .
        have "length H = card (set H)" using j(1) by (simp add: distinct_card)
        also have "\<dots> \<le> card (ev_id ` set (take m (drop n ?W)))" using j(2) by (intro card_mono) auto
        also have "\<dots> \<le> m" using card_image_le [of "set (take m (drop n ?W))" ev_id] card_length [of "take m (drop n ?W)"] by simp
        finally have lH: "length H \<le> m" .
        have f: "gs_failed st' = gs_failed st + (n + m - length (G @ H)) \<or> gs_failed st' = Suc (gs_failed st + (n + m - length (G @ H)))"
          using j(7) i(9) lG lH by auto
        have nxt: "case gs_next st' of None \<Rightarrow> n + m = length ?W
          | Some c' \<Rightarrow> c' = c\<lparr>gc_after := (if n + m = 0 then gc_after c else Some (ev_key (?W ! (n + m - 1))))\<rparr>"
          using j0 j1 n(2) nW last by (cases m) (auto split: option.splits)
        have qf: "quiet s \<longrightarrow> gs_failed st' = gs_failed st + (n + m - length (G @ H))" using p(1) i(9) lG lH by auto
        have sg: "succeeds g \<longrightarrow> length (G @ H) = n + m" using p(2) q(2) by simp
        show ?thesis using GH sGH u f nxt j0 j(3,5,6) i(7,8) nW p(1) qf sg
          by (intro exI [of _ "n + m"] exI [of _ "G @ H"]) simp
      qed
    qed
  qed
qed

end

section \<open>The grouper's own work\<close>

lemma writes_after_events:
  "db_events (or_same ok (InsertEventTags e i tags) db) = db_events db"
  "db_events (or_same ok (InsertIssueHistory i) db) = db_events db"
  by (simp_all add: or_same_def InsertEventTags_def InsertIssueHistory_def insert_owned_def)

lemma upsert_succeeds:
  assumes "issues_inv exact db"
  shows "\<exists>s created regressed db'. upsertIssue now db db project fp title level kind env release ts db = Upserted s created regressed db'"
proof (cases "lookup_fp project fp db")
  case None
  then show ?thesis by (auto simp: upsertIssue_def upsertIssueOnce_def Let_def)
next
  case (Some i)
  have st: "struct_ok db" using assms by (simp add: issues_inv_def)
  obtain r where "r \<in> set (db_fps db)" "fp_issue r = i" using lookup_fp_mem [OF Some] by blast
  then obtain s where s: "s \<in> set (db_issues db)" "is_id s = i" using st by (auto simp: struct_ok_def fps_ok_def)
  have "GetIssueMetadata i db = Some s" using metadata_unique [OF _ s(1)] st s(2) by (simp add: struct_ok_def)
  then show ?thesis using Some by (auto simp: upsertIssue_def upsertIssueOnce_def Let_def)
qed

lemma filter_linked:
  "filter (\<lambda>e. ev_issue e = None) (map (\<lambda>r. if ev_id r = i then r\<lparr>ev_fingerprint := fp, ev_issue := Some j\<rparr> else r) evs)
   = filter (\<lambda>x. ev_id x \<noteq> i) (filter (\<lambda>e. ev_issue e = None) evs)"
  by (induction evs) auto

lemma group_event_ungrouped:
  assumes inv: "issues_inv exact db" and e: "e \<in> set (ungrouped db)"
  shows "\<exists>s created regressed db'. GroupEvent now (ev_id e) fp legacy title level env release db = (Some (s, created, regressed), db')
    \<and> ungrouped db' = filter (\<lambda>x. ev_id x \<noteq> ev_id e) (ungrouped db)"
proof -
  have e': "e \<in> set (db_events db)" "ev_issue e = None" using e by (simp_all add: ungrouped_def)
  have d: "distinct (map ev_id (db_events db))" using inv by (simp add: issues_inv_def struct_ok_def ids_ok_def)
  have "find (\<lambda>x. ev_id x = ev_id e) (db_events db) \<noteq> None" using e'(1) by (auto simp: find_None_iff)
  then obtain x where x: "find (\<lambda>x. ev_id x = ev_id e) (db_events db) = Some x" by blast
  have "x = e" using find_SomeD [OF x] e'(1) d by (auto dest: distinct_map_eq)
  let ?fp = "route_fp (ev_project e) fp legacy db"
  obtain s created regressed db1 where up: "upsertIssue now db db (ev_project e) ?fp title level ''error'' env release (ev_timestamp e) db
      = Upserted s created regressed db1"
    using upsert_succeeds [OF inv] by blast
  have ev: "db_events db1 = db_events db" by (rule upsert_upd(7) [OF inv up])
  have "ungrouped (link_event (ev_id e) ?fp (is_id s) db1) = filter (\<lambda>x. ev_id x \<noteq> ev_id e) (ungrouped db)"
    unfolding ungrouped_def link_event_def by (simp add: ev filter_linked del: filter_filter)
  moreover have "GroupEvent now (ev_id e) fp legacy title level env release db = (Some (s, created, regressed), link_event (ev_id e) ?fp (is_id s) db1)"
    using x \<open>x = e\<close> e'(2) up by (simp add: GroupEvent_def Let_def)
  ultimately show ?thesis by blast
qed

lemma group_writes_ungrouped:
  assumes inv: "issues_inv exact db" and e: "e \<in> set (ungrouped db)"
    and run: "group_writes now (ev_id e) fp legacy title level env release tags a b c db = (r, db')"
  shows "r \<and> ungrouped db' = filter (\<lambda>x. ev_id x \<noteq> ev_id e) (ungrouped db)"
proof -
  obtain s created regressed db1 where g: "GroupEvent now (ev_id e) fp legacy title level env release db = (Some (s, created, regressed), db1)"
    "ungrouped db1 = filter (\<lambda>x. ev_id x \<noteq> ev_id e) (ungrouped db)"
    using group_event_ungrouped [OF inv e] by blast
  have "r" "db_events db' = db_events db1" using run g(1) by (auto simp: group_writes_def Let_def writes_after_events)
  then show ?thesis using g(2) by (simp add: ungrouped_def)
qed

lemma group_worked:
  assumes inv: "issues_inv exact db" and e: "e \<in> set (ungrouped db)" and run: "group env a e db = (res, db')"
  shows "issues_inv exact db' \<and> (res = None \<and> at_fails a \<and> ungrouped db' = ungrouped db
    \<or> res = Some True \<and> ungrouped db' = filter (\<lambda>x. ev_id x \<noteq> ev_id e) (ungrouped db))"
proof (cases "at_fails a")
  case True
  then show ?thesis using run inv by (simp add: group_def)
next
  case False
  obtain fp legacy title level environment release tags r where w:
    "group_writes (at_now a) (ev_id e) fp legacy title level environment release tags (at_tags_ok a) (at_created_ok a) (at_regressed_ok a) db
      = (r, db')" "res = Some r"
    using run False by (auto simp: group_def Let_def split: prod.splits)
  have "issues_inv exact (issue_step db (IGroup (at_now a) (ev_id e) fp legacy title level environment release tags (at_tags_ok a) (at_created_ok a)
    (at_regressed_ok a)))" by (rule group_writes_inv [OF inv])
  then show ?thesis using group_writes_ungrouped [OF inv e w(1)] w by simp
qed

interpretation grouper: event_worker "\<lambda>k. group env (tries k)" "issues_inv exact" for env tries exact
proof unfold_locales
  fix db assume "issues_inv exact db"
  then show "distinct (map ev_id (db_events db))" by (simp add: issues_inv_def struct_ok_def ids_ok_def)
next
  fix db e k res db'
  assume "issues_inv exact db" "e \<in> set (ungrouped db)" "group env (tries k) e db = (res, db')"
  from group_worked [OF this] show "issues_inv exact db' \<and> (res = None \<and> ungrouped db' = ungrouped db
    \<or> res = Some True \<and> ungrouped db' = filter (\<lambda>x. ev_id x \<noteq> ev_id e) (ungrouped db))" by blast
qed

lemma pass_from_start:
  assumes "issues_inv exact db" "pass_loop s (\<lambda>k. group env (tries k)) c (no_stats\<lparr>gs_next := Some c\<rparr>) db = (st, db')"
  shows "\<exists>n ids. n \<le> length (worklist c db) \<and> gs_observed st = n \<and> gs_grouped st = length ids \<and> distinct ids
    \<and> set ids \<subseteq> ev_id ` set (take n (worklist c db))
    \<and> ungrouped db' = filter (\<lambda>e. ev_id e \<notin> set ids) (ungrouped db)
    \<and> (gs_failed st = n - length ids \<or> gs_failed st = Suc (n - length ids))
    \<and> (case gs_next st of None \<Rightarrow> n = length (worklist c db)
       | Some c' \<Rightarrow> c' = c\<lparr>gc_after := (if n = 0 then gc_after c else Some (ev_key (worklist c db ! (n - 1))))\<rparr>)
    \<and> issues_inv exact db'
    \<and> (quiet s \<longrightarrow> (gs_next st = None \<or> grouperPassLimit \<le> gs_observed st) \<and> gs_failed st = n - length ids)
    \<and> (succeeds (\<lambda>k. group env (tries k)) \<longrightarrow> length ids = n)"
proof -
  let ?st = "no_stats\<lparr>gs_next := Some c\<rparr>"
  have z: "gs_observed ?st = 0" "gs_grouped ?st = 0" "gs_failed ?st = 0" by (simp_all add: no_stats_def)
  have nx: "gs_next ?st = Some c" by simp
  show ?thesis using grouper.pass_run [OF assms(1) nx assms(2), unfolded z add_0_left] by (elim exE conjE) (intro exI conjI; assumption)
qed

text \<open>
C21: A pass of the grouper takes the ungrouped events of its sweep oldest first, each once, from its cursor on, and stops
after some number of them: exactly the grouped ones among these have an issue afterwards, so an event that fails holds
up no other and stays ungrouped, every other event is as it was, the counts it reports are right, and the cursor it
leaves is the last event taken, or none when it has come to the end.
\<close>

theorem pass_takes_in_order:
  assumes "issues_inv exact db" "runPass f s (\<lambda>k. group env (tries k)) (Some c) db = (st, db')"
  shows "\<exists>n ids. n \<le> length (worklist c db) \<and> gs_observed st = n \<and> gs_grouped st = length ids \<and> distinct ids
    \<and> set ids \<subseteq> ev_id ` set (take n (worklist c db))
    \<and> ungrouped db' = filter (\<lambda>e. ev_id e \<notin> set ids) (ungrouped db)
    \<and> (gs_failed st = n - length ids \<or> gs_failed st = Suc (n - length ids))
    \<and> (case gs_next st of None \<Rightarrow> n = length (worklist c db)
       | Some c' \<Rightarrow> c' = c\<lparr>gc_after := (if n = 0 then gc_after c else Some (ev_key (worklist c db ! (n - 1))))\<rparr>)
    \<and> issues_inv exact db'"
proof -
  have "pass_loop s (\<lambda>k. group env (tries k)) c (no_stats\<lparr>gs_next := Some c\<rparr>) db = (st, db')" using assms(2) by (simp add: runPass_def)
  from pass_from_start [OF assms(1) this] show ?thesis by blast
qed

text \<open>
C34: The grouper catches up: a single uninterrupted run with no failing query groups every event that has no issue, when
there are fewer than 2000 of them, and says so: as many grouped as there were, none failed, nothing left to sweep.
\<close>

theorem run_once_groups_all:
  assumes "issues_inv exact db" "quiet s" "\<And>k. \<not> at_fails (tries k)" "length (ungrouped db) < grouperPassLimit"
  shows "case RunOnce False s (\<lambda>k. group env (tries k)) db of (st, db') \<Rightarrow>
    ungrouped db' = [] \<and> gs_grouped st = length (ungrouped db) \<and> gs_failed st = 0 \<and> gs_next st = None \<and> issues_inv exact db'"
proof (cases "ungrouped db = []")
  case True
  then show ?thesis using assms(1) by (simp add: RunOnce_def runPass_def no_stats_def)
next
  case False
  let ?c = "\<lparr>gc_after = None, gc_through = Max (ev_key ` set (ungrouped db))\<rparr>"
  let ?g = "\<lambda>k. group env (tries k)"
  have all: "filter (\<lambda>e. ev_key e \<le> gc_through ?c \<and> past (gc_after ?c) e) (ungrouped db) = ungrouped db"
    by (simp add: filter_id_conv past_def)
  have W: "length (worklist ?c db) = length (ungrouped db)" "set (worklist ?c db) = set (ungrouped db)"
    unfolding worklist_def all by simp_all
  obtain st db' where run: "pass_loop s ?g ?c (no_stats\<lparr>gs_next := Some ?c\<rparr>) db = (st, db')" by fastforce
  have "succeeds ?g" using assms(3) by (auto simp: succeeds_def group_def Let_def split: prod.split)
  then obtain n ids where r: "n \<le> length (worklist ?c db)" "gs_observed st = n" "gs_grouped st = length ids" "distinct ids"
    "set ids \<subseteq> ev_id ` set (take n (worklist ?c db))" "ungrouped db' = filter (\<lambda>e. ev_id e \<notin> set ids) (ungrouped db)"
    "gs_failed st = n - length ids" "case gs_next st of None \<Rightarrow> n = length (worklist ?c db) | Some c' \<Rightarrow> True"
    "gs_next st = None \<or> grouperPassLimit \<le> gs_observed st" "length ids = n" "issues_inv exact db'"
    using pass_from_start [OF assms(1) run] assms(2) by (auto split: option.splits)
  have "gs_next st = None" using r(1,2,9) assms(4) W(1) by simp
  then have n: "n = length (ungrouped db)" using r(8) W(1) by simp
  have sub: "set ids \<subseteq> ev_id ` set (ungrouped db)" 
    using r(5) image_mono [OF set_take_subset [of n "worklist ?c db"], of ev_id] unfolding W(2) by (rule subset_trans)
  moreover have "card (set ids) = length (ungrouped db)" using r(4,10) n by (simp add: distinct_card)
  moreover have "card (ev_id ` set (ungrouped db)) \<le> length (ungrouped db)"
    using card_image_le [of "set (ungrouped db)" ev_id] card_length [of "ungrouped db"] by simp
  ultimately have "set ids = ev_id ` set (ungrouped db)" by (intro card_seteq) simp_all
  then have "ungrouped db' = []" unfolding r(6) by (auto simp: filter_empty_conv)
  then show ?thesis using r n run False \<open>gs_next st = None\<close> by (simp add: RunOnce_def runPass_def Let_def)
qed


definition calm :: schedule where
  "calm = \<lparr>page_done = (\<lambda>_. False), page_late = (\<lambda>_. False), page_fails = (\<lambda>_. False), event_done = (\<lambda>_. False), event_late = (\<lambda>_. False)\<rparr>"

definition plain_env :: grouper_env where
  "plain_env = \<lparr>ge_hash = (\<lambda>x. CHR ''h'' # x), ge_agent = (\<lambda>_. ((''Other'', [], []), (''Other'', [], []))), ge_members = (\<lambda>ms. ms),
     ge_tags = (\<lambda>ts. ts), ge_payload = (\<lambda>_. None)\<rparr>"

definition lucky :: "nat \<Rightarrow> attempt" where
  "lucky k = \<lparr>at_now = 9, at_fails = False, at_tags_ok = True, at_created_ok = True, at_regressed_ok = True\<rparr>"

lemma resolved_inv: "issues_inv False resolved_db"
  unfolding resolved_db_def by (rule issues.run_inv) (rule no_issues_inv)

lemma resolved_ungrouped: "length (ungrouped resolved_db) = 1"
  by code_simp

theorem pass_takes_in_order_witness:
  "\<exists>st db' n. runPass False calm (\<lambda>k. group plain_env (lucky k)) (Some \<lparr>gc_after = None, gc_through = (9, 9)\<rparr>) resolved_db = (st, db')
     \<and> n \<le> length (worklist \<lparr>gc_after = None, gc_through = (9, 9)\<rparr> resolved_db) \<and> gs_observed st = n \<and> issues_inv False db'"
proof -
  obtain st db' where run: "runPass False calm (\<lambda>k. group plain_env (lucky k)) (Some \<lparr>gc_after = None, gc_through = (9, 9)\<rparr>) resolved_db = (st, db')"
    by fastforce
  show ?thesis using pass_takes_in_order [OF resolved_inv run] run by blast
qed

theorem run_once_groups_all_witness:
  "case RunOnce False calm (\<lambda>k. group plain_env (lucky k)) resolved_db of (st, db') \<Rightarrow> ungrouped db' = [] \<and> gs_grouped st = 1"
proof -
  have q: "quiet calm" and f: "\<And>k. \<not> at_fails (lucky k)" and l: "length (ungrouped resolved_db) < grouperPassLimit"
    by (simp_all add: quiet_def calm_def lucky_def resolved_ungrouped grouperPassLimit_def)
  from run_once_groups_all [OF resolved_inv q f l, of plain_env "\<lambda>k. k"] show ?thesis by (auto simp: resolved_ungrouped)
qed

end
