(* ===== verification/Alert_Rules.thy ===== *)
theory Alert_Rules
  imports Runes
begin

text \<open>
  Alert rules and their firings: the tables and queries of \<open>internal/storage/alerts.go\<close> and
  \<open>internal/storage/alert_firings.go\<close>, and the creation and the patch of a rule in \<open>internal/api/alerts.go\<close>.
  The projects of a rule are rows of a second table, which go with the rule and with the project; a firing goes
  with its rule. Each transaction either fails, and is \<open>None\<close>, or gives the tables after it. Row ids are numbers
  handed out in order. A stored payload is kept as a value: its JSON always decodes to what was encoded.
\<close>

section \<open>Tables\<close>

record alert_rule =
  ar_id :: nat
  ar_projects :: "string list"
  ar_global :: bool
  ar_name :: string
  ar_enabled :: bool
  ar_trigger :: string
  ar_threshold :: "go_int option"
  ar_window :: "go_int option"
  ar_channel :: string
  ar_webhook :: "string option"
  ar_email :: "string option"
  ar_cooldown :: go_int
  ar_level :: "string option"
  ar_env :: "string option"
  ar_min :: "go_int option"
  ar_search :: "string option"
  ar_last :: "nanos option"
  ar_created :: nanos

text \<open>The details of a payload: counts, texts and lists of texts, by their name.\<close>

datatype detail = DInt go_int | DText string | DList "string list"

record payload =
  pl_rule :: nat
  pl_name :: string
  pl_project :: string
  pl_trigger :: string
  pl_fired :: nanos
  pl_details :: "(string \<times> detail) list"

datatype firing_status = Pending | Delivered | GivenUp

record firing =
  af_id :: nat
  af_rule :: nat
  af_fired :: nanos
  af_trigger :: string
  af_channel :: string
  af_status :: firing_status
  af_code :: "go_int option"
  af_error :: "string option"
  af_items :: "go_int option"
  af_attempt :: nat
  af_next :: "nanos option"
  af_payload :: "payload option"

text \<open>In the rows of the rule table the projects are empty: they are rows of \<open>al_links\<close>.\<close>

record alert_db =
  al_rules :: "alert_rule list"
  al_links :: "(nat \<times> string) list"
  al_known :: "string list"
  al_firings :: "firing list"
  al_next :: nat

definition minutes :: "go_int \<Rightarrow> nanos" where "minutes n = n * 60000000000"

section \<open>Reading rules\<close>

definition joined :: "alert_db \<Rightarrow> alert_rule \<Rightarrow> alert_rule" where
  "joined db r = r\<lparr>ar_projects := map snd (filter (\<lambda>l. fst l = ar_id r) (al_links db))\<rparr>"

definition ruleHasScope :: "alert_db \<Rightarrow> alert_rule \<Rightarrow> bool" where
  "ruleHasScope db r \<longleftrightarrow> ar_global r \<or> ar_id r \<in> fst ` set (al_links db)"

definition GetAlertRule :: "nat \<Rightarrow> alert_db \<Rightarrow> alert_rule option" where
  "GetAlertRule i db = map_option (joined db) (find (\<lambda>r. ar_id r = i) (al_rules db))"

definition ListAlertRules :: "string \<Rightarrow> alert_db \<Rightarrow> alert_rule list" where
  "ListAlertRules project db = map (joined db) (sort_key (\<lambda>r. - ar_created r)
     (filter (\<lambda>r. project = [] \<or> (ar_id r, project) \<in> set (al_links db)) (al_rules db)))"

definition cooled :: "nanos \<Rightarrow> alert_rule \<Rightarrow> bool" where
  "cooled now r \<longleftrightarrow> (case ar_last r of None \<Rightarrow> True | Some t \<Rightarrow> t + minutes (ar_cooldown r) \<le> now)"

definition ListDueAlertRules :: "nanos \<Rightarrow> alert_db \<Rightarrow> alert_rule list" where
  "ListDueAlertRules now db = map (joined db)
     (filter (\<lambda>r. ar_enabled r \<and> cooled now r \<and> ruleHasScope db r) (al_rules db))"

definition ListEnabledAlertRules :: "alert_db \<Rightarrow> alert_rule list" where
  "ListEnabledAlertRules db = map (joined db) (filter (\<lambda>r. ar_enabled r \<and> ruleHasScope db r) (al_rules db))"

section \<open>Writing rules\<close>

definition normaliseProjectIDs :: "string list \<Rightarrow> string list" where
  "normaliseProjectIDs ids = filter (\<lambda>p. trim_space p \<noteq> []) ids"

text \<open>One insertion after the other: a project that is not there and a repeated one fail.\<close>

fun insert_projects :: "nat \<Rightarrow> string list \<Rightarrow> alert_db \<Rightarrow> alert_db option" where
  "insert_projects i [] db = Some db"
| "insert_projects i (p # ps) db =
     (if p \<notin> set (al_known db) \<or> (i, p) \<in> set (al_links db) then None
      else insert_projects i ps (db\<lparr>al_links := al_links db @ [(i, p)]\<rparr>))"

definition setAlertRuleProjects :: "nat \<Rightarrow> string list \<Rightarrow> alert_db \<Rightarrow> alert_db option" where
  "setAlertRuleProjects i ps db = insert_projects i ps (db\<lparr>al_links := filter (\<lambda>l. fst l \<noteq> i) (al_links db)\<rparr>)"

text \<open>The checks of the schema on the columns of a rule.\<close>

definition all_triggers :: "string list" where
  "all_triggers = [''new_issue'', ''regressed'', ''new_or_regressed'', ''event_count'', ''log_count'',
     ''cron_missed'', ''cron_error'', ''uptime_down'', ''uptime_recovered'']"

definition all_channels :: "string list" where
  "all_channels = [''webhook'', ''slack'', ''discord'', ''teams'', ''email'']"

definition int4 :: "go_int \<Rightarrow> bool" where "int4 n \<longleftrightarrow> - (2 ^ 31) \<le> n \<and> n < 2 ^ 31"

definition columns_ok :: "alert_rule \<Rightarrow> bool" where
  "columns_ok r \<longleftrightarrow> ar_trigger r \<in> set all_triggers \<and> ar_channel r \<in> set all_channels \<and> int4 (ar_cooldown r)
     \<and> list_all (\<lambda>c. case c of None \<Rightarrow> True | Some n \<Rightarrow> int4 n) [ar_threshold r, ar_window r, ar_min r]"

definition CreateAlertRule :: "nanos \<Rightarrow> alert_rule \<Rightarrow> alert_db \<Rightarrow> (alert_rule \<times> alert_db) option" where
  "CreateAlertRule now r db =
     (if \<not> columns_ok r then None
      else let row = r\<lparr>ar_id := al_next db, ar_projects := [], ar_global := (normaliseProjectIDs (ar_projects r) = []),
             ar_last := None, ar_created := now\<rparr>
        in (case setAlertRuleProjects (ar_id row) (ar_projects r)
                   (db\<lparr>al_rules := al_rules db @ [row], al_next := al_next db + 1\<rparr>) of
              None \<Rightarrow> None
            | Some db' \<Rightarrow> Some (row\<lparr>ar_projects := normaliseProjectIDs (ar_projects r)\<rparr>, db')))"

definition write_rule :: "nat \<Rightarrow> (alert_rule \<Rightarrow> alert_rule) \<Rightarrow> alert_db \<Rightarrow> alert_db" where
  "write_rule i f db = db\<lparr>al_rules := map (\<lambda>x. if ar_id x = i then f x else x) (al_rules db)\<rparr>"

text \<open>The columns the update writes; the two times, and the id, stay.\<close>

definition overwrite :: "alert_rule \<Rightarrow> alert_rule \<Rightarrow> alert_rule" where
  "overwrite r x = r\<lparr>ar_id := ar_id x, ar_projects := [], ar_global := (normaliseProjectIDs (ar_projects r) = []),
     ar_last := ar_last x, ar_created := ar_created x\<rparr>"

datatype 'a rule_result = RuleError | NoRule | RuleIs 'a

definition UpdateAlertRule :: "alert_rule \<Rightarrow> alert_db \<Rightarrow> (alert_rule \<times> alert_db) rule_result" where
  "UpdateAlertRule r db =
     (case find (\<lambda>x. ar_id x = ar_id r) (al_rules db) of
        None \<Rightarrow> NoRule
      | Some x \<Rightarrow>
          if \<not> columns_ok r then RuleError
          else (case setAlertRuleProjects (ar_id r) (ar_projects r) (write_rule (ar_id r) (overwrite r) db) of
              None \<Rightarrow> RuleError
            | Some db' \<Rightarrow> RuleIs ((overwrite r x)\<lparr>ar_projects := normaliseProjectIDs (ar_projects r)\<rparr>, db')))"

definition DeleteAlertRule :: "nat \<Rightarrow> alert_db \<Rightarrow> bool \<times> alert_db" where
  "DeleteAlertRule i db =
     (i \<in> ar_id ` set (al_rules db),
      db\<lparr>al_rules := filter (\<lambda>r. ar_id r \<noteq> i) (al_rules db), al_links := filter (\<lambda>l. fst l \<noteq> i) (al_links db),
         al_firings := filter (\<lambda>f. af_rule f \<noteq> i) (al_firings db)\<rparr>)"

definition MarkAlertFired :: "nat \<Rightarrow> nanos \<Rightarrow> alert_db \<Rightarrow> alert_db" where
  "MarkAlertFired i firedAt = write_rule i (\<lambda>r. r\<lparr>ar_last := Some firedAt\<rparr>)"

text \<open>The deletion of a project, as far as these tables see it.\<close>

definition drop_project :: "string \<Rightarrow> alert_db \<Rightarrow> alert_db" where
  "drop_project p db = db\<lparr>al_known := filter (\<lambda>q. q \<noteq> p) (al_known db), al_links := filter (\<lambda>l. snd l \<noteq> p) (al_links db)\<rparr>"

section \<open>Requests\<close>

definition validLevels :: "string list" where
  "validLevels = [''fatal'', ''error'', ''warning'', ''info'', ''debug'']"

definition validLogCountLevels :: "string list" where
  "validLogCountLevels = [''fatal'', ''error'', ''warning'']"

definition maxFilterSearchLen :: nat where "maxFilterSearchLen = 200"

definition nonemptyProjectCount :: "string list \<Rightarrow> nat" where
  "nonemptyProjectCount ids = length (filter (\<lambda>p. trim_space p \<noteq> []) ids)"

definition positive :: "go_int option \<Rightarrow> bool" where
  "positive n = (case n of None \<Rightarrow> False | Some k \<Rightarrow> 0 < k)"

text \<open>The checks of one kind of rule: \<open>Inl\<close> the message, or the rule, whose search text is trimmed.\<close>

definition check_event_count :: "alert_rule \<Rightarrow> string + alert_rule" where
  "check_event_count r =
     (if ar_threshold r = None \<or> ar_window r = None then Inl ''threshold and window_mins required for event_count trigger''
      else if \<not> positive (ar_threshold r) \<or> \<not> positive (ar_window r) then Inl ''threshold and window_mins must be positive''
      else Inr r)"

definition trimmed_search :: "alert_rule \<Rightarrow> string + alert_rule" where
  "trimmed_search r =
     (case ar_search r of
        None \<Rightarrow> Inr r
      | Some s \<Rightarrow>
          let t = trim_space s in
          if t = [] then Inr (r\<lparr>ar_search := None\<rparr>)
          else if maxFilterSearchLen < length t then Inl ''filter_search must be at most 200 characters''
          else Inr (r\<lparr>ar_search := Some t\<rparr>))"

definition check_log_count :: "alert_rule \<Rightarrow> string + alert_rule" where
  "check_log_count r =
     (if nonemptyProjectCount (ar_projects r) = 0 then Inl ''project_ids required for log_count trigger''
      else case (ar_threshold r, ar_window r) of
        (Some n, Some w) \<Rightarrow>
          if n \<le> 0 then Inl ''threshold must be positive''
          else if w < 1 \<or> 60 < w then Inl ''window_mins must be between 1 and 60 for log_count trigger''
          else (case ar_level r of
              None \<Rightarrow> Inl ''filter_level required for log_count trigger''
            | Some l \<Rightarrow>
                if l = [] then Inl ''filter_level required for log_count trigger''
                else if l \<notin> set validLogCountLevels then Inl ''filter_level must be fatal, error, or warning for log_count trigger''
                else (case trimmed_search r of
                    Inl e \<Rightarrow> Inl e
                  | Inr r' \<Rightarrow>
                      if l = ''warning'' \<and> (ar_search r' = None \<or> ar_search r' = Some [])
                      then Inl ''filter_search required when log_count min level is warning'' else Inr r'))
      | _ \<Rightarrow> Inl ''threshold and window_mins required for log_count trigger'')"

definition chat_channel :: "string \<Rightarrow> bool" where
  "chat_channel c \<longleftrightarrow> c \<in> {''webhook'', ''slack'', ''discord'', ''teams''}"

definition missing :: "string option \<Rightarrow> bool" where
  "missing s \<longleftrightarrow> s = None \<or> s = Some []"

definition validateAlertRule :: "alert_rule \<Rightarrow> string + alert_rule" where
  "validateAlertRule r =
     (if ar_name r = [] then Inl ''name is required''
      else if ar_trigger r \<notin> set all_triggers then Inl ''trigger must be new_issue, regressed, new_or_regressed, event_count, log_count, cron_missed, cron_error, uptime_down, or uptime_recovered''
      else
        case (if ar_trigger r = ''event_count'' then check_event_count r
              else if ar_trigger r = ''log_count'' then check_log_count r else Inr r) of
          Inl e \<Rightarrow> Inl e
        | Inr r \<Rightarrow>
            if ar_channel r \<notin> set all_channels then Inl ''channel must be webhook, slack, discord, teams, or email''
            else if chat_channel (ar_channel r) \<and> missing (ar_webhook r) then Inl (''webhook_url required for '' @ ar_channel r @ '' channel'')
            else if ar_channel r = ''email'' \<and> missing (ar_email r) then Inl ''email_to required for email channel''
            else if ar_trigger r \<noteq> ''log_count'' \<and> (case ar_level r of None \<Rightarrow> False | Some l \<Rightarrow> l \<notin> set validLevels)
              then Inl ''filter_level must be fatal, error, warning, info, or debug''
            else if (case ar_min r of None \<Rightarrow> False | Some n \<Rightarrow> n < 1) then Inl ''min_occurrences must be at least 1''
            else Inr (if ar_cooldown r \<le> 0 then r\<lparr>ar_cooldown := 60\<rparr> else r))"

text \<open>What a request answers: a refusal with its text, no such rule, an internal error, or the rule.\<close>

datatype 'a answer = Refused string | Missing | Internal | Answered 'a

text \<open>\<open>url_ok\<close> stands for \<open>ValidateWebhookURL\<close>, which asks the resolver: the refusal, if there is one.\<close>

definition vetted :: "(string \<Rightarrow> string option) \<Rightarrow> alert_rule \<Rightarrow> string + alert_rule" where
  "vetted url_ok r =
     (case validateAlertRule r of
        Inl e \<Rightarrow> Inl e
      | Inr r' \<Rightarrow>
          if chat_channel (ar_channel r') then
            (case url_ok (case ar_webhook r' of None \<Rightarrow> [] | Some u \<Rightarrow> u) of None \<Rightarrow> Inr r' | Some e \<Rightarrow> Inl e)
          else Inr r')"

definition handleCreateAlertRule ::
  "(string \<Rightarrow> string option) \<Rightarrow> nanos \<Rightarrow> alert_rule \<Rightarrow> alert_db \<Rightarrow> (alert_rule \<times> alert_db) answer" where
  "handleCreateAlertRule url_ok now body db =
     (case vetted url_ok (body\<lparr>ar_enabled := True\<rparr>) of
        Inl e \<Rightarrow> Refused e
      | Inr r \<Rightarrow> (case CreateAlertRule now r db of None \<Rightarrow> Internal | Some x \<Rightarrow> Answered x))"

text \<open>
  A patch: \<open>None\<close> leaves a field. The four filters can also be cleared, by \<open>Some None\<close>. An address that is the
  redacted form of the stored one leaves it; \<open>parse\<close> is what \<open>net/url\<close> makes of an address, its scheme and its host.
\<close>

definition redactWebhookURL :: "(string \<Rightarrow> (string \<times> string) option) \<Rightarrow> string \<Rightarrow> string" where
  "redactWebhookURL parse raw =
     (let tail = drop (length raw - 4) raw in
      case parse raw of
        None \<Rightarrow> ellipsis @ tail
      | Some (scheme, host) \<Rightarrow> if host = [] then ellipsis @ tail else scheme @ ''://'' @ host @ ''/'' @ ellipsis @ tail)"

record rule_patch =
  rp_name :: "string option"
  rp_enabled :: "bool option"
  rp_trigger :: "string option"
  rp_threshold :: "go_int option"
  rp_window :: "go_int option"
  rp_channel :: "string option"
  rp_webhook :: "string option"
  rp_email :: "string option"
  rp_cooldown :: "go_int option"
  rp_level :: "string option option"
  rp_env :: "string option option"
  rp_min :: "go_int option option"
  rp_search :: "string option option"
  rp_projects :: "string list option"

definition given :: "'a option \<Rightarrow> 'a \<Rightarrow> 'a" where
  "given p x = (case p of None \<Rightarrow> x | Some y \<Rightarrow> y)"

definition given_opt :: "'a option \<Rightarrow> 'a option \<Rightarrow> 'a option" where
  "given_opt p x = (if p = None then x else p)"

definition patched :: "(string \<Rightarrow> string) \<Rightarrow> rule_patch \<Rightarrow> alert_rule \<Rightarrow> alert_rule" where
  "patched redact p r =
     r\<lparr>ar_name := given (rp_name p) (ar_name r), ar_enabled := given (rp_enabled p) (ar_enabled r),
       ar_trigger := given (rp_trigger p) (ar_trigger r), ar_threshold := given_opt (rp_threshold p) (ar_threshold r),
       ar_window := given_opt (rp_window p) (ar_window r), ar_channel := given (rp_channel p) (ar_channel r),
       ar_webhook := (case (rp_webhook p, ar_webhook r) of
           (None, w) \<Rightarrow> w
         | (Some u, None) \<Rightarrow> Some u
         | (Some u, Some w) \<Rightarrow> if u = redact w then Some w else Some u),
       ar_email := given_opt (rp_email p) (ar_email r), ar_cooldown := given (rp_cooldown p) (ar_cooldown r),
       ar_level := given (rp_level p) (ar_level r), ar_env := given (rp_env p) (ar_env r),
       ar_min := given (rp_min p) (ar_min r), ar_search := given (rp_search p) (ar_search r),
       ar_projects := given (rp_projects p) (ar_projects r)\<rparr>"

definition handleUpdateAlertRule ::
  "(string \<Rightarrow> string option) \<Rightarrow> (string \<Rightarrow> string) \<Rightarrow> nat \<Rightarrow> rule_patch \<Rightarrow> alert_db \<Rightarrow> (alert_rule \<times> alert_db) answer" where
  "handleUpdateAlertRule url_ok redact i p db =
     (case GetAlertRule i db of
        None \<Rightarrow> Missing
      | Some existing \<Rightarrow>
          (case vetted url_ok (patched redact p existing) of
             Inl e \<Rightarrow> Refused e
           | Inr r \<Rightarrow> (case UpdateAlertRule r db of RuleIs x \<Rightarrow> Answered x | _ \<Rightarrow> Internal)))"

section \<open>Firings\<close>

definition CreateAlertFiring :: "nanos \<Rightarrow> firing \<Rightarrow> alert_db \<Rightarrow> alert_db option" where
  "CreateAlertFiring now f db =
     (if af_rule f \<notin> ar_id ` set (al_rules db) then None
      else Some (db\<lparr>al_firings := al_firings db @ [f\<lparr>af_id := al_next db, af_fired := now\<rparr>], al_next := al_next db + 1\<rparr>))"

definition write_firing :: "nat \<Rightarrow> (firing \<Rightarrow> firing) \<Rightarrow> alert_db \<Rightarrow> alert_db" where
  "write_firing i f db = db\<lparr>al_firings := map (\<lambda>x. if af_id x = i then f x else x) (al_firings db)\<rparr>"

definition ResolveAlertFiring ::
  "nat \<Rightarrow> firing_status \<Rightarrow> nat \<Rightarrow> go_int option \<Rightarrow> string option \<Rightarrow> alert_db \<Rightarrow> alert_db" where
  "ResolveAlertFiring i status attempt code msg = write_firing i
     (\<lambda>f. f\<lparr>af_status := status, af_attempt := attempt, af_code := code, af_error := msg, af_next := None, af_payload := None\<rparr>)"

definition ScheduleAlertFiringRetry ::
  "nat \<Rightarrow> nat \<Rightarrow> nanos \<Rightarrow> go_int option \<Rightarrow> string option \<Rightarrow> payload \<Rightarrow> alert_db \<Rightarrow> alert_db" where
  "ScheduleAlertFiringRetry i attempt nextRetry code msg p = write_firing i
     (\<lambda>f. f\<lparr>af_status := Pending, af_attempt := attempt, af_next := Some nextRetry, af_code := code, af_error := msg,
            af_payload := Some p\<rparr>)"

definition ListAlertFirings :: "nat \<Rightarrow> nat \<Rightarrow> alert_db \<Rightarrow> firing list" where
  "ListAlertFirings i lim db = take lim (sort_key (\<lambda>f. - af_fired f) (filter (\<lambda>f. af_rule f = i) (al_firings db)))"

definition retry_due :: "nanos \<Rightarrow> firing \<Rightarrow> bool" where
  "retry_due now f \<longleftrightarrow> af_status f = Pending \<and> (case af_next f of None \<Rightarrow> False | Some t \<Rightarrow> t \<le> now)"

definition ListPendingRetries :: "nanos \<Rightarrow> alert_db \<Rightarrow> firing list" where
  "ListPendingRetries now db = take 50 (sort_key (\<lambda>f. the (af_next f)) (filter (retry_due now) (al_firings db)))"

text \<open>
  \<open>purgeAlertFirings\<close> of the retention worker: of every rule the newest 1000 firings stay, and the oldest of the
  others go (in batches, one after the other), at most \<open>maxIDsPerPass\<close> in a pass. The rank of a firing counts the firings of its rule that come
  before it in the order of the ranking.
\<close>

definition newer :: "firing \<Rightarrow> firing \<Rightarrow> bool" where
  "newer f g \<longleftrightarrow> af_fired g < af_fired f \<or> af_fired f = af_fired g \<and> af_id g < af_id f"

definition firing_rank :: "alert_db \<Rightarrow> firing \<Rightarrow> nat" where
  "firing_rank db f = Suc (length (filter (\<lambda>g. af_rule g = af_rule f \<and> newer g f) (al_firings db)))"

definition purgeAlertFirings :: "alert_db \<Rightarrow> alert_db" where
  "purgeAlertFirings db =
     (let gone = map af_id (take maxIDsPerPass (sort_key (\<lambda>f. af_fired f)
            (sort_key af_id (filter (\<lambda>f. 1000 < firing_rank db f) (al_firings db)))))
      in db\<lparr>al_firings := filter (\<lambda>f. af_id f \<notin> set gone) (al_firings db)\<rparr>)"

end
