(* ===== verification/Alert_Eval.thy ===== *)
theory Alert_Eval
  imports Alert_Rules Issue_Store Uptime
begin

text \<open>
  The evaluation of alert rules, \<open>internal/alerts/evaluator.go\<close>: what a rule counts, when it fires, how a failed
  delivery is retried, and the notice of automatically resolved issues. The log query is that of
  \<open>internal/storage/logs.go\<close>. A reply of the network is an argument, and so are the clocks and the failures of the
  database; the texts that are delivered are not part of the model.
\<close>

section \<open>Levels\<close>

definition severity :: "string list" where
  "severity = [''fatal'', ''error'', ''warning'', ''info'', ''debug'']"

definition levelsAtOrAbove :: "string \<Rightarrow> string list" where
  "levelsAtOrAbove minLevel =
     (if minLevel = ''performance'' then [''performance'']
      else if minLevel \<in> set severity then takeWhile (\<lambda>l. l \<noteq> minLevel) severity @ [minLevel] else severity)"

section \<open>The log query\<close>

record log_row =
  lg_project :: string
  lg_time :: nanos
  lg_level :: string
  lg_body :: string
  lg_env :: "string option"

record log_filter =
  lf_projects :: "string list"
  lf_levels :: "string list"
  lf_env :: string
  lf_search :: string
  lf_window :: go_int

definition expandWarnLevels :: "string list \<Rightarrow> string list" where
  "expandWarnLevels levels =
     (let hasWarn = ''warn'' \<in> set levels; hasWarning = ''warning'' \<in> set levels in
      if \<not> hasWarn \<and> \<not> hasWarning then levels
      else levels @ (if hasWarning \<and> \<not> hasWarn then [''warn''] else []) @ (if hasWarn \<and> \<not> hasWarning then [''warning''] else []))"

definition escape_char :: "char \<Rightarrow> string \<Rightarrow> string" where
  "escape_char c s = concat (map (\<lambda>x. if x = c then [CHR 0x5C, x] else [x]) s)"

definition escapeLike :: "string \<Rightarrow> string" where
  "escapeLike s = escape_char CHR ''_'' (escape_char CHR ''%'' (escape_char CHR 0x5C s))"

definition likeContains :: "string \<Rightarrow> string" where
  "likeContains s = ''%'' @ escapeLike s @ ''%''"

text \<open>
  \<open>LIKE\<close> of PostgreSQL with the backslash as its escape, and \<open>ILIKE\<close>, which lowers both sides first (here the
  letters of ASCII). The underscore stands for one byte, which no pattern of the source uses.
\<close>

fun like :: "string \<Rightarrow> string \<Rightarrow> bool" where
  "like [] s = (s = [])"
| "like (p # ps) s =
     (if p = CHR ''%'' then like ps s \<or> (case s of [] \<Rightarrow> False | _ # cs \<Rightarrow> like (p # ps) cs)
      else if p = CHR ''_'' then (case s of [] \<Rightarrow> False | _ # cs \<Rightarrow> like ps cs)
      else if p = CHR 0x5C then
        (case ps of [] \<Rightarrow> False | q # qs \<Rightarrow> (case s of [] \<Rightarrow> False | c # cs \<Rightarrow> c = q \<and> like qs cs))
      else (case s of [] \<Rightarrow> False | c # cs \<Rightarrow> c = p \<and> like ps cs))"

definition ilike :: "string \<Rightarrow> string \<Rightarrow> bool" where
  "ilike pattern s = like (map lower_char pattern) (map lower_char s)"

definition log_where :: "nanos \<Rightarrow> log_filter \<Rightarrow> log_row \<Rightarrow> bool" where
  "log_where now f l \<longleftrightarrow>
     (lf_projects f = [] \<or> lg_project l \<in> set (lf_projects f))
     \<and> (lf_levels f = [] \<or> lg_level l \<in> set (expandWarnLevels (lf_levels f)))
     \<and> (lf_env f = [] \<or> lg_env l = Some (lf_env f))
     \<and> (lf_search f = [] \<or> ilike (likeContains (lf_search f)) (lg_body l))
     \<and> (lf_window f \<le> 0 \<or> now - minutes (lf_window f) < lg_time l \<and> lg_time l \<le> now + minutes 2)"

definition CountLogs :: "nanos \<Rightarrow> log_filter \<Rightarrow> log_row list \<Rightarrow> nat" where
  "CountLogs now f logs = length (filter (log_where now f) logs)"

definition LogsReachThreshold :: "nanos \<Rightarrow> log_filter \<Rightarrow> go_int \<Rightarrow> log_row list \<Rightarrow> bool" where
  "LogsReachThreshold now f threshold logs =
     (0 < threshold \<and> threshold \<le> int (length (take (nat threshold) (filter (log_where now f) logs))))"

definition logFilterFromRule :: "alert_rule \<Rightarrow> log_filter" where
  "logFilterFromRule r = \<lparr>lf_projects = ar_projects r,
     lf_levels = (case ar_level r of None \<Rightarrow> [] | Some l \<Rightarrow> if l = [] then [] else levelsAtOrAbove l),
     lf_env = (case ar_env r of None \<Rightarrow> [] | Some e \<Rightarrow> e), lf_search = (case ar_search r of None \<Rightarrow> [] | Some s \<Rightarrow> s),
     lf_window = (case ar_window r of None \<Rightarrow> 0 | Some w \<Rightarrow> w)\<rparr>"

definition logCountDetails :: "alert_rule \<Rightarrow> go_int \<Rightarrow> (string \<times> detail) list" where
  "logCountDetails r count =
     [(''log_count'', DInt count), (''project_ids'', DList (ar_projects r))]
     @ (case ar_threshold r of None \<Rightarrow> [] | Some n \<Rightarrow> [(''threshold'', DInt n)])
     @ (case ar_window r of None \<Rightarrow> [] | Some n \<Rightarrow> [(''window_mins'', DInt n)])
     @ (case ar_level r of None \<Rightarrow> [] | Some l \<Rightarrow> [(''filter_level'', DText l)])
     @ (case ar_env r of None \<Rightarrow> [] | Some e \<Rightarrow> [(''filter_environment'', DText e)])
     @ (case ar_search r of None \<Rightarrow> [] | Some s \<Rightarrow> if s = [] then [] else [(''filter_search'', DText s)])"

section \<open>Conditions\<close>

text \<open>The tables as the counting query of a rule sees them, at its \<open>NOW()\<close>; \<open>wo_slow\<close>: the log query ran out of time.\<close>

record world =
  wo_now :: nanos
  wo_issues :: "issue list"
  wo_events :: "event_row list"
  wo_monitors :: "monitor list"
  wo_checkins :: "checkin list"
  wo_uptime :: "uptime_monitor list"
  wo_logs :: "log_row list"
  wo_slow :: bool

definition since :: "alert_rule \<Rightarrow> nanos" where
  "since r = (case ar_last r of None \<Rightarrow> ar_created r | Some t \<Rightarrow> t)"

definition in_scope :: "alert_rule \<Rightarrow> string \<Rightarrow> bool" where
  "in_scope r project \<longleftrightarrow> ar_projects r = [] \<or> project \<in> set (ar_projects r)"

definition after_since :: "alert_rule \<Rightarrow> nanos option \<Rightarrow> bool" where
  "after_since r t = (case t of None \<Rightarrow> False | Some x \<Rightarrow> since r < x)"

text \<open>The conjuncts of \<open>appendIssueFilters\<close>.\<close>

definition issue_filters :: "alert_rule \<Rightarrow> issue \<Rightarrow> bool" where
  "issue_filters r s \<longleftrightarrow>
     (case ar_level r of None \<Rightarrow> True | Some l \<Rightarrow> is_kind s \<noteq> ''error'' \<or> is_level s \<in> set (levelsAtOrAbove l))
     \<and> (case ar_env r of None \<Rightarrow> True | Some e \<Rightarrow> is_environment s = Some e)
     \<and> (case ar_min r of None \<Rightarrow> True | Some n \<Rightarrow> n \<le> is_event_count s)"

definition fresh_issues :: "alert_rule \<Rightarrow> world \<Rightarrow> issue list" where
  "fresh_issues r w = filter (\<lambda>s. in_scope r (is_project s) \<and> since r < is_created s \<and> issue_filters r s) (wo_issues w)"

definition back_issues :: "alert_rule \<Rightarrow> world \<Rightarrow> issue list" where
  "back_issues r w = filter (\<lambda>s. in_scope r (is_project s) \<and> after_since r (is_regressed_at s) \<and> issue_filters r s) (wo_issues w)"

definition windowed_events :: "alert_rule \<Rightarrow> go_int \<Rightarrow> world \<Rightarrow> event_row list" where
  "windowed_events r mins w = filter (\<lambda>e. in_scope r (ev_project e) \<and> wo_now w - minutes mins < ev_received e
     \<and> (case ar_level r of None \<Rightarrow> True | Some l \<Rightarrow> (case ev_level e of None \<Rightarrow> False | Some v \<Rightarrow> v \<in> set (levelsAtOrAbove l)))
     \<and> (case ar_env r of None \<Rightarrow> True | Some v \<Rightarrow> ev_environment e = Some v)) (wo_events w)"

definition missed_monitors :: "alert_rule \<Rightarrow> world \<Rightarrow> monitor list" where
  "missed_monitors r w = filter (\<lambda>m. in_scope r (mo_project m) \<and> overdue (wo_now w) m) (wo_monitors w)"

definition failed_checkins :: "alert_rule \<Rightarrow> world \<Rightarrow> checkin list" where
  "failed_checkins r w = [c. c \<leftarrow> wo_checkins w, m \<leftarrow> wo_monitors w,
     mo_id m = ck_monitor c \<and> in_scope r (mo_project m) \<and> mo_status m = Active \<and> ck_status c = StatusError
     \<and> since r < completed_at c]"

definition down_monitors :: "alert_rule \<Rightarrow> world \<Rightarrow> uptime_monitor list" where
  "down_monitors r w = filter (\<lambda>m. in_scope r (um_project m) \<and> um_status m = Active \<and> um_state m = UpDown) (wo_uptime w)"

definition recovered_monitors :: "alert_rule \<Rightarrow> world \<Rightarrow> uptime_monitor list" where
  "recovered_monitors r w = filter (\<lambda>m. in_scope r (um_project m) \<and> um_status m = Active \<and> um_state m = UpUp
     \<and> um_down_at m \<noteq> None \<and> after_since r (um_recovered m)) (wo_uptime w)"

datatype condition = CondError | NotMet | Met "(string \<times> detail) list"

definition met_if :: "string \<Rightarrow> 'a list \<Rightarrow> condition" where
  "met_if name xs = (if xs = [] then NotMet else Met [(name, DInt (int (length xs)))])"

definition conditionMet :: "alert_rule \<Rightarrow> world \<Rightarrow> condition" where
  "conditionMet r w =
     (if ar_trigger r = ''new_issue'' then met_if ''new_issue_count'' (fresh_issues r w)
      else if ar_trigger r = ''regressed'' then met_if ''regressed_count'' (back_issues r w)
      else if ar_trigger r = ''new_or_regressed'' then
        (if fresh_issues r w = [] \<and> back_issues r w = [] then NotMet
         else Met [(''new_issue_count'', DInt (int (length (fresh_issues r w)))),
                   (''regressed_count'', DInt (int (length (back_issues r w))))])
      else if ar_trigger r = ''event_count'' then
        (case (ar_window r, ar_threshold r) of
           (Some mins, Some n) \<Rightarrow>
             let count = int (length (windowed_events r mins w)) in
             if count < n then NotMet
             else Met [(''event_count'', DInt count), (''threshold'', DInt n), (''window_mins'', DInt mins)]
         | _ \<Rightarrow> CondError)
      else if ar_trigger r = ''log_count'' then
        (case (ar_window r, ar_threshold r) of
           (Some _, Some n) \<Rightarrow>
             if wo_slow w \<or> \<not> LogsReachThreshold (wo_now w) (logFilterFromRule r) n (wo_logs w) then NotMet
             else Met (logCountDetails r n)
         | _ \<Rightarrow> CondError)
      else if ar_trigger r = ''cron_missed'' then met_if ''missed_count'' (missed_monitors r w)
      else if ar_trigger r = ''cron_error'' then met_if ''error_count'' (failed_checkins r w)
      else if ar_trigger r = ''uptime_down'' then met_if ''down_count'' (down_monitors r w)
      else if ar_trigger r = ''uptime_recovered'' then met_if ''recovered_count'' (recovered_monitors r w)
      else NotMet)"

section \<open>Delivery\<close>

text \<open>What comes back from the network, or from the mail service (where any answer is a success).\<close>

datatype reply = Unreachable string | Reply go_int

definition http_result :: "string \<Rightarrow> string option \<Rightarrow> reply \<Rightarrow> go_int option \<times> string option" where
  "http_result name url reply =
     (if missing url then (None, Some ''webhook_url is empty'')
      else case reply of
        Unreachable e \<Rightarrow> (None, Some (''post: '' @ e))
      | Reply code \<Rightarrow> (Some code,
          if code < 200 \<or> 300 \<le> code then Some (name @ '' returned '' @ decimal (nat code)) else None))"

definition fireEmail :: "bool \<Rightarrow> string option \<Rightarrow> reply \<Rightarrow> string option" where
  "fireEmail configured to' reply =
     (if \<not> configured then Some ''email not configured (EMAIL_PROVIDER not set)''
      else if missing to' then Some ''email_to missing on rule''
      else case reply of Unreachable e \<Rightarrow> Some e | Reply _ \<Rightarrow> None)"

text \<open>The status code and the error of a delivery; \<open>configured\<close>: there is a mail service.\<close>

definition deliver :: "bool \<Rightarrow> alert_rule \<Rightarrow> reply \<Rightarrow> go_int option \<times> string option" where
  "deliver configured r reply =
     (if chat_channel (ar_channel r) then http_result (ar_channel r) (ar_webhook r) reply
      else if ar_channel r = ''email'' then (None, fireEmail configured (ar_email r) reply)
      else (None, Some (''unknown channel: '' @ ar_channel r)))"

definition count_keys :: "string list" where
  "count_keys = [''new_issue_count'', ''regressed_count'', ''event_count'', ''log_count'', ''missed_count'',
     ''error_count'', ''resolved_count'', ''down_count'', ''recovered_count'']"

definition detailInt :: "(string \<times> detail) list \<Rightarrow> string \<Rightarrow> go_int option" where
  "detailInt d k = (case map_of d k of Some (DInt n) \<Rightarrow> Some n | _ \<Rightarrow> None)"

definition itemCountFromPayload :: "payload \<Rightarrow> go_int option" where
  "itemCountFromPayload p =
     (let ns = [n. k \<leftarrow> remdups (map fst (pl_details p)), k \<in> set count_keys,
                   n \<leftarrow> (case detailInt (pl_details p) k of None \<Rightarrow> [] | Some n \<Rightarrow> [n])]
      in if ns = [] then None else Some (sum_list ns))"

definition maxDeliveryAttempts :: nat where "maxDeliveryAttempts = 3"

definition retryDelays :: "nanos list" where "retryDelays = [minutes 2, minutes 10]"

section \<open>First deliveries\<close>

text \<open>The firing of an attempt, before the database gives it its id and its time.\<close>

definition new_firing :: "nanos \<Rightarrow> nat \<Rightarrow> string \<Rightarrow> payload \<Rightarrow> nat \<Rightarrow> go_int option \<Rightarrow> string option \<Rightarrow> firing" where
  "new_firing now rule channel p attempt code err =
     \<lparr>af_id = 0, af_rule = rule, af_fired = 0, af_trigger = pl_trigger p, af_channel = channel,
      af_status = (if err = None then Delivered else if attempt < maxDeliveryAttempts then Pending else GivenUp),
      af_code = code, af_error = err, af_items = itemCountFromPayload p, af_attempt = attempt,
      af_next = (if err \<noteq> None \<and> attempt < maxDeliveryAttempts then Some (now + retryDelays ! (attempt - 1)) else None),
      af_payload = (if err \<noteq> None \<and> attempt < maxDeliveryAttempts then Some p else None)\<rparr>"

definition logFiring :: "nanos \<Rightarrow> nat \<Rightarrow> string \<Rightarrow> payload \<Rightarrow> nat \<Rightarrow> go_int option \<Rightarrow> string option \<Rightarrow> alert_db \<Rightarrow> alert_db" where
  "logFiring now rule channel p attempt code err db =
     (case CreateAlertFiring now (new_firing now rule channel p attempt code err) db of None \<Rightarrow> db | Some db' \<Rightarrow> db')"

text \<open>
  What happens around the evaluation of one rule: the clock of the database before counting, the tables its queries see
  (\<open>None\<close>: the query fails), the reply, the clock afterwards, and whether the two writes succeed. \<open>tu_sample\<close> is what
  the second query of the logs sees when the payload is filled in.
\<close>

record turn =
  tu_asof :: nanos
  tu_world :: "world option"
  tu_sample :: "world option"
  tu_reply :: reply
  tu_now :: nanos
  tu_logged :: bool
  tu_marked :: bool

datatype delivery = First alert_rule payload turn | Again nat alert_rule payload

definition firstProjectID :: "alert_rule \<Rightarrow> string" where
  "firstProjectID r = (case ar_projects r of [] \<Rightarrow> [] | p # _ \<Rightarrow> p)"

text \<open>Of \<open>enrichPayload\<close> the part that changes the details: the exact count of a log rule.\<close>

definition enriched :: "alert_rule \<Rightarrow> world option \<Rightarrow> (string \<times> detail) list \<Rightarrow> (string \<times> detail) list" where
  "enriched r sample details =
     (if ar_trigger r \<noteq> ''log_count'' then details
      else case sample of
        None \<Rightarrow> details
      | Some w \<Rightarrow> logCountDetails r (int (CountLogs (wo_now w) (logFilterFromRule r) (wo_logs w))))"

definition payload_of :: "alert_rule \<Rightarrow> string \<Rightarrow> nanos \<Rightarrow> (string \<times> detail) list \<Rightarrow> payload" where
  "payload_of r trigger now details = \<lparr>pl_rule = ar_id r, pl_name = ar_name r, pl_project = firstProjectID r,
     pl_trigger = trigger, pl_fired = now, pl_details = details\<rparr>"

definition log_first :: "bool \<Rightarrow> alert_rule \<Rightarrow> payload \<Rightarrow> turn \<Rightarrow> alert_db \<Rightarrow> alert_db" where
  "log_first configured r p t db =
     (let (code, err) = deliver configured r (tu_reply t) in
      if tu_logged t then logFiring (tu_now t) (ar_id r) (ar_channel r) p 1 code err db else db)"

definition fire :: "bool \<Rightarrow> alert_rule \<Rightarrow> (string \<times> detail) list \<Rightarrow> turn \<Rightarrow> alert_db \<Rightarrow> delivery \<times> alert_db" where
  "fire configured r details t db =
     (let p = payload_of r (ar_trigger r) (tu_now t) (enriched r (tu_sample t) details);
          db1 = log_first configured r p t db
      in (First r p t, if tu_marked t then MarkAlertFired (ar_id r) (tu_asof t) db1 else db1))"

text \<open>
  The loop over the due rules: a pass ends when the clock cannot be read, and a rule whose condition cannot be checked
  is skipped. The result is what was delivered and the tables.
\<close>

fun evaluate_rules :: "bool \<Rightarrow> (nat \<Rightarrow> turn option) \<Rightarrow> alert_rule list \<Rightarrow> alert_db \<Rightarrow> delivery list \<times> alert_db" where
  "evaluate_rules configured turn [] db = ([], db)"
| "evaluate_rules configured turn (r # rs) db =
     (case turn (ar_id r) of
        None \<Rightarrow> ([], db)
      | Some t \<Rightarrow>
          (case (case tu_world t of None \<Rightarrow> CondError | Some w \<Rightarrow> conditionMet r w) of
             Met details \<Rightarrow>
               let (d, db1) = fire configured r details t db; (ds, db2) = evaluate_rules configured turn rs db1
               in (d # ds, db2)
           | _ \<Rightarrow> evaluate_rules configured turn rs db))"

definition evaluate :: "bool \<Rightarrow> nanos \<Rightarrow> (nat \<Rightarrow> turn option) \<Rightarrow> alert_db \<Rightarrow> delivery list \<times> alert_db" where
  "evaluate configured now turn db = evaluate_rules configured turn (ListDueAlertRules now db) db"

section \<open>Retries\<close>

text \<open>\<open>rt_lookup\<close> is the error of the rule query, if it fails; the flags say which of the writes succeed.\<close>

record retry_turn =
  rt_lookup :: "string option"
  rt_reply :: reply
  rt_now :: nanos
  rt_scheduled :: bool
  rt_resolved :: bool

definition resolve :: "retry_turn \<Rightarrow> nat \<Rightarrow> firing_status \<Rightarrow> nat \<Rightarrow> go_int option \<Rightarrow> string option \<Rightarrow> alert_db \<Rightarrow> alert_db" where
  "resolve t i status attempt code msg db =
     (if rt_resolved t then ResolveAlertFiring i status attempt code msg db else db)"

definition retryFiring :: "bool \<Rightarrow> retry_turn \<Rightarrow> firing \<Rightarrow> alert_db \<Rightarrow> delivery list \<times> alert_db" where
  "retryFiring configured t f db =
     (case rt_lookup t of
        Some e \<Rightarrow> ([], resolve t (af_id f) GivenUp (af_attempt f + 1) None (Some e) db)
      | None \<Rightarrow>
      (case GetAlertRule (af_rule f) db of
         None \<Rightarrow> ([], resolve t (af_id f) GivenUp (af_attempt f + 1) None (Some ''rule not found'') db)
       | Some r \<Rightarrow>
          if \<not> ar_enabled r then
            ([], resolve t (af_id f) GivenUp (af_attempt f) None (Some ''rule disabled; retry cancelled'') db)
          else (case af_payload f of
              None \<Rightarrow> ([], resolve t (af_id f) GivenUp (af_attempt f + 1) None
                        (Some ''unmarshal payload: unexpected end of JSON input'') db)
            | Some p \<Rightarrow>
                let attempt = af_attempt f + 1; (code, err) = deliver configured r (rt_reply t) in
                ([Again (af_id f) r p],
                 if err = None then resolve t (af_id f) Delivered attempt code None db
                 else if maxDeliveryAttempts \<le> attempt then resolve t (af_id f) GivenUp attempt code err db
                 else if rt_scheduled t then
                   ScheduleAlertFiringRetry (af_id f) attempt (rt_now t + retryDelays ! (attempt - 1)) code err p db
                 else resolve t (af_id f) GivenUp attempt code err db))))"

fun retry_all :: "bool \<Rightarrow> (nat \<Rightarrow> retry_turn) \<Rightarrow> firing list \<Rightarrow> alert_db \<Rightarrow> delivery list \<times> alert_db" where
  "retry_all configured turn [] db = ([], db)"
| "retry_all configured turn (f # fs) db =
     (let (d, db1) = retryFiring configured (turn (af_id f)) f db; (ds, db2) = retry_all configured turn fs db1
      in (d @ ds, db2))"

definition processRetries :: "bool \<Rightarrow> nanos \<Rightarrow> (nat \<Rightarrow> retry_turn) \<Rightarrow> alert_db \<Rightarrow> delivery list \<times> alert_db" where
  "processRetries configured now turn db = retry_all configured turn (ListPendingRetries now db) db"

section \<open>Notices of resolved issues\<close>

definition issue_trigger :: "string \<Rightarrow> bool" where
  "issue_trigger t \<longleftrightarrow> t \<in> {''new_issue'', ''regressed'', ''new_or_regressed''}"

definition notice_candidates :: "alert_rule \<Rightarrow> issue list \<Rightarrow> issue list" where
  "notice_candidates r issues =
     (if ar_projects r = [] then issues
      else concat (map (\<lambda>p. filter (\<lambda>s. is_project s = p) issues) (ar_projects r)))"

definition notice_issues :: "alert_rule \<Rightarrow> issue list \<Rightarrow> issue list" where
  "notice_issues r issues = filter (\<lambda>s.
     (case ar_env r of None \<Rightarrow> True | Some e \<Rightarrow> is_environment s = Some e)
     \<and> (case ar_min r of None \<Rightarrow> True | Some n \<Rightarrow> n \<le> is_event_count s)) (notice_candidates r issues)"

fun notify_rules :: "bool \<Rightarrow> (nat \<Rightarrow> turn) \<Rightarrow> issue list \<Rightarrow> alert_rule list \<Rightarrow> alert_db \<Rightarrow> delivery list \<times> alert_db" where
  "notify_rules configured turn issues [] db = ([], db)"
| "notify_rules configured turn issues (r # rs) db =
     (if \<not> issue_trigger (ar_trigger r) \<or> notice_issues r issues = [] then notify_rules configured turn issues rs db
      else
        let t = turn (ar_id r);
            p = payload_of r ''issue_auto_resolved'' (tu_now t)
                  [(''resolved_count'', DInt (int (length (notice_issues r issues))))];
            (ds, db') = notify_rules configured turn issues rs (log_first configured r p t db)
        in (First r p t # ds, db'))"

definition NotifyAutoResolved :: "bool \<Rightarrow> (nat \<Rightarrow> turn) \<Rightarrow> issue list \<Rightarrow> alert_db \<Rightarrow> delivery list \<times> alert_db" where
  "NotifyAutoResolved configured turn issues db =
     (if issues = [] then ([], db) else notify_rules configured turn issues (ListEnabledAlertRules db) db)"

section \<open>Histories\<close>

datatype alert_op =
    ACreate "string \<Rightarrow> string option" nanos alert_rule
  | APatch "string \<Rightarrow> string option" "string \<Rightarrow> (string \<times> string) option" nat rule_patch
  | ADelete nat
  | AProject string
  | ADropProject string
  | AEvaluate nanos "nat \<Rightarrow> turn option"
  | ARetry nanos "nat \<Rightarrow> retry_turn"
  | ANotify "nat \<Rightarrow> turn" "issue list"
  | APurge

definition answered :: "alert_db \<Rightarrow> (alert_rule \<times> alert_db) answer \<Rightarrow> alert_db" where
  "answered db a = (case a of Answered (_, db') \<Rightarrow> db' | _ \<Rightarrow> db)"

fun alert_effect :: "bool \<Rightarrow> alert_op \<Rightarrow> alert_db \<Rightarrow> delivery list \<times> alert_db" where
  "alert_effect conf (ACreate url_ok now r) db = ([], answered db (handleCreateAlertRule url_ok now r db))"
| "alert_effect conf (APatch url_ok parse i p) db = ([], answered db (handleUpdateAlertRule url_ok (redactWebhookURL parse) i p db))"
| "alert_effect conf (ADelete i) db = ([], snd (DeleteAlertRule i db))"
| "alert_effect conf (AProject p) db = ([], if p \<in> set (al_known db) \<or> trim_space p = [] then db else db\<lparr>al_known := al_known db @ [p]\<rparr>)"
| "alert_effect conf (ADropProject p) db = ([], drop_project p db)"
| "alert_effect conf (AEvaluate now turn) db = evaluate conf now turn db"
| "alert_effect conf (ARetry now turn) db = processRetries conf now turn db"
| "alert_effect conf (ANotify turn issues) db = NotifyAutoResolved conf turn issues db"
| "alert_effect conf APurge db = ([], purgeAlertFirings db)"

definition alert_step :: "bool \<Rightarrow> delivery list \<times> alert_db \<Rightarrow> alert_op \<Rightarrow> delivery list \<times> alert_db" where
  "alert_step conf s e = (let (ds, db) = alert_effect conf e (snd s) in (fst s @ ds, db))"

definition no_alerts :: alert_db where
  "no_alerts = \<lparr>al_rules = [], al_links = [], al_known = [], al_firings = [], al_next = 0\<rparr>"

end
