(* ===== verification/Alert_Inv.thy ===== *)
theory Alert_Inv
  imports Alert_Eval
begin

text \<open>
  What holds of the alert tables after any history of their writers, and how often a firing can be tried.
\<close>

section \<open>The invariant\<close>

definition rule_ok :: "alert_rule \<Rightarrow> bool" where
  "rule_ok r \<longleftrightarrow> ar_projects r = [] \<and> 0 < ar_cooldown r"

definition firing_ok :: "firing \<Rightarrow> bool" where
  "firing_ok f \<longleftrightarrow> 1 \<le> af_attempt f \<and> af_attempt f \<le> maxDeliveryAttempts
     \<and> (af_status f = Pending \<longleftrightarrow> af_next f \<noteq> None) \<and> (af_status f = Pending \<longleftrightarrow> af_payload f \<noteq> None)
     \<and> (af_status f = Pending \<longrightarrow> af_attempt f < maxDeliveryAttempts) \<and> (af_status f = Delivered \<longleftrightarrow> af_error f = None)"

definition links_ok :: "alert_db \<Rightarrow> bool" where
  "links_ok db \<longleftrightarrow> distinct (al_links db) \<and> fst ` set (al_links db) \<subseteq> ar_id ` set (al_rules db)
     \<and> snd ` set (al_links db) \<subseteq> set (al_known db) \<and> (\<forall>p \<in> set (al_known db). trim_space p \<noteq> [])
     \<and> (\<forall>r \<in> set (al_rules db). ar_global r \<longrightarrow> ar_id r \<notin> fst ` set (al_links db))"

definition alert_ids_ok :: "alert_db \<Rightarrow> bool" where
  "alert_ids_ok db \<longleftrightarrow> distinct (map ar_id (al_rules db)) \<and> distinct (map af_id (al_firings db))
     \<and> (\<forall>r \<in> set (al_rules db). ar_id r < al_next db) \<and> (\<forall>f \<in> set (al_firings db). af_id f < al_next db)"

definition alerts_inv :: "alert_db \<Rightarrow> bool" where
  "alerts_inv db \<longleftrightarrow> alert_ids_ok db \<and> links_ok db \<and> (\<forall>r \<in> set (al_rules db). rule_ok r)
     \<and> (\<forall>f \<in> set (al_firings db). firing_ok f) \<and> af_rule ` set (al_firings db) \<subseteq> ar_id ` set (al_rules db)"

lemmas alerts_inv_defs = alerts_inv_def alert_ids_ok_def links_ok_def

section \<open>Projects of a rule\<close>

lemma insert_projects_iff:
  "insert_projects i ps db = Some db' \<longleftrightarrow>
     set ps \<subseteq> set (al_known db) \<and> distinct ps \<and> (\<forall>p \<in> set ps. (i, p) \<notin> set (al_links db))
     \<and> db' = db\<lparr>al_links := al_links db @ map (Pair i) ps\<rparr>"
proof (induction ps arbitrary: db)
  case (Cons p ps)
  then show ?case by (cases "p \<in> set (al_known db) \<and> (i, p) \<notin> set (al_links db)") auto
qed auto

lemma setAlertRuleProjects_iff:
  "setAlertRuleProjects i ps db = Some db' \<longleftrightarrow> set ps \<subseteq> set (al_known db) \<and> distinct ps
     \<and> db' = db\<lparr>al_links := filter (\<lambda>l. fst l \<noteq> i) (al_links db) @ map (Pair i) ps\<rparr>"
  by (auto simp: setAlertRuleProjects_def insert_projects_iff)

lemma normalise_known:
  assumes "set ps \<subseteq> set (al_known db)" "links_ok db"
  shows "normaliseProjectIDs ps = ps"
  using assms by (auto simp: normaliseProjectIDs_def links_ok_def intro!: filter_True)

lemma joined_simps [simp]: "ar_id (joined db r) = ar_id r" "ar_global (joined db r) = ar_global r"
  "ar_enabled (joined db r) = ar_enabled r" "ar_last (joined db r) = ar_last r" "ar_created (joined db r) = ar_created r"
  "ar_cooldown (joined db r) = ar_cooldown r" "ar_trigger (joined db r) = ar_trigger r" "ar_channel (joined db r) = ar_channel r"
  "ar_level (joined db r) = ar_level r" "ar_env (joined db r) = ar_env r" "ar_min (joined db r) = ar_min r"
  "ar_webhook (joined db r) = ar_webhook r" "ar_email (joined db r) = ar_email r"
  by (simp_all add: joined_def)

text \<open>What validation leaves alone.\<close>

definition same_rule :: "alert_rule \<Rightarrow> alert_rule \<Rightarrow> bool" where
  "same_rule r r' \<longleftrightarrow> ar_id r' = ar_id r \<and> ar_projects r' = ar_projects r"

lemma check_event_count_same: "check_event_count r = Inr r' \<Longrightarrow> same_rule r r'"
  by (simp add: check_event_count_def same_rule_def split: if_splits)

lemma trimmed_search_same: "trimmed_search r = Inr r' \<Longrightarrow> same_rule r r'"
  by (auto simp: trimmed_search_def Let_def same_rule_def split: if_splits option.splits)

lemma check_log_count_same: "check_log_count r = Inr r' \<Longrightarrow> same_rule r r'"
  unfolding check_log_count_def
  by (auto split: if_splits option.splits sum.splits dest: trimmed_search_same)

lemma validate_same:
  assumes "validateAlertRule r = Inr r'"
  shows "same_rule r r'" "0 < ar_cooldown r'"
proof -
  let ?c = "if ar_trigger r = ''event_count'' then check_event_count r
            else if ar_trigger r = ''log_count'' then check_log_count r else Inr r"
  obtain q where q: "?c = Inr q" "r' = (if ar_cooldown q \<le> 0 then q\<lparr>ar_cooldown := 60\<rparr> else q)"
    using assms unfolding validateAlertRule_def by (cases ?c) (auto split: if_splits)
  have "same_rule r q" using q(1) check_event_count_same check_log_count_same
    by (simp add: same_rule_def split: if_splits)
  then show "same_rule r r'" "0 < ar_cooldown r'" by (simp_all add: q(2) same_rule_def)
qed

lemma vetted_cooldown:
  assumes "vetted url_ok r = Inr r'"
  shows "0 < ar_cooldown r' \<and> same_rule r r'"
proof -
  have "validateAlertRule r = Inr r'" using assms unfolding vetted_def by (auto split: sum.splits if_splits option.splits)
  then show ?thesis by (simp add: validate_same)
qed

section \<open>Every operation keeps the invariant\<close>

lemma create_rule_inv:
  assumes "alerts_inv db" "CreateAlertRule now r db = Some (row, db')" "0 < ar_cooldown r"
  shows "alerts_inv db'"
proof -
  let ?r = "r\<lparr>ar_id := al_next db, ar_projects := [], ar_global := (normaliseProjectIDs (ar_projects r) = []),
             ar_last := None, ar_created := now\<rparr>"
  have c: "set (ar_projects r) \<subseteq> set (al_known db)" "distinct (ar_projects r)"
    "db' = db\<lparr>al_rules := al_rules db @ [?r], al_next := al_next db + 1,
       al_links := filter (\<lambda>l. fst l \<noteq> al_next db) (al_links db) @ map (Pair (al_next db)) (ar_projects r)\<rparr>"
    using assms(2) by (auto simp: CreateAlertRule_def Let_def setAlertRuleProjects_iff split: if_splits option.splits)
  have n: "normaliseProjectIDs (ar_projects r) = ar_projects r"
    using normalise_known [OF c(1)] assms(1) by (simp add: alerts_inv_def)
  have fresh1: "al_next db \<notin> ar_id ` set (al_rules db)" using assms(1) by (auto simp: alerts_inv_def alert_ids_ok_def)
  moreover have "fst ` set (al_links db) \<subseteq> ar_id ` set (al_rules db)" using assms(1) by (simp add: alerts_inv_def links_ok_def)
  ultimately have fresh: "al_next db \<notin> ar_id ` set (al_rules db)" "al_next db \<notin> fst ` set (al_links db)" by blast+
  have links: "filter (\<lambda>l. fst l \<noteq> al_next db) (al_links db) = al_links db"
    using fresh(2) by (intro filter_True) (metis imageI)
  have new: "(al_next db, p) \<notin> set (al_links db)" "x \<in> set (al_rules db) \<Longrightarrow> ar_id x \<noteq> al_next db" for p x
    using fresh by (auto simp: rev_image_eqI)
  have "alert_ids_ok db'" using assms(1) fresh by (auto simp: c(3) alerts_inv_def alert_ids_ok_def)
  moreover have "links_ok db'" unfolding links_ok_def c(3) links
    using assms(1) c(1,2) by (auto simp: n alerts_inv_def links_ok_def distinct_map inj_on_def new(1) dest: new(2))
  moreover have "\<forall>x \<in> set (al_rules db'). rule_ok x"
    using assms(1,3) by (simp add: c(3) alerts_inv_def rule_ok_def)
  ultimately show ?thesis using assms(1) by (auto simp: c(3) alerts_inv_def)
qed

lemma update_rule_inv:
  assumes "alerts_inv db" "UpdateAlertRule r db = RuleIs (row, db')" "0 < ar_cooldown r"
  shows "alerts_inv db'"
proof -
  obtain x where x: "find (\<lambda>x. ar_id x = ar_id r) (al_rules db) = Some x"
    using assms(2) by (auto simp: UpdateAlertRule_def split: option.splits)
  have mem: "ar_id r \<in> ar_id ` set (al_rules db)" using find_SomeD [OF x] by (intro image_eqI [of _ _ x]) simp_all
  have c: "set (ar_projects r) \<subseteq> set (al_known db)" "distinct (ar_projects r)"
    "db' = (write_rule (ar_id r) (overwrite r) db)\<lparr>
       al_links := filter (\<lambda>l. fst l \<noteq> ar_id r) (al_links db) @ map (Pair (ar_id r)) (ar_projects r)\<rparr>"
    using assms(2) by (auto simp: UpdateAlertRule_def setAlertRuleProjects_iff write_rule_def
        split: if_splits option.splits)
  have n: "normaliseProjectIDs (ar_projects r) = ar_projects r"
    using normalise_known [OF c(1)] assms(1) by (simp add: alerts_inv_def)
  have ids: "map ar_id (al_rules db') = map ar_id (al_rules db)"
    by (simp add: c(3) write_rule_def overwrite_def)
  then have idset: "ar_id ` set (al_rules db') = ar_id ` set (al_rules db)" by (metis set_map)
  have same: "al_known db' = al_known db" "al_firings db' = al_firings db" "al_next db' = al_next db"
    by (simp_all add: c(3) write_rule_def)
  have links: "al_links db' = filter (\<lambda>l. fst l \<noteq> ar_id r) (al_links db) @ map (Pair (ar_id r)) (ar_projects r)"
    by (simp add: c(3))
  have rules: "x \<in> set (al_rules db') \<longleftrightarrow> (\<exists>y \<in> set (al_rules db). x = (if ar_id y = ar_id r then overwrite r y else y))" for x
    by (auto simp: c(3) write_rule_def)
  have "alert_ids_ok db'"
  proof -
    have lt: "ar_id y < al_next db" if "y \<in> set (al_rules db)" for y
      using that assms(1) by (simp add: alerts_inv_def alert_ids_ok_def)
    have "\<forall>i \<in> ar_id ` set (al_rules db'). i < al_next db" unfolding idset using lt by blast
    then have "\<forall>x \<in> set (al_rules db'). ar_id x < al_next db'" by (simp add: same)
    then show ?thesis using assms(1) ids same by (simp add: alerts_inv_def alert_ids_ok_def)
  qed
  moreover have "links_ok db'"
  proof -
    have g: "ar_id x \<notin> fst ` set (al_links db')" if "x \<in> set (al_rules db')" "ar_global x" for x
    proof -
      from that(1) obtain y where y: "y \<in> set (al_rules db)" "x = (if ar_id y = ar_id r then overwrite r y else y)"
        unfolding rules by blast
      show ?thesis
      proof (cases "ar_id y = ar_id r")
        case True
        then have "ar_projects r = []" using y that(2) n by (simp add: overwrite_def)
        then show ?thesis using y True by (auto simp: links overwrite_def)
      next
        case False
        then show ?thesis using y that(2) assms(1) by (auto simp: links alerts_inv_def links_ok_def)
      qed
    qed
    have "fst ` set (al_links db') \<subseteq> ar_id ` set (al_rules db')" unfolding idset
      using assms(1) mem by (auto simp: links alerts_inv_def links_ok_def)
    moreover have "snd ` set (al_links db') \<subseteq> set (al_known db')"
      using assms(1) c(1) by (auto simp: links same alerts_inv_def links_ok_def)
    moreover have "distinct (al_links db')"
      using assms(1) c(2) by (auto simp: links alerts_inv_def links_ok_def distinct_map inj_on_def)
    ultimately show ?thesis using g assms(1) by (simp add: links_ok_def alerts_inv_def same)
  qed
  moreover have "\<forall>x \<in> set (al_rules db'). rule_ok x"
  proof
    fix x assume "x \<in> set (al_rules db')"
    then obtain y where "y \<in> set (al_rules db)" "x = (if ar_id y = ar_id r then overwrite r y else y)" unfolding rules by blast
    then show "rule_ok x" using assms(1,3) by (simp add: rule_ok_def overwrite_def alerts_inv_def)
  qed
  ultimately show ?thesis using assms(1) unfolding alerts_inv_def same idset by simp
qed

lemma answered_cases: "answered db a = db \<or> (\<exists>r db'. a = Answered (r, db') \<and> answered db a = db')"
  by (cases a) (auto simp: answered_def split: prod.splits)

lemma handleCreate_inv: "alerts_inv db \<Longrightarrow> alerts_inv (answered db (handleCreateAlertRule url_ok now r db))"
  by (auto simp: handleCreateAlertRule_def answered_def split: sum.splits option.splits
      dest!: vetted_cooldown intro: create_rule_inv)

lemma handleUpdate_inv: "alerts_inv db \<Longrightarrow> alerts_inv (answered db (handleUpdateAlertRule url_ok redact i p db))"
  by (auto simp: handleUpdateAlertRule_def answered_def split: sum.splits option.splits rule_result.splits
      dest!: vetted_cooldown intro: update_rule_inv)

lemma delete_rule_inv: "alerts_inv db \<Longrightarrow> alerts_inv (snd (DeleteAlertRule i db))"
  unfolding alerts_inv_defs DeleteAlertRule_def by (auto simp: distinct_map_filter)

lemma drop_project_inv: "alerts_inv db \<Longrightarrow> alerts_inv (drop_project p db)"
  unfolding alerts_inv_defs drop_project_def by (auto simp: image_subset_iff)

lemma add_project_inv: "alerts_inv db \<Longrightarrow> trim_space p \<noteq> [] \<Longrightarrow> alerts_inv (db\<lparr>al_known := al_known db @ [p]\<rparr>)"
  unfolding alerts_inv_defs by auto

lemma map_rules_inv:
  assumes "alerts_inv db" "\<And>x. ar_id (f x) = ar_id x" "\<And>x. ar_global (f x) = ar_global x" "\<And>x. rule_ok x \<Longrightarrow> rule_ok (f x)"
  shows "alerts_inv (db\<lparr>al_rules := map f (al_rules db)\<rparr>)"
proof -
  have "ar_id \<circ> f = ar_id" using assms(2) by (simp add: fun_eq_iff)
  then show ?thesis using assms unfolding alerts_inv_defs by (simp add: image_image)
qed

lemma mark_inv: "alerts_inv db \<Longrightarrow> alerts_inv (MarkAlertFired i t db)"
  unfolding MarkAlertFired_def write_rule_def by (rule map_rules_inv) (simp_all add: rule_ok_def)

lemma purge_firings_inv: "alerts_inv db \<Longrightarrow> alerts_inv (purgeAlertFirings db)"
  unfolding alerts_inv_defs purgeAlertFirings_def Let_def by (auto simp: distinct_map_filter)

lemma create_firing_inv:
  assumes "alerts_inv db" "CreateAlertFiring now f db = Some db'" "firing_ok f"
  shows "alerts_inv db'"
proof -
  let ?f = "f\<lparr>af_id := al_next db, af_fired := now\<rparr>"
  have c: "af_rule f \<in> ar_id ` set (al_rules db)" "db' = db\<lparr>al_firings := al_firings db @ [?f], al_next := al_next db + 1\<rparr>"
    using assms(2) by (simp_all add: CreateAlertFiring_def split: if_splits)
  have "alert_ids_ok db'" using assms(1) by (auto simp: c(2) alerts_inv_def alert_ids_ok_def)
  moreover have "links_ok db'" using assms(1) by (simp add: c(2) alerts_inv_def links_ok_def)
  moreover have "firing_ok ?f" using assms(3) by (auto simp: firing_ok_def)
  ultimately show ?thesis using assms(1) c(1) by (simp add: c(2) alerts_inv_def)
qed

lemma map_firings_inv:
  assumes "alerts_inv db" "\<And>f. af_id (g f) = af_id f" "\<And>f. af_rule (g f) = af_rule f" "\<And>f. firing_ok f \<Longrightarrow> firing_ok (g f)"
  shows "alerts_inv (db\<lparr>al_firings := map g (al_firings db)\<rparr>)"
proof -
  have "af_id \<circ> g = af_id" using assms(2) by (simp add: fun_eq_iff)
  then have "alert_ids_ok (db\<lparr>al_firings := map g (al_firings db)\<rparr>)" using assms(1,2) by (simp add: alerts_inv_def alert_ids_ok_def)
  moreover have "links_ok (db\<lparr>al_firings := map g (al_firings db)\<rparr>)" using assms(1) by (simp add: alerts_inv_def links_ok_def)
  moreover have "af_rule ` g ` set (al_firings db) = af_rule ` set (al_firings db)" by (simp add: image_image assms(3))
  ultimately show ?thesis using assms(1,4) by (simp add: alerts_inv_def)
qed

lemma write_firing_inv:
  assumes "alerts_inv db" "\<And>f. af_id (g f) = af_id f \<and> af_rule (g f) = af_rule f" "\<And>f. firing_ok (g f)"
  shows "alerts_inv (write_firing i g db)"
  unfolding write_firing_def by (rule map_firings_inv) (simp_all add: assms)

lemma new_firing_ok: "firing_ok (new_firing now i c p (Suc 0) code err)"
  by (cases err) (auto simp: firing_ok_def new_firing_def maxDeliveryAttempts_def)

lemma log_first_inv: "alerts_inv db \<Longrightarrow> alerts_inv (log_first conf r p t db)"
  by (auto simp: log_first_def logFiring_def split: prod.splits option.splits intro: create_firing_inv new_firing_ok)

lemma fire_inv: "alerts_inv db \<Longrightarrow> alerts_inv (snd (fire conf r d t db))"
  by (simp add: fire_def Let_def log_first_inv mark_inv)

lemma evaluate_rules_inv: "alerts_inv db \<Longrightarrow> alerts_inv (snd (evaluate_rules conf turn rs db))"
proof (induction rs arbitrary: db)
  case (Cons r rs)
  then show ?case by (simp add: Let_def split_beta fire_inv split: option.split condition.split)
qed simp

lemma notify_rules_inv: "alerts_inv db \<Longrightarrow> alerts_inv (snd (notify_rules conf turn issues rs db))"
proof (induction rs arbitrary: db)
  case (Cons r rs)
  then show ?case by (simp add: Let_def split_beta log_first_inv)
qed simp

lemma resolve_inv:
  "alerts_inv db \<Longrightarrow> status \<noteq> Pending \<Longrightarrow> 1 \<le> n \<Longrightarrow> n \<le> maxDeliveryAttempts \<Longrightarrow> (status = Delivered \<longleftrightarrow> msg = None)
   \<Longrightarrow> alerts_inv (resolve t i status n code msg db)"
  by (auto simp: resolve_def ResolveAlertFiring_def firing_ok_def intro!: write_firing_inv)

lemma retryFiring_inv:
  assumes "alerts_inv db" "1 \<le> af_attempt f" "af_attempt f < maxDeliveryAttempts"
  shows "alerts_inv (snd (retryFiring conf t f db))"
proof -
  have "alerts_inv (ScheduleAlertFiringRetry (af_id f) (af_attempt f + 1) n code (Some e) p db)"
    if "\<not> maxDeliveryAttempts \<le> af_attempt f + 1" for n code e p
    using that assms by (auto simp: ScheduleAlertFiringRetry_def firing_ok_def intro!: write_firing_inv)
  then show ?thesis using assms
    by (auto simp: retryFiring_def Let_def split: option.splits prod.splits intro!: resolve_inv)
qed

lemma retry_all_inv:
  "alerts_inv db \<Longrightarrow> \<forall>f \<in> set fs. 1 \<le> af_attempt f \<and> af_attempt f < maxDeliveryAttempts
   \<Longrightarrow> alerts_inv (snd (retry_all conf turn fs db))"
proof (induction fs arbitrary: db)
  case (Cons f fs)
  then show ?case by (simp add: Let_def split_beta retryFiring_inv)
qed simp

lemma pending_retries: "f \<in> set (ListPendingRetries now db) \<Longrightarrow> f \<in> set (al_firings db) \<and> retry_due now f"
  by (auto simp: ListPendingRetries_def dest: in_set_takeD)

lemma pending_attempts:
  assumes "alerts_inv db" "f \<in> set (ListPendingRetries now db)"
  shows "1 \<le> af_attempt f \<and> af_attempt f < maxDeliveryAttempts \<and> af_status f = Pending"
  using pending_retries [OF assms(2)] assms(1) by (auto simp: retry_due_def alerts_inv_def firing_ok_def)

lemma alert_effect_inv: "alerts_inv db \<Longrightarrow> alerts_inv (snd (alert_effect conf e db))"
  using pending_attempts [of db]
  by (cases e) (simp_all add: handleCreate_inv handleUpdate_inv delete_rule_inv drop_project_inv add_project_inv
      evaluate_def evaluate_rules_inv processRetries_def NotifyAutoResolved_def notify_rules_inv purge_firings_inv
      retry_all_inv)

interpretation alerts: machine "alert_step conf" "\<lambda>s. alerts_inv (snd s)" for conf
  by unfold_locales (simp add: alert_step_def split_beta alert_effect_inv)

lemma no_alerts_inv: "alerts_inv no_alerts"
  by (simp add: alerts_inv_defs no_alerts_def)

definition alert_run :: "bool \<Rightarrow> alert_op list \<Rightarrow> delivery list \<times> alert_db" where
  "alert_run conf es = foldl (alert_step conf) ([], no_alerts) es"

lemma alert_run_inv: "alerts_inv (snd (alert_run conf es))"
  unfolding alert_run_def using alerts.run_inv [of "([], no_alerts)" conf es] by (simp add: no_alerts_inv)

section \<open>How often a firing is delivered\<close>

definition again :: "nat \<Rightarrow> delivery list \<Rightarrow> nat" where
  "again i ds = length (filter (\<lambda>d. case d of Again j _ _ \<Rightarrow> j = i | First _ _ _ \<Rightarrow> False) ds)"

lemma again_simps [simp]: "again i [] = 0" "again i (ds @ es) = again i ds + again i es"
  "again i (First r p t # ds) = again i ds" "again i (Again j r p # ds) = (if j = i then 1 else 0) + again i ds"
  by (simp_all add: again_def)

definition tries :: "delivery list \<Rightarrow> firing \<Rightarrow> bool" where
  "tries ds f \<longleftrightarrow> (af_status f = Pending \<longrightarrow> Suc (again (af_id f) ds) = af_attempt f)"

definition tries_inv :: "delivery list \<Rightarrow> alert_db \<Rightarrow> bool" where
  "tries_inv ds db \<longleftrightarrow> (\<forall>f \<in> set (al_firings db). tries ds f) \<and> (\<forall>i. again i ds \<le> 2)
     \<and> (\<forall>i. al_next db \<le> i \<longrightarrow> again i ds = 0)"

lemma tries_mono:
  "tries_inv ds db \<Longrightarrow> set (al_firings db') \<subseteq> set (al_firings db) \<Longrightarrow> al_next db \<le> al_next db' \<Longrightarrow> tries_inv ds db'"
  by (auto simp: tries_inv_def)

lemma log_first_tries: "tries_inv ds db \<Longrightarrow> tries_inv ds (log_first conf r p t db)"
  by (auto simp: log_first_def logFiring_def CreateAlertFiring_def new_firing_def tries_inv_def tries_def split: prod.splits)

lemma mark_firings [simp]: "al_firings (MarkAlertFired i t db) = al_firings db" "al_next (MarkAlertFired i t db) = al_next db"
  by (simp_all add: MarkAlertFired_def write_rule_def)

lemma mark_tries: "tries_inv ds db \<Longrightarrow> tries_inv ds (MarkAlertFired i t db)"
  by (simp add: tries_inv_def)

lemma fire_parts:
  "fst (fire conf r details t db) = First r (payload_of r (ar_trigger r) (tu_now t) (enriched r (tu_sample t) details)) t"
  "snd (fire conf r details t db) = (let db1 = log_first conf r (payload_of r (ar_trigger r) (tu_now t) (enriched r (tu_sample t) details)) t db
     in if tu_marked t then MarkAlertFired (ar_id r) (tu_asof t) db1 else db1)"
  by (simp_all add: fire_def Let_def)

lemma evaluate_rules_tries:
  "tries_inv ds db \<Longrightarrow> tries_inv (ds @ fst (evaluate_rules conf turn rs db)) (snd (evaluate_rules conf turn rs db))
     \<and> again i (fst (evaluate_rules conf turn rs db)) = 0"
proof (induction rs arbitrary: db)
  case (Cons r rs)
  have "tries_inv ds (snd (fire conf r d t db))" for d t
    using Cons.prems by (simp add: fire_parts Let_def log_first_tries mark_tries)
  from Cons.IH [OF this] Cons.IH [OF Cons.prems] Cons.prems show ?case
    by (auto simp: Let_def split_beta tries_inv_def tries_def fire_parts split: option.splits condition.splits)
qed simp

lemma notify_rules_tries:
  "tries_inv ds db \<Longrightarrow> tries_inv (ds @ fst (notify_rules conf turn issues rs db)) (snd (notify_rules conf turn issues rs db))"
proof (induction rs arbitrary: db)
  case (Cons r rs)
  from Cons.IH [OF log_first_tries [OF Cons.prems]] Cons.IH [OF Cons.prems] Cons.prems show ?case
    by (auto simp: Let_def split_beta tries_inv_def tries_def)
qed simp

text \<open>What a retry does to the row, when the final write does not fail.\<close>

lemma retryFiring_cases:
  assumes "rt_resolved t"
  obtains (ended) g where "fst (retryFiring conf t f db) = []" "snd (retryFiring conf t f db) = write_firing (af_id f) g db"
      "\<And>x. af_id (g x) = af_id x" "\<And>x. af_status (g x) \<noteq> Pending"
    | (sent) r p g where "fst (retryFiring conf t f db) = [Again (af_id f) r p]"
      "snd (retryFiring conf t f db) = write_firing (af_id f) g db" "\<And>x. af_id (g x) = af_id x"
      "\<And>x. af_status (g x) = Pending \<Longrightarrow> af_attempt (g x) = Suc (af_attempt f)"
proof -
  have res: "resolve t i st n c m db = write_firing i
     (\<lambda>f. f\<lparr>af_status := st, af_attempt := n, af_code := c, af_error := m, af_next := None, af_payload := None\<rparr>) db" for i st n c m
    using assms by (simp add: resolve_def ResolveAlertFiring_def)
  show thesis
  proof (cases "fst (retryFiring conf t f db) = []")
    case True
    then obtain st n c m where w: "snd (retryFiring conf t f db) = resolve t (af_id f) st n c m db" and st: "st \<noteq> Pending"
      by (auto simp: retryFiring_def Let_def split_beta split: option.splits if_splits)
    show thesis using st by (intro ended [OF True w [unfolded res]]) simp_all
  next
    case False
    then obtain r p where k: "rt_lookup t = None" "GetAlertRule (af_rule f) db = Some r" "ar_enabled r" "af_payload f = Some p"
      by (auto simp: retryFiring_def Let_def split_beta split: option.splits if_splits)
    show thesis
    proof (cases "snd (deliver conf r (rt_reply t)) = None \<or> maxDeliveryAttempts \<le> af_attempt f + 1 \<or> \<not> rt_scheduled t")
      case True
      let ?d = "deliver conf r (rt_reply t)"
      have w: "snd (retryFiring conf t f db) =
          resolve t (af_id f) (if snd ?d = None then Delivered else GivenUp) (af_attempt f + 1) (fst ?d) (snd ?d) db"
        using k True by (auto simp: retryFiring_def Let_def split_beta)
      have one: "fst (retryFiring conf t f db) = [Again (af_id f) r p]" using k by (simp add: retryFiring_def Let_def split_beta)
      show thesis by (intro sent [OF one w [unfolded res]]) simp_all
    next
      case False
      have one: "fst (retryFiring conf t f db) = [Again (af_id f) r p]" using k by (simp add: retryFiring_def Let_def split_beta)
      from False obtain code err next' where
        w: "snd (retryFiring conf t f db) = ScheduleAlertFiringRetry (af_id f) (af_attempt f + 1) next' code err p db"
        using k by (auto simp: retryFiring_def Let_def split_beta)
      show thesis by (intro sent [OF one w [unfolded ScheduleAlertFiringRetry_def]]) simp_all
    qed
  qed
qed

lemma write_firing_tries:
  assumes "tries_inv ds db" "\<And>x. af_id (g x) = af_id x" "\<And>j. j \<noteq> i \<Longrightarrow> again j ds' = again j ds" "again i ds' \<le> 2"
    "i < al_next db" "\<And>x. af_status (g x) = Pending \<Longrightarrow> af_attempt (g x) = Suc (again i ds')"
  shows "tries_inv ds' (write_firing i g db)"
proof -
  have "tries ds' (if af_id x = i then g x else x)" if "x \<in> set (al_firings db)" for x
  proof (cases "af_id x = i")
    case True
    then show ?thesis using assms(6) [of x] by (simp add: tries_def assms(2))
  next
    case False
    then show ?thesis using that assms(1) assms(3) [OF False] by (simp add: tries_inv_def tries_def)
  qed
  moreover have "again j ds' \<le> 2" for j
    using assms(1) assms(3) [of j] assms(4) by (cases "j = i") (simp_all add: tries_inv_def)
  moreover have "again j ds' = 0" if "al_next db \<le> j" for j
    using that assms(1) assms(3) [of j] assms(5) by (cases "j = i") (simp_all add: tries_inv_def)
  ultimately show ?thesis by (simp add: tries_inv_def write_firing_def del: if_image_distrib)
qed

lemma retryFiring_tries:
  assumes "rt_resolved t" "tries_inv ds db" "f \<in> set (al_firings db)" "af_status f = Pending" "firing_ok f" "af_id f < al_next db"
  shows "tries_inv (ds @ fst (retryFiring conf t f db)) (snd (retryFiring conf t f db))"
proof -
  have a: "Suc (again (af_id f) ds) = af_attempt f" using assms(2-4) by (simp add: tries_inv_def tries_def)
  have lt: "af_attempt f < 3" using assms(4,5) by (simp add: firing_ok_def maxDeliveryAttempts_def)
  show ?thesis
  proof (rule retryFiring_cases [OF assms(1), of conf f db])
    fix g
    assume g: "fst (retryFiring conf t f db) = []" "snd (retryFiring conf t f db) = write_firing (af_id f) g db"
      "\<And>x. af_id (g x) = af_id x" "\<And>x. af_status (g x) \<noteq> Pending"
    show ?thesis unfolding g(1,2) using a lt g(3,4) assms(6) by (intro write_firing_tries [OF assms(2)]) simp_all
  next
    fix r p g
    assume g: "fst (retryFiring conf t f db) = [Again (af_id f) r p]"
      "snd (retryFiring conf t f db) = write_firing (af_id f) g db" "\<And>x. af_id (g x) = af_id x"
      "\<And>x. af_status (g x) = Pending \<Longrightarrow> af_attempt (g x) = Suc (af_attempt f)"
    show ?thesis unfolding g(1,2) using a lt g(3,4) assms(6) by (intro write_firing_tries [OF assms(2)]) simp_all
  qed
qed

lemma retryFiring_others:
  assumes "rt_resolved t" "g \<in> set (al_firings db)" "af_id g \<noteq> af_id f"
  shows "g \<in> set (al_firings (snd (retryFiring conf t f db)))"
  using assms(2,3) by (cases rule: retryFiring_cases [OF assms(1), of conf f db])
    (auto simp: write_firing_def intro: image_eqI [of _ _ g])

lemma retryFiring_next: "rt_resolved t \<Longrightarrow> al_next (snd (retryFiring conf t f db)) = al_next db"
  by (cases rule: retryFiring_cases [of t conf f db]) (auto simp: write_firing_def)

lemma retry_all_tries:
  assumes "\<And>i. rt_resolved (turn i)" "tries_inv ds db" "set fs \<subseteq> set (al_firings db)" "distinct (map af_id fs)"
    "\<forall>f \<in> set fs. af_status f = Pending \<and> firing_ok f \<and> af_id f < al_next db"
  shows "tries_inv (ds @ fst (retry_all conf turn fs db)) (snd (retry_all conf turn fs db))"
  using assms(2-)
proof (induction fs arbitrary: ds db)
  case (Cons f fs)
  let ?t = "turn (af_id f)"
  have 1: "tries_inv (ds @ fst (retryFiring conf ?t f db)) (snd (retryFiring conf ?t f db))"
    using Cons.prems by (intro retryFiring_tries assms(1)) simp_all
  have 2: "set fs \<subseteq> set (al_firings (snd (retryFiring conf ?t f db)))"
  proof
    fix g assume g: "g \<in> set fs"
    then have "af_id g \<noteq> af_id f" using Cons.prems(3) by (auto simp: rev_image_eqI)
    then show "g \<in> set (al_firings (snd (retryFiring conf ?t f db)))"
      using g Cons.prems(2) by (intro retryFiring_others assms(1)) auto
  qed
  have 3: "\<forall>g \<in> set fs. af_status g = Pending \<and> firing_ok g \<and> af_id g < al_next (snd (retryFiring conf ?t f db))"
    using Cons.prems(4) by (simp add: retryFiring_next assms(1))
  from Cons.IH [OF 1 2 _ 3] Cons.prems(3) show ?case by (simp add: Let_def split_beta)
qed simp

lemma distinct_pending:
  "alerts_inv db \<Longrightarrow> distinct (map af_id (ListPendingRetries now db))"
proof -
  assume "alerts_inv db"
  then have "distinct (map af_id (filter (retry_due now) (al_firings db)))"
    by (simp add: alerts_inv_def alert_ids_ok_def distinct_map_filter)
  then have "distinct (map af_id (sort_key (\<lambda>f. the (af_next f)) (filter (retry_due now) (al_firings db))))"
    by (metis distinct_map distinct_sort set_sort)
  then show ?thesis unfolding ListPendingRetries_def by (metis distinct_take take_map)
qed

definition resolves :: "alert_op \<Rightarrow> bool" where
  "resolves e \<longleftrightarrow> (case e of ARetry now turn \<Rightarrow> \<forall>i. rt_resolved (turn i) | _ \<Rightarrow> True)"

lemma answered_tries:
  assumes "tries_inv ds db" "\<And>r db'. a = Answered (r, db') \<Longrightarrow> al_firings db' = al_firings db \<and> al_next db \<le> al_next db'"
  shows "tries_inv ds (answered db a)"
  using assms by (cases a) (auto simp: answered_def split: prod.splits intro: tries_mono)

lemma create_rule_frame:
  "handleCreateAlertRule u now r db = Answered (q, db') \<Longrightarrow> al_firings db' = al_firings db \<and> al_next db \<le> al_next db'"
  by (auto simp: handleCreateAlertRule_def CreateAlertRule_def Let_def setAlertRuleProjects_iff
      split: sum.splits option.splits if_splits)

lemma update_rule_frame:
  "handleUpdateAlertRule u red i p db = Answered (q, db') \<Longrightarrow> al_firings db' = al_firings db \<and> al_next db \<le> al_next db'"
  by (auto simp: handleUpdateAlertRule_def UpdateAlertRule_def setAlertRuleProjects_iff write_rule_def
      split: sum.splits option.splits if_splits rule_result.splits)

lemma alert_effect_tries:
  assumes "alerts_inv db" "tries_inv ds db" "resolves e"
  shows "tries_inv (ds @ fst (alert_effect conf e db)) (snd (alert_effect conf e db))"
proof (cases e)
  case (ARetry now turn)
  have "\<forall>f \<in> set (ListPendingRetries now db). f \<in> set (al_firings db) \<and> af_status f = Pending \<and> firing_ok f \<and> af_id f < al_next db"
    using pending_retries pending_attempts [OF assms(1)] assms(1) by (auto simp: alerts_inv_def alert_ids_ok_def)
  then show ?thesis using ARetry assms distinct_pending [OF assms(1)]
    by (auto simp: processRetries_def resolves_def intro!: retry_all_tries)
next
  case (ACreate u now r)
  then show ?thesis using answered_tries [OF assms(2) create_rule_frame] by simp
next
  case (APatch u parse i p)
  then show ?thesis using answered_tries [OF assms(2) update_rule_frame] by simp
next
  case (AEvaluate now turn)
  then show ?thesis using evaluate_rules_tries [OF assms(2)] by (simp add: evaluate_def)
next
  case (ANotify turn issues)
  then show ?thesis using notify_rules_tries [OF assms(2)] assms(2) by (simp add: NotifyAutoResolved_def)
qed (use assms(2) in \<open>auto simp: DeleteAlertRule_def drop_project_def purgeAlertFirings_def Let_def intro: tries_mono\<close>)

lemma alert_run_snoc: "alert_run conf (es @ [e]) =
    (fst (alert_run conf es) @ fst (alert_effect conf e (snd (alert_run conf es))), snd (alert_effect conf e (snd (alert_run conf es))))"
  by (simp add: alert_run_def alert_step_def split_beta)

lemma run_tries: "\<forall>e \<in> set es. resolves e \<Longrightarrow> tries_inv (fst (alert_run conf es)) (snd (alert_run conf es))"
proof (induction es rule: rev_induct)
  case Nil
  then show ?case by (simp add: alert_run_def tries_inv_def no_alerts_def)
next
  case (snoc e es)
  then show ?case unfolding alert_run_snoc by (simp add: alert_effect_tries alert_run_inv)
qed

end
