(* ===== verification/Alert_Pass.thy ===== *)
theory Alert_Pass
  imports Alert_Inv
begin

text \<open>
  What the alert evaluator delivers: how often, when again, to which rules, and which issues a rule counts; and what the
  log search of a rule matches.
\<close>

section \<open>One rule in a pass\<close>

definition row :: "nat \<Rightarrow> alert_db \<Rightarrow> alert_rule option" where
  "row i db = find (\<lambda>r. ar_id r = i) (al_rules db)"

definition sent :: "nat \<Rightarrow> delivery list \<Rightarrow> turn \<Rightarrow> bool" where
  "sent i ds t \<longleftrightarrow> (\<exists>d \<in> set ds. case d of First r p u \<Rightarrow> ar_id r = i \<and> u = t | Again _ _ _ \<Rightarrow> False)"

lemma sent_simps [simp]: "\<not> sent i [] t" "sent i (ds @ es) t \<longleftrightarrow> sent i ds t \<or> sent i es t"
  "sent i (First r p u # ds) t \<longleftrightarrow> ar_id r = i \<and> u = t \<or> sent i ds t"
  by (auto simp: sent_def)

lemma log_first_rules [simp]: "al_rules (log_first conf r p t db) = al_rules db" "al_links (log_first conf r p t db) = al_links db"
  by (auto simp: log_first_def logFiring_def CreateAlertFiring_def split: prod.splits)

lemma find_map_row: "find (\<lambda>r. ar_id r = i) (map (\<lambda>x. if ar_id x = j then x\<lparr>ar_last := v\<rparr> else x) rs) =
    map_option (\<lambda>x. if i = j then x\<lparr>ar_last := v\<rparr> else x) (find (\<lambda>r. ar_id r = i) rs)"
  by (induction rs) auto

lemma fire_row: "row i (snd (fire conf r d t db)) =
    map_option (\<lambda>x. if i = ar_id r \<and> tu_marked t then x\<lparr>ar_last := Some (tu_asof t)\<rparr> else x) (row i db)"
proof (cases "tu_marked t")
  case True
  then show ?thesis by (simp add: fire_parts Let_def row_def MarkAlertFired_def write_rule_def find_map_row)
next
  case False
  then show ?thesis by (simp add: fire_parts Let_def row_def option.map_ident)
qed

lemma fire_links [simp]: "al_links (snd (fire conf r d t db)) = al_links db"
  by (simp add: fire_parts Let_def MarkAlertFired_def write_rule_def)

definition marked :: "nat \<Rightarrow> delivery list \<Rightarrow> alert_rule \<Rightarrow> alert_rule \<Rightarrow> bool" where
  "marked i ds x y \<longleftrightarrow> y = x \<or> (\<exists>t. sent i ds t \<and> y = x\<lparr>ar_last := Some (tu_asof t)\<rparr>)"

text \<open>The due rules have different ids; each is evaluated at most once, and its row changes only then.\<close>

lemma evaluate_rules_absent:
  "i \<notin> ar_id ` set rs \<Longrightarrow> row i (snd (evaluate_rules conf turn rs db)) = row i db \<and> \<not> sent i (fst (evaluate_rules conf turn rs db)) t"
proof (induction rs arbitrary: db)
  case (Cons r rs)
  then have "i \<noteq> ar_id r" "i \<notin> ar_id ` set rs" by auto
  then show ?case using Cons.IH by (simp add: Let_def split_beta fire_row fire_parts(1) option.map_ident split: option.split condition.split)
qed simp

lemma evaluate_rules_links [simp]: "al_links (snd (evaluate_rules conf turn rs db)) = al_links db"
  by (induction rs arbitrary: db) (simp_all add: Let_def split_beta split: option.split condition.split)

lemma evaluate_rules_sent:
  "sent i (fst (evaluate_rules conf turn rs db)) t \<Longrightarrow>
     \<exists>r \<in> set rs. ar_id r = i \<and> turn i = Some t \<and> (\<exists>w d. tu_world t = Some w \<and> conditionMet r w = Met d
       \<and> First r (payload_of r (ar_trigger r) (tu_now t) (enriched r (tu_sample t) d)) t \<in> set (fst (evaluate_rules conf turn rs db)))"
proof (induction rs arbitrary: db)
  case (Cons r rs)
  show ?case
  proof (cases "turn (ar_id r)")
    case (Some u)
    show ?thesis
    proof (cases "case tu_world u of None \<Rightarrow> CondError | Some w \<Rightarrow> conditionMet r w")
      case (Met d)
      then obtain w where w: "tu_world u = Some w" "conditionMet r w = Met d" by (cases "tu_world u") auto
      let ?db = "snd (fire conf r d u db)"
      have e: "fst (evaluate_rules conf turn (r # rs) db) = fst (fire conf r d u db) # fst (evaluate_rules conf turn rs ?db)"
        using Some Met by (simp add: Let_def split_beta)
      show ?thesis
      proof (cases "sent i (fst (evaluate_rules conf turn rs ?db)) t")
        case True
        from Cons.IH [OF this] show ?thesis unfolding e by auto
      next
        case False
        with Cons.prems have "ar_id r = i" "u = t" unfolding e by (auto simp: fire_parts(1))
        then show ?thesis unfolding e using w Some by (auto simp: fire_parts(1))
      qed
    qed (use Some Cons in auto)
  qed (use Cons in simp)
qed simp

lemma evaluate_rules_row:
  assumes "distinct (map ar_id rs)" "row i db = Some x"
  shows "\<exists>y. row i (snd (evaluate_rules conf turn rs db)) = Some y
     \<and> (y = (case turn i of None \<Rightarrow> x | Some t \<Rightarrow>
           if sent i (fst (evaluate_rules conf turn rs db)) t \<and> tu_marked t then x\<lparr>ar_last := Some (tu_asof t)\<rparr> else x))"
  using assms
proof (induction rs arbitrary: db x)
  case Nil
  then show ?case by (simp split: option.split)
next
  case (Cons r rs)
  show ?case
  proof (cases "turn (ar_id r)")
    case None
    then show ?thesis using Cons.prems by (simp split: option.split)
  next
    case (Some u)
    show ?thesis
    proof (cases "case tu_world u of None \<Rightarrow> CondError | Some w \<Rightarrow> conditionMet r w")
      case (Met d)
      let ?db = "snd (fire conf r d u db)"
      have e: "fst (evaluate_rules conf turn (r # rs) db) = fst (fire conf r d u db) # fst (evaluate_rules conf turn rs ?db)"
        "snd (evaluate_rules conf turn (r # rs) db) = snd (evaluate_rules conf turn rs ?db)"
        using Some Met by (simp_all add: Let_def split_beta)
      show ?thesis
      proof (cases "ar_id r = i")
        case True
        then have "i \<notin> ar_id ` set rs" using Cons.prems(1) by auto
        from evaluate_rules_absent [OF this, of conf turn ?db u] True Some Cons.prems(2) show ?thesis
          unfolding e by (auto simp: fire_row fire_parts(1))
      next
        case False
        then have "row i ?db = Some x" using Cons.prems(2) by (auto simp: fire_row)
        from Cons.IH [OF _ this] Cons.prems(1) False show ?thesis unfolding e by (simp add: fire_parts(1) split: option.split)
      qed
    qed (use Some Cons in \<open>auto split: option.split\<close>)
  qed
qed

lemma evaluate_rules_fires:
  assumes "\<And>j. turn j \<noteq> None" "r \<in> set rs" "turn (ar_id r) = Some t" "tu_world t = Some w" "conditionMet r w = Met d"
  shows "First r (payload_of r (ar_trigger r) (tu_now t) (enriched r (tu_sample t) d)) t \<in> set (fst (evaluate_rules conf turn rs db))"
  using assms(2)
proof (induction rs arbitrary: db)
  case (Cons q rs)
  obtain u where u: "turn (ar_id q) = Some u" using assms(1) by auto
  show ?case
  proof (cases "q = r")
    case True
    then show ?thesis using assms(3-5) by (simp add: Let_def split_beta fire_parts(1))
  next
    case False
    then have "r \<in> set rs" using Cons.prems by simp
    then show ?thesis using Cons.IH u by (simp add: Let_def split_beta split: option.split condition.split)
  qed
qed simp

text \<open>The due rules.\<close>

lemma due_rules:
  "r \<in> set (ListDueAlertRules now db) \<longleftrightarrow>
     (\<exists>x \<in> set (al_rules db). r = joined db x \<and> ar_enabled x \<and> cooled now x \<and> ruleHasScope db x)"
  by (auto simp: ListDueAlertRules_def)

lemma distinct_due: "alerts_inv db \<Longrightarrow> distinct (map ar_id (ListDueAlertRules now db))"
  by (simp add: ListDueAlertRules_def alerts_inv_def alert_ids_ok_def distinct_map_filter comp_def)

lemma row_mem: "row i db = Some x \<Longrightarrow> x \<in> set (al_rules db) \<and> ar_id x = i"
  unfolding row_def by (drule find_SomeD) simp

lemma row_unique: "alerts_inv db \<Longrightarrow> x \<in> set (al_rules db) \<Longrightarrow> row (ar_id x) db = Some x"
proof -
  assume inv: "alerts_inv db" and x: "x \<in> set (al_rules db)"
  then obtain y where y: "row (ar_id x) db = Some y" unfolding row_def
    by (metis (mono_tags, lifting) find_None_iff not_None_eq)
  then have "y \<in> set (al_rules db)" "ar_id y = ar_id x" using row_mem by auto
  then show ?thesis using inv x y by (simp add: alerts_inv_def alert_ids_ok_def distinct_map inj_on_def)
qed

lemma evaluate_sent:
  assumes "alerts_inv db" "sent i (fst (evaluate conf now turn db)) t"
  obtains x w d where "row i db = Some x" "ar_enabled x" "cooled now x" "ruleHasScope db x" "turn i = Some t" "tu_world t = Some w"
    "conditionMet (joined db x) w = Met d"
    "First (joined db x) (payload_of (joined db x) (ar_trigger x) (tu_now t) (enriched (joined db x) (tu_sample t) d)) t
       \<in> set (fst (evaluate conf now turn db))"
proof -
  from evaluate_rules_sent [OF assms(2) [unfolded evaluate_def]] obtain r w d where
    r: "r \<in> set (ListDueAlertRules now db)" "ar_id r = i" "turn i = Some t" "tu_world t = Some w" "conditionMet r w = Met d"
      "First r (payload_of r (ar_trigger r) (tu_now t) (enriched r (tu_sample t) d)) t \<in> set (fst (evaluate conf now turn db))"
    unfolding evaluate_def by blast
  from r(1) obtain x where x: "x \<in> set (al_rules db)" "r = joined db x" "ar_enabled x" "cooled now x" "ruleHasScope db x"
    unfolding due_rules by blast
  have "row i db = Some x" using row_unique [OF assms(1) x(1)] r(2) x(2) by simp
  then show thesis using that r x by simp
qed

section \<open>What holds of the alerts\<close>

text \<open>
C7: After any history of creations, patches, deletions, evaluations, retries, notices and purges, the alert tables are
consistent: rules and firings have different ids, a rule has existing projects only and a positive cooldown, a global
rule has no projects, a firing belongs to an existing rule and has been tried one to three times, and it is pending
exactly when it has a payload and a time for the next try, which is only after fewer than three tries.
\<close>

theorem alert_histories: "alerts_inv (snd (alert_run configured es))"
  by (rule alert_run_inv)

text \<open>
C18: A firing is delivered at most three times: whatever happens to its rule and to the other writes, as long as the row
of a firing can be updated after a retry, at most two retries of it are ever sent after the first delivery.
\<close>

theorem delivered_at_most_three:
  assumes "\<forall>e \<in> set es. resolves e"
  shows "again i (fst (alert_run configured es)) \<le> 2"
  using run_tries [OF assms, of configured] by (simp add: tries_inv_def)

lemma effect_links:
  assumes "alert_effect conf e db = (ds, db')" "case e of AEvaluate _ _ \<Rightarrow> True | ARetry _ _ \<Rightarrow> True | ANotify _ _ \<Rightarrow> True | APurge \<Rightarrow> True | _ \<Rightarrow> False"
  shows "al_links db' = al_links db"
proof -
  have r: "al_links (snd (retryFiring c t f d)) = al_links d" for c t f d
    by (auto simp: retryFiring_def resolve_def ResolveAlertFiring_def ScheduleAlertFiringRetry_def write_firing_def Let_def split_beta
        split: option.splits)
  have ra: "al_links (snd (retry_all c t fs d)) = al_links d" for c t fs d
    by (induction fs arbitrary: d) (simp_all add: Let_def split_beta r)
  have n: "al_links (snd (notify_rules c t is rs d)) = al_links d" for c t "is" rs d
    by (induction rs arbitrary: d) (simp_all add: Let_def split_beta)
  have "al_links (snd (alert_effect conf e db)) = al_links db" using assms(2)
    by (cases e) (simp_all add: evaluate_def processRetries_def ra NotifyAutoResolved_def n purgeAlertFirings_def Let_def)
  then show ?thesis by (simp add: assms(1))
qed

lemma retry_rules: "al_rules (snd (retry_all c t fs d)) = al_rules d"
proof -
  have r: "al_rules (snd (retryFiring c t f d)) = al_rules d" for c t f d
    by (auto simp: retryFiring_def resolve_def ResolveAlertFiring_def ScheduleAlertFiringRetry_def write_firing_def Let_def split_beta
        split: option.splits)
  show ?thesis by (induction fs arbitrary: d) (simp_all add: Let_def split_beta r)
qed

lemma notify_rules_rules: "al_rules (snd (notify_rules c t xs rs d)) = al_rules d"
  by (induction rs arbitrary: d) (simp_all add: Let_def split_beta)

text \<open>Only an evaluation writes the time of the last firing.\<close>

definition evaluates :: "alert_op \<Rightarrow> bool" where
  "evaluates e = (case e of AEvaluate _ _ \<Rightarrow> True | _ \<Rightarrow> False)"







lemma evaluate_rules_mem: "First r p t \<in> set (fst (evaluate_rules conf turn rs d)) \<Longrightarrow> r \<in> set rs"
  by (induction rs arbitrary: d) (auto simp: Let_def split_beta fire_parts(1) split: option.splits condition.splits)

text \<open>
A rule whose projects have all been deleted is never delivered: in any history, a rule that an evaluation or a notice
delivers covers every project by choice, or still has a project, and each of its projects exists.
\<close>

theorem orphans_stay_silent:
  assumes "alerts_inv db" "First r p t \<in> set (fst (alert_effect configured e db))"
  shows "ar_enabled r \<and> (ar_global r \<and> ar_projects r = [] \<or> ar_projects r \<noteq> [] \<and> \<not> ar_global r \<and> set (ar_projects r) \<subseteq> set (al_known db))"
proof -
  have joined_ok: ?thesis if x: "ar_enabled x" "x \<in> set (al_rules db)" "ruleHasScope db x" "r = joined db x" for x
  proof -
    have ps: "set (ar_projects r) = {p. (ar_id x, p) \<in> set (al_links db)}" by (force simp: x(4) joined_def)
    have links: "snd ` set (al_links db) \<subseteq> set (al_known db)" "ar_global x \<Longrightarrow> ar_id x \<notin> fst ` set (al_links db)"
      using assms(1) x(2) by (simp_all add: alerts_inv_def links_ok_def)
    have "set (ar_projects r) \<subseteq> set (al_known db)" unfolding ps using links(1) by auto
    moreover have "ar_projects r = [] \<longleftrightarrow> ar_id x \<notin> fst ` set (al_links db)"
      unfolding set_empty [symmetric] ps by (auto simp: rev_image_eqI)
    ultimately show ?thesis using x(1,3) links(2) by (auto simp: x(4) ruleHasScope_def)
  qed
  have no: "First r p t \<in> set (fst (notify_rules configured turn xs rs d)) \<Longrightarrow> r \<in> set rs" for turn xs rs d
    by (induction rs arbitrary: d) (auto simp: Let_def split_beta split: if_splits)
  have re: "First r p t \<notin> set (fst (retry_all configured turn fs d))" for turn fs d
    by (induction fs arbitrary: d) (auto simp: Let_def split_beta retryFiring_def split: option.splits)
  from assms(2) obtain x where "x \<in> set (al_rules db)" "ar_enabled x" "ruleHasScope db x" "r = joined db x"
    by (cases e) (auto simp: evaluate_def due_rules processRetries_def re NotifyAutoResolved_def ListEnabledAlertRules_def
        dest!: evaluate_rules_mem no split: if_splits)
  then show ?thesis by (intro joined_ok)
qed

section \<open>What a rule counts\<close>

text \<open>A delivery of rule \<open>i\<close> that counted the new issue \<open>x\<close>.\<close>

definition counts_in :: "nat \<Rightarrow> nat \<Rightarrow> delivery \<Rightarrow> bool" where
  "counts_in i x d = (case d of
     First r p t \<Rightarrow> ar_id r = i \<and> (case tu_world t of None \<Rightarrow> False | Some w \<Rightarrow> x \<in> is_id ` set (fresh_issues r w))
   | Again _ _ _ \<Rightarrow> False)"

definition counted :: "nat \<Rightarrow> nat \<Rightarrow> delivery list \<Rightarrow> bool" where
  "counted i x ds \<longleftrightarrow> (\<exists>d \<in> set ds. counts_in i x d)"

lemma counted_append [simp]: "counted i x (ds @ es) \<longleftrightarrow> counted i x ds \<or> counted i x es"
  by (simp add: counted_def bex_Un)

text \<open>What runs by itself, without a change of the rules.\<close>

definition background :: "alert_op \<Rightarrow> bool" where
  "background e = (case e of AEvaluate _ _ \<Rightarrow> True | ARetry _ _ \<Rightarrow> True | ANotify _ _ \<Rightarrow> True | APurge \<Rightarrow> True | _ \<Rightarrow> False)"

text \<open>
  The issue \<open>x\<close> of time \<open>c\<close> as every counting query sees it that starts after it was created: it is there, in the scope
  of the rule, and passes its filters.
\<close>

definition seen_by :: "alert_rule \<Rightarrow> nat \<Rightarrow> nanos \<Rightarrow> world \<Rightarrow> bool" where
  "seen_by r x c w \<longleftrightarrow> (\<exists>s \<in> set (wo_issues w). is_id s = x \<and> is_created s = c \<and> in_scope r (is_project s) \<and> issue_filters r s)"

definition seen_in :: "alert_rule \<Rightarrow> nat \<Rightarrow> nanos \<Rightarrow> alert_op \<Rightarrow> bool" where
  "seen_in r x c e = (case e of
     AEvaluate now turn \<Rightarrow> (case turn (ar_id r) of None \<Rightarrow> True
       | Some t \<Rightarrow> (case tu_world t of None \<Rightarrow> True | Some w \<Rightarrow> c \<le> tu_asof t \<longrightarrow> seen_by r x c w))
   | _ \<Rightarrow> True)"

definition counts_new :: "string \<Rightarrow> bool" where
  "counts_new trigger \<longleftrightarrow> trigger = ''new_issue'' \<or> trigger = ''new_or_regressed''"

text \<open>Same rule but for the time of its last firing.\<close>

definition but_last :: "alert_rule \<Rightarrow> alert_rule \<Rightarrow> bool" where
  "but_last r q \<longleftrightarrow> ar_projects q = ar_projects r \<and> ar_level q = ar_level r \<and> ar_env q = ar_env r \<and> ar_min q = ar_min r
     \<and> ar_trigger q = ar_trigger r \<and> ar_enabled q = ar_enabled r \<and> ar_global q = ar_global r"

lemma seen_fresh:
  assumes "seen_by r x c w" "since q < c" "but_last r q"
  shows "x \<in> is_id ` set (fresh_issues q w)"
proof -
  from assms(1) obtain s where "s \<in> set (wo_issues w)" "is_id s = x" "is_created s = c" "in_scope r (is_project s)" "issue_filters r s"
    by (auto simp: seen_by_def)
  then show ?thesis using assms(2,3)
    by (intro image_eqI [of _ _ s]) (simp_all add: fresh_issues_def in_scope_def issue_filters_def but_last_def)
qed

lemma counts_new_met: "counts_new (ar_trigger r) \<Longrightarrow> fresh_issues r w \<noteq> [] \<Longrightarrow> \<exists>d. conditionMet r w = Met d"
  by (auto simp: counts_new_def conditionMet_def met_if_def)

lemma background_rules:
  assumes "background e" "\<not> evaluates e"
  shows "al_rules (snd (alert_effect conf e db)) = al_rules db"
  using assms by (cases e) (simp_all add: background_def evaluates_def processRetries_def retry_rules NotifyAutoResolved_def
      notify_rules_rules purgeAlertFirings_def Let_def)

lemma background_links: "background e \<Longrightarrow> al_links (snd (alert_effect conf e db)) = al_links db"
  using effect_links [of conf e db "fst (alert_effect conf e db)" "snd (alert_effect conf e db)"]
  by (simp add: background_def split: alert_op.splits)

text \<open>The state of affairs for one rule and one issue: counted already, or still after the time the rule has counted up to.\<close>

definition tracked :: "alert_rule \<Rightarrow> nat \<Rightarrow> nanos \<Rightarrow> delivery list \<times> alert_db \<Rightarrow> bool" where
  "tracked r x c s \<longleftrightarrow> alerts_inv (snd s) \<and> (\<exists>q. row (ar_id r) (snd s) = Some q \<and> but_last r (joined (snd s) q)
     \<and> (counted (ar_id r) x (fst s) \<or> since q < c))"

lemma trackedI:
  "alerts_inv db \<Longrightarrow> row (ar_id r) db = Some q \<Longrightarrow> but_last r (joined db q) \<Longrightarrow> counted (ar_id r) x ds \<or> since q < c
   \<Longrightarrow> tracked r x c (ds, db)"
  by (simp add: tracked_def)

lemma tracked_evaluate:
  assumes "tracked r x c (ds, db)" "seen_in r x c (AEvaluate now turn)"
  shows "tracked r x c (ds @ fst (evaluate conf now turn db), snd (evaluate conf now turn db))"
proof -
  let ?i = "ar_id r" and ?E = "evaluate conf now turn db"
  from assms(1) obtain q where inv: "alerts_inv db" and q: "row ?i db = Some q" "but_last r (joined db q)"
    "counted ?i x ds \<or> since q < c" by (auto simp: tracked_def)
  have inv': "alerts_inv (snd ?E)" unfolding evaluate_def using inv by (rule evaluate_rules_inv)
  have links: "al_links (snd ?E) = al_links db" by (simp add: evaluate_def)
  have j: "joined (snd ?E) y = joined db y" for y by (simp add: joined_def links)
  from evaluate_rules_row [OF distinct_due [OF inv] q(1), of conf turn now] obtain y where
    y: "row ?i (snd ?E) = Some y" "y = (case turn ?i of None \<Rightarrow> q | Some t \<Rightarrow>
       if sent ?i (fst ?E) t \<and> tu_marked t then q\<lparr>ar_last := Some (tu_asof t)\<rparr> else q)" unfolding evaluate_def by blast
  have same: "but_last r (joined db y)"
  proof -
    have "ar_level y = ar_level q" "ar_env y = ar_env q" "ar_min y = ar_min q" "ar_trigger y = ar_trigger q"
      "ar_enabled y = ar_enabled q" "ar_global y = ar_global q" "ar_id y = ar_id q"
      by (simp_all add: y(2) split: option.split)
    then show ?thesis using q(2) by (simp add: but_last_def) (simp add: joined_def)
  qed
  show ?thesis
  proof (cases "y = q \<or> counted ?i x ds")
    case True
    then have "counted ?i x (ds @ fst ?E) \<or> since y < c" using q(3) by auto
    then show ?thesis by (intro trackedI [OF inv' y(1)]) (simp_all only: j same)
  next
    case False
    then have "y \<noteq> q" by simp
    then obtain t where t1: "turn ?i = Some t" using y(2) by (cases "turn ?i") simp_all
    have sent: "sent ?i (fst ?E) t \<and> tu_marked t"
    proof (rule ccontr)
      assume "\<not> (sent ?i (fst ?E) t \<and> tu_marked t)"
      then have "y = q" using y(2) t1 by (simp del: de_Morgan_conj)
      with \<open>y \<noteq> q\<close> show False ..
    qed
    have t: "turn ?i = Some t" "sent ?i (fst ?E) t" "y = q\<lparr>ar_last := Some (tu_asof t)\<rparr>"
      using y(2) t1 sent by simp_all
    obtain z w d where z: "row ?i db = Some z" "tu_world t = Some w"
      "First (joined db z) (payload_of (joined db z) (ar_trigger z) (tu_now t) (enriched (joined db z) (tu_sample t) d)) t \<in> set (fst ?E)"
      by (rule evaluate_sent [OF inv t(2)])
    have w: "tu_world t = Some w" "\<exists>p. First (joined db q) p t \<in> set (fst ?E)"
      using z q(1) by auto
    then obtain p where p: "First (joined db q) p t \<in> set (fst ?E)" by blast
    have "counted ?i x (fst ?E)" if "c \<le> tu_asof t"
    proof -
      have "seen_by r x c w" using assms(2) that t(1) w(1) by (simp add: seen_in_def)
      moreover have "since (joined db q) < c" using False q(3) by (simp add: since_def split: option.splits)
      ultimately have "x \<in> is_id ` set (fresh_issues (joined db q) w)" using q(2) by (intro seen_fresh)
      then show ?thesis using w(1) row_mem [OF q(1)] unfolding counted_def by (intro bexI [OF _ p]) (simp add: counts_in_def)
    qed
    moreover have "since y < c" if "\<not> c \<le> tu_asof t" using that by (simp add: t(3) since_def)
    ultimately have "counted ?i x (ds @ fst ?E) \<or> since y < c" by auto
    then show ?thesis by (intro trackedI [OF inv' y(1)]) (simp_all only: j same)
  qed
qed

lemma tracked_step:
  assumes "tracked r x c s" "background e" "seen_in r x c e"
  shows "tracked r x c (alert_step conf s e)"
proof (cases "evaluates e")
  case True
  then obtain now turn where e: "e = AEvaluate now turn" by (cases e) (simp_all add: evaluates_def)
  show ?thesis using tracked_evaluate [of r x c "fst s" "snd s" now turn conf] assms
    by (simp add: e alert_step_def split_beta)
next
  case False
  let ?db = "snd (alert_effect conf e (snd s))"
  from assms(1) obtain q where q: "alerts_inv (snd s)" "row (ar_id r) (snd s) = Some q" "but_last r (joined (snd s) q)"
    "counted (ar_id r) x (fst s) \<or> since q < c" by (auto simp: tracked_def)
  have "joined ?db q = joined (snd s) q" by (simp add: joined_def background_links [OF assms(2)])
  moreover have "row (ar_id r) ?db = Some q" using q(2) by (simp add: row_def background_rules [OF assms(2) False])
  ultimately have "tracked r x c (fst s @ fst (alert_effect conf e (snd s)), ?db)"
    using q alert_effect_inv [OF q(1)] by (intro trackedI) auto
  then show ?thesis by (simp add: alert_step_def split_beta)
qed

lemma tracked_run:
  "tracked r x c s \<Longrightarrow> \<forall>e \<in> set es. background e \<and> seen_in r x c e \<Longrightarrow> tracked r x c (foldl (alert_step conf) s es)"
  by (induction es arbitrary: s) (simp_all add: tracked_step)

text \<open>
C12: No new issue is lost between two evaluations: take a rule on new issues and an issue created after the time the rule has
counted up to, which every counting query that starts after the creation sees within the scope and the filters of the
rule. Whatever evaluations, retries, notices and purges run, once the rule comes up in an evaluation that reads its clock
after the creation and whose query succeeds, some delivery of the rule has counted the issue.
\<close>

theorem new_issue_alerted:
  assumes "alerts_inv db" "row i db = Some q" "ar_enabled q" "ruleHasScope db q" "counts_new (ar_trigger q)" "since q < c"
    and "\<forall>e \<in> set (es @ [AEvaluate now turn]). background e \<and> seen_in (joined db q) x c e"
    and "foldl (alert_step configured) ([], db) es = (ds, db')" "row i db' = Some q'" "cooled now q'"
    and "\<forall>j. turn j \<noteq> None" "turn i = Some t" "tu_world t = Some w" "c \<le> tu_asof t"
  shows "counted i x (ds @ fst (evaluate configured now turn db'))"
proof -
  let ?r = "joined db q"
  have i: "ar_id q = i" using row_mem [OF assms(2)] by simp
  have "tracked ?r x c ([], db)"
    using assms(2) i by (intro trackedI [OF assms(1) _ _ disjI2 [OF assms(6)]]) (simp_all add: but_last_def)
  from tracked_run [OF this, of es configured] assms(7,8) have "tracked ?r x c (ds, db')" by simp
  then have tr: "alerts_inv db'" "but_last ?r (joined db' q')" "counted i x ds \<or> since q' < c"
    using assms(9) i by (auto simp: tracked_def)
  have links: "al_links db' = al_links db"
  proof -
    have "al_links (snd (foldl (alert_step configured) s es)) = al_links (snd s)" if "\<forall>e \<in> set es. background e" for s
      using that by (induction es arbitrary: s) (simp_all add: alert_step_def split_beta background_links)
    from this [of "([], db)"] assms(7,8) show ?thesis by simp
  qed
  show ?thesis
  proof (cases "counted i x ds")
    case False
    with tr(3) have lt: "since q' < c" by simp
    then have lt': "since (joined db' q') < c" by (simp add: since_def split: option.splits)
    have "seen_by ?r x c w" using assms(7,12-14) i by (simp add: seen_in_def)
    from seen_fresh [OF this lt' tr(2)] have f: "x \<in> is_id ` set (fresh_issues (joined db' q') w)" .
    then have "fresh_issues (joined db' q') w \<noteq> []" by auto
    moreover have "counts_new (ar_trigger (joined db' q'))" using assms(5) tr(2) by (simp add: but_last_def)
    ultimately obtain d where d: "conditionMet (joined db' q') w = Met d" using counts_new_met by blast
    have i': "ar_id q' = i" "q' \<in> set (al_rules db')" using row_mem [OF assms(9)] by simp_all
    have "ar_enabled q'" "ruleHasScope db' q'" using tr(2) assms(3,4) i i' by (simp_all add: but_last_def ruleHasScope_def links)
    then have "joined db' q' \<in> set (ListDueAlertRules now db')" unfolding due_rules using i'(2) assms(10) by blast
    from evaluate_rules_fires [OF _ this _ assms(13) d, of turn configured db'] assms(11,12) i'
    have fired: "First (joined db' q') (payload_of (joined db' q') (ar_trigger (joined db' q')) (tu_now t) (enriched (joined db' q') (tu_sample t) d)) t
       \<in> set (fst (evaluate configured now turn db'))" by (simp add: evaluate_def)
    then have "counted i x (fst (evaluate configured now turn db'))" unfolding counted_def
      using f assms(13) i' by (intro bexI [OF _ fired]) (simp add: counts_in_def)
    then show ?thesis by simp
  qed simp
qed

section \<open>Retries come to an end\<close>




section \<open>What the log search matches\<close>

definition esc :: "char \<Rightarrow> string" where
  "esc c = (if c \<in> {CHR 0x5C, CHR ''%'', CHR ''_''} then [CHR 0x5C, c] else [c])"

lemma escapeLike_esc: "escapeLike s = concat (map esc s)"
  by (induction s) (auto simp: escapeLike_def escape_char_def esc_def)

lemma like_escaped: "like (escapeLike s @ ps) t \<longleftrightarrow> (\<exists>u. t = s @ u \<and> like ps u)"
proof (induction s arbitrary: t)
  case (Cons c s)
  have "like (esc c @ q) t \<longleftrightarrow> (\<exists>u. t = c # u \<and> like q u)" for q
    by (auto simp: esc_def split: list.splits)
  with Cons show ?case by (auto simp: escapeLike_esc)
qed (simp add: escapeLike_esc)

lemma like_percent: "like (CHR ''%'' # ps) t \<longleftrightarrow> (\<exists>a b. t = a @ b \<and> like ps b)"
proof (induction t)
  case (Cons c t)
  have "(\<exists>a b. c # t = a @ b \<and> like ps b) \<longleftrightarrow> like ps (c # t) \<or> (\<exists>a b. t = a @ b \<and> like ps b)"
    by (auto simp: Cons_eq_append_conv)
  with Cons show ?case by simp
qed simp

lemma lower_meta: "lower_char c = m \<longleftrightarrow> c = m" if "m \<in> {CHR 0x5C, CHR ''%'', CHR ''_''}" for c m
proof -
  have "of_char (lower_char c) = (if 65 \<le> (of_char c :: nat) \<and> (of_char c :: nat) \<le> 90 then of_char c + 32 else (of_char c :: nat))"
    by (simp add: lower_char_def)
  moreover have "of_char m \<in> {92, 37, 95 :: nat}" using that by auto
  moreover have "c = m \<longleftrightarrow> of_char c = (of_char m :: nat)" "lower_char c = m \<longleftrightarrow> of_char (lower_char c) = (of_char m :: nat)" by simp_all
  ultimately show ?thesis by (auto split: if_splits)
qed

lemma lower_esc: "map lower_char (esc c) = esc (lower_char c)"
  using lower_meta [of "CHR 0x5C" c] lower_meta [of "CHR ''%''" c] lower_meta [of "CHR ''_''" c]
    lower_meta [of "CHR 0x5C" "CHR 0x5C"]
  by (auto simp: esc_def)

text \<open>
A log search is taken literally: whatever text is searched for, percent signs, underscores and backslashes included,
the pattern built from it matches exactly the log bodies that contain the text, up to the case of letters.
\<close>

theorem log_search_literal:
  "ilike (likeContains s) body \<longleftrightarrow> contains (map lower_char s) (map lower_char body)"
proof -
  have "map lower_char (likeContains s) = ''%'' @ escapeLike (map lower_char s) @ ''%''"
    using lower_meta [of "CHR ''%''" "CHR ''%''"]
    by (simp add: likeContains_def escapeLike_esc map_concat comp_def lower_esc)
  then have "ilike (likeContains s) body \<longleftrightarrow>
      (\<exists>a b. map lower_char body = a @ b \<and> (\<exists>u. b = map lower_char s @ u \<and> (\<exists>c d. u = c @ d \<and> like [] d)))"
    by (simp only: ilike_def append_Cons append_Nil like_percent like_escaped)
  then show ?thesis by (simp add: contains_iff) blast
qed

section \<open>Where the counting goes wrong\<close>

definition global_rule :: alert_rule where
  "global_rule = \<lparr>ar_id = 0, ar_projects = [], ar_global = True, ar_name = ''new'', ar_enabled = True, ar_trigger = ''new_issue'',
     ar_threshold = None, ar_window = None, ar_channel = ''webhook'', ar_webhook = Some ''http://x'', ar_email = None,
     ar_cooldown = 60, ar_level = None, ar_env = None, ar_min = None, ar_search = None, ar_last = None, ar_created = 0\<rparr>"

definition one_rule :: "alert_rule \<Rightarrow> alert_db" where
  "one_rule r = \<lparr>al_rules = [r], al_links = [], al_known = [''p''], al_firings = [], al_next = 1\<rparr>"

definition seen_world :: "nanos \<Rightarrow> issue list \<Rightarrow> world" where
  "seen_world now issues = \<lparr>wo_now = now, wo_issues = issues, wo_events = [], wo_monitors = [], wo_checkins = [], wo_uptime = [],
     wo_logs = [], wo_slow = False\<rparr>"

definition a_turn :: "nanos \<Rightarrow> reply \<Rightarrow> issue list \<Rightarrow> turn" where
  "a_turn asOf reply issues = \<lparr>tu_asof = asOf, tu_world = Some (seen_world asOf issues), tu_sample = None, tu_reply = reply,
     tu_now = asOf, tu_logged = True, tu_marked = True\<rparr>"

definition an_issue :: "nat \<Rightarrow> nanos \<Rightarrow> int \<Rightarrow> issue" where
  "an_issue i created n = new_issue i ''p'' ''f'' ''Boom'' ''error'' ''error'' None None created created n created"

text \<open>
  A rule with a minimum of two occurrences: an issue that was created before another one fired the rule, and reaches the
  minimum only afterwards, is never counted, because only its time of creation is compared.
\<close>

theorem slow_issue_never_alerts:
  "let hour = minutes 60; db = one_rule (global_rule\<lparr>ar_min := Some 2\<rparr>);
       (ds1, db1) = evaluate False 30 (\<lambda>_. Some (a_turn 30 (Reply 200) [an_issue 1 10 1, an_issue 2 20 2])) db;
       (ds2, db2) = evaluate False (hour + 30) (\<lambda>_. Some (a_turn (hour + 30) (Reply 200) [an_issue 1 10 500, an_issue 2 20 2])) db1
     in counted 0 2 ds1 \<and> \<not> counted 0 1 (ds1 @ ds2) \<and> ds2 = [] \<and> cooled (hour + 30) (hd (al_rules db1))"
  by code_simp

text \<open>
  An issue is stamped with the time its transaction began: when it commits only after a pass has counted, with a stamp
  before the clock of that pass, the pass that fires for another issue moves the rule past it, and it is never counted.
\<close>

theorem late_commit_never_alerts:
  "let hour = minutes 60; db = one_rule global_rule;
       (ds1, db1) = evaluate False 30 (\<lambda>_. Some (a_turn 30 (Reply 200) [an_issue 2 20 1])) db;
       (ds2, db2) = evaluate False (hour + 30) (\<lambda>_. Some (a_turn (hour + 30) (Reply 200) [an_issue 1 29 1, an_issue 2 20 1])) db1
     in counted 0 2 ds1 \<and> \<not> counted 0 1 (ds1 @ ds2)"
  by code_simp

text \<open>
  The scope of a rule after a patch: a rule whose projects were all deleted becomes a rule for every project, whatever the
  patch changes, if it does not name projects.
\<close>

theorem patch_makes_orphan_global:
  assumes "GetAlertRule i db = Some r" "ar_projects r = []" "rp_projects p = None"
    and "handleUpdateAlertRule url_ok redact i p db = Answered (q, db')"
  shows "ar_global q"
proof -
  obtain r' x where r': "vetted url_ok (patched redact p r) = Inr r'" "UpdateAlertRule r' db = RuleIs (q, db')"
    using assms(1,4) by (auto simp: handleUpdateAlertRule_def split: sum.splits rule_result.splits)
  have "ar_projects r' = []" using vetted_cooldown [OF r'(1)] assms(2,3) by (simp add: same_rule_def patched_def given_def)
  then show ?thesis using r'(2) by (auto simp: UpdateAlertRule_def overwrite_def normaliseProjectIDs_def split: option.splits if_splits)
qed

text \<open>A rule is enabled when it is created, whatever the request says.\<close>

theorem created_rules_are_enabled:
  assumes "handleCreateAlertRule url_ok now r db = Answered (q, db')"
  shows "ar_enabled q"
proof -
  have v: "validateAlertRule x = Inr y \<Longrightarrow> ar_enabled y = ar_enabled x" for x y
    by (auto simp: validateAlertRule_def check_event_count_def check_log_count_def trimmed_search_def Let_def
        split: if_splits option.splits sum.splits)
  obtain r' where "vetted url_ok (r\<lparr>ar_enabled := True\<rparr>) = Inr r'" "CreateAlertRule now r' db = Some (q, db')"
    using assms by (auto simp: handleCreateAlertRule_def split: sum.splits option.splits)
  moreover from this(1) have "validateAlertRule (r\<lparr>ar_enabled := True\<rparr>) = Inr r'"
    unfolding vetted_def by (auto split: sum.splits if_splits option.splits)
  ultimately show ?thesis using v [of "r\<lparr>ar_enabled := True\<rparr>" r'] by (auto simp: CreateAlertRule_def Let_def split: if_splits option.splits)
qed

section \<open>Instances\<close>

definition demo_retry :: "nanos \<Rightarrow> reply \<Rightarrow> nat \<Rightarrow> retry_turn" where
  "demo_retry now reply i = \<lparr>rt_lookup = None, rt_reply = reply, rt_now = now, rt_scheduled = True, rt_resolved = True\<rparr>"

definition demo_alert_ops :: "alert_op list" where
  "demo_alert_ops = [AProject ''p'', ACreate (\<lambda>_. None) 0 global_rule,
     AEvaluate 30 (\<lambda>_. Some (a_turn 30 (Unreachable ''no route'') [an_issue 1 10 1])),
     ARetry (minutes 3) (demo_retry (minutes 3) (Reply 500)), ARetry (minutes 4) (demo_retry (minutes 4) (Reply 500)),
     ARetry (minutes 20) (demo_retry (minutes 20) (Reply 500)), ARetry (minutes 40) (demo_retry (minutes 40) (Reply 200))]"

theorem delivered_at_most_three_witness:
  "again 1 (fst (alert_run False demo_alert_ops)) = 2 \<and> again 1 (fst (alert_run False demo_alert_ops)) \<le> 2"
proof
  show "again 1 (fst (alert_run False demo_alert_ops)) = 2" by code_simp
  show "again 1 (fst (alert_run False demo_alert_ops)) \<le> 2"
    by (rule delivered_at_most_three) (simp add: demo_alert_ops_def resolves_def demo_retry_def)
qed

definition demo_turn :: "nat \<Rightarrow> turn option" where
  "demo_turn i = Some (a_turn 30 (Unreachable ''no route'') [an_issue 1 10 1])"

definition demo_later :: "nat \<Rightarrow> turn option" where
  "demo_later i = Some (a_turn (minutes 60 + 30) (Reply 200) [an_issue 1 10 1, an_issue 2 40 1])"

definition demo_fired :: "delivery list \<times> alert_db" where
  "demo_fired = evaluate False 30 demo_turn (one_rule global_rule)"

definition demo_again :: "delivery list \<times> alert_db" where
  "demo_again = evaluate False (minutes 60 + 30) demo_later (snd demo_fired)"

lemma one_rule_inv: "alerts_inv (one_rule global_rule)"
  by (simp add: alerts_inv_defs one_rule_def global_rule_def rule_ok_def trim_space_def trim_left_def trim_right_def ascii_space_def)


theorem orphans_stay_silent_witness:
  "list_all (\<lambda>d. case d of First r p t \<Rightarrow> ar_global r | Again i r p \<Rightarrow> False) (fst demo_fired) \<and> fst demo_fired \<noteq> []"
proof
  show "fst demo_fired \<noteq> []" by code_simp
  have "ar_global r" if "First r p t \<in> set (fst demo_fired)" for r p t
    using orphans_stay_silent [OF one_rule_inv, of r p t False "AEvaluate 30 demo_turn"] that
    by (auto simp: demo_fired_def evaluate_def due_rules dest!: evaluate_rules_mem) (simp add: one_rule_def global_rule_def)
  moreover have "\<not> (\<exists>d \<in> set (fst demo_fired). case d of First r p t \<Rightarrow> False | Again i r p \<Rightarrow> True)" by code_simp
  ultimately show "list_all (\<lambda>d. case d of First r p t \<Rightarrow> ar_global r | Again i r p \<Rightarrow> False) (fst demo_fired)"
    by (auto simp: list_all_iff split: delivery.splits)
qed

theorem new_issue_alerted_witness:
  "counted 0 2 (fst demo_fired @ fst demo_again)"
proof -
  have q: "row 0 (one_rule global_rule) = Some global_rule" by (simp add: row_def one_rule_def global_rule_def)
  have "cooled (minutes 60 + 30) (the (row 0 (snd demo_fired)))" by code_simp
  moreover have "row 0 (snd demo_fired) \<noteq> None" by code_simp
  ultimately obtain q' where q': "row 0 (snd demo_fired) = Some q'" "cooled (minutes 60 + 30) q'" by auto
  have "seen_in (joined (one_rule global_rule) global_rule) 2 40 (AEvaluate (minutes 60 + 30) demo_later)" by code_simp
  moreover have "seen_in (joined (one_rule global_rule) global_rule) 2 40 (AEvaluate 30 demo_turn)" by code_simp
  ultimately have seen: "\<forall>e \<in> set ([AEvaluate 30 demo_turn] @ [AEvaluate (minutes 60 + 30) demo_later]).
      background e \<and> seen_in (joined (one_rule global_rule) global_rule) 2 40 e" by (simp add: background_def)
  show ?thesis unfolding demo_again_def
    by (rule new_issue_alerted [OF one_rule_inv q _ _ _ _ seen _ q',
          where t = "a_turn (minutes 60 + 30) (Reply 200) [an_issue 1 10 1, an_issue 2 40 1]"
          and w = "seen_world (minutes 60 + 30) [an_issue 1 10 1, an_issue 2 40 1]"])
      (simp_all add: global_rule_def ruleHasScope_def counts_new_def since_def alert_step_def demo_fired_def split_beta
        demo_later_def a_turn_def minutes_def)
qed



end
