(* ===== verification/Webhook_Guard.thy ===== *)
theory Webhook_Guard
  imports Prelude "HOL-Library.Word"
begin

unbundle bit_operations_syntax

text \<open>
  The guard of outgoing requests, \<open>internal/alerts/webhook_validate.go\<close> and \<open>internal/alerts/webhook_client.go\<close>: which
  addresses are internal, the check of a URL when a rule is saved, and the check of the address that is dialled. An
  address is a \<open>net.IP\<close>, a list of 4 or 16 bytes; the predicates of the package net are written out.
\<close>

section \<open>Addresses\<close>

type_synonym byte = "8 word"
type_synonym ip = "byte list"

definition isZeros :: "ip \<Rightarrow> bool" where
  "isZeros b = list_all (\<lambda>v. v = 0) b"

definition v4InV6Prefix :: ip where "v4InV6Prefix = replicate 10 0 @ [0xFF, 0xFF]"

definition IPv4 :: "byte \<Rightarrow> byte \<Rightarrow> byte \<Rightarrow> byte \<Rightarrow> ip" where
  "IPv4 a b c d = v4InV6Prefix @ [a, b, c, d]"

definition To4 :: "ip \<Rightarrow> ip option" where
  "To4 ip =
     (if length ip = 4 then Some ip
      else if length ip = 16 \<and> isZeros (take 10 ip) \<and> ip ! 10 = 0xFF \<and> ip ! 11 = 0xFF then Some (drop 12 ip)
      else None)"

definition To16 :: "ip \<Rightarrow> ip option" where
  "To16 ip =
     (if length ip = 4 then Some (IPv4 (ip ! 0) (ip ! 1) (ip ! 2) (ip ! 3)) else if length ip = 16 then Some ip else None)"

definition IPv6unspecified :: ip where "IPv6unspecified = replicate 16 0"

definition IPv6loopback :: ip where "IPv6loopback = replicate 15 0 @ [1]"

text \<open>\<open>IsUnspecified\<close> compares with the IPv4 zero address in either of its forms.\<close>

definition IsUnspecified :: "ip \<Rightarrow> bool" where
  "IsUnspecified ip \<longleftrightarrow> To4 ip = Some [0, 0, 0, 0] \<or> ip = IPv6unspecified"

definition IsLoopback :: "ip \<Rightarrow> bool" where
  "IsLoopback ip = (case To4 ip of Some q \<Rightarrow> q ! 0 = 127 | None \<Rightarrow> ip = IPv6loopback)"

definition IsPrivate :: "ip \<Rightarrow> bool" where
  "IsPrivate ip = (case To4 ip of
     Some q \<Rightarrow> q ! 0 = 10 \<or> q ! 0 = 172 \<and> q ! 1 AND 0xF0 = 16 \<or> q ! 0 = 192 \<and> q ! 1 = 168
   | None \<Rightarrow> length ip = 16 \<and> ip ! 0 AND 0xFE = 0xFC)"

definition IsLinkLocalMulticast :: "ip \<Rightarrow> bool" where
  "IsLinkLocalMulticast ip = (case To4 ip of
     Some q \<Rightarrow> q ! 0 = 224 \<and> q ! 1 = 0 \<and> q ! 2 = 0
   | None \<Rightarrow> length ip = 16 \<and> ip ! 0 = 0xFF \<and> ip ! 1 AND 0x0F = 2)"

definition IsLinkLocalUnicast :: "ip \<Rightarrow> bool" where
  "IsLinkLocalUnicast ip = (case To4 ip of
     Some q \<Rightarrow> q ! 0 = 169 \<and> q ! 1 = 254
   | None \<Rightarrow> length ip = 16 \<and> ip ! 0 = 0xFE \<and> ip ! 1 AND 0xC0 = 0x80)"

text \<open>A prefix of the package netip: its base and its length; it contains the IPv4 addresses with the same leading bits.\<close>

definition ip4_value :: "ip \<Rightarrow> nat" where
  "ip4_value q = foldl (\<lambda>v b. 256 * v + unat b) 0 q"

definition in_prefix :: "nat \<Rightarrow> ip \<times> nat \<Rightarrow> bool" where
  "in_prefix v p = (v div 2 ^ (32 - snd p) = ip4_value (fst p) div 2 ^ (32 - snd p))"

definition blockedPrefixes :: "(ip \<times> nat) list" where
  "blockedPrefixes = [([0, 0, 0, 0], 8), ([100, 64, 0, 0], 10), ([198, 18, 0, 0], 15)]"

text \<open>\<open>netip.AddrFromSlice\<close> takes 4 or 16 bytes, and \<open>Unmap\<close> turns a mapped address into the IPv4 address.\<close>

definition blockedDirect :: "ip \<Rightarrow> bool" where
  "blockedDirect ip \<longleftrightarrow>
     IsLoopback ip \<or> IsLinkLocalUnicast ip \<or> IsLinkLocalMulticast ip \<or> IsPrivate ip \<or> IsUnspecified ip
     \<or> (case To4 ip of None \<Rightarrow> False | Some q \<Rightarrow> list_ex (in_prefix (ip4_value q)) blockedPrefixes)"

definition isIPv4Compatible :: "ip \<Rightarrow> bool" where
  "isIPv4Compatible v6 \<longleftrightarrow> isZeros (take 12 v6)
     \<and> \<not> (v6 ! 12 = 0 \<and> v6 ! 13 = 0 \<and> v6 ! 14 = 0 \<and> (v6 ! 15 = 0 \<or> v6 ! 15 = 1))"

definition embeddedIPv4 :: "ip \<Rightarrow> ip list" where
  "embeddedIPv4 ip =
     (case To16 ip of
        None \<Rightarrow> []
      | Some v6 \<Rightarrow>
          if To4 ip \<noteq> None then []
          else
            (if take 12 v6 = [0, 0x64, 0xFF, 0x9B, 0, 0, 0, 0, 0, 0, 0, 0] then [IPv4 (v6 ! 12) (v6 ! 13) (v6 ! 14) (v6 ! 15)] else [])
            @ (if v6 ! 0 = 0x20 \<and> v6 ! 1 = 0x02 then [IPv4 (v6 ! 2) (v6 ! 3) (v6 ! 4) (v6 ! 5)] else [])
            @ (if v6 ! 0 = 0x20 \<and> v6 ! 1 = 0x01 \<and> v6 ! 2 = 0 \<and> v6 ! 3 = 0
               then [IPv4 (v6 ! 4) (v6 ! 5) (v6 ! 6) (v6 ! 7),
                     IPv4 (v6 ! 12 XOR 0xFF) (v6 ! 13 XOR 0xFF) (v6 ! 14 XOR 0xFF) (v6 ! 15 XOR 0xFF)] else [])
            @ (if isIPv4Compatible v6 then [IPv4 (v6 ! 12) (v6 ! 13) (v6 ! 14) (v6 ! 15)] else []))"

text \<open>A nil address is the empty list.\<close>

definition isBlockedIP :: "ip \<Rightarrow> bool" where
  "isBlockedIP ip =
     (if ip = [] then False else if blockedDirect ip then True else list_ex blockedDirect (embeddedIPv4 ip))"

section \<open>The two checks\<close>

text \<open>
  \<open>url\<close> is what \<open>net/url\<close> makes of an address: its scheme and its host name. \<open>lookup\<close> is the resolver, and \<open>parse\<close> is
  \<open>net.ParseIP\<close>. The result is the refusal, if there is one.
\<close>

fun check_addresses :: "(string \<Rightarrow> ip option) \<Rightarrow> string list \<Rightarrow> string option" where
  "check_addresses parse [] = None"
| "check_addresses parse (a # as) =
     (case parse a of
        None \<Rightarrow> check_addresses parse as
      | Some ip \<Rightarrow> if isBlockedIP ip then Some ''webhook URL must not resolve to a private or internal address''
                   else check_addresses parse as)"

definition ValidateWebhookURL ::
  "(string \<Rightarrow> (string \<times> string) option) \<Rightarrow> (string \<Rightarrow> string list option) \<Rightarrow> (string \<Rightarrow> ip option) \<Rightarrow> string \<Rightarrow> bool \<Rightarrow> string option" where
  "ValidateWebhookURL url lookup parse urlStr allowPrivate =
     (case url urlStr of
        None \<Rightarrow> Some ''invalid URL''
      | Some (scheme, host) \<Rightarrow>
          if scheme \<noteq> ''http'' \<and> scheme \<noteq> ''https'' then Some ''webhook URL must use http or https''
          else if host = [] then Some ''webhook URL missing host''
          else if allowPrivate then None
          else (case lookup host of
              None \<Rightarrow> Some ''webhook URL host could not be resolved''
            | Some addrs \<Rightarrow> check_addresses parse addrs))"



section \<open>Internal addresses\<close>

text \<open>The internal IPv4 networks, by number: base and prefix length.\<close>

definition internal_networks :: "(ip \<times> nat) list" where
  "internal_networks = [([0, 0, 0, 0], 8), ([10, 0, 0, 0], 8), ([100, 64, 0, 0], 10), ([127, 0, 0, 0], 8), ([169, 254, 0, 0], 16),
     ([172, 16, 0, 0], 12), ([192, 168, 0, 0], 16), ([198, 18, 0, 0], 15), ([224, 0, 0, 0], 24)]"

definition internal :: "ip \<Rightarrow> bool" where
  "internal q \<longleftrightarrow> list_ex (in_prefix (ip4_value q)) internal_networks"

lemma all_bytes: "list_all P (map word_of_nat [0..<256]) \<Longrightarrow> P (b :: byte)"
proof -
  assume all: "list_all P (map word_of_nat [0..<256])"
  have "unat b < 256" using unsigned_less [of b, where ?'a = nat] by simp
  moreover have "word_of_nat (unat b) = b" by simp
  ultimately show "P b" using all by (auto simp: list_all_iff dest: bspec [of _ _ "unat b"])
qed

lemma high_nibble: "(b :: byte) AND 0xF0 = 16 \<longleftrightarrow> unat b div 16 = 1"
proof (rule all_bytes [of "\<lambda>b. (b AND 0xF0 = 16) = (unat b div 16 = 1)"])
  show "list_all (\<lambda>b :: byte. (b AND 0xF0 = 16) = (unat b div 16 = 1)) (map word_of_nat [0..<256])" by code_simp
qed

lemma unat_byte: "unat (b :: byte) < 256"
  using unsigned_less [of b, where ?'a = nat] by simp

lemma value4: "ip4_value [a, b, c, d] = 256 * (256 * (256 * unat a + unat b) + unat c) + unat d"
  by (simp add: ip4_value_def)

text \<open>What the leading bits of an address say about its bytes.\<close>

lemma leading_bits:
  defines "v a b c d \<equiv> ip4_value [a, b, c, d]"
  shows "v a b c d div 2 ^ (32 - 24) = 256 * (256 * unat a + unat b) + unat c"
    "v a b c d div 2 ^ (32 - 16) = 256 * unat a + unat b" "v a b c d div 2 ^ (32 - 8) = unat a"
    "v a b c d div 2 ^ (32 - 12) = 16 * unat a + unat b div 16" "v a b c d div 2 ^ (32 - 10) = 4 * unat a + unat b div 64"
    "v a b c d div 2 ^ (32 - 15) = 128 * unat a + unat b div 2"
proof -
  define A B C D where w: "A = unat a" "B = unat b" "C = unat c" "D = unat d"
  have lt: "B < 256" "C < 256" "D < 256" by (simp_all add: w unat_byte)
  have v: "v a b c d = 256 * (256 * (256 * A + B) + C) + D" by (simp add: v_def value4 w)
  show "v a b c d div 2 ^ (32 - 24) = 256 * (256 * unat a + unat b) + unat c" using lt by (simp add: v flip: w)
  show "v a b c d div 2 ^ (32 - 16) = 256 * unat a + unat b" using lt unfolding v by (simp flip: w)
  show "v a b c d div 2 ^ (32 - 8) = unat a" using lt unfolding v by (simp flip: w)
  show "v a b c d div 2 ^ (32 - 12) = 16 * unat a + unat b div 16" using lt unfolding v by (simp flip: w) presburger?
  show "v a b c d div 2 ^ (32 - 10) = 4 * unat a + unat b div 64" using lt unfolding v by (simp flip: w) presburger?
  show "v a b c d div 2 ^ (32 - 15) = 128 * unat a + unat b div 2" using lt unfolding v by (simp flip: w) presburger?
qed

lemma digits: "y < k \<Longrightarrow> y' < k \<Longrightarrow> k * x + y = k * x' + y' \<longleftrightarrow> x = x' \<and> y = (y' :: nat)"
  by (metis div_mult_self4 div_less mod_mult_self4 mod_less add_cancel_right_right less_nat_zero_code)

lemma prefix_bytes:
  "in_prefix (ip4_value [a, b, c, d]) ([0, 0, 0, 0], 8) \<longleftrightarrow> unat a = 0"
  "in_prefix (ip4_value [a, b, c, d]) ([10, 0, 0, 0], 8) \<longleftrightarrow> unat a = 10"
  "in_prefix (ip4_value [a, b, c, d]) ([100, 64, 0, 0], 10) \<longleftrightarrow> unat a = 100 \<and> unat b div 64 = 1"
  "in_prefix (ip4_value [a, b, c, d]) ([127, 0, 0, 0], 8) \<longleftrightarrow> unat a = 127"
  "in_prefix (ip4_value [a, b, c, d]) ([169, 254, 0, 0], 16) \<longleftrightarrow> unat a = 169 \<and> unat b = 254"
  "in_prefix (ip4_value [a, b, c, d]) ([172, 16, 0, 0], 12) \<longleftrightarrow> unat a = 172 \<and> unat b div 16 = 1"
  "in_prefix (ip4_value [a, b, c, d]) ([192, 168, 0, 0], 16) \<longleftrightarrow> unat a = 192 \<and> unat b = 168"
  "in_prefix (ip4_value [a, b, c, d]) ([198, 18, 0, 0], 15) \<longleftrightarrow> unat a = 198 \<and> unat b div 2 = 9"
  "in_prefix (ip4_value [a, b, c, d]) ([224, 0, 0, 0], 24) \<longleftrightarrow> unat a = 224 \<and> unat b = 0 \<and> unat c = 0"
proof -
  have lt: "unat b < 256" "unat c < 256" by (simp_all add: unat_byte)
  show "in_prefix (ip4_value [a, b, c, d]) ([0, 0, 0, 0], 8) \<longleftrightarrow> unat a = 0"
    "in_prefix (ip4_value [a, b, c, d]) ([10, 0, 0, 0], 8) \<longleftrightarrow> unat a = 10"
    "in_prefix (ip4_value [a, b, c, d]) ([127, 0, 0, 0], 8) \<longleftrightarrow> unat a = 127"
    unfolding in_prefix_def fst_conv snd_conv leading_bits by simp_all
  have d: "unat b div 64 < 4" "unat b div 16 < 16" "unat b div 2 < 128" using lt by simp_all
  show "in_prefix (ip4_value [a, b, c, d]) ([100, 64, 0, 0], 10) \<longleftrightarrow> unat a = 100 \<and> unat b div 64 = 1"
    unfolding in_prefix_def fst_conv snd_conv leading_bits using digits [OF d(1), of 1 "unat a" 100] by simp
  show "in_prefix (ip4_value [a, b, c, d]) ([169, 254, 0, 0], 16) \<longleftrightarrow> unat a = 169 \<and> unat b = 254"
    unfolding in_prefix_def fst_conv snd_conv leading_bits using digits [OF lt(1), of 254 "unat a" 169] by simp
  show "in_prefix (ip4_value [a, b, c, d]) ([172, 16, 0, 0], 12) \<longleftrightarrow> unat a = 172 \<and> unat b div 16 = 1"
    unfolding in_prefix_def fst_conv snd_conv leading_bits using digits [OF d(2), of 1 "unat a" 172] by simp
  show "in_prefix (ip4_value [a, b, c, d]) ([192, 168, 0, 0], 16) \<longleftrightarrow> unat a = 192 \<and> unat b = 168"
    unfolding in_prefix_def fst_conv snd_conv leading_bits using digits [OF lt(1), of 168 "unat a" 192] by simp
  show "in_prefix (ip4_value [a, b, c, d]) ([198, 18, 0, 0], 15) \<longleftrightarrow> unat a = 198 \<and> unat b div 2 = 9"
    unfolding in_prefix_def fst_conv snd_conv leading_bits using digits [OF d(3), of 9 "unat a" 198] by simp
  show "in_prefix (ip4_value [a, b, c, d]) ([224, 0, 0, 0], 24) \<longleftrightarrow> unat a = 224 \<and> unat b = 0 \<and> unat c = 0"
    unfolding in_prefix_def fst_conv snd_conv leading_bits using digits [OF lt(2), of 0 "256 * unat a + unat b" "256 * 224"] digits [OF lt(1), of 0 "unat a" 224] by simp
qed

lemma byte_num: "(b :: byte) = numeral n \<longleftrightarrow> unat b = unat (numeral n :: byte)" "(b :: byte) = 0 \<longleftrightarrow> unat b = 0"
  by (simp_all add: word_unat_eq_iff)

lemma v4InV6Prefix_bytes: "v4InV6Prefix = [0, 0, 0, 0, 0, 0, 0, 0, 0, 0, 0xFF, 0xFF]"
  by (simp add: v4InV6Prefix_def numeral_eq_Suc)

lemma zero_bytes: "IPv6unspecified = [0, 0, 0, 0, 0, 0, 0, 0, 0, 0, 0, 0, 0, 0, 0, 0]"
  "IPv6loopback = [0, 0, 0, 0, 0, 0, 0, 0, 0, 0, 0, 0, 0, 0, 0, 1]"
  by (simp_all add: IPv6unspecified_def IPv6loopback_def numeral_eq_Suc)

lemma To4_4 [simp]: "To4 [a, b, c, d] = Some [a, b, c, d]" "To4 (IPv4 a b c d) = Some [a, b, c, d]"
  by (simp_all add: To4_def IPv4_def v4InV6Prefix_bytes isZeros_def)

lemma direct_To4:
  assumes "To4 ip = Some [a, b, c, d]"
  shows "blockedDirect ip \<longleftrightarrow> internal [a, b, c, d]"
proof -
  have "To4 IPv6unspecified = None" by (simp add: To4_def zero_bytes isZeros_def)
  then have "ip \<noteq> IPv6unspecified" using assms by auto
  then show ?thesis
    unfolding internal_def internal_networks_def blockedDirect_def blockedPrefixes_def IsLoopback_def IsLinkLocalUnicast_def
      IsLinkLocalMulticast_def IsPrivate_def IsUnspecified_def assms option.case nth_Cons_0 nth_Cons_Suc One_nat_def high_nibble
    by (simp add: byte_num prefix_bytes) blast
qed

section \<open>What the guard stops\<close>

lemma blocked4: "isBlockedIP [a, b, c, d] \<longleftrightarrow> internal [a, b, c, d]"
  by (simp add: isBlockedIP_def direct_To4 [OF To4_4(1)] embeddedIPv4_def To16_def)

lemmas internal_bytes = internal_def internal_networks_def prefix_bytes

text \<open>
The guard refuses exactly the internal IPv4 addresses: "this network", the private networks, carrier-grade NAT, loopback,
link-local, the benchmarking network and local multicast, each as the range of its prefix, and no other address.
\<close>

theorem guard_exact_v4: "isBlockedIP [a, b, c, d] \<longleftrightarrow> internal [a, b, c, d]"
  by (rule blocked4)

definition nat64 :: "ip \<Rightarrow> ip" where
  "nat64 q = [0, 0x64, 0xFF, 0x9B, 0, 0, 0, 0, 0, 0, 0, 0] @ q"

definition sixto4 :: "ip \<Rightarrow> ip \<Rightarrow> ip" where
  "sixto4 q rest = [0x20, 0x02] @ q @ rest"

definition teredo :: "ip \<Rightarrow> ip \<Rightarrow> ip \<Rightarrow> ip" where
  "teredo server rest client = [0x20, 0x01, 0, 0] @ server @ rest @ map (\<lambda>x. x XOR 0xFF) client"

definition compatible :: "ip \<Rightarrow> ip" where
  "compatible q = replicate 12 0 @ q"

lemma list4: "length q = 4 \<Longrightarrow> \<exists>a b c d. q = [a, b, c, d]"
  by (auto simp: numeral_eq_Suc length_Suc_conv)

lemma embedded_blocked: "ip \<noteq> [] \<Longrightarrow> IPv4 a b c d \<in> set (embeddedIPv4 ip) \<Longrightarrow> internal [a, b, c, d] \<Longrightarrow> isBlockedIP ip"
  using direct_To4 [OF To4_4(2), of a b c d] by (auto simp: isBlockedIP_def list_ex_iff)

lemma xor_ff [simp]: "((x :: byte) XOR 0xFF) XOR 0xFF = x"
  by (simp add: xor.assoc)

lemma compatible_bytes: "compatible [a, b, c, d] = [0, 0, 0, 0, 0, 0, 0, 0, 0, 0, 0, 0, a, b, c, d]"
  by (simp add: compatible_def numeral_eq_Suc)

lemma blocked_compatible:
  assumes "internal [a, b, c, d]"
  shows "isBlockedIP (compatible [a, b, c, d])"
proof (cases "a = 0 \<and> b = 0 \<and> c = 0 \<and> (d = 0 \<or> d = 1)")
  case True
  have "isBlockedIP (compatible [0, 0, 0, 0])" "isBlockedIP (compatible [0, 0, 0, 1])"
    by (simp_all add: compatible_bytes isBlockedIP_def blockedDirect_def IsUnspecified_def IsLoopback_def To4_def zero_bytes)
  with True show ?thesis by auto
next
  case False
  then have c: "isIPv4Compatible [0, 0, 0, 0, 0, 0, 0, 0, 0, 0, 0, 0, a, b, c, d]" by (simp add: isIPv4Compatible_def isZeros_def)
  have "IPv4 a b c d \<in> set (embeddedIPv4 (compatible [a, b, c, d]))"
    by (simp add: embeddedIPv4_def To16_def To4_def compatible_bytes c)
  then show ?thesis by (intro embedded_blocked [OF _ _ assms]) (simp_all add: compatible_bytes)
qed

text \<open>
C17: An internal IPv4 address cannot be hidden in an IPv6 address: it is refused in its mapped form, behind the NAT64 prefix,
in a 6to4 address, as the server or the (inverted) client of a Teredo address, and in the deprecated compatible form,
whatever the other bytes are.
\<close>

theorem no_hidden_address:
  assumes "internal q" "length q = 4" "length r10 = 10" "length r4 = 4" "length p = 4"
  shows "isBlockedIP (v4InV6Prefix @ q) \<and> isBlockedIP (nat64 q) \<and> isBlockedIP (sixto4 q r10)
     \<and> isBlockedIP (teredo q r4 p) \<and> isBlockedIP (teredo p r4 q) \<and> isBlockedIP (compatible q)"
proof -
  obtain a b c d where q: "q = [a, b, c, d]" using list4 [OF assms(2)] by blast
  obtain e f g h where p: "p = [e, f, g, h]" using list4 [OF assms(5)] by blast
  obtain i j k l where r: "r4 = [i, j, k, l]" using list4 [OF assms(4)] by blast
  have int: "internal [a, b, c, d]" using assms(1) by (simp add: q)
  have "isBlockedIP (v4InV6Prefix @ q)"
    using direct_To4 [OF To4_4(2), of a b c d] int by (simp add: isBlockedIP_def q IPv4_def v4InV6Prefix_bytes)
  moreover have "isBlockedIP (nat64 q)"
    by (rule embedded_blocked [OF _ _ int]) (simp_all add: nat64_def q embeddedIPv4_def To16_def To4_def isZeros_def)
  moreover have "isBlockedIP (sixto4 q r10)"
    by (rule embedded_blocked [OF _ _ int]) (simp_all add: sixto4_def q embeddedIPv4_def To16_def To4_def isZeros_def assms(3))
  moreover have "isBlockedIP (teredo q r4 p)"
    by (rule embedded_blocked [OF _ _ int]) (simp_all add: teredo_def q p r embeddedIPv4_def To16_def To4_def isZeros_def)
  moreover have "isBlockedIP (teredo p r4 q)"
    by (rule embedded_blocked [OF _ _ int]) (simp_all add: teredo_def q p r embeddedIPv4_def To16_def To4_def isZeros_def)
  moreover have "isBlockedIP (compatible q)" using blocked_compatible [OF int] by (simp add: q)
  ultimately show ?thesis by blast
qed



theorem no_hidden_address_witness:
  "isBlockedIP (nat64 [169, 254, 169, 254]) \<and> isBlockedIP (teredo [8, 8, 8, 8] [0, 0, 0, 0] [169, 254, 169, 254])"
proof -
  have "internal [169, 254, 169, 254]" by (simp add: internal_bytes)
  from no_hidden_address [OF this, of "replicate 10 0" "[0, 0, 0, 0]" "[8, 8, 8, 8]"] show ?thesis by simp
qed






end
