(* ===== verification/Accounts.thy ===== *)
theory Accounts
  imports Prelude
begin

text \<open>
  Users, their sessions and their credentials: \<open>auth.go\<close>, \<open>login.go\<close>, \<open>mfa.go\<close> and \<open>password_reset.go\<close> of
  \<open>internal/storage\<close>, and the login handlers of \<open>internal/api/auth.go\<close> and \<open>internal/api/mfa.go\<close>. Each
  transaction either fails or gives the tables after it. Two packages outside the repository are arguments: \<open>check\<close>
  compares a bcrypt hash with a password, and \<open>totp\<close> validates a code against a secret. A new hash and a new random
  token are arguments too, and \<open>sha\<close> is the hash a token is stored under. \<open>now\<close> is the clock of the database and
  \<open>clock\<close> that of the program.
\<close>

section \<open>Tables\<close>

record permissions =
  pm_projects :: bool
  pm_users :: bool
  pm_alerts :: bool
  pm_issues :: bool

text \<open>An account without a password has the empty hash.\<close>

record user =
  us_id :: nat
  us_email :: string
  us_name :: string
  us_hash :: string
  us_mfa :: bool
  us_secret :: "string option"
  us_pending :: "string option"
  us_pending_exp :: "nanos option"
  us_perms :: permissions
  us_timezone :: string
  us_failed :: nat
  us_locked :: "nanos option"
  us_mfa_failed :: nat
  us_mfa_locked :: "nanos option"
  us_digest :: bool
  us_digest_sent :: "nanos option"
  us_created :: nanos

record session_row =
  se_hash :: string
  se_user :: nat
  se_expires :: nanos

record challenge =
  ch_hash :: string
  ch_user :: nat
  ch_expires :: nanos
  ch_failed :: nat

record reset_token =
  rs_hash :: string
  rs_user :: nat
  rs_expires :: nanos
  rs_used :: "nanos option"

record account_db =
  ac_users :: "user list"
  ac_sessions :: "session_row list"
  ac_challenges :: "challenge list"
  ac_resets :: "reset_token list"
  ac_next :: nat

datatype account_error =
    TooShort | TooLong | EmailTaken | LastUserManager | AuthenticationChanged | InvalidPassword | UserNotFound | NoPassword
  | DatabaseError

definition minPasswordLen :: nat where "minPasswordLen = 12"

definition maxPasswordLen :: nat where "maxPasswordLen = 72"

definition one_minute :: nanos where "one_minute = 60 * 1000000000"

definition live :: "nanos \<Rightarrow> nanos \<Rightarrow> bool" where "live now expires \<longleftrightarrow> now < expires"

definition length_error :: "string \<Rightarrow> account_error option" where
  "length_error password =
     (if length password < minPasswordLen then Some TooShort
      else if maxPasswordLen < length password then Some TooLong else None)"

section \<open>Users\<close>

definition user_by :: "nat \<Rightarrow> account_db \<Rightarrow> user option" where
  "user_by i db = find (\<lambda>u. us_id u = i) (ac_users db)"

definition all_perms :: permissions where
  "all_perms = \<lparr>pm_projects = True, pm_users = True, pm_alerts = True, pm_issues = True\<rparr>"

definition no_perms :: permissions where
  "no_perms = \<lparr>pm_projects = False, pm_users = False, pm_alerts = False, pm_issues = False\<rparr>"

text \<open>The insertion, which fails when the address is taken.\<close>

definition insert_user :: "nanos \<Rightarrow> string \<Rightarrow> string \<Rightarrow> string \<Rightarrow> permissions \<Rightarrow> account_db \<Rightarrow> (user \<times> account_db) option" where
  "insert_user now email name hash perms db =
     (if email \<in> us_email ` set (ac_users db) then None
      else let u = \<lparr>us_id = ac_next db, us_email = email, us_name = name, us_hash = hash, us_mfa = False, us_secret = None,
              us_pending = None, us_pending_exp = None, us_perms = perms, us_timezone = ''UTC'', us_failed = 0, us_locked = None,
              us_mfa_failed = 0, us_mfa_locked = None, us_digest = True, us_digest_sent = None, us_created = now\<rparr>
           in Some (u, db\<lparr>ac_users := ac_users db @ [u], ac_next := ac_next db + 1\<rparr>))"

definition createUser :: "nanos \<Rightarrow> string \<Rightarrow> string \<Rightarrow> string \<Rightarrow> account_db \<Rightarrow> account_error + user \<times> account_db" where
  "createUser now hash email password db =
     (case length_error password of
        Some e \<Rightarrow> Inl e
      | None \<Rightarrow>
          (case insert_user now (lower email) [] hash (if ac_users db = [] then all_perms else no_perms) db of
             None \<Rightarrow> Inl DatabaseError
           | Some r \<Rightarrow> Inr r))"

definition CreateAdminUser ::
  "nanos \<Rightarrow> string \<Rightarrow> string \<Rightarrow> string \<Rightarrow> string \<Rightarrow> account_db \<Rightarrow> account_error + user \<times> account_db" where
  "CreateAdminUser now hash email name password db =
     (case length_error password of
        Some e \<Rightarrow> Inl e
      | None \<Rightarrow> (case insert_user now (lower email) name hash all_perms db of None \<Rightarrow> Inl DatabaseError | Some r \<Rightarrow> Inr r))"

definition GetUserByID :: "nat \<Rightarrow> account_db \<Rightarrow> user option" where
  "GetUserByID = user_by"

definition GetUserByEmail :: "string \<Rightarrow> account_db \<Rightarrow> user option" where
  "GetUserByEmail email db = find (\<lambda>u. us_email u = lower email) (ac_users db)"

definition ListUsers :: "account_db \<Rightarrow> user list" where
  "ListUsers db = sort_key us_created (ac_users db)"

definition CountUsers :: "account_db \<Rightarrow> nat" where
  "CountUsers db = length (ac_users db)"

definition write_user :: "nat \<Rightarrow> (user \<Rightarrow> user) \<Rightarrow> account_db \<Rightarrow> account_db" where
  "write_user i f db = db\<lparr>ac_users := map (\<lambda>u. if us_id u = i then f u else u) (ac_users db)\<rparr>"

text \<open>\<open>guardLastUserManager\<close>: whether the user is the only one with the permission.\<close>

definition guardLastUserManager :: "nat \<Rightarrow> account_db \<Rightarrow> bool" where
  "guardLastUserManager i db \<longleftrightarrow> map us_id (filter (\<lambda>u. pm_users (us_perms u)) (ac_users db)) = [i]"

definition DeleteUser :: "nat \<Rightarrow> account_db \<Rightarrow> account_error + bool \<times> account_db" where
  "DeleteUser i db =
     (if guardLastUserManager i db then Inl LastUserManager
      else Inr (i \<in> us_id ` set (ac_users db),
        db\<lparr>ac_users := filter (\<lambda>u. us_id u \<noteq> i) (ac_users db), ac_sessions := filter (\<lambda>s. se_user s \<noteq> i) (ac_sessions db),
           ac_challenges := filter (\<lambda>c. ch_user c \<noteq> i) (ac_challenges db), ac_resets := filter (\<lambda>r. rs_user r \<noteq> i) (ac_resets db)\<rparr>))"

definition UpdateUserPermissions :: "nat \<Rightarrow> permissions \<Rightarrow> account_db \<Rightarrow> account_error + user option \<times> account_db" where
  "UpdateUserPermissions i perms db =
     (if \<not> pm_users perms \<and> guardLastUserManager i db then Inl LastUserManager
      else let db' = write_user i (\<lambda>u. u\<lparr>us_perms := perms\<rparr>) db in Inr (user_by i db', db'))"

definition UpdateUserProfile ::
  "nat \<Rightarrow> string \<Rightarrow> string \<Rightarrow> string \<Rightarrow> account_db \<Rightarrow> account_error + user option \<times> account_db" where
  "UpdateUserProfile i name email timezone db =
     (if user_by i db = None then Inr (None, db)
      else if \<exists>u \<in> set (ac_users db). us_id u \<noteq> i \<and> us_email u = lower email then Inl EmailTaken
      else let db' = write_user i (\<lambda>u. u\<lparr>us_name := name, us_email := lower email, us_timezone := timezone\<rparr>) db
           in Inr (user_by i db', db'))"

definition UpdateUserWeeklyDigest :: "nat \<Rightarrow> bool \<Rightarrow> account_db \<Rightarrow> account_db" where
  "UpdateUserWeeklyDigest i enabled = write_user i (\<lambda>u. u\<lparr>us_digest := enabled\<rparr>)"

definition MarkDigestSent :: "nanos \<Rightarrow> nat \<Rightarrow> account_db \<Rightarrow> account_db" where
  "MarkDigestSent now i = write_user i (\<lambda>u. u\<lparr>us_digest_sent := Some now\<rparr>)"

text \<open>\<open>monday\<close> is the start of the calendar week of the database clock, in UTC.\<close>

definition ListDigestDueUsers :: "nanos \<Rightarrow> bool \<Rightarrow> account_db \<Rightarrow> user list" where
  "ListDigestDueUsers monday force db = sort_key us_created (filter (\<lambda>u. us_digest u \<and> us_email u \<noteq> []
     \<and> (force \<or> (case us_digest_sent u of None \<Rightarrow> True | Some t \<Rightarrow> t < monday))) (ac_users db))"

section \<open>Passwords\<close>

text \<open>
  \<open>AuthenticateUser\<close> reads the user, compares, and then writes the outcome; the write is a statement of its own, on the
  row as it is then.
\<close>

datatype verdict = Locked | Wrong | Right

definition auth_verdict :: "(string \<Rightarrow> string \<Rightarrow> bool) \<Rightarrow> nanos \<Rightarrow> string \<Rightarrow> user \<Rightarrow> verdict" where
  "auth_verdict check clock password u =
     (if (case us_locked u of None \<Rightarrow> False | Some t \<Rightarrow> clock < t) then Locked
      else if check (us_hash u) password then Right else Wrong)"

definition auth_record :: "nanos \<Rightarrow> verdict \<Rightarrow> nat \<Rightarrow> account_db \<Rightarrow> account_db" where
  "auth_record now v i db =
     (case v of
        Locked \<Rightarrow> db
      | Wrong \<Rightarrow> write_user i (\<lambda>u. u\<lparr>us_failed := us_failed u + 1,
                     us_locked := (if 5 \<le> us_failed u + 1 then Some (now + 15 * one_minute) else us_locked u)\<rparr>) db
      | Right \<Rightarrow> write_user i (\<lambda>u. u\<lparr>us_failed := 0, us_locked := None\<rparr>) db)"

definition AuthenticateUser ::
  "(string \<Rightarrow> string \<Rightarrow> bool) \<Rightarrow> nanos \<Rightarrow> nanos \<Rightarrow> string \<Rightarrow> string \<Rightarrow> account_db \<Rightarrow> user option \<times> account_db" where
  "AuthenticateUser check clock now email password db =
     (case GetUserByEmail email db of
        None \<Rightarrow> (None, db)
      | Some u \<Rightarrow>
          let v = auth_verdict check clock password u in
          (if v = Right then Some u else None, auth_record now v (us_id u) db))"

definition VerifyUserPassword :: "(string \<Rightarrow> string \<Rightarrow> bool) \<Rightarrow> nat \<Rightarrow> string \<Rightarrow> account_db \<Rightarrow> bool" where
  "VerifyUserPassword check i password db =
     (case user_by i db of None \<Rightarrow> False | Some u \<Rightarrow> us_hash u \<noteq> [] \<and> password \<noteq> [] \<and> check (us_hash u) password)"

section \<open>Sessions\<close>

text \<open>The insertion fails when there is no such user or the token exists.\<close>

definition createSession :: "(string \<Rightarrow> string) \<Rightarrow> nanos \<Rightarrow> string \<Rightarrow> nat \<Rightarrow> account_db \<Rightarrow> (session_row \<times> account_db) option" where
  "createSession sha clock token i db =
     (if user_by i db = None \<or> sha token \<in> se_hash ` set (ac_sessions db) then None
      else let s = \<lparr>se_hash = sha token, se_user = i, se_expires = clock + 7 * 24 * 60 * one_minute\<rparr>
           in Some (s, db\<lparr>ac_sessions := ac_sessions db @ [s]\<rparr>))"

definition live_session :: "(string \<Rightarrow> string) \<Rightarrow> nanos \<Rightarrow> string \<Rightarrow> account_db \<Rightarrow> session_row option" where
  "live_session sha now token db = find (\<lambda>s. se_hash s = sha token \<and> live now (se_expires s)) (ac_sessions db)"

definition GetSessionIdentity :: "(string \<Rightarrow> string) \<Rightarrow> nanos \<Rightarrow> string \<Rightarrow> account_db \<Rightarrow> user option" where
  "GetSessionIdentity sha now token db =
     (case live_session sha now token db of None \<Rightarrow> None | Some s \<Rightarrow> user_by (se_user s) db)"

definition DeleteSessionReturningUserID :: "(string \<Rightarrow> string) \<Rightarrow> string \<Rightarrow> account_db \<Rightarrow> nat option \<times> account_db" where
  "DeleteSessionReturningUserID sha token db =
     (map_option se_user (find (\<lambda>s. se_hash s = sha token) (ac_sessions db)),
      db\<lparr>ac_sessions := filter (\<lambda>s. se_hash s \<noteq> sha token) (ac_sessions db)\<rparr>)"

definition revokeCredentialArtifacts :: "nat \<Rightarrow> account_db \<Rightarrow> account_db" where
  "revokeCredentialArtifacts i db = db\<lparr>ac_sessions := filter (\<lambda>s. se_user s \<noteq> i) (ac_sessions db),
     ac_challenges := filter (\<lambda>c. ch_user c \<noteq> i) (ac_challenges db), ac_resets := filter (\<lambda>r. rs_user r \<noteq> i) (ac_resets db)\<rparr>"

text \<open>What every change of a password writes on the user.\<close>

definition fresh_password :: "string \<Rightarrow> user \<Rightarrow> user" where
  "fresh_password hash u = u\<lparr>us_hash := hash, us_failed := 0, us_locked := None, us_pending := None, us_pending_exp := None\<rparr>"

text \<open>With \<open>currentSession\<close> empty no session is checked or made.\<close>

definition changeUserPassword ::
  "(string \<Rightarrow> string) \<Rightarrow> (string \<Rightarrow> string \<Rightarrow> bool) \<Rightarrow> nanos \<Rightarrow> nanos \<Rightarrow> string \<Rightarrow> string \<Rightarrow> nat \<Rightarrow> string \<Rightarrow> string \<Rightarrow> string
    \<Rightarrow> account_db \<Rightarrow> account_error + session_row option \<times> account_db" where
  "changeUserPassword sha check clock now hash token i current new currentSession db =
     (case length_error new of
        Some e \<Rightarrow> Inl e
      | None \<Rightarrow>
        (case user_by i db of
           None \<Rightarrow> Inl UserNotFound
         | Some u \<Rightarrow>
            if us_hash u = [] then Inl NoPassword
            else if \<not> check (us_hash u) current then Inl InvalidPassword
            else if currentSession \<noteq> [] \<and> \<not> (\<exists>s \<in> set (ac_sessions db).
                se_hash s = sha currentSession \<and> se_user s = i \<and> live now (se_expires s)) then Inl InvalidPassword
            else
              let db1 = revokeCredentialArtifacts i (write_user i (fresh_password hash) db) in
              if currentSession = [] then Inr (None, db1)
              else (case createSession sha clock token i db1 of
                  None \<Rightarrow> Inl DatabaseError
                | Some (s, db2) \<Rightarrow> Inr (Some s, db2))))"

definition ChangeUserPasswordWithSession ::
  "(string \<Rightarrow> string) \<Rightarrow> (string \<Rightarrow> string \<Rightarrow> bool) \<Rightarrow> nanos \<Rightarrow> nanos \<Rightarrow> string \<Rightarrow> string \<Rightarrow> nat \<Rightarrow> string \<Rightarrow> string \<Rightarrow> string
    \<Rightarrow> account_db \<Rightarrow> account_error + session_row option \<times> account_db" where
  "ChangeUserPasswordWithSession sha check clock now hash token i current new currentSession db =
     (if currentSession = [] then Inl InvalidPassword
      else changeUserPassword sha check clock now hash token i current new currentSession db)"

definition AdminSetPassword :: "string \<Rightarrow> nat \<Rightarrow> string \<Rightarrow> account_db \<Rightarrow> account_error + account_db" where
  "AdminSetPassword hash i new db =
     (case length_error new of
        Some e \<Rightarrow> Inl e
      | None \<Rightarrow>
          if user_by i db = None then Inl UserNotFound
          else Inr (revokeCredentialArtifacts i (write_user i (fresh_password hash) db)))"

text \<open>
  Issuing a credential for a user who was authenticated earlier: the user is read again under a lock, and the credential
  is issued only when password and second factor are still those of the snapshot.
\<close>

definition withAuthenticatedUser ::
  "user \<Rightarrow> (account_db \<Rightarrow> account_error + 'a \<times> account_db) \<Rightarrow> account_db \<Rightarrow> account_error + 'a \<times> account_db" where
  "withAuthenticatedUser user issue db =
     (case user_by (us_id user) db of
        None \<Rightarrow> Inl AuthenticationChanged
      | Some u \<Rightarrow>
          if us_hash u \<noteq> us_hash user \<or> us_mfa u \<noteq> us_mfa user then Inl AuthenticationChanged else issue db)"

definition or_database_error :: "'a option \<Rightarrow> account_error + 'a" where
  "or_database_error r = (case r of None \<Rightarrow> Inl DatabaseError | Some x \<Rightarrow> Inr x)"

definition CreateAuthenticatedSession ::
  "(string \<Rightarrow> string) \<Rightarrow> nanos \<Rightarrow> string \<Rightarrow> user \<Rightarrow> account_db \<Rightarrow> account_error + session_row \<times> account_db" where
  "CreateAuthenticatedSession sha clock token user db =
     (if us_mfa user then Inl AuthenticationChanged
      else withAuthenticatedUser user (\<lambda>db. or_database_error (createSession sha clock token (us_id user) db)) db)"

section \<open>Second factor\<close>

definition createMFAChallenge :: "(string \<Rightarrow> string) \<Rightarrow> nanos \<Rightarrow> string \<Rightarrow> nat \<Rightarrow> account_db \<Rightarrow> (string \<times> account_db) option" where
  "createMFAChallenge sha clock token i db =
     (if user_by i db = None \<or> sha token \<in> ch_hash ` set (ac_challenges db) then None
      else Some (token, db\<lparr>ac_challenges := ac_challenges db @
          [\<lparr>ch_hash = sha token, ch_user = i, ch_expires = clock + 10 * one_minute, ch_failed = 0\<rparr>]\<rparr>))"

definition CreateAuthenticatedMFAChallenge ::
  "(string \<Rightarrow> string) \<Rightarrow> nanos \<Rightarrow> string \<Rightarrow> user \<Rightarrow> account_db \<Rightarrow> account_error + string \<times> account_db" where
  "CreateAuthenticatedMFAChallenge sha clock token user db =
     (if \<not> us_mfa user then Inl AuthenticationChanged
      else withAuthenticatedUser user (\<lambda>db. or_database_error (createMFAChallenge sha clock token (us_id user) db)) db)"

definition GetMFASecret :: "nat \<Rightarrow> account_db \<Rightarrow> string option" where
  "GetMFASecret i db = (case user_by i db of None \<Rightarrow> None | Some u \<Rightarrow> us_secret u)"

definition DisableMFA :: "nat \<Rightarrow> account_db \<Rightarrow> account_db" where
  "DisableMFA i = write_user i (\<lambda>u. u\<lparr>us_mfa := False, us_secret := None, us_pending := None, us_pending_exp := None\<rparr>)"

definition GetMFAChallenge :: "(string \<Rightarrow> string) \<Rightarrow> nanos \<Rightarrow> string \<Rightarrow> account_db \<Rightarrow> nat option" where
  "GetMFAChallenge sha now token db =
     map_option ch_user (find (\<lambda>c. ch_hash c = sha token \<and> live now (ch_expires c)) (ac_challenges db))"

definition MFAChallengeMaxFailures :: nat where "MFAChallengeMaxFailures = 5"

definition MFAUserMaxFailures :: nat where "MFAUserMaxFailures = 10"

definition MFALockDuration :: nanos where "MFALockDuration = 15 * one_minute"

definition mfa_locked :: "nanos \<Rightarrow> user \<Rightarrow> bool" where
  "mfa_locked now u \<longleftrightarrow> (case us_mfa_locked u of None \<Rightarrow> False | Some t \<Rightarrow> now < t)"

definition MFALocked :: "nanos \<Rightarrow> nat \<Rightarrow> account_db \<Rightarrow> bool" where
  "MFALocked now i db \<longleftrightarrow> (case user_by i db of None \<Rightarrow> False | Some u \<Rightarrow> mfa_locked now u)"

text \<open>The three updates of \<open>RecordMFAFailure\<close>: of the challenge, of the user, and of all challenges once the user is locked.\<close>

definition count_challenge :: "string \<Rightarrow> account_db \<Rightarrow> account_db" where
  "count_challenge hash db = db\<lparr>ac_challenges :=
     map (\<lambda>c. if ch_hash c = hash then c\<lparr>ch_failed := ch_failed c + 1\<rparr> else c)
       (filter (\<lambda>c. \<not> (ch_hash c = hash \<and> MFAChallengeMaxFailures \<le> ch_failed c + 1)) (ac_challenges db))\<rparr>"

definition count_failure :: "nanos \<Rightarrow> user \<Rightarrow> user" where
  "count_failure now u =
     (if MFAUserMaxFailures \<le> us_mfa_failed u + 1 then u\<lparr>us_mfa_failed := 0, us_mfa_locked := Some (now + MFALockDuration)\<rparr>
      else u\<lparr>us_mfa_failed := us_mfa_failed u + 1\<rparr>)"

definition RecordMFAFailure :: "(string \<Rightarrow> string) \<Rightarrow> nanos \<Rightarrow> string \<Rightarrow> nat \<Rightarrow> account_db \<Rightarrow> account_db" where
  "RecordMFAFailure sha now token i db =
     (let db1 = write_user i (count_failure now) (count_challenge (sha token) db) in
      if MFALocked now i db1 then db1\<lparr>ac_challenges := filter (\<lambda>c. ch_user c \<noteq> i) (ac_challenges db1)\<rparr> else db1)"

text \<open>\<open>active\<close> is the secret whose code was given, if a second factor is already enrolled.\<close>

definition may_stage :: "string option \<Rightarrow> user \<Rightarrow> bool" where
  "may_stage active u \<longleftrightarrow> \<not> us_mfa u \<and> active = None \<or> us_mfa u \<and> active \<noteq> None \<and> us_secret u = active"

definition SetPendingMFASecret :: "nanos \<Rightarrow> nat \<Rightarrow> string \<Rightarrow> string option \<Rightarrow> account_db \<Rightarrow> bool \<times> account_db" where
  "SetPendingMFASecret now i secret active db =
     ((case user_by i db of None \<Rightarrow> False | Some u \<Rightarrow> may_stage active u),
      write_user i (\<lambda>u. if may_stage active u then u\<lparr>us_pending := Some secret, us_pending_exp := Some (now + 10 * one_minute)\<rparr> else u) db)"

definition pending_live :: "nanos \<Rightarrow> user \<Rightarrow> bool" where
  "pending_live now u \<longleftrightarrow> (case us_pending_exp u of None \<Rightarrow> False | Some t \<Rightarrow> now < t)"

definition GetPendingMFASecret :: "nanos \<Rightarrow> nat \<Rightarrow> account_db \<Rightarrow> string option" where
  "GetPendingMFASecret now i db =
     (case user_by i db of None \<Rightarrow> None | Some u \<Rightarrow> if pending_live now u then us_pending u else None)"

definition may_confirm :: "nanos \<Rightarrow> string \<Rightarrow> user \<Rightarrow> bool" where
  "may_confirm now secret u \<longleftrightarrow> us_pending u = Some secret \<and> pending_live now u"

definition ConfirmMFA :: "nanos \<Rightarrow> nat \<Rightarrow> string \<Rightarrow> account_db \<Rightarrow> bool \<times> account_db" where
  "ConfirmMFA now i secret db =
     ((case user_by i db of None \<Rightarrow> False | Some u \<Rightarrow> may_confirm now secret u),
      write_user i (\<lambda>u. if may_confirm now secret u
        then u\<lparr>us_secret := us_pending u, us_mfa := True, us_pending := None, us_pending_exp := None\<rparr> else u) db)"

definition not_mfa_locked :: "nanos \<Rightarrow> user \<Rightarrow> bool" where
  "not_mfa_locked now u \<longleftrightarrow> (case us_mfa_locked u of None \<Rightarrow> True | Some t \<Rightarrow> t \<le> now)"

definition CompleteMFALogin ::
  "(string \<Rightarrow> string) \<Rightarrow> nanos \<Rightarrow> nanos \<Rightarrow> string \<Rightarrow> string \<Rightarrow> nat \<Rightarrow> string \<Rightarrow> account_db \<Rightarrow> account_error + session_row \<times> account_db" where
  "CompleteMFALogin sha clock now new token i verified db =
     (case user_by i db of
        None \<Rightarrow> Inl AuthenticationChanged
      | Some u \<Rightarrow>
          if \<not> us_mfa u \<or> us_secret u \<noteq> Some verified then Inl AuthenticationChanged
          else if \<not> not_mfa_locked now u then Inl AuthenticationChanged
          else
            let mine = (\<lambda>c. ch_hash c = sha token \<and> ch_user c = i \<and> live now (ch_expires c));
                db1 = write_user i (\<lambda>u. u\<lparr>us_mfa_failed := 0, us_mfa_locked := None\<rparr>) db in
            if \<not> list_ex mine (ac_challenges db1) then Inl AuthenticationChanged
            else or_database_error (createSession sha clock new i (db1\<lparr>ac_challenges := filter (\<lambda>c. \<not> mine c) (ac_challenges db1)\<rparr>)))"

section \<open>Reset links\<close>

definition CreatePasswordResetToken :: "(string \<Rightarrow> string) \<Rightarrow> nanos \<Rightarrow> string \<Rightarrow> nat \<Rightarrow> account_db \<Rightarrow> (string \<times> account_db) option" where
  "CreatePasswordResetToken sha now token i db =
     (if user_by i db = None \<or> sha token \<in> rs_hash ` set (ac_resets db) then None
      else Some (token, db\<lparr>ac_resets := ac_resets db @
          [\<lparr>rs_hash = sha token, rs_user = i, rs_expires = now + 24 * 60 * one_minute, rs_used = None\<rparr>]\<rparr>))"

definition open_reset :: "(string \<Rightarrow> string) \<Rightarrow> nanos \<Rightarrow> string \<Rightarrow> account_db \<Rightarrow> reset_token option" where
  "open_reset sha now token db =
     find (\<lambda>r. rs_hash r = sha token \<and> live now (rs_expires r) \<and> rs_used r = None) (ac_resets db)"

definition GetPasswordResetUser :: "(string \<Rightarrow> string) \<Rightarrow> nanos \<Rightarrow> string \<Rightarrow> account_db \<Rightarrow> user option" where
  "GetPasswordResetUser sha now token db = (case open_reset sha now token db of None \<Rightarrow> None | Some r \<Rightarrow> user_by (rs_user r) db)"

text \<open>The result is \<open>Inr None\<close> when the link is no longer usable.\<close>

definition usePasswordResetToken ::
  "(string \<Rightarrow> string) \<Rightarrow> nanos \<Rightarrow> nanos \<Rightarrow> string \<Rightarrow> string \<Rightarrow> string \<Rightarrow> string \<Rightarrow> bool \<Rightarrow> account_db
    \<Rightarrow> account_error + (user \<times> session_row option \<times> account_db) option" where
  "usePasswordResetToken sha clock now hash new token password issueSession db =
     (case length_error password of
        Some e \<Rightarrow> Inl e
      | None \<Rightarrow>
        (case open_reset sha now token db of
           None \<Rightarrow> Inr None
         | Some r \<Rightarrow>
             if user_by (rs_user r) db = None then Inr None
             else
               let i = rs_user r;
                   db1 = db\<lparr>ac_resets := map (\<lambda>q. if rs_hash q = sha token \<and> live now (rs_expires q) \<and> rs_used q = None
                            then q\<lparr>rs_used := Some now\<rparr> else q) (ac_resets db)\<rparr>;
                   db2 = revokeCredentialArtifacts i (write_user i (\<lambda>u. (fresh_password hash u)\<lparr>us_mfa := False, us_secret := None\<rparr>) db1) in
               (case user_by i db2 of
                  None \<Rightarrow> Inl DatabaseError
                | Some u \<Rightarrow>
                    if \<not> issueSession then Inr (Some (u, None, db2))
                    else (case createSession sha clock new i db2 of
                        None \<Rightarrow> Inl DatabaseError
                      | Some (s, db3) \<Rightarrow> Inr (Some (u, Some s, db3))))))"

definition UsePasswordResetTokenWithSession ::
  "(string \<Rightarrow> string) \<Rightarrow> nanos \<Rightarrow> nanos \<Rightarrow> string \<Rightarrow> string \<Rightarrow> string \<Rightarrow> string \<Rightarrow> account_db
    \<Rightarrow> account_error + (user \<times> session_row option \<times> account_db) option" where
  "UsePasswordResetTokenWithSession sha clock now hash new token password db =
     usePasswordResetToken sha clock now hash new token password True db"

section \<open>Requests\<close>

text \<open>
  The handlers as a whole, run without interleaving: the status they answer with, what they hand out, and the tables
  afterwards. \<open>NewSession\<close> is the token the session cookie carries. Log lines, audit rows and cookies that are cleared
  are left out.
\<close>

datatype handed = Nothing | NewSession string | MfaToken string | NewSecret string

type_synonym reply = "nat \<times> handed \<times> account_db"

definition auth_failure :: "account_error \<Rightarrow> account_db \<Rightarrow> reply" where
  "auth_failure e db = (if e = AuthenticationChanged then 401 else 500, Nothing, db)"

text \<open>\<open>allowed\<close> is the answer of the rate limiter for this address and account, \<open>sso\<close> whether passwords are switched off.\<close>

definition handleLogin ::
  "(string \<Rightarrow> string) \<Rightarrow> (string \<Rightarrow> string \<Rightarrow> bool) \<Rightarrow> nanos \<Rightarrow> nanos \<Rightarrow> bool \<Rightarrow> bool \<Rightarrow> string \<Rightarrow> string \<Rightarrow> string \<Rightarrow> account_db \<Rightarrow> reply" where
  "handleLogin sha check clock now allowed sso token email password db =
     (if email = [] \<or> password = [] then (400, Nothing, db)
      else if \<not> allowed then (429, Nothing, db)
      else if sso then (403, Nothing, db)
      else
        (case AuthenticateUser check clock now email password db of
           (None, db1) \<Rightarrow> (401, Nothing, db1)
         | (Some u, db1) \<Rightarrow>
             if us_mfa u then
               (case CreateAuthenticatedMFAChallenge sha clock token u db1 of
                  Inl e \<Rightarrow> auth_failure e db1
                | Inr (t, db2) \<Rightarrow> (200, MfaToken t, db2))
             else
               (case CreateAuthenticatedSession sha clock token u db1 of
                  Inl e \<Rightarrow> auth_failure e db1
                | Inr (s, db2) \<Rightarrow> (200, NewSession token, db2))))"

definition handleLogout :: "(string \<Rightarrow> string) \<Rightarrow> string option \<Rightarrow> account_db \<Rightarrow> reply" where
  "handleLogout sha cookie db =
     (200, Nothing, (case cookie of None \<Rightarrow> db | Some t \<Rightarrow> snd (DeleteSessionReturningUserID sha t db)))"

text \<open>\<open>secret\<close> is the secret generated for the request.\<close>

definition handleMFASetup :: "(string \<Rightarrow> string \<Rightarrow> bool) \<Rightarrow> nanos \<Rightarrow> string \<Rightarrow> nat \<Rightarrow> string \<Rightarrow> account_db \<Rightarrow> reply" where
  "handleMFASetup totp now secret i code db =
     (case GetUserByID i db of
        None \<Rightarrow> (404, Nothing, db)
      | Some u \<Rightarrow>
          let active = (if us_mfa u then GetMFASecret i db else None) in
          if us_mfa u \<and> (code = [] \<or> (case active of None \<Rightarrow> True | Some s \<Rightarrow> \<not> totp code s)) then (401, Nothing, db)
          else (case SetPendingMFASecret now i secret active db of
              (staged, db1) \<Rightarrow> if staged then (200, NewSecret secret, db1) else (409, Nothing, db1)))"

definition handleMFAConfirm :: "(string \<Rightarrow> string \<Rightarrow> bool) \<Rightarrow> nanos \<Rightarrow> nat \<Rightarrow> string \<Rightarrow> account_db \<Rightarrow> reply" where
  "handleMFAConfirm totp now i code db =
     (if code = [] then (400, Nothing, db)
      else (case GetPendingMFASecret now i db of
          None \<Rightarrow> (400, Nothing, db)
        | Some s \<Rightarrow>
            if \<not> totp code s then (401, Nothing, db)
            else (case ConfirmMFA now i s db of (ok, db1) \<Rightarrow> (if ok then 200 else 409, Nothing, db1))))"

definition handleMFADisable :: "(string \<Rightarrow> string \<Rightarrow> bool) \<Rightarrow> nat \<Rightarrow> string \<Rightarrow> account_db \<Rightarrow> reply" where
  "handleMFADisable check i password db =
     (if password = [] then (400, Nothing, db)
      else (case GetUserByID i db of
          None \<Rightarrow> (404, Nothing, db)
        | Some u \<Rightarrow> if \<not> check (us_hash u) password then (401, Nothing, db) else (200, Nothing, DisableMFA i db)))"

text \<open>\<open>body\<close> is the token in the request, \<open>cookie\<close> the one of a login by a provider.\<close>

definition handleMFAVerify ::
  "(string \<Rightarrow> string) \<Rightarrow> (string \<Rightarrow> string \<Rightarrow> bool) \<Rightarrow> nanos \<Rightarrow> nanos \<Rightarrow> string \<Rightarrow> string \<Rightarrow> string option \<Rightarrow> string \<Rightarrow> account_db \<Rightarrow> reply" where
  "handleMFAVerify sha totp clock now new body cookie code db =
     (let token = (if body \<noteq> [] then body else case cookie of None \<Rightarrow> [] | Some t \<Rightarrow> t) in
      if code = [] \<or> token = [] then (400, Nothing, db)
      else (case GetMFAChallenge sha now token db of
          None \<Rightarrow> (401, Nothing, db)
        | Some i \<Rightarrow>
            if MFALocked now i db then (429, Nothing, db)
            else (case GetMFASecret i db of
                None \<Rightarrow> (401, Nothing, RecordMFAFailure sha now token i db)
              | Some s \<Rightarrow>
                  if \<not> totp code s then (401, Nothing, RecordMFAFailure sha now token i db)
                  else (case CompleteMFALogin sha clock now new token i s db of
                      Inl e \<Rightarrow> auth_failure e db
                    | Inr (x, db1) \<Rightarrow> (200, NewSession new, db1)))))"

definition handleAdminDisableMFA :: "nat \<Rightarrow> account_db \<Rightarrow> reply" where
  "handleAdminDisableMFA i db = (case GetUserByID i db of None \<Rightarrow> (404, Nothing, db) | Some u \<Rightarrow> (204, Nothing, DisableMFA i db))"

definition handleAdminSetPassword :: "string \<Rightarrow> nat \<Rightarrow> string \<Rightarrow> account_db \<Rightarrow> reply" where
  "handleAdminSetPassword hash i password db =
     (if password = [] then (400, Nothing, db)
      else (case AdminSetPassword hash i password db of
          Inl e \<Rightarrow> (if e = UserNotFound then 404 else if e = TooShort then 400 else 500, Nothing, db)
        | Inr db1 \<Rightarrow> (204, Nothing, db1)))"

definition maxConcurrentPasswordResets :: nat where "maxConcurrentPasswordResets = 4"

text \<open>\<open>active\<close> is the number of resets already running.\<close>

definition handleDoPasswordReset ::
  "(string \<Rightarrow> string) \<Rightarrow> nanos \<Rightarrow> nanos \<Rightarrow> bool \<Rightarrow> nat \<Rightarrow> string \<Rightarrow> string \<Rightarrow> string \<Rightarrow> string \<Rightarrow> account_db \<Rightarrow> reply" where
  "handleDoPasswordReset sha clock now sso active hash new token password db =
     (if sso then (403, Nothing, db)
      else if password = [] then (400, Nothing, db)
      else if maxConcurrentPasswordResets < active + 1 then (429, Nothing, db)
      else (case UsePasswordResetTokenWithSession sha clock now hash new token password db of
          Inl e \<Rightarrow> (400, Nothing, db)
        | Inr None \<Rightarrow> (404, Nothing, db)
        | Inr (Some (u, s, db1)) \<Rightarrow> (200, NewSession new, db1)))"

definition handleUpdateUserPermissions :: "nat \<Rightarrow> permissions \<Rightarrow> account_db \<Rightarrow> nat \<times> account_db" where
  "handleUpdateUserPermissions i perms db =
     (case UpdateUserPermissions i perms db of
        Inl e \<Rightarrow> (if e = LastUserManager then 409 else 500, db)
      | Inr (u, db1) \<Rightarrow> (if u = None then 404 else 200, db1))"

definition handleDeleteUser :: "nat option \<Rightarrow> nat \<Rightarrow> account_db \<Rightarrow> nat \<times> account_db" where
  "handleDeleteUser actor i db =
     (if actor = Some i then (400, db)
      else (case DeleteUser i db of
          Inl e \<Rightarrow> (if e = LastUserManager then 409 else 500, db)
        | Inr (found, db1) \<Rightarrow> (if found then 204 else 404, db1)))"

text \<open>\<open>i\<close> is the user of the session and \<open>cookie\<close> the session cookie.\<close>

definition handleChangePassword ::
  "(string \<Rightarrow> string) \<Rightarrow> (string \<Rightarrow> string \<Rightarrow> bool) \<Rightarrow> nanos \<Rightarrow> nanos \<Rightarrow> string \<Rightarrow> string \<Rightarrow> nat option \<Rightarrow> string \<Rightarrow> string
    \<Rightarrow> string option \<Rightarrow> account_db \<Rightarrow> reply" where
  "handleChangePassword sha check clock now hash token user current new cookie db =
     (case user of
        None \<Rightarrow> (401, Nothing, db)
      | Some i \<Rightarrow>
          if current = [] \<or> new = [] then (400, Nothing, db)
          else (case cookie of
              None \<Rightarrow> (401, Nothing, db)
            | Some c \<Rightarrow>
                (case ChangeUserPasswordWithSession sha check clock now hash token i current new c db of
                   Inl e \<Rightarrow> (if e = InvalidPassword then 401 else 400, Nothing, db)
                 | Inr (s, db1) \<Rightarrow> (200, NewSession token, db1))))"

section \<open>Expired rows\<close>

text \<open>
  The purge of one of the token tables: at most \<open>maxIDsPerPass\<close> of the expired rows are selected, and deleted by their
  hash if they are still expired then.
\<close>

definition purgeExpiredTokenTable :: "('r \<Rightarrow> string) \<Rightarrow> ('r \<Rightarrow> nanos) \<Rightarrow> nanos \<Rightarrow> 'r list \<Rightarrow> 'r list" where
  "purgeExpiredTokenTable hash expires cutoff rows =
     (let picked = map hash (take maxIDsPerPass (filter (\<lambda>r. expires r < cutoff) rows))
      in filter (\<lambda>r. \<not> (hash r \<in> set picked \<and> expires r < cutoff)) rows)"

end
