(* ===== verification/Admission.thy ===== *)
theory Admission
  imports Accounts
begin

text \<open>
  How people and programs are let in: \<open>invites.go\<close>, \<open>oauth.go\<close> and \<open>tokens.go\<close> of \<open>internal/storage\<close>, the handlers of
  \<open>internal/api\<close> that use them, and the purge of expired rows of \<open>internal/retention/worker.go\<close>. The tables of
  \<open>Accounts\<close> are a part of the state. The exchange with a sign-in provider is an argument.
\<close>

section \<open>Tables\<close>

record invite =
  iv_id :: nat
  iv_hash :: string
  iv_email :: string
  iv_name :: "string option"
  iv_inviter :: "nat option"
  iv_expires :: nanos
  iv_accepted :: "nanos option"
  iv_created :: nanos

record identity =
  oi_user :: nat
  oi_provider :: string
  oi_sub :: string
  oi_email :: string

record oauth_state =
  os_hash :: string
  os_provider :: string
  os_verifier :: string
  os_expires :: nanos

record api_token =
  at_id :: nat
  at_project :: string
  at_name :: string
  at_hash :: string
  at_writable :: bool
  at_created :: nanos
  at_used :: "nanos option"
  at_expires :: nanos

record door_db =
  dr_accounts :: account_db
  dr_invites :: "invite list"
  dr_identities :: "identity list"
  dr_states :: "oauth_state list"
  dr_tokens :: "api_token list"
  dr_projects :: "string list"
  dr_next :: nat

datatype door_error = PasswordTooShort | PasswordTooLong | UserLimit | EmailUnverified | InviteRequired | BlankIdentity | IdentityTaken
  | EmailExists | DoorFailure

text \<open>A user that is deleted takes its identities along, and the invites it sent stay without an inviter.\<close>

definition delete_user :: "nat \<Rightarrow> door_db \<Rightarrow> account_error + bool \<times> door_db" where
  "delete_user i db =
     (case DeleteUser i (dr_accounts db) of
        Inl e \<Rightarrow> Inl e
      | Inr (found, acc) \<Rightarrow> Inr (found, db\<lparr>dr_accounts := acc,
          dr_identities := filter (\<lambda>x. oi_user x \<noteq> i) (dr_identities db),
          dr_invites := map (\<lambda>v. if iv_inviter v = Some i then v\<lparr>iv_inviter := None\<rparr> else v) (dr_invites db)\<rparr>))"

section \<open>Invitations\<close>

text \<open>The insertion fails when the inviter does not exist or the token does.\<close>

definition CreateInvite ::
  "(string \<Rightarrow> string) \<Rightarrow> nanos \<Rightarrow> nanos \<Rightarrow> string \<Rightarrow> nat option \<Rightarrow> string \<Rightarrow> string \<Rightarrow> door_db \<Rightarrow> (string \<times> door_db) option" where
  "CreateInvite sha clock now token inviter email name db =
     (if (case inviter of None \<Rightarrow> False | Some i \<Rightarrow> user_by i (dr_accounts db) = None) \<or> sha token \<in> iv_hash ` set (dr_invites db)
      then None
      else Some (token, db\<lparr>dr_invites := dr_invites db @ [\<lparr>iv_id = dr_next db, iv_hash = sha token, iv_email = email,
               iv_name = (if name = [] then None else Some name), iv_inviter = inviter, iv_expires = clock + 7 * 24 * 60 * one_minute,
               iv_accepted = None, iv_created = now\<rparr>], dr_next := dr_next db + 1\<rparr>))"

definition pending_invite :: "nanos \<Rightarrow> invite \<Rightarrow> bool" where
  "pending_invite now v \<longleftrightarrow> live now (iv_expires v) \<and> iv_accepted v = None"

definition GetInvite :: "(string \<Rightarrow> string) \<Rightarrow> nanos \<Rightarrow> string \<Rightarrow> door_db \<Rightarrow> invite option" where
  "GetInvite sha now token db = find (\<lambda>v. iv_hash v = sha token \<and> pending_invite now v) (dr_invites db)"

definition ListPendingInvites :: "nanos \<Rightarrow> door_db \<Rightarrow> invite list" where
  "ListPendingInvites now db = rev (sort_key iv_created (filter (pending_invite now) (dr_invites db)))"

definition DeleteInvite :: "nat \<Rightarrow> door_db \<Rightarrow> bool \<times> door_db" where
  "DeleteInvite i db = (i \<in> iv_id ` set (dr_invites db), db\<lparr>dr_invites := filter (\<lambda>v. iv_id v \<noteq> i) (dr_invites db)\<rparr>)"

definition HasPendingInvite :: "nanos \<Rightarrow> string \<Rightarrow> door_db \<Rightarrow> bool" where
  "HasPendingInvite now email db \<longleftrightarrow> list_ex (\<lambda>v. lower (iv_email v) = lower email \<and> pending_invite now v) (dr_invites db)"

definition accept_invite :: "nat \<Rightarrow> nanos \<Rightarrow> door_db \<Rightarrow> door_db" where
  "accept_invite i now db =
     db\<lparr>dr_invites := map (\<lambda>v. if iv_id v = i then v\<lparr>iv_accepted := Some now\<rparr> else v) (dr_invites db)\<rparr>"

definition limit_reached :: "nat \<Rightarrow> door_db \<Rightarrow> bool" where
  "limit_reached userLimit db \<longleftrightarrow> 0 < userLimit \<and> userLimit \<le> CountUsers (dr_accounts db)"

text \<open>
  \<open>now\<close> is the clock when the invitation is looked up, \<open>later\<close> when it is claimed. The result is \<open>Inr None\<close> when it is
  no longer usable.
\<close>

definition AcceptInviteWithSession ::
  "(string \<Rightarrow> string) \<Rightarrow> nanos \<Rightarrow> nanos \<Rightarrow> nanos \<Rightarrow> string \<Rightarrow> string \<Rightarrow> string \<Rightarrow> string \<Rightarrow> string \<Rightarrow> nat \<Rightarrow> door_db
    \<Rightarrow> door_error + (user \<times> session_row \<times> door_db) option" where
  "AcceptInviteWithSession sha clock now later hash new token password name userLimit db =
     (if length password < minPasswordLen then Inl PasswordTooShort
      else if maxPasswordLen < length password then Inl PasswordTooLong
      else (case GetInvite sha now token db of
          None \<Rightarrow> Inr None
        | Some _ \<Rightarrow>
            (case GetInvite sha later token db of
               None \<Rightarrow> Inr None
             | Some v \<Rightarrow>
                 if limit_reached userLimit db then Inl UserLimit
                 else (case createUser later hash (iv_email v) password (dr_accounts db) of
                     Inl e \<Rightarrow> Inl (if e = DatabaseError then EmailExists else DoorFailure)
                   | Inr (u, acc) \<Rightarrow>
                       let called = (if name = [] then case iv_name v of None \<Rightarrow> [] | Some n \<Rightarrow> n else name);
                           acc1 = (if called = [] then acc else write_user (us_id u) (\<lambda>u. u\<lparr>us_name := called\<rparr>) acc) in
                       (case createSession sha clock new (us_id u) acc1 of
                          None \<Rightarrow> Inl DoorFailure
                        | Some (s, acc2) \<Rightarrow>
                            Inr (Some (u\<lparr>us_name := called\<rparr>, s, (accept_invite (iv_id v) later db)\<lparr>dr_accounts := acc2\<rparr>)))))))"

section \<open>Sign-in providers\<close>

definition identity_of :: "string \<Rightarrow> string \<Rightarrow> door_db \<Rightarrow> identity option" where
  "identity_of provider sub db = find (\<lambda>x. oi_provider x = provider \<and> oi_sub x = sub) (dr_identities db)"

text \<open>The insertion of an identity, which leaves an existing one alone; the user it now belongs to is returned.\<close>

definition link_identity :: "nat \<Rightarrow> string \<Rightarrow> string \<Rightarrow> string \<Rightarrow> door_db \<Rightarrow> nat \<times> door_db" where
  "link_identity i provider sub email db =
     (case identity_of provider sub db of
        Some x \<Rightarrow> (oi_user x, db)
      | None \<Rightarrow> (i, db\<lparr>dr_identities := dr_identities db @
          [\<lparr>oi_user = i, oi_provider = provider, oi_sub = sub, oi_email = email\<rparr>]\<rparr>))"

definition LinkOAuthIdentity :: "nat \<Rightarrow> string \<Rightarrow> string \<Rightarrow> door_db \<Rightarrow> door_error + door_db" where
  "LinkOAuthIdentity i provider sub db =
     (if trim_space provider = [] \<or> trim_space sub = [] then Inl BlankIdentity
      else (case user_by i (dr_accounts db) of
          None \<Rightarrow> Inl IdentityTaken
        | Some u \<Rightarrow> (case link_identity i provider sub (us_email u) db of
              (j, db1) \<Rightarrow> if j = i then Inr db1 else Inl IdentityTaken)))"

text \<open>The oldest open invitation for an address.\<close>

definition invite_for :: "nanos \<Rightarrow> string \<Rightarrow> door_db \<Rightarrow> invite option" where
  "invite_for now email db =
     (case sort_key iv_created (sort_key iv_id (filter (\<lambda>v. lower (iv_email v) = email \<and> pending_invite now v) (dr_invites db))) of
        [] \<Rightarrow> None | v # _ \<Rightarrow> Some v)"

text \<open>The account for an identity that is not linked yet: one with this address, or a new one for an invitation.\<close>

definition admit :: "nanos \<Rightarrow> string \<Rightarrow> nat \<Rightarrow> door_db \<Rightarrow> door_error + nat \<times> door_db" where
  "admit now email userLimit db =
     (case find (\<lambda>u. us_email u = email) (ac_users (dr_accounts db)) of
        Some u \<Rightarrow> Inr (us_id u, db)
      | None \<Rightarrow>
          (case invite_for now email db of
             None \<Rightarrow> Inl InviteRequired
           | Some v \<Rightarrow>
               if limit_reached userLimit db then Inl UserLimit
               else (case insert_user now email (case iv_name v of None \<Rightarrow> [] | Some n \<Rightarrow> n) [] no_perms (dr_accounts db) of
                   None \<Rightarrow> Inl DoorFailure
                 | Some (u, acc) \<Rightarrow> Inr (us_id u, (accept_invite (iv_id v) now db)\<lparr>dr_accounts := acc\<rparr>))))"

definition FindOrCreateOAuthUser ::
  "nanos \<Rightarrow> string \<Rightarrow> string \<Rightarrow> string \<Rightarrow> bool \<Rightarrow> nat \<Rightarrow> door_db \<Rightarrow> door_error + user option \<times> door_db" where
  "FindOrCreateOAuthUser now provider sub raw verified userLimit db =
     (let email = lower (trim_space raw) in
      case identity_of provider sub db of
        Some x \<Rightarrow> Inr (GetUserByID (oi_user x) (dr_accounts db), db)
      | None \<Rightarrow>
          if \<not> verified \<or> email = [] then Inl EmailUnverified
          else (case admit now email userLimit db of
              Inl e \<Rightarrow> Inl e
            | Inr (i, db1) \<Rightarrow>
                (case link_identity i provider sub email db1 of
                   (j, db2) \<Rightarrow> Inr (GetUserByID j (dr_accounts db2), db2))))"

definition CreateOAuthState ::
  "(string \<Rightarrow> string) \<Rightarrow> nanos \<Rightarrow> string \<Rightarrow> string \<Rightarrow> string \<Rightarrow> door_db \<Rightarrow> (string \<times> door_db) option" where
  "CreateOAuthState sha clock token provider verifier db =
     (if sha token \<in> os_hash ` set (dr_states db) then None
      else Some (token, db\<lparr>dr_states := dr_states db @
          [\<lparr>os_hash = sha token, os_provider = provider, os_verifier = verifier, os_expires = clock + 10 * one_minute\<rparr>]\<rparr>))"

definition bound_state :: "(string \<Rightarrow> string) \<Rightarrow> nanos \<Rightarrow> string \<Rightarrow> string \<Rightarrow> string \<Rightarrow> oauth_state \<Rightarrow> bool" where
  "bound_state sha now token provider verifier s \<longleftrightarrow>
     os_hash s = sha token \<and> os_provider s = provider \<and> os_verifier s = verifier \<and> live now (os_expires s)"

definition ConsumeBoundOAuthState ::
  "(string \<Rightarrow> string) \<Rightarrow> nanos \<Rightarrow> string \<Rightarrow> string \<Rightarrow> string \<Rightarrow> door_db \<Rightarrow> oauth_state option \<times> door_db" where
  "ConsumeBoundOAuthState sha now token provider verifier db =
     (find (bound_state sha now token provider verifier) (dr_states db),
      db\<lparr>dr_states := filter (\<lambda>s. \<not> bound_state sha now token provider verifier s) (dr_states db)\<rparr>)"

section \<open>API tokens\<close>

text \<open>The insertion fails when the project does not exist or the token does. \<open>day\<close> is a day.\<close>

definition day :: nanos where "day = 24 * 60 * one_minute"

definition CreateAPIToken :: "nanos \<Rightarrow> string \<Rightarrow> string \<Rightarrow> string \<Rightarrow> bool \<Rightarrow> door_db \<Rightarrow> (api_token \<times> door_db) option" where
  "CreateAPIToken now hash project name writable db =
     (if project \<notin> set (dr_projects db) \<or> hash \<in> at_hash ` set (dr_tokens db) then None
      else let t = \<lparr>at_id = dr_next db, at_project = project, at_name = name, at_hash = hash, at_writable = writable,
              at_created = now, at_used = None, at_expires = now + 90 * day\<rparr>
           in Some (t, db\<lparr>dr_tokens := dr_tokens db @ [t], dr_next := dr_next db + 1\<rparr>))"

definition ListAPITokens :: "string \<Rightarrow> door_db \<Rightarrow> api_token list" where
  "ListAPITokens project db = rev (sort_key at_created (filter (\<lambda>t. at_project t = project) (dr_tokens db)))"

definition ListAllAPITokens :: "door_db \<Rightarrow> api_token list" where
  "ListAllAPITokens db = rev (sort_key at_created (dr_tokens db))"

definition drop_token :: "(api_token \<Rightarrow> bool) \<Rightarrow> door_db \<Rightarrow> bool \<times> door_db" where
  "drop_token p db = (length (filter p (dr_tokens db)) = 1, db\<lparr>dr_tokens := filter (\<lambda>t. \<not> p t) (dr_tokens db)\<rparr>)"

definition DeleteAPIToken :: "nat \<Rightarrow> string \<Rightarrow> door_db \<Rightarrow> bool \<times> door_db" where
  "DeleteAPIToken i project = drop_token (\<lambda>t. at_id t = i \<and> at_project t = project)"

definition DeleteAPITokenByID :: "nat \<Rightarrow> door_db \<Rightarrow> bool \<times> door_db" where
  "DeleteAPITokenByID i = drop_token (\<lambda>t. at_id t = i)"

definition write_token :: "nat \<Rightarrow> (api_token \<Rightarrow> api_token) \<Rightarrow> door_db \<Rightarrow> door_db" where
  "write_token i f db = db\<lparr>dr_tokens := map (\<lambda>t. if at_id t = i then f t else t) (dr_tokens db)\<rparr>"

text \<open>Moving a token to a project that does not exist fails.\<close>

definition UpdateAPIToken :: "nat \<Rightarrow> string \<Rightarrow> string \<Rightarrow> bool \<Rightarrow> door_db \<Rightarrow> door_error + api_token option \<times> door_db" where
  "UpdateAPIToken i name project writable db =
     (if i \<notin> at_id ` set (dr_tokens db) then Inr (None, db)
      else if project \<notin> set (dr_projects db) then Inl DoorFailure
      else let db1 = write_token i (\<lambda>t. t\<lparr>at_name := name, at_project := project, at_writable := writable\<rparr>) db
           in Inr (find (\<lambda>t. at_id t = i) (dr_tokens db1), db1))"

definition touch_due :: "nanos \<Rightarrow> api_token \<Rightarrow> bool" where
  "touch_due now t \<longleftrightarrow> (case at_used t of None \<Rightarrow> True | Some u \<Rightarrow> u < now - one_minute)"

definition GetAPITokenByHash :: "nanos \<Rightarrow> string \<Rightarrow> door_db \<Rightarrow> (api_token \<times> bool) option" where
  "GetAPITokenByHash now hash db =
     map_option (\<lambda>t. (t, touch_due now t)) (find (\<lambda>t. at_hash t = hash \<and> live now (at_expires t)) (dr_tokens db))"

definition TouchAPIToken :: "nanos \<Rightarrow> nat \<Rightarrow> door_db \<Rightarrow> door_db" where
  "TouchAPIToken now i = write_token i (\<lambda>t. if touch_due now t then t\<lparr>at_used := Some now\<rparr> else t)"

section \<open>Requests\<close>

text \<open>The status a handler answers with, the session token it hands out, and the tables afterwards.\<close>

definition handleCreateInvite ::
  "(string \<Rightarrow> string) \<Rightarrow> nanos \<Rightarrow> nanos \<Rightarrow> string \<Rightarrow> nat \<Rightarrow> nat option \<Rightarrow> string \<Rightarrow> string \<Rightarrow> door_db \<Rightarrow> nat \<times> door_db" where
  "handleCreateInvite sha clock now token userLimit actor raw name db =
     (if raw = [] then (400, db)
      else let email = lower (trim_space raw) in
      if limit_reached userLimit db then (429, db)
      else if GetUserByEmail email (dr_accounts db) \<noteq> None then (409, db)
      else (case CreateInvite sha clock now token actor email name db of None \<Rightarrow> (500, db) | Some (_, db1) \<Rightarrow> (201, db1)))"

definition handleAcceptInvite ::
  "(string \<Rightarrow> string) \<Rightarrow> nanos \<Rightarrow> nanos \<Rightarrow> nanos \<Rightarrow> bool \<Rightarrow> string \<Rightarrow> string \<Rightarrow> string \<Rightarrow> string \<Rightarrow> string \<Rightarrow> nat \<Rightarrow> door_db
    \<Rightarrow> nat \<times> handed \<times> door_db" where
  "handleAcceptInvite sha clock now later sso hash new token password name userLimit db =
     (if sso then (403, Nothing, db)
      else if password = [] then (400, Nothing, db)
      else (case AcceptInviteWithSession sha clock now later hash new token password name userLimit db of
          Inl e \<Rightarrow> (if e = UserLimit then 429 else if e \<in> {PasswordTooShort, PasswordTooLong, EmailExists} then 400 else 500, Nothing, db)
        | Inr None \<Rightarrow> (404, Nothing, db)
        | Inr (Some (u, s, db1)) \<Rightarrow> (201, NewSession new, db1)))"

text \<open>
  The return from a provider. \<open>binding\<close> is the cookie of the browser, \<open>exchange\<close> asks the provider for the address,
  the subject and whether the address is verified. \<open>None\<close> is the panic on a user that is not found; as an identity
  goes with its user, only a deletion between the two reads of \<open>FindOrCreateOAuthUser\<close> leads there.
\<close>

definition door_account :: "account_error + 'a \<times> account_db \<Rightarrow> door_db \<Rightarrow> account_error + 'a \<times> door_db" where
  "door_account r db = (case r of Inl e \<Rightarrow> Inl e | Inr (x, acc) \<Rightarrow> Inr (x, db\<lparr>dr_accounts := acc\<rparr>))"

definition sign_in :: "(string \<Rightarrow> string) \<Rightarrow> nanos \<Rightarrow> string \<Rightarrow> user \<Rightarrow> door_db \<Rightarrow> nat \<times> handed \<times> door_db" where
  "sign_in sha clock new u db =
     (if us_mfa u then
        (case door_account (CreateAuthenticatedMFAChallenge sha clock new u (dr_accounts db)) db of
           Inl e \<Rightarrow> (if e = AuthenticationChanged then 401 else 500, Nothing, db)
         | Inr (t, db1) \<Rightarrow> (302, MfaToken t, db1))
      else
        (case door_account (CreateAuthenticatedSession sha clock new u (dr_accounts db)) db of
           Inl e \<Rightarrow> (if e = AuthenticationChanged then 401 else 500, Nothing, db)
         | Inr (s, db1) \<Rightarrow> (302, NewSession new, db1)))"

definition handleOAuthCallback ::
  "(string \<Rightarrow> string) \<Rightarrow> nanos \<Rightarrow> nanos \<Rightarrow> string \<Rightarrow> string list \<Rightarrow> (string \<Rightarrow> string \<Rightarrow> (string \<times> string \<times> bool) option) \<Rightarrow> nat \<Rightarrow> string
    \<Rightarrow> string \<Rightarrow> string \<Rightarrow> string option \<Rightarrow> door_db \<Rightarrow> (nat \<times> handed \<times> door_db) option" where
  "handleOAuthCallback sha clock now new providers exchange userLimit provider state code binding db =
     (if provider \<notin> set providers then Some (404, Nothing, db)
      else if state = [] \<or> code = [] \<or> binding = None \<or> binding = Some [] then Some (400, Nothing, db)
      else (case ConsumeBoundOAuthState sha now state provider (the binding) db of
          (None, db1) \<Rightarrow> Some (400, Nothing, db1)
        | (Some s, db1) \<Rightarrow>
            (case exchange code (os_verifier s) of
               None \<Rightarrow> Some (401, Nothing, db1)
             | Some (email, sub, verified) \<Rightarrow>
                 (case FindOrCreateOAuthUser now provider sub email verified userLimit db1 of
                    Inl e \<Rightarrow> Some (if e \<in> {EmailUnverified, InviteRequired} then 403 else if e = UserLimit then 429 else 500, Nothing, db1)
                  | Inr (None, db2) \<Rightarrow> None
                  | Inr (Some u, db2) \<Rightarrow> Some (sign_in sha clock new u db2)))))"

text \<open>
  A change of address has to be confirmed with the password, or with a code by an account without one. The result is
  the refusal. \<open>allowed\<close> is the answer of the rate limiter.
\<close>

definition confirmEmailChange ::
  "(string \<Rightarrow> string \<Rightarrow> bool) \<Rightarrow> (string \<Rightarrow> string \<Rightarrow> bool) \<Rightarrow> nanos \<Rightarrow> bool \<Rightarrow> user \<Rightarrow> string \<Rightarrow> string \<Rightarrow> string \<Rightarrow> door_db \<Rightarrow> nat option" where
  "confirmEmailChange check totp now allowed u email password code db =
     (let has = us_hash u \<noteq> [] in
      if \<not> has \<and> \<not> us_mfa u then Some 403
      else if has \<and> password = [] then Some 400
      else if \<not> has \<and> code = [] then Some 400
      else if \<not> allowed then Some 429
      else
        let confirmed = (if has then VerifyUserPassword check (us_id u) password (dr_accounts db)
              else (case GetMFASecret (us_id u) (dr_accounts db) of None \<Rightarrow> False | Some s \<Rightarrow> totp code s)) in
        if \<not> confirmed then Some 403
        else if HasPendingInvite now email db then Some 409
        else None)"

text \<open>\<open>zones\<close> are the names of time zones the server knows.\<close>

definition handleUpdateMe ::
  "(string \<Rightarrow> string \<Rightarrow> bool) \<Rightarrow> (string \<Rightarrow> string \<Rightarrow> bool) \<Rightarrow> (string \<Rightarrow> bool) \<Rightarrow> nanos \<Rightarrow> bool \<Rightarrow> nat option \<Rightarrow> string \<Rightarrow> string \<Rightarrow> bool option
    \<Rightarrow> string \<Rightarrow> string \<Rightarrow> string \<Rightarrow> door_db \<Rightarrow> nat \<times> door_db" where
  "handleUpdateMe check totp zones now allowed actor name raw digest timezone password code db =
     (case actor of
        None \<Rightarrow> (401, db)
      | Some i \<Rightarrow>
          let email = lower (trim_space raw) in
          if email = [] then (400, db)
          else (case GetUserByID i (dr_accounts db) of
              None \<Rightarrow> (401, db)
            | Some u \<Rightarrow>
                (case (if email \<noteq> us_email u then confirmEmailChange check totp now allowed u email password code db else None) of
                   Some status \<Rightarrow> (status, db)
                 | None \<Rightarrow>
                     let tz = (if timezone = [] then ''UTC'' else timezone) in
                     if \<not> zones tz then (400, db)
                     else (case UpdateUserProfile i name email tz (dr_accounts db) of
                         Inl e \<Rightarrow> (if e = EmailTaken then 409 else 500, db)
                       | Inr (_, acc) \<Rightarrow>
                           (200, db\<lparr>dr_accounts := (case digest of None \<Rightarrow> acc | Some b \<Rightarrow> UpdateUserWeeklyDigest i b acc)\<rparr>)))))"

section \<open>Expired rows\<close>

definition expiredInviteGrace :: nanos where "expiredInviteGrace = 30 * day"

definition purgeExpiredAuthTokens :: "nanos \<Rightarrow> door_db \<Rightarrow> door_db" where
  "purgeExpiredAuthTokens now db =
     (let acc = dr_accounts db in
      db\<lparr>dr_states := purgeExpiredTokenTable os_hash os_expires now (dr_states db),
         dr_accounts := acc\<lparr>ac_challenges := purgeExpiredTokenTable ch_hash ch_expires now (ac_challenges acc),
           ac_sessions := purgeExpiredTokenTable se_hash se_expires now (ac_sessions acc),
           ac_resets := purgeExpiredTokenTable rs_hash rs_expires now (ac_resets acc)\<rparr>,
         dr_invites := purgeExpiredTokenTable iv_hash iv_expires (now - expiredInviteGrace) (dr_invites db)\<rparr>)"

section \<open>Further requests\<close>

definition handleRevokeInvite :: "nat \<Rightarrow> door_db \<Rightarrow> nat \<times> door_db" where
  "handleRevokeInvite i db = (case DeleteInvite i db of (found, db1) \<Rightarrow> (if found then 204 else 404, db1))"

text \<open>The answer is the link; \<open>publicURL\<close> is the address of the server.\<close>

definition handleAdminSendPasswordReset ::
  "(string \<Rightarrow> string) \<Rightarrow> nanos \<Rightarrow> string \<Rightarrow> string \<Rightarrow> nat \<Rightarrow> account_db \<Rightarrow> nat \<times> string option \<times> account_db" where
  "handleAdminSendPasswordReset sha now publicURL token i db =
     (case GetUserByID i db of
        None \<Rightarrow> (404, None, db)
      | Some u \<Rightarrow>
          (case CreatePasswordResetToken sha now token i db of
             None \<Rightarrow> (500, None, db)
           | Some (t, db1) \<Rightarrow> (200, Some (trim_right (\<lambda>c. c = CHR ''/'') publicURL @ ''/reset-password/'' @ t), db1)))"

text \<open>The start of a sign-in at a provider: the browser is given the verifier in a cookie and sent on with the state.\<close>

definition handleOAuthRedirect ::
  "(string \<Rightarrow> string) \<Rightarrow> nanos \<Rightarrow> string list \<Rightarrow> string \<Rightarrow> string \<Rightarrow> string \<Rightarrow> door_db \<Rightarrow> nat \<times> (string \<times> string) option \<times> door_db" where
  "handleOAuthRedirect sha clock providers provider state verifier db =
     (if provider \<notin> set providers then (404, None, db)
      else (case CreateOAuthState sha clock state provider verifier db of
          None \<Rightarrow> (500, None, db)
        | Some (t, db1) \<Rightarrow> (302, Some (t, verifier), db1)))"

text \<open>
  What GitHub says about a user: its number, and its addresses with whether they are primary and verified. The result of
  the exchange is the address, the subject and whether the address is verified.
\<close>

fun primary_email :: "(string \<times> bool \<times> bool) list \<Rightarrow> string option" where
  "primary_email [] = None"
| "primary_email ((email, primary, verified) # es) = (if primary \<and> verified then Some email else primary_email es)"

definition github_exchange :: "int \<Rightarrow> (string \<times> bool \<times> bool) list \<Rightarrow> (string \<times> string \<times> bool) option" where
  "github_exchange i emails =
     (if i \<le> 0 then None
      else (case primary_email emails of
          Some e \<Rightarrow> Some (e, decimal (nat i), True)
        | None \<Rightarrow> Some ([], decimal (nat i), False)))"

end
