(* ===== verification/Account_Inv.thy ===== *)
theory Account_Inv
  imports Admission
begin

text \<open>
  What holds of the account tables, and that each transaction keeps it.
\<close>

section \<open>The invariant\<close>

definition user_ok :: "nat \<Rightarrow> user \<Rightarrow> bool" where
  "user_ok n u \<longleftrightarrow> us_id u < n \<and> (us_mfa u \<longrightarrow> us_secret u \<noteq> None) \<and> us_mfa_failed u < MFAUserMaxFailures \<and> lower (us_email u) = us_email u"

definition users_ok :: "account_db \<Rightarrow> bool" where
  "users_ok db \<longleftrightarrow> distinct (map us_id (ac_users db)) \<and> distinct (map us_email (ac_users db))
     \<and> (\<forall>u \<in> set (ac_users db). user_ok (ac_next db) u)"

definition artifacts_ok :: "account_db \<Rightarrow> bool" where
  "artifacts_ok db \<longleftrightarrow> distinct (map se_hash (ac_sessions db)) \<and> distinct (map ch_hash (ac_challenges db))
     \<and> distinct (map rs_hash (ac_resets db))
     \<and> se_user ` set (ac_sessions db) \<union> ch_user ` set (ac_challenges db) \<union> rs_user ` set (ac_resets db) \<subseteq> us_id ` set (ac_users db)
     \<and> (\<forall>c \<in> set (ac_challenges db). ch_failed c < MFAChallengeMaxFailures) \<and> (\<forall>r \<in> set (ac_resets db). rs_used r = None)"

definition doors_ok :: "door_db \<Rightarrow> bool" where
  "doors_ok db \<longleftrightarrow> distinct (map iv_id (dr_invites db)) \<and> distinct (map iv_hash (dr_invites db))
     \<and> (\<forall>v \<in> set (dr_invites db). iv_id v < dr_next db)
     \<and> {i. Some i \<in> iv_inviter ` set (dr_invites db)} \<union> oi_user ` set (dr_identities db) \<subseteq> us_id ` set (ac_users (dr_accounts db))
     \<and> distinct (map (\<lambda>x. (oi_provider x, oi_sub x)) (dr_identities db)) \<and> distinct (map os_hash (dr_states db))
     \<and> distinct (map at_id (dr_tokens db)) \<and> distinct (map at_hash (dr_tokens db))
     \<and> (\<forall>t \<in> set (dr_tokens db). at_id t < dr_next db \<and> at_project t \<in> set (dr_projects db))"

definition acc_ok :: "account_db \<Rightarrow> bool" where "acc_ok db \<longleftrightarrow> users_ok db \<and> artifacts_ok db"

definition door_inv :: "door_db \<Rightarrow> bool" where "door_inv db \<longleftrightarrow> acc_ok (dr_accounts db) \<and> doors_ok db"


section \<open>Writing users\<close>

lemma write_user_sel [simp]: "ac_sessions (write_user i f db) = ac_sessions db" "ac_challenges (write_user i f db) = ac_challenges db"
  "ac_resets (write_user i f db) = ac_resets db" "ac_next (write_user i f db) = ac_next db"
  by (simp_all add: write_user_def)

lemma user_byD: "user_by i db = Some u \<Longrightarrow> u \<in> set (ac_users db) \<and> us_id u = i"
  by (auto simp: user_by_def dest: find_SomeD)

lemma user_by_None: "user_by i db = None \<longleftrightarrow> i \<notin> us_id ` set (ac_users db)"
  by (auto simp: user_by_def find_None_iff)

lemma user_by_unique: "users_ok db \<Longrightarrow> u \<in> set (ac_users db) \<Longrightarrow> user_by (us_id u) db = Some u"
proof -
  assume a: "users_ok db" "u \<in> set (ac_users db)"
  then obtain v where v: "user_by (us_id u) db = Some v" using user_by_None [of "us_id u" db] by fastforce
  from user_byD [OF v] a have "v = u" by (auto simp: users_ok_def distinct_map dest: inj_onD)
  with v show ?thesis by simp
qed

lemma map_write: "(\<And>u. us_id u = i \<Longrightarrow> u \<in> set us \<Longrightarrow> g (f u) = g u) \<Longrightarrow> map g (map (\<lambda>u. if us_id u = i then f u else u) us) = map g us"
  by simp

lemma write_user_ids:
  assumes "\<And>u. us_id (f u) = us_id u"
  shows "us_id ` set (ac_users (write_user i f db)) = us_id ` set (ac_users db)"
proof -
  have "map us_id (ac_users (write_user i f db)) = map us_id (ac_users db)" using assms by (simp add: write_user_def)
  then show ?thesis by (metis set_map)
qed

lemma user_by_write: "(\<And>u. us_id (f u) = us_id u) \<Longrightarrow>
    user_by j (write_user i f db) = (if j = i then map_option f (user_by j db) else user_by j db)"
proof -
  assume "\<And>u. us_id (f u) = us_id u"
  then have "find (\<lambda>u. us_id u = j) (map (\<lambda>u. if us_id u = i then f u else u) us) =
      (if j = i then map_option f (find (\<lambda>u. us_id u = j) us) else find (\<lambda>u. us_id u = j) us)" for us
    by (induction us) auto
  then show ?thesis by (simp add: user_by_def write_user_def)
qed

text \<open>A write that leaves the identifier and the address alone and keeps a row consistent.\<close>

definition mild :: "(user \<Rightarrow> user) \<Rightarrow> bool" where
  "mild f \<longleftrightarrow> (\<forall>u. us_id (f u) = us_id u \<and> us_email (f u) = us_email u \<and> (\<forall>n. user_ok n u \<longrightarrow> user_ok n (f u)))"

lemma write_users_ok: "users_ok db \<Longrightarrow> mild f \<Longrightarrow> users_ok (write_user i f db)"
  by (auto simp: users_ok_def mild_def write_user_def comp_def if_distrib cong: if_cong)

lemma write_artifacts_ok: "artifacts_ok db \<Longrightarrow> mild f \<Longrightarrow> artifacts_ok (write_user i f db)"
  by (simp add: artifacts_ok_def mild_def write_user_ids)

definition ids :: "account_db \<Rightarrow> nat set" where "ids db = us_id ` set (ac_users db)"

lemma write_mild: "mild f \<Longrightarrow> acc_ok db \<Longrightarrow> acc_ok (write_user i f db)" "mild f \<Longrightarrow> ids (write_user i f db) = ids db"
  by (simp_all add: acc_ok_def write_users_ok write_artifacts_ok ids_def write_user_ids mild_def)

lemma mild_fields [intro, simp]:
  "mild (\<lambda>u. u\<lparr>us_perms := p\<rparr>)" "mild (\<lambda>u. u\<lparr>us_digest := b\<rparr>)" "mild (\<lambda>u. u\<lparr>us_digest_sent := t\<rparr>)" "mild (\<lambda>u. u\<lparr>us_name := n\<rparr>)"
  "mild (\<lambda>u. u\<lparr>us_failed := k, us_locked := l\<rparr>)" "mild (\<lambda>u. u\<lparr>us_failed := us_failed u + 1, us_locked := g u\<rparr>)"
  "mild (fresh_password hash)" "mild (\<lambda>u. (fresh_password hash u)\<lparr>us_mfa := False, us_secret := None\<rparr>)"
  "mild (\<lambda>u. u\<lparr>us_mfa := False, us_secret := None, us_pending := None, us_pending_exp := None\<rparr>)"
  "mild (\<lambda>u. u\<lparr>us_mfa_failed := 0, us_mfa_locked := None\<rparr>)" "mild (count_failure now)"
  "mild (\<lambda>u. if may_stage active u then u\<lparr>us_pending := q, us_pending_exp := e\<rparr> else u)"
  "mild (\<lambda>u. if may_confirm now secret u then u\<lparr>us_secret := us_pending u, us_mfa := True, us_pending := None, us_pending_exp := None\<rparr> else u)"
  by (auto simp: mild_def user_ok_def fresh_password_def count_failure_def MFAUserMaxFailures_def may_confirm_def)

lemma createSession_Some: "createSession sha clock token i db = Some (s, db') \<longleftrightarrow>
    i \<in> ids db \<and> sha token \<notin> se_hash ` set (ac_sessions db) \<and> s = \<lparr>se_hash = sha token, se_user = i, se_expires = clock + 7 * 24 * 60 * one_minute\<rparr>
    \<and> db' = db\<lparr>ac_sessions := ac_sessions db @ [s]\<rparr>"
  by (auto simp: createSession_def Let_def user_by_None ids_def split: if_splits)

lemma createMFAChallenge_Some: "createMFAChallenge sha clock token i db = Some (t, db') \<longleftrightarrow>
    i \<in> ids db \<and> sha token \<notin> ch_hash ` set (ac_challenges db) \<and> t = token
    \<and> db' = db\<lparr>ac_challenges := ac_challenges db @ [\<lparr>ch_hash = sha token, ch_user = i, ch_expires = clock + 10 * one_minute, ch_failed = 0\<rparr>]\<rparr>"
  by (auto simp: createMFAChallenge_def user_by_None ids_def)

lemma CreatePasswordResetToken_Some: "CreatePasswordResetToken sha now token i db = Some (t, db') \<longleftrightarrow>
    i \<in> ids db \<and> sha token \<notin> rs_hash ` set (ac_resets db) \<and> t = token
    \<and> db' = db\<lparr>ac_resets := ac_resets db @ [\<lparr>rs_hash = sha token, rs_user = i, rs_expires = now + 24 * 60 * one_minute, rs_used = None\<rparr>]\<rparr>"
  by (auto simp: CreatePasswordResetToken_def user_by_None ids_def)

lemma or_database_error_Inr [simp]: "or_database_error r = Inr x \<longleftrightarrow> r = Some x"
  by (auto simp: or_database_error_def split: option.splits)

lemma withAuthenticatedUser_Inr: "withAuthenticatedUser user issue db = Inr x \<longleftrightarrow>
    (\<exists>u. user_by (us_id user) db = Some u \<and> us_hash u = us_hash user \<and> us_mfa u = us_mfa user) \<and> issue db = Inr x"
  by (auto simp: withAuthenticatedUser_def split: option.splits)

lemma CreateAuthenticatedSession_Inr: "CreateAuthenticatedSession sha clock token user db = Inr (s, db') \<longleftrightarrow>
    (\<exists>u. user_by (us_id user) db = Some u \<and> us_hash u = us_hash user \<and> \<not> us_mfa u) \<and> \<not> us_mfa user
    \<and> createSession sha clock token (us_id user) db = Some (s, db')"
  by (auto simp: CreateAuthenticatedSession_def withAuthenticatedUser_Inr)

lemma CreateAuthenticatedMFAChallenge_Inr: "CreateAuthenticatedMFAChallenge sha clock token user db = Inr (t, db') \<longleftrightarrow>
    (\<exists>u. user_by (us_id user) db = Some u \<and> us_hash u = us_hash user \<and> us_mfa u) \<and> us_mfa user
    \<and> createMFAChallenge sha clock token (us_id user) db = Some (t, db')"
  by (auto simp: CreateAuthenticatedMFAChallenge_def withAuthenticatedUser_Inr)

section \<open>Account transactions\<close>

text \<open>Each transaction keeps the tables consistent; none but a deletion takes a user away.\<close>

lemma createSession_ok: "createSession sha clock token i db = Some (s, db') \<Longrightarrow> acc_ok db \<Longrightarrow> acc_ok db' \<and> ids db' = ids db"
  by (auto simp: createSession_Some acc_ok_def users_ok_def artifacts_ok_def ids_def)

lemma createMFAChallenge_ok: "createMFAChallenge sha clock token i db = Some (t, db') \<Longrightarrow> acc_ok db \<Longrightarrow> acc_ok db' \<and> ids db' = ids db"
  by (auto simp: createMFAChallenge_Some acc_ok_def users_ok_def artifacts_ok_def ids_def MFAChallengeMaxFailures_def)

lemma CreatePasswordResetToken_ok: "CreatePasswordResetToken sha now token i db = Some (t, db') \<Longrightarrow> acc_ok db \<Longrightarrow> acc_ok db' \<and> ids db' = ids db"
  by (auto simp: CreatePasswordResetToken_Some acc_ok_def users_ok_def artifacts_ok_def ids_def)

lemma insert_user_Some: "insert_user now email name hash perms db = Some (u, db') \<Longrightarrow>
    email \<notin> us_email ` set (ac_users db) \<and> us_id u = ac_next db \<and> us_email u = email \<and> us_hash u = hash \<and> us_perms u = perms
    \<and> \<not> us_mfa u \<and> us_mfa_failed u = 0 \<and> db' = db\<lparr>ac_users := ac_users db @ [u], ac_next := ac_next db + 1\<rparr>"
  by (auto simp: insert_user_def Let_def split: if_splits)

lemma insert_user_ok:
  assumes "insert_user now email name hash perms db = Some (u, db')" "acc_ok db" "lower email = email"
  shows "acc_ok db' \<and> ids db' = insert (us_id u) (ids db) \<and> us_id u \<notin> ids db"
proof -
  note i = insert_user_Some [OF assms(1)]
  have ok: "users_ok db" "artifacts_ok db" using assms(2) by (simp_all add: acc_ok_def)
  have old: "\<forall>v \<in> set (ac_users db). us_id v < ac_next db" using ok(1) by (simp add: users_ok_def user_ok_def)
  then have new: "us_id u \<notin> ids db" using i by (auto simp: ids_def)
  have "users_ok db'" using ok(1) i assms(3) new
    by (simp add: users_ok_def user_ok_def ids_def MFAUserMaxFailures_def less_Suc_eq)
  moreover have "artifacts_ok db'" using ok(2) i by (simp add: artifacts_ok_def subset_insertI2)
  ultimately show ?thesis using i new by (simp add: acc_ok_def ids_def)
qed

lemma createUser_ok: "createUser now hash email password db = Inr (u, db') \<Longrightarrow> acc_ok db
    \<Longrightarrow> acc_ok db' \<and> ids db' = insert (us_id u) (ids db) \<and> us_id u \<notin> ids db"
  by (rule insert_user_ok) (auto simp: createUser_def split: option.splits)

lemma CreateAdminUser_ok: "CreateAdminUser now hash email name password db = Inr (u, db') \<Longrightarrow> acc_ok db
    \<Longrightarrow> acc_ok db' \<and> ids db' = insert (us_id u) (ids db) \<and> us_id u \<notin> ids db"
  by (rule insert_user_ok) (auto simp: CreateAdminUser_def split: option.splits)

lemma filter_artifacts:
  fixes P :: "session_row \<Rightarrow> bool" and Q :: "challenge \<Rightarrow> bool" and R :: "reset_token \<Rightarrow> bool"
  assumes "acc_ok db"
  shows "acc_ok (db\<lparr>ac_sessions := filter P (ac_sessions db), ac_challenges := filter Q (ac_challenges db), ac_resets := filter R (ac_resets db)\<rparr>)"
  using assms by (auto simp: acc_ok_def users_ok_def artifacts_ok_def distinct_map_filter)

lemma filter_sessions: "acc_ok db \<Longrightarrow> acc_ok (db\<lparr>ac_sessions := filter P (ac_sessions db)\<rparr>)"
  using filter_artifacts [where P = P and Q = "\<lambda>_. True" and R = "\<lambda>_. True"] by simp

lemma filter_challenges: "acc_ok db \<Longrightarrow> acc_ok (db\<lparr>ac_challenges := filter P (ac_challenges db)\<rparr>)"
  using filter_artifacts [where P = "\<lambda>_. True" and Q = P and R = "\<lambda>_. True"] by simp

lemma ids_artifacts [simp]: "ids (db\<lparr>ac_sessions := s\<rparr>) = ids db" "ids (db\<lparr>ac_challenges := c\<rparr>) = ids db" "ids (db\<lparr>ac_resets := r\<rparr>) = ids db"
  by (simp_all add: ids_def)

lemma revoke_ok: "acc_ok db \<Longrightarrow> acc_ok (revokeCredentialArtifacts i db)" "ids (revokeCredentialArtifacts i db) = ids db"
  by (simp_all add: revokeCredentialArtifacts_def filter_artifacts)

lemma changeUserPassword_Inr:
  assumes "changeUserPassword sha check clock now hash token i current new cs db = Inr (r, db')"
  shows "\<exists>u. user_by i db = Some u \<and> us_hash u \<noteq> [] \<and> check (us_hash u) current \<and> length_error new = None
     \<and> (cs \<noteq> [] \<longrightarrow> (\<exists>s \<in> set (ac_sessions db). se_hash s = sha cs \<and> se_user s = i \<and> live now (se_expires s)))
     \<and> (let db1 = revokeCredentialArtifacts i (write_user i (fresh_password hash) db) in
        if cs = [] then r = None \<and> db' = db1 else \<exists>s. r = Some s \<and> createSession sha clock token i db1 = Some (s, db'))"
  using assms by (auto simp: changeUserPassword_def Let_def split: option.splits if_splits)

lemma changeUserPassword_ok:
  assumes "changeUserPassword sha check clock now hash token i current new cs db = Inr (r, db')" "acc_ok db"
  shows "acc_ok db' \<and> ids db' = ids db"
proof -
  let ?db1 = "revokeCredentialArtifacts i (write_user i (fresh_password hash) db)"
  have ok: "acc_ok ?db1" "ids ?db1 = ids db" using assms(2) by (simp_all add: revoke_ok write_mild)
  from changeUserPassword_Inr [OF assms(1)] have "db' = ?db1 \<or> (\<exists>s. createSession sha clock token i ?db1 = Some (s, db'))"
    by (auto simp: Let_def split: if_splits)
  with ok show ?thesis by (auto dest: createSession_ok)
qed

lemma ChangeUserPasswordWithSession_Inr: "ChangeUserPasswordWithSession sha check clock now hash token i current new cs db = Inr x
    \<longleftrightarrow> cs \<noteq> [] \<and> changeUserPassword sha check clock now hash token i current new cs db = Inr x"
  by (simp add: ChangeUserPasswordWithSession_def)

lemma AdminSetPassword_Inr: "AdminSetPassword hash i new db = Inr db' \<longleftrightarrow>
    length_error new = None \<and> i \<in> ids db \<and> db' = revokeCredentialArtifacts i (write_user i (fresh_password hash) db)"
  by (auto simp: AdminSetPassword_def user_by_None ids_def split: option.splits)

lemma AdminSetPassword_ok: "AdminSetPassword hash i new db = Inr db' \<Longrightarrow> acc_ok db \<Longrightarrow> acc_ok db' \<and> ids db' = ids db"
  by (simp add: AdminSetPassword_Inr revoke_ok write_mild)

lemma count_challenge_ok: "acc_ok db \<Longrightarrow> acc_ok (count_challenge hash db)" "ids (count_challenge hash db) = ids db"
proof -
  have [simp]: "ids (count_challenge hash db) = ids db" by (simp add: count_challenge_def)
  then show "ids (count_challenge hash db) = ids db" .
  assume ok: "acc_ok db"
  let ?cs = "filter (\<lambda>c. \<not> (ch_hash c = hash \<and> MFAChallengeMaxFailures \<le> ch_failed c + 1)) (ac_challenges db)"
  let ?f = "\<lambda>c. if ch_hash c = hash then c\<lparr>ch_failed := ch_failed c + 1\<rparr> else c"
  have m: "map ch_hash (map ?f ?cs) = map ch_hash ?cs" "map ch_user (map ?f ?cs) = map ch_user ?cs" by simp_all
  have "ch_user ` set (map ?f ?cs) = ch_user ` set ?cs" using m(2) by (metis set_map)
  moreover have "distinct (map ch_hash (map ?f ?cs))" unfolding m using ok by (simp add: acc_ok_def artifacts_ok_def distinct_map_filter)
  moreover have "\<forall>c \<in> set (map ?f ?cs). ch_failed c < MFAChallengeMaxFailures" using ok by (auto simp: acc_ok_def artifacts_ok_def)
  ultimately have "artifacts_ok (count_challenge hash db)" using ok
    by (simp only: acc_ok_def artifacts_ok_def count_challenge_def account_db.simps) (auto simp: )
  then show "acc_ok (count_challenge hash db)" using ok by (simp add: acc_ok_def users_ok_def count_challenge_def)
qed

lemma RecordMFAFailure_ok: "acc_ok db \<Longrightarrow> acc_ok (RecordMFAFailure sha now token i db)" "ids (RecordMFAFailure sha now token i db) = ids db"
  by (auto simp: RecordMFAFailure_def Let_def filter_challenges write_mild count_challenge_ok simp del: write_user_sel)

lemma CompleteMFALogin_Inr:
  assumes "CompleteMFALogin sha clock now new token i verified db = Inr (s, db')"
  shows "\<exists>u. user_by i db = Some u \<and> us_mfa u \<and> us_secret u = Some verified \<and> not_mfa_locked now u
     \<and> (\<exists>c \<in> set (ac_challenges db). ch_hash c = sha token \<and> ch_user c = i \<and> live now (ch_expires c))
     \<and> createSession sha clock new i ((write_user i (\<lambda>u. u\<lparr>us_mfa_failed := 0, us_mfa_locked := None\<rparr>) db)
         \<lparr>ac_challenges := filter (\<lambda>c. \<not> (ch_hash c = sha token \<and> ch_user c = i \<and> live now (ch_expires c))) (ac_challenges db)\<rparr>) = Some (s, db')"
  using assms by (auto simp: CompleteMFALogin_def Let_def list_ex_iff split: option.splits if_splits)

lemma CompleteMFALogin_ok:
  assumes "CompleteMFALogin sha clock now new token i verified db = Inr (s, db')" "acc_ok db"
  shows "acc_ok db' \<and> ids db' = ids db"
proof -
  let ?db1 = "write_user i (\<lambda>u. u\<lparr>us_mfa_failed := 0, us_mfa_locked := None\<rparr>) db"
  let ?db2 = "?db1\<lparr>ac_challenges := filter (\<lambda>c. \<not> (ch_hash c = sha token \<and> ch_user c = i \<and> live now (ch_expires c))) (ac_challenges ?db1)\<rparr>"
  have "acc_ok ?db2" "ids ?db2 = ids db" using assms(2) by (simp_all add: filter_challenges write_mild del: write_user_sel)
  moreover have "createSession sha clock new i ?db2 = Some (s, db')" using CompleteMFALogin_Inr [OF assms(1)] by auto
  ultimately show ?thesis using createSession_ok [of sha clock new i ?db2 s db'] by simp
qed

lemma usePasswordResetToken_Inr:
  assumes "usePasswordResetToken sha clock now hash new token password b db = Inr (Some (u, s, db'))" "acc_ok db"
  shows "\<exists>r db2. open_reset sha now token db = Some r \<and> length_error password = None \<and> rs_user r \<in> ids db
     \<and> db2 = revokeCredentialArtifacts (rs_user r) (write_user (rs_user r) (\<lambda>u. (fresh_password hash u)\<lparr>us_mfa := False, us_secret := None\<rparr>) db)
     \<and> (if b then \<exists>x. s = Some x \<and> createSession sha clock new (rs_user r) db2 = Some (x, db') else s = None \<and> db' = db2)"
proof -
  let ?open = "\<lambda>q. rs_hash q = sha token \<and> live now (rs_expires q) \<and> rs_used q = None"
  obtain r where r: "open_reset sha now token db = Some r" using assms(1) by (auto simp: usePasswordResetToken_def split: option.splits)
  let ?i = "rs_user r" and ?f = "\<lambda>u. (fresh_password hash u)\<lparr>us_mfa := False, us_secret := None\<rparr>"
  have rs: "r \<in> set (ac_resets db)" "rs_hash r = sha token" using r by (auto simp: open_reset_def dest: find_SomeD)
  have only: "rs_user q = ?i" if "q \<in> set (ac_resets db)" "?open q" for q
  proof -
    have "inj_on rs_hash (set (ac_resets db))" using assms(2) by (simp add: acc_ok_def artifacts_ok_def distinct_map)
    from inj_onD [OF this, of q r] that rs show ?thesis by simp
  qed
  have "filter (\<lambda>q. rs_user q \<noteq> ?i) (map (\<lambda>q. if ?open q then q\<lparr>rs_used := Some now\<rparr> else q) (ac_resets db))
      = map (\<lambda>q. if ?open q then q\<lparr>rs_used := Some now\<rparr> else q) (filter (\<lambda>q. rs_user q \<noteq> ?i) (ac_resets db))"
    by (simp add: filter_map comp_def if_distrib cong: if_cong)
  also have "\<dots> = filter (\<lambda>q. rs_user q \<noteq> ?i) (ac_resets db)" using only by (intro map_idI) auto
  finally have "revokeCredentialArtifacts ?i (write_user ?i ?f (db\<lparr>ac_resets := map (\<lambda>q. if ?open q then q\<lparr>rs_used := Some now\<rparr> else q) (ac_resets db)\<rparr>))
      = revokeCredentialArtifacts ?i (write_user ?i ?f db)"
    by (simp add: revokeCredentialArtifacts_def write_user_def)
  with assms(1) r show ?thesis
    by (auto simp: usePasswordResetToken_def Let_def user_by_None ids_def split: option.splits if_splits)
qed

lemma usePasswordResetToken_ok:
  assumes "usePasswordResetToken sha clock now hash new token password b db = Inr (Some (u, s, db'))" "acc_ok db"
  shows "acc_ok db' \<and> ids db' = ids db"
proof -
  from usePasswordResetToken_Inr [OF assms] obtain i db2 where
    d: "db2 = revokeCredentialArtifacts i (write_user i (\<lambda>u. (fresh_password hash u)\<lparr>us_mfa := False, us_secret := None\<rparr>) db)"
       "db' = db2 \<or> (\<exists>x. createSession sha clock new i db2 = Some (x, db'))"
    by (auto split: if_splits)
  have "acc_ok db2" "ids db2 = ids db" using assms(2) by (simp_all add: d(1) revoke_ok write_mild)
  with d(2) show ?thesis by (auto dest: createSession_ok)
qed

lemma mild_wrong [intro, simp]: "mild (\<lambda>u. u\<lparr>us_failed := Suc (us_failed u), us_locked := g u\<rparr>)"
  by (auto simp: mild_def user_ok_def)

lemma auth_record_ok: "acc_ok db \<Longrightarrow> acc_ok (auth_record now v i db)" "ids (auth_record now v i db) = ids db"
  by (simp_all add: auth_record_def write_mild  split: verdict.split)

lemma DisableMFA_ok: "acc_ok db \<Longrightarrow> acc_ok (DisableMFA i db)" "ids (DisableMFA i db) = ids db"
  by (simp_all add: DisableMFA_def write_mild)

lemma stage_ok: "acc_ok db \<Longrightarrow> acc_ok (snd (SetPendingMFASecret now i secret active db))" "ids (snd (SetPendingMFASecret now i secret active db)) = ids db"
  by (simp_all add: SetPendingMFASecret_def write_mild)

lemma confirm_ok: "acc_ok db \<Longrightarrow> acc_ok (snd (ConfirmMFA now i secret db))" "ids (snd (ConfirmMFA now i secret db)) = ids db"
  by (simp_all add: ConfirmMFA_def write_mild)

lemma logout_ok: "acc_ok db \<Longrightarrow> acc_ok (snd (DeleteSessionReturningUserID sha token db))" "ids (snd (DeleteSessionReturningUserID sha token db)) = ids db"
  by (simp_all add: DeleteSessionReturningUserID_def filter_sessions)

lemma UpdateUserPermissions_Inr: "UpdateUserPermissions i perms db = Inr (u, db') \<longleftrightarrow>
    (pm_users perms \<or> \<not> guardLastUserManager i db) \<and> u = user_by i db' \<and> db' = write_user i (\<lambda>u. u\<lparr>us_perms := perms\<rparr>) db"
  by (auto simp: UpdateUserPermissions_def Let_def)

lemma perms_ok: "UpdateUserPermissions i perms db = Inr (u, db') \<Longrightarrow> acc_ok db \<Longrightarrow> acc_ok db' \<and> ids db' = ids db"
  by (simp add: UpdateUserPermissions_Inr write_mild)

lemma profile_ok:
  assumes "UpdateUserProfile i name email timezone db = Inr (u, db')" "acc_ok db"
  shows "acc_ok db' \<and> ids db' = ids db"
proof (cases "db' = db")
  case False
  let ?f = "\<lambda>u. u\<lparr>us_name := name, us_email := lower email, us_timezone := timezone\<rparr>"
  from assms(1) False have d: "db' = write_user i ?f db" "\<forall>v \<in> set (ac_users db). us_id v \<noteq> i \<longrightarrow> us_email v \<noteq> lower email"
    by (auto simp: UpdateUserProfile_def Let_def split: if_splits)
  let ?us = "map (\<lambda>u. if us_id u = i then ?f u else u) (ac_users db)"
  have dist: "distinct (map us_id (ac_users db))" "inj_on us_email (set (ac_users db))" "inj_on us_id (set (ac_users db))"
    using assms(2) by (auto simp: acc_ok_def users_ok_def distinct_map)
  have m: "map us_id ?us = map us_id (ac_users db)" by simp
  have "inj_on (\<lambda>u. us_email (if us_id u = i then ?f u else u)) (set (ac_users db))"
  proof (rule inj_onI)
    fix u v assume "u \<in> set (ac_users db)" "v \<in> set (ac_users db)"
      "us_email (if us_id u = i then ?f u else u) = us_email (if us_id v = i then ?f v else v)"
    then show "u = v" using d(2) dist(2,3) by (cases "us_id u = i"; cases "us_id v = i") (auto dest: inj_onD)
  qed
  moreover have "distinct (ac_users db)" using dist(1) by (simp add: distinct_map)
  ultimately have "distinct (map us_email ?us)" by (simp add: distinct_map comp_def)
  moreover have "\<forall>u \<in> set ?us. user_ok (ac_next db) u" using assms(2) by (auto simp: acc_ok_def users_ok_def user_ok_def)
  moreover have "distinct (map us_id ?us)" unfolding m by (rule dist(1))
  ultimately have "users_ok db'" unfolding d(1) write_user_def users_ok_def account_db.simps by (intro conjI) simp_all
  moreover have "ids db' = ids db" unfolding ids_def d(1) by (rule write_user_ids) simp
  moreover have "artifacts_ok db'" using assms(2) \<open>ids db' = ids db\<close> by (simp add: acc_ok_def artifacts_ok_def d(1) ids_def)
  ultimately show ?thesis by (simp add: acc_ok_def)
qed (simp add: assms(2))

lemma DeleteUser_Inr: "DeleteUser i db = Inr (b, db') \<longleftrightarrow> \<not> guardLastUserManager i db \<and> b = (i \<in> ids db)
    \<and> db' = (revokeCredentialArtifacts i db)\<lparr>ac_users := filter (\<lambda>u. us_id u \<noteq> i) (ac_users db)\<rparr>"
  by (auto simp: DeleteUser_def ids_def revokeCredentialArtifacts_def)

lemma delete_ok:
  assumes "DeleteUser i db = Inr (b, db')" "acc_ok db"
  shows "acc_ok db' \<and> ids db' = ids db - {i}"
proof -
  have d: "db' = (revokeCredentialArtifacts i db)\<lparr>ac_users := filter (\<lambda>u. us_id u \<noteq> i) (ac_users db)\<rparr>" using assms(1) by (simp add: DeleteUser_Inr)
  have "ids db' = ids db - {i}" by (auto simp: d ids_def)
  moreover have "users_ok db'" using assms(2) by (auto simp: d acc_ok_def users_ok_def revokeCredentialArtifacts_def distinct_map_filter)
  moreover have "artifacts_ok db'" using assms(2) by (auto simp: d acc_ok_def artifacts_ok_def revokeCredentialArtifacts_def distinct_map_filter)
  ultimately show ?thesis by (simp add: acc_ok_def)
qed

lemma purge_subset: "\<exists>P. purgeExpiredTokenTable h e c rows = filter P rows"
  by (auto simp: purgeExpiredTokenTable_def Let_def)

section \<open>Transactions on the doors\<close>

lemma doors_accounts: "doors_ok db \<Longrightarrow> ids (dr_accounts db) \<subseteq> ids acc \<Longrightarrow> doors_ok (db\<lparr>dr_accounts := acc\<rparr>)"
  by (simp add: doors_ok_def ids_def, elim conjE, intro conjI; erule subset_trans; assumption)

lemma door_accounts: "door_inv db \<Longrightarrow> acc_ok acc \<Longrightarrow> ids (dr_accounts db) \<subseteq> ids acc \<Longrightarrow> door_inv (db\<lparr>dr_accounts := acc\<rparr>)"
  by (simp add: door_inv_def doors_accounts)

lemma doors_invites:
  assumes "doors_ok db" "map iv_id vs = map iv_id (dr_invites db)" "map iv_hash vs = map iv_hash (dr_invites db)"
    "map iv_inviter vs = map iv_inviter (dr_invites db)"
  shows "doors_ok (db\<lparr>dr_invites := vs\<rparr>)"
proof -
  have "iv_inviter ` set vs = iv_inviter ` set (dr_invites db)" "iv_id ` set vs = iv_id ` set (dr_invites db)"
    using assms(2,4) by (metis set_map)+
  moreover from this(2) have "\<forall>v \<in> set vs. iv_id v < dr_next db"
    using assms(1) unfolding doors_ok_def by (metis (no_types, lifting) imageE imageI)
  ultimately show ?thesis using assms by (simp add: doors_ok_def)
qed

lemma doors_replace:
  assumes "doors_ok db" "map iv_id vs = map iv_id (dr_invites db)" "map iv_hash vs = map iv_hash (dr_invites db)"
    "{i. Some i \<in> iv_inviter ` set vs} \<union> oi_user ` set xs \<subseteq> ids acc" "distinct (map (\<lambda>x. (oi_provider x, oi_sub x)) xs)"
  shows "doors_ok (db\<lparr>dr_accounts := acc, dr_identities := xs, dr_invites := vs\<rparr>)"
proof -
  have "iv_id ` set vs = iv_id ` set (dr_invites db)" using assms(2) by (metis set_map)
  then have "\<forall>v \<in> set vs. iv_id v < dr_next db"
    using assms(1) unfolding doors_ok_def by (metis (no_types, lifting) imageE imageI)
  with assms show ?thesis by (simp add: doors_ok_def ids_def)
qed

lemma doors_tokens:
  assumes "doors_ok db" "map at_id ts = map at_id (dr_tokens db)" "map at_hash ts = map at_hash (dr_tokens db)"
    "\<forall>t \<in> set ts. at_project t \<in> set (dr_projects db)"
  shows "doors_ok (db\<lparr>dr_tokens := ts\<rparr>)"
proof -
  have "at_id ` set ts = at_id ` set (dr_tokens db)" using assms(2) by (metis set_map)
  then have "\<forall>t \<in> set ts. at_id t < dr_next db"
    using assms(1) unfolding doors_ok_def by (metis (no_types, lifting) imageE imageI)
  with assms show ?thesis by (simp add: doors_ok_def)
qed

lemma delete_user_Inr: "delete_user i db = Inr (b, db') \<longleftrightarrow>
    (\<exists>acc. DeleteUser i (dr_accounts db) = Inr (b, acc) \<and> db' = db\<lparr>dr_accounts := acc,
          dr_identities := filter (\<lambda>x. oi_user x \<noteq> i) (dr_identities db),
          dr_invites := map (\<lambda>v. if iv_inviter v = Some i then v\<lparr>iv_inviter := None\<rparr> else v) (dr_invites db)\<rparr>)"
  by (auto simp: delete_user_def split: sum.splits)

lemma delete_user_ok:
  assumes "delete_user i db = Inr (b, db')" "door_inv db"
  shows "door_inv db'"
proof -
  let ?vs = "map (\<lambda>v. if iv_inviter v = Some i then v\<lparr>iv_inviter := None\<rparr> else v) (dr_invites db)"
  let ?xs = "filter (\<lambda>x. oi_user x \<noteq> i) (dr_identities db)"
  obtain acc where d: "DeleteUser i (dr_accounts db) = Inr (b, acc)"
    "db' = db\<lparr>dr_accounts := acc, dr_identities := ?xs, dr_invites := ?vs\<rparr>"
    using assms(1) unfolding delete_user_Inr by blast
  have acc: "acc_ok acc" "ids acc = ids (dr_accounts db) - {i}" using delete_ok [OF d(1)] assms(2) by (simp_all add: door_inv_def)
  have ok: "doors_ok db" using assms(2) by (simp add: door_inv_def)
  then have old: "{j. Some j \<in> iv_inviter ` set (dr_invites db)} \<union> oi_user ` set (dr_identities db) \<subseteq> ids (dr_accounts db)"
    by (simp add: doors_ok_def ids_def)
  have "{j. Some j \<in> iv_inviter ` set ?vs} \<subseteq> {j. Some j \<in> iv_inviter ` set (dr_invites db)} - {i}" by (auto split: if_splits)
  moreover have "oi_user ` set ?xs \<subseteq> oi_user ` set (dr_identities db) - {i}" by auto
  ultimately have "{j. Some j \<in> iv_inviter ` set ?vs} \<union> oi_user ` set ?xs \<subseteq> ids acc" unfolding acc(2) using old by blast
  moreover have "distinct (map (\<lambda>x. (oi_provider x, oi_sub x)) ?xs)" using ok by (simp add: doors_ok_def distinct_map_filter)
  moreover have "map iv_id ?vs = map iv_id (dr_invites db)" "map iv_hash ?vs = map iv_hash (dr_invites db)" by simp_all
  ultimately have "doors_ok db'" unfolding d(2) by (intro doors_replace [OF ok])
  with acc(1) show ?thesis by (simp add: door_inv_def d(2))
qed

lemma CreateInvite_Some: "CreateInvite sha clock now token inviter email name db = Some (t, db') \<longleftrightarrow>
    (\<forall>i. inviter = Some i \<longrightarrow> i \<in> ids (dr_accounts db)) \<and> sha token \<notin> iv_hash ` set (dr_invites db) \<and> t = token
    \<and> db' = db\<lparr>dr_invites := dr_invites db @ [\<lparr>iv_id = dr_next db, iv_hash = sha token, iv_email = email,
               iv_name = (if name = [] then None else Some name), iv_inviter = inviter, iv_expires = clock + 7 * 24 * 60 * one_minute,
               iv_accepted = None, iv_created = now\<rparr>], dr_next := dr_next db + 1\<rparr>"
  by (auto simp: CreateInvite_def user_by_None ids_def split: option.splits)

lemma CreateInvite_ok:
  assumes "CreateInvite sha clock now token inviter email name db = Some (t, db')" "door_inv db"
  shows "door_inv db'"
  using assms by (auto simp: CreateInvite_Some door_inv_def doors_ok_def ids_def less_Suc_eq)

lemma DeleteInvite_ok: "door_inv db \<Longrightarrow> door_inv (snd (DeleteInvite i db))"
  by (auto simp: DeleteInvite_def door_inv_def doors_ok_def distinct_map_filter)

lemma accept_sel [simp]: "dr_accounts (accept_invite i now db) = dr_accounts db" "dr_identities (accept_invite i now db) = dr_identities db"
  by (simp_all add: accept_invite_def)

lemma accept_invite_ok: "door_inv db \<Longrightarrow> door_inv (accept_invite i now db)"
  unfolding accept_invite_def door_inv_def by (simp add: doors_invites)

lemma AcceptInvite_Inr:
  assumes "AcceptInviteWithSession sha clock now later hash new token password name limit db = Inr (Some (u, s, db'))"
  shows "\<exists>v u0 acc acc1 acc2. GetInvite sha later token db = Some v \<and> \<not> limit_reached limit db
     \<and> createUser later hash (iv_email v) password (dr_accounts db) = Inr (u0, acc) \<and> us_id u = us_id u0
     \<and> (acc1 = acc \<or> (\<exists>n. acc1 = write_user (us_id u0) (\<lambda>u. u\<lparr>us_name := n\<rparr>) acc))
     \<and> createSession sha clock new (us_id u0) acc1 = Some (s, acc2) \<and> db' = (accept_invite (iv_id v) later db)\<lparr>dr_accounts := acc2\<rparr>"
proof -
  define called where "called = (if name = [] then case GetInvite sha later token db of None \<Rightarrow> [] | Some v \<Rightarrow>
    (case iv_name v of None \<Rightarrow> [] | Some n \<Rightarrow> n) else name)"
  obtain v where v: "GetInvite sha later token db = Some v"
    using assms by (auto simp: AcceptInviteWithSession_def split: option.splits if_splits)
  have c: "called = (if name = [] then case iv_name v of None \<Rightarrow> [] | Some n \<Rightarrow> n else name)" by (simp add: called_def v)
  have l: "\<not> limit_reached limit db" using assms v by (auto simp: AcceptInviteWithSession_def split: option.splits if_splits)
  obtain u0 acc where u0: "createUser later hash (iv_email v) password (dr_accounts db) = Inr (u0, acc)"
    using assms v by (auto simp: AcceptInviteWithSession_def split: option.splits if_splits sum.splits)
  let ?acc1 = "if called = [] then acc else write_user (us_id u0) (\<lambda>u. u\<lparr>us_name := called\<rparr>) acc"
  obtain acc2 where "createSession sha clock new (us_id u0) ?acc1 = Some (s, acc2)" "us_id u = us_id u0"
    "db' = (accept_invite (iv_id v) later db)\<lparr>dr_accounts := acc2\<rparr>"
    using assms v l u0 unfolding c by (auto simp: AcceptInviteWithSession_def Let_def split: option.splits if_splits)
  moreover have "?acc1 = acc \<or> (\<exists>n. ?acc1 = write_user (us_id u0) (\<lambda>u. u\<lparr>us_name := n\<rparr>) acc)" by auto
  ultimately show ?thesis using v l u0 by blast
qed

lemma AcceptInvite_ok:
  assumes "AcceptInviteWithSession sha clock now later hash new token password name limit db = Inr (Some (u, s, db'))" "door_inv db"
  shows "door_inv db'"
proof -
  from AcceptInvite_Inr [OF assms(1)] obtain v :: invite and u0 acc acc1 acc2 where
    d: "createUser later hash (iv_email v) password (dr_accounts db) = Inr (u0, acc)"
      "acc1 = acc \<or> (\<exists>n. acc1 = write_user (us_id u0) (\<lambda>u. u\<lparr>us_name := n\<rparr>) acc)"
      "createSession sha clock new (us_id u0) acc1 = Some (s, acc2)" "db' = (accept_invite (iv_id v) later db)\<lparr>dr_accounts := acc2\<rparr>"
    by blast
  have a: "acc_ok acc" "ids (dr_accounts db) \<subseteq> ids acc" using createUser_ok [OF d(1)] assms(2) by (auto simp: door_inv_def)
  then have "acc_ok acc1" "ids acc1 = ids acc" using d(2) by (auto simp: write_mild)
  with createSession_ok [OF d(3)] a have "acc_ok acc2" "ids (dr_accounts db) \<subseteq> ids acc2" by auto
  then show ?thesis unfolding d(4) using accept_invite_ok [OF assms(2)] by (intro door_accounts) simp_all
qed

lemma identity_ofD: "identity_of provider sub db = Some x \<Longrightarrow> x \<in> set (dr_identities db) \<and> oi_provider x = provider \<and> oi_sub x = sub"
  by (auto simp: identity_of_def dest: find_SomeD)

lemma identity_of_None: "identity_of provider sub db = None \<longleftrightarrow> (provider, sub) \<notin> (\<lambda>x. (oi_provider x, oi_sub x)) ` set (dr_identities db)"
  by (auto simp: identity_of_def find_None_iff)

lemma link_ok: "door_inv db \<Longrightarrow> i \<in> ids (dr_accounts db) \<Longrightarrow> door_inv (snd (link_identity i provider sub email db))"
  using identity_of_None [of provider sub db]
  by (auto simp: link_identity_def door_inv_def doors_ok_def ids_def split: option.splits)

lemma LinkOAuthIdentity_ok: "LinkOAuthIdentity i provider sub db = Inr db' \<Longrightarrow> door_inv db \<Longrightarrow> door_inv db'"
  using link_ok [of db i provider sub]
  by (auto simp: LinkOAuthIdentity_def split: if_splits option.splits prod.splits) (metis ids_def image_eqI snd_conv user_byD)

lemma find_email: "find (\<lambda>u. us_email u = email) us = Some u \<Longrightarrow> us_id u \<in> us_id ` set us"
  by (auto dest: find_SomeD)

lemma admit_Inr:
  assumes "admit now email limit db = Inr (i, db')"
  shows "(\<exists>u \<in> set (ac_users (dr_accounts db)). us_email u = email \<and> i = us_id u \<and> db' = db)
     \<or> email \<notin> us_email ` set (ac_users (dr_accounts db)) \<and> (\<exists>v n u acc. invite_for now email db = Some v \<and> \<not> limit_reached limit db
        \<and> insert_user now email n [] no_perms (dr_accounts db) = Some (u, acc) \<and> i = us_id u
        \<and> db' = (accept_invite (iv_id v) now db)\<lparr>dr_accounts := acc\<rparr>)"
proof (cases "find (\<lambda>u. us_email u = email) (ac_users (dr_accounts db))")
  case (Some u)
  with assms find_SomeD [OF Some] show ?thesis by (auto simp: admit_def)
next
  case None
  have "email \<notin> us_email ` set (ac_users (dr_accounts db))" using None by (auto simp: find_None_iff)
  moreover obtain v where v: "invite_for now email db = Some v" using assms None by (auto simp: admit_def split: option.splits)
  moreover have l: "\<not> limit_reached limit db" using assms None v by (auto simp: admit_def split: if_splits)
  moreover define n where "n = (case iv_name v of None \<Rightarrow> [] | Some n \<Rightarrow> n)"
  have "admit now email limit db = (case insert_user now email n [] no_perms (dr_accounts db) of
      None \<Rightarrow> Inl DoorFailure | Some (u, acc) \<Rightarrow> Inr (us_id u, (accept_invite (iv_id v) now db)\<lparr>dr_accounts := acc\<rparr>))"
    by (simp add: admit_def None v l n_def)
  then obtain u acc where "insert_user now email n [] no_perms (dr_accounts db) = Some (u, acc)"
    "i = us_id u" "db' = (accept_invite (iv_id v) now db)\<lparr>dr_accounts := acc\<rparr>"
    using assms by (cases "insert_user now email n [] no_perms (dr_accounts db)") auto
  ultimately show ?thesis by blast
qed

lemma admit_ok:
  assumes "admit now email limit db = Inr (i, db')" "door_inv db" "lower email = email"
  shows "door_inv db' \<and> i \<in> ids (dr_accounts db') \<and> ids (dr_accounts db) \<subseteq> ids (dr_accounts db')"
proof -
  consider u where "u \<in> set (ac_users (dr_accounts db))" "i = us_id u" "db' = db"
    | v :: invite and n u acc where "insert_user now email n [] no_perms (dr_accounts db) = Some (u, acc)" "i = us_id u"
        "db' = (accept_invite (iv_id v) now db)\<lparr>dr_accounts := acc\<rparr>"
    using admit_Inr [OF assms(1)] by blast
  then show ?thesis
  proof cases
    case 1
    with assms(2) show ?thesis by (simp add: ids_def)
  next
    case 2
    have "acc_ok acc" "ids acc = insert (us_id u) (ids (dr_accounts db))"
      using insert_user_ok [OF 2(1)] assms(2,3) by (simp_all add: door_inv_def)
    moreover have "door_inv db'"
      unfolding 2(3) using calculation accept_invite_ok [OF assms(2)] by (intro door_accounts) auto
    ultimately show ?thesis by (auto simp: 2(2,3))
  qed
qed

lemma FindOrCreateOAuthUser_ok:
  assumes "FindOrCreateOAuthUser now provider sub raw verified limit db = Inr (u, db')" "door_inv db"
  shows "door_inv db'"
proof (cases "identity_of provider sub db")
  case (Some x)
  with assms show ?thesis by (auto simp: FindOrCreateOAuthUser_def Let_def)
next
  case None
  with assms(1) obtain i db1 where d: "admit now (lower (trim_space raw)) limit db = Inr (i, db1)"
    "db' = snd (link_identity i provider sub (lower (trim_space raw)) db1)"
    by (auto simp: FindOrCreateOAuthUser_def Let_def split: if_splits sum.splits prod.splits)
  from admit_ok [OF d(1) assms(2)] show ?thesis by (simp add: d(2) link_ok)
qed

lemma doors_states: "doors_ok db \<Longrightarrow> distinct (map os_hash xs) \<Longrightarrow> doors_ok (db\<lparr>dr_states := xs\<rparr>)"
  by (simp add: doors_ok_def)

lemma CreateOAuthState_ok: "CreateOAuthState sha clock token provider verifier db = Some (t, db') \<Longrightarrow> door_inv db \<Longrightarrow> door_inv db'"
proof -
  assume a: "CreateOAuthState sha clock token provider verifier db = Some (t, db')" "door_inv db"
  let ?x = "\<lparr>os_hash = sha token, os_provider = provider, os_verifier = verifier, os_expires = clock + 10 * one_minute\<rparr>"
  have "sha token \<notin> os_hash ` set (dr_states db)" "db' = db\<lparr>dr_states := dr_states db @ [?x]\<rparr>"
    using a(1) by (auto simp: CreateOAuthState_def split: if_splits)
  with a(2) show "door_inv db'" by (simp add: door_inv_def doors_ok_def)
qed

lemma ConsumeBoundOAuthState_ok: "door_inv db \<Longrightarrow> door_inv (snd (ConsumeBoundOAuthState sha now token provider verifier db))"
  unfolding ConsumeBoundOAuthState_def snd_conv door_inv_def
  by (auto simp: doors_ok_def distinct_map_filter intro!: doors_states)

lemma CreateAPIToken_ok: "CreateAPIToken now hash project name writable db = Some (t, db') \<Longrightarrow> door_inv db \<Longrightarrow> door_inv db'"
proof -
  assume a: "CreateAPIToken now hash project name writable db = Some (t, db')" "door_inv db"
  then have t: "project \<in> set (dr_projects db)" "hash \<notin> at_hash ` set (dr_tokens db)" "at_id t = dr_next db" "at_hash t = hash"
    "at_project t = project" "db' = db\<lparr>dr_tokens := dr_tokens db @ [t], dr_next := dr_next db + 1\<rparr>"
    by (auto simp: CreateAPIToken_def Let_def split: if_splits)
  have d: "doors_ok db" using a(2) by (simp add: door_inv_def)
  then have "\<forall>v \<in> set (dr_invites db). iv_id v < Suc (dr_next db)" "\<forall>t \<in> set (dr_tokens db). at_id t < Suc (dr_next db)"
    "dr_next db \<notin> at_id ` set (dr_tokens db)"
    by (auto simp: doors_ok_def less_SucI)
  with d t have "doors_ok db'" by (simp add: doors_ok_def)
  with a(2) show "door_inv db'" by (simp add: door_inv_def t(6))
qed

lemma DeleteAPIToken_ok: "door_inv db \<Longrightarrow> door_inv (snd (DeleteAPITokenByID i db))"
  by (simp add: DeleteAPITokenByID_def drop_token_def door_inv_def doors_ok_def distinct_map_filter)

lemma write_token_ok:
  assumes "door_inv db" "\<And>t. at_id (f t) = at_id t \<and> at_hash (f t) = at_hash t"
    "\<And>t. at_project t \<in> set (dr_projects db) \<Longrightarrow> at_project (f t) \<in> set (dr_projects db)"
  shows "door_inv (write_token i f db)"
proof -
  have "\<forall>t \<in> set (dr_tokens db). at_project t \<in> set (dr_projects db)" using assms(1) by (auto simp: door_inv_def doors_ok_def)
  then have "doors_ok (write_token i f db)" unfolding write_token_def using assms
    by (intro doors_tokens) (auto simp: door_inv_def)
  with assms(1) show ?thesis by (simp add: door_inv_def write_token_def)
qed

lemma EditToken_ok: "UpdateAPIToken i name project writable db = Inr (t, db') \<Longrightarrow> door_inv db \<Longrightarrow> door_inv db'"
  by (auto simp: UpdateAPIToken_def Let_def split: if_splits intro!: write_token_ok)

lemma TouchAPIToken_ok: "door_inv db \<Longrightarrow> door_inv (TouchAPIToken now i db)"
  unfolding TouchAPIToken_def by (rule write_token_ok) auto

lemma purge_tokens_ok: "door_inv db \<Longrightarrow> door_inv (purgeExpiredAuthTokens now db)"
proof -
  assume a: "door_inv db"
  obtain P Q R S T where p:
    "purgeExpiredTokenTable os_hash os_expires now (dr_states db) = filter P (dr_states db)"
    "purgeExpiredTokenTable ch_hash ch_expires now (ac_challenges (dr_accounts db)) = filter Q (ac_challenges (dr_accounts db))"
    "purgeExpiredTokenTable se_hash se_expires now (ac_sessions (dr_accounts db)) = filter R (ac_sessions (dr_accounts db))"
    "purgeExpiredTokenTable rs_hash rs_expires now (ac_resets (dr_accounts db)) = filter S (ac_resets (dr_accounts db))"
    "purgeExpiredTokenTable iv_hash iv_expires (now - expiredInviteGrace) (dr_invites db) = filter T (dr_invites db)"
    using purge_subset by metis
  let ?acc = "(dr_accounts db)\<lparr>ac_challenges := filter Q (ac_challenges (dr_accounts db)),
    ac_sessions := filter R (ac_sessions (dr_accounts db)), ac_resets := filter S (ac_resets (dr_accounts db))\<rparr>"
  have "?acc = (dr_accounts db)\<lparr>ac_sessions := filter R (ac_sessions (dr_accounts db)),
      ac_challenges := filter Q (ac_challenges (dr_accounts db)), ac_resets := filter S (ac_resets (dr_accounts db))\<rparr>"
    by (rule account_db.equality) simp_all
  moreover have "acc_ok \<dots>" using a by (intro filter_artifacts) (simp add: door_inv_def)
  ultimately have "acc_ok ?acc" by (simp only:)
  moreover have "doors_ok (db\<lparr>dr_states := filter P (dr_states db), dr_accounts := ?acc, dr_invites := filter T (dr_invites db)\<rparr>)"
    using a by (simp add: door_inv_def doors_ok_def distinct_map_filter) blast
  ultimately show ?thesis by (simp add: door_inv_def purgeExpiredAuthTokens_def Let_def p)
qed

end
