(* ===== verification/Door_Run.thy ===== *)
theory Door_Run
  imports Account_Inv
begin

text \<open>
  Histories of the account tables: every transaction of \<open>Accounts\<close> and \<open>Admission\<close> as a step, in any order. A login
  takes several transactions, between which others may run, so what an earlier one has established (a password that
  was right, a code that was right) is remembered as a factor, and a later step may use it at any time. What holds
  after every history, and that no step but the proper ones opens a session.
\<close>

section \<open>Steps\<close>

text \<open>
  \<open>FirstFactor u\<close>: the password of \<open>u\<close>, or its identity at a provider, was right, and \<open>u\<close> is the row as it was then.
  \<open>SecondFactor i s\<close>: a code was right for the secret \<open>s\<close> that user \<open>i\<close> then had.
\<close>

datatype factor = FirstFactor user | SecondFactor nat string

record door =
  dd_db :: door_db
  dd_factors :: "factor list"

datatype door_op =
    AddAdmin nanos string string string string
  | SendInvite nanos nanos string "nat option" string string
  | DropInvite nat
  | AcceptInvite nanos nanos nanos string string string string string nat
  | LinkIdentity nat string string
  | SsoLogin nanos string string string bool nat
  | PasswordLogin nanos string string
  | CountLogin nanos verdict nat
  | IssueSession nanos string user
  | IssueChallenge nanos string user
  | CheckCode nanos string string
  | CountCode nanos string nat
  | CompleteLogin nanos nanos string string nat string
  | DropFactor nat
  | StageFactor nanos nat string "string option"
  | ConfirmFactor nanos nat string
  | ChangePassword nanos nanos string string nat string string string
  | SetPassword string nat string
  | AskReset nanos string nat
  | UseReset nanos nanos string string string string
  | Logout string
  | SetPerms nat permissions
  | SetProfile nat string string string
  | SetDigest nat bool
  | DigestSent nanos nat
  | DeleteAccount nat
  | NewState nanos string string string
  | UseState nanos string string string
  | NewToken nanos string string string bool
  | DropToken nat
  | EditToken nat string string bool
  | TouchToken nanos nat
  | PurgeExpired nanos

text \<open>What is left of the tables when a transaction fails, and the tables it gives otherwise.\<close>

definition kept :: "door_db \<Rightarrow> 'e + 'a \<times> door_db \<Rightarrow> door_db" where
  "kept db r = (case r of Inl e \<Rightarrow> db | Inr (x, db1) \<Rightarrow> db1)"

definition kept_opt :: "door_db \<Rightarrow> ('a \<times> door_db) option \<Rightarrow> door_db" where
  "kept_opt db r = (case r of None \<Rightarrow> db | Some (x, db1) \<Rightarrow> db1)"

definition kept_acc :: "door_db \<Rightarrow> 'e + 'a \<times> account_db \<Rightarrow> door_db" where
  "kept_acc db r = (case r of Inl e \<Rightarrow> db | Inr (x, acc) \<Rightarrow> db\<lparr>dr_accounts := acc\<rparr>)"

text \<open>The writes of a step. An issue needs the factor it rests on.\<close>

fun door_write :: "(string \<Rightarrow> string) \<Rightarrow> (string \<Rightarrow> string \<Rightarrow> bool) \<Rightarrow> factor list \<Rightarrow> door_op \<Rightarrow> door_db \<Rightarrow> door_db" where
  "door_write sha check fs (AddAdmin now hash email name password) db =
     kept_acc db (CreateAdminUser now hash email name password (dr_accounts db))"
| "door_write sha check fs (SendInvite clock now token inviter email name) db =
     kept_opt db (CreateInvite sha clock now token inviter email name db)"
| "door_write sha check fs (DropInvite i) db = snd (DeleteInvite i db)"
| "door_write sha check fs (AcceptInvite clock now later hash new token password name limit) db =
     (case AcceptInviteWithSession sha clock now later hash new token password name limit db of
        Inr (Some (u, s, db1)) \<Rightarrow> db1 | _ \<Rightarrow> db)"
| "door_write sha check fs (LinkIdentity i provider sub) db =
     (case LinkOAuthIdentity i provider sub db of Inl e \<Rightarrow> db | Inr db1 \<Rightarrow> db1)"
| "door_write sha check fs (SsoLogin now provider sub raw verified limit) db =
     kept db (FindOrCreateOAuthUser now provider sub raw verified limit db)"
| "door_write sha check fs (PasswordLogin clock email password) db = db"
| "door_write sha check fs (CountLogin now v i) db = db\<lparr>dr_accounts := auth_record now v i (dr_accounts db)\<rparr>"
| "door_write sha check fs (IssueSession clock token u) db =
     (if FirstFactor u \<in> set fs then kept_acc db (CreateAuthenticatedSession sha clock token u (dr_accounts db)) else db)"
| "door_write sha check fs (IssueChallenge clock token u) db =
     (if FirstFactor u \<in> set fs then kept_acc db (CreateAuthenticatedMFAChallenge sha clock token u (dr_accounts db)) else db)"
| "door_write sha check fs (CheckCode now token code) db = db"
| "door_write sha check fs (CountCode now token i) db = db\<lparr>dr_accounts := RecordMFAFailure sha now token i (dr_accounts db)\<rparr>"
| "door_write sha check fs (CompleteLogin clock now new token i secret) db =
     (if SecondFactor i secret \<in> set fs then kept_acc db (CompleteMFALogin sha clock now new token i secret (dr_accounts db)) else db)"
| "door_write sha check fs (DropFactor i) db = db\<lparr>dr_accounts := DisableMFA i (dr_accounts db)\<rparr>"
| "door_write sha check fs (StageFactor now i secret active) db =
     db\<lparr>dr_accounts := snd (SetPendingMFASecret now i secret active (dr_accounts db))\<rparr>"
| "door_write sha check fs (ConfirmFactor now i secret) db = db\<lparr>dr_accounts := snd (ConfirmMFA now i secret (dr_accounts db))\<rparr>"
| "door_write sha check fs (ChangePassword clock now hash token i current new session) db =
     kept_acc db (ChangeUserPasswordWithSession sha check clock now hash token i current new session (dr_accounts db))"
| "door_write sha check fs (SetPassword hash i new) db =
     (case AdminSetPassword hash i new (dr_accounts db) of Inl e \<Rightarrow> db | Inr acc \<Rightarrow> db\<lparr>dr_accounts := acc\<rparr>)"
| "door_write sha check fs (AskReset now token i) db =
     (case CreatePasswordResetToken sha now token i (dr_accounts db) of None \<Rightarrow> db | Some (t, acc) \<Rightarrow> db\<lparr>dr_accounts := acc\<rparr>)"
| "door_write sha check fs (UseReset clock now hash new token password) db =
     (case UsePasswordResetTokenWithSession sha clock now hash new token password (dr_accounts db) of
        Inr (Some (u, s, acc)) \<Rightarrow> db\<lparr>dr_accounts := acc\<rparr> | _ \<Rightarrow> db)"
| "door_write sha check fs (Logout token) db =
     db\<lparr>dr_accounts := snd (DeleteSessionReturningUserID sha token (dr_accounts db))\<rparr>"
| "door_write sha check fs (SetPerms i perms) db = kept_acc db (UpdateUserPermissions i perms (dr_accounts db))"
| "door_write sha check fs (SetProfile i name email timezone) db =
     kept_acc db (UpdateUserProfile i name email timezone (dr_accounts db))"
| "door_write sha check fs (SetDigest i b) db = db\<lparr>dr_accounts := UpdateUserWeeklyDigest i b (dr_accounts db)\<rparr>"
| "door_write sha check fs (DigestSent now i) db = db\<lparr>dr_accounts := MarkDigestSent now i (dr_accounts db)\<rparr>"
| "door_write sha check fs (DeleteAccount i) db = kept db (delete_user i db)"
| "door_write sha check fs (NewState clock token provider verifier) db =
     kept_opt db (CreateOAuthState sha clock token provider verifier db)"
| "door_write sha check fs (UseState now token provider verifier) db =
     snd (ConsumeBoundOAuthState sha now token provider verifier db)"
| "door_write sha check fs (NewToken now hash project name writable) db =
     kept_opt db (CreateAPIToken now hash project name writable db)"
| "door_write sha check fs (DropToken i) db = snd (DeleteAPITokenByID i db)"
| "door_write sha check fs (EditToken i name project writable) db = kept db (UpdateAPIToken i name project writable db)"
| "door_write sha check fs (TouchToken now i) db = TouchAPIToken now i db"
| "door_write sha check fs (PurgeExpired now) db = purgeExpiredAuthTokens now db"

text \<open>
  The factors a step establishes. \<open>PasswordLogin\<close> is the read of \<open>AuthenticateUser\<close>, whose write is \<open>CountLogin\<close>;
  \<open>CheckCode\<close> is the reads of \<open>handleMFAVerify\<close>.
\<close>

fun proves :: "(string \<Rightarrow> string) \<Rightarrow> (string \<Rightarrow> string \<Rightarrow> bool) \<Rightarrow> (string \<Rightarrow> string \<Rightarrow> bool) \<Rightarrow> door_op \<Rightarrow> door_db \<Rightarrow> factor list" where
  "proves sha check totp (PasswordLogin clock email password) db =
     (case GetUserByEmail email (dr_accounts db) of
        None \<Rightarrow> []
      | Some u \<Rightarrow> if auth_verdict check clock password u = Right then [FirstFactor u] else [])"
| "proves sha check totp (SsoLogin now provider sub raw verified limit) db =
     (case FindOrCreateOAuthUser now provider sub raw verified limit db of Inr (Some u, db1) \<Rightarrow> [FirstFactor u] | _ \<Rightarrow> [])"
| "proves sha check totp (CheckCode now token code) db =
     (case GetMFAChallenge sha now token (dr_accounts db) of
        None \<Rightarrow> []
      | Some i \<Rightarrow>
          if MFALocked now i (dr_accounts db) then []
          else (case GetMFASecret i (dr_accounts db) of
              None \<Rightarrow> [] | Some s \<Rightarrow> if totp code s then [SecondFactor i s] else []))"
| "proves sha check totp e db = []"

definition door_step :: "(string \<Rightarrow> string) \<Rightarrow> (string \<Rightarrow> string \<Rightarrow> bool) \<Rightarrow> (string \<Rightarrow> string \<Rightarrow> bool) \<Rightarrow> door \<Rightarrow> door_op \<Rightarrow> door" where
  "door_step sha check totp d e =
     \<lparr>dd_db = door_write sha check (dd_factors d) e (dd_db d), dd_factors = dd_factors d @ proves sha check totp e (dd_db d)\<rparr>"

definition no_accounts :: account_db where
  "no_accounts = \<lparr>ac_users = [], ac_sessions = [], ac_challenges = [], ac_resets = [], ac_next = 0\<rparr>"

definition no_doors :: "string list \<Rightarrow> door" where
  "no_doors projects = \<lparr>dd_db = \<lparr>dr_accounts = no_accounts, dr_invites = [], dr_identities = [], dr_states = [], dr_tokens = [],
     dr_projects = projects, dr_next = 0\<rparr>, dd_factors = []\<rparr>"

definition door_run :: "(string \<Rightarrow> string) \<Rightarrow> (string \<Rightarrow> string \<Rightarrow> bool) \<Rightarrow> (string \<Rightarrow> string \<Rightarrow> bool) \<Rightarrow> string list \<Rightarrow> door_op list \<Rightarrow> door" where
  "door_run sha check totp projects es = foldl (door_step sha check totp) (no_doors projects) es"

section \<open>Every step keeps the tables consistent\<close>

lemmas door_transactions_ok = delete_user_ok CreateInvite_ok DeleteInvite_ok AcceptInvite_ok LinkOAuthIdentity_ok FindOrCreateOAuthUser_ok
  CreateOAuthState_ok ConsumeBoundOAuthState_ok CreateAPIToken_ok DeleteAPIToken_ok EditToken_ok TouchAPIToken_ok purge_tokens_ok

lemma kept_acc_ok: "(\<And>x acc. r = Inr (x, acc) \<Longrightarrow> acc_ok acc \<and> ids (dr_accounts db) \<subseteq> ids acc) \<Longrightarrow> door_inv db \<Longrightarrow> door_inv (kept_acc db r)"
  by (auto simp: kept_acc_def door_accounts split: sum.splits)

lemma kept_ok: "(\<And>x db1. r = Inr (x, db1) \<Longrightarrow> door_inv db1) \<Longrightarrow> door_inv db \<Longrightarrow> door_inv (kept db r)"
  "(\<And>x db1. q = Some (x, db1) \<Longrightarrow> door_inv db1) \<Longrightarrow> door_inv db \<Longrightarrow> door_inv (kept_opt db q)"
  by (auto simp: kept_def kept_opt_def split: sum.splits option.splits)

lemma door_inv_acc: "door_inv db \<Longrightarrow> acc_ok (dr_accounts db)"
  by (simp add: door_inv_def)

lemma CreateAuthenticatedSession_ok: "CreateAuthenticatedSession sha clock token u db = Inr (s, db') \<Longrightarrow> acc_ok db \<Longrightarrow> acc_ok db' \<and> ids db' = ids db"
  by (auto simp: CreateAuthenticatedSession_Inr dest: createSession_ok)

lemma CreateAuthenticatedMFAChallenge_ok: "CreateAuthenticatedMFAChallenge sha clock token u db = Inr (s, db') \<Longrightarrow> acc_ok db \<Longrightarrow> acc_ok db' \<and> ids db' = ids db"
  by (auto simp: CreateAuthenticatedMFAChallenge_Inr dest: createMFAChallenge_ok)

lemma ChangeUserPasswordWithSession_ok: "ChangeUserPasswordWithSession sha check clock now hash token i current new cs db = Inr (r, db')
    \<Longrightarrow> acc_ok db \<Longrightarrow> acc_ok db' \<and> ids db' = ids db"
  by (auto simp: ChangeUserPasswordWithSession_Inr dest: changeUserPassword_ok)

lemma UsePasswordReset_ok: "UsePasswordResetTokenWithSession sha clock now hash new token password db = Inr (Some (u, s, db'))
    \<Longrightarrow> acc_ok db \<Longrightarrow> acc_ok db' \<and> ids db' = ids db"
  by (auto simp: UsePasswordResetTokenWithSession_def dest: usePasswordResetToken_ok)

lemma door_write_inv:
  assumes "door_inv db"
  shows "door_inv (door_write sha check fs e db)"
proof (cases e)
  case (AddAdmin now hash email name password)
  then show ?thesis using assms by (auto intro!: kept_acc_ok dest: CreateAdminUser_ok door_inv_acc)
next
  case (IssueSession clock token u)
  then show ?thesis using assms by (auto intro!: kept_acc_ok dest: CreateAuthenticatedSession_ok [OF _ door_inv_acc])
next
  case (IssueChallenge clock token u)
  then show ?thesis using assms by (auto intro!: kept_acc_ok dest: CreateAuthenticatedMFAChallenge_ok [OF _ door_inv_acc])
next
  case (CompleteLogin clock now new token i secret)
  then show ?thesis using assms by (auto intro!: kept_acc_ok dest: CompleteMFALogin_ok [OF _ door_inv_acc])
next
  case (ChangePassword clock now hash token i current new session)
  then show ?thesis using assms by (auto intro!: kept_acc_ok dest: ChangeUserPasswordWithSession_ok [OF _ door_inv_acc])
next
  case (SetPerms i perms)
  then show ?thesis using assms by (auto intro!: kept_acc_ok dest: perms_ok [OF _ door_inv_acc])
next
  case (SetProfile i name email timezone)
  then show ?thesis using assms by (auto intro!: kept_acc_ok dest: profile_ok [OF _ door_inv_acc])
next
  case (SetPassword hash i new)
  then show ?thesis using assms AdminSetPassword_ok [OF _ door_inv_acc [OF assms]] by (auto split: sum.splits intro!: door_accounts)
next
  case (AskReset now token i)
  then show ?thesis using assms CreatePasswordResetToken_ok [OF _ door_inv_acc [OF assms]]
    by (auto split: option.splits intro!: door_accounts)
next
  case (UseReset clock now hash new token password)
  then show ?thesis using assms UsePasswordReset_ok [OF _ door_inv_acc [OF assms]]
    by (auto split: option.splits sum.splits intro!: door_accounts)
next
  case (AcceptInvite clock now later hash new token password name limit)
  then show ?thesis using assms by (auto split: option.splits sum.splits dest: AcceptInvite_ok)
qed (use assms in \<open>auto intro!: kept_ok door_accounts auth_record_ok RecordMFAFailure_ok DisableMFA_ok stage_ok confirm_ok logout_ok
      simp: auth_record_ok RecordMFAFailure_ok DisableMFA_ok stage_ok confirm_ok logout_ok write_mild door_inv_acc
        UpdateUserWeeklyDigest_def MarkDigestSent_def door_transactions_ok split: sum.splits\<close>)

lemma no_doors_inv: "door_inv (dd_db (no_doors projects))"
  by (simp add: no_doors_def no_accounts_def door_inv_def acc_ok_def users_ok_def artifacts_ok_def doors_ok_def)

interpretation doors: machine "door_step sha check totp" "\<lambda>d. door_inv (dd_db d)" for sha check totp
  by unfold_locales (simp add: door_step_def door_write_inv)

lemma door_run_inv: "door_inv (dd_db (door_run sha check totp projects es))"
  unfolding door_run_def by (rule doors.run_inv) (rule no_doors_inv)

section \<open>Where sessions come from\<close>

definition sessions :: "door_db \<Rightarrow> session_row set" where "sessions db = set (ac_sessions (dr_accounts db))"

fun opens :: "door_op \<Rightarrow> string option" where
  "opens (AcceptInvite clock now later hash new token password name limit) = Some new"
| "opens (IssueSession clock token u) = Some token"
| "opens (CompleteLogin clock now new token i secret) = Some new"
| "opens (ChangePassword clock now hash token i current new session) = Some token"
| "opens (UseReset clock now hash new token password) = Some new"
| "opens _ = None"

lemma sel_accounts [simp]: "ac_sessions (count_challenge h acc) = ac_sessions acc" "ac_sessions (DisableMFA i acc) = ac_sessions acc"
  "ac_sessions (auth_record now v i acc) = ac_sessions acc" "ac_sessions (RecordMFAFailure sha now token i acc) = ac_sessions acc"
  "ac_sessions (snd (SetPendingMFASecret now i secret active acc)) = ac_sessions acc"
  "ac_sessions (snd (ConfirmMFA now i secret acc)) = ac_sessions acc"
  "ac_sessions (UpdateUserWeeklyDigest i b acc) = ac_sessions acc" "ac_sessions (MarkDigestSent now i acc) = ac_sessions acc"
  by (simp_all add: count_challenge_def DisableMFA_def auth_record_def RecordMFAFailure_def Let_def SetPendingMFASecret_def ConfirmMFA_def
      UpdateUserWeeklyDigest_def MarkDigestSent_def split: verdict.split)

lemma insert_user_sessions: "insert_user now email name hash perms acc = Some (u, acc') \<Longrightarrow> ac_sessions acc' = ac_sessions acc"
  by (auto dest: insert_user_Some)

lemma create_sessions: "createUser now hash email password acc = Inr (u, acc') \<Longrightarrow> ac_sessions acc' = ac_sessions acc"
  "CreateAdminUser now hash email name password acc = Inr (u, acc') \<Longrightarrow> ac_sessions acc' = ac_sessions acc"
  by (auto simp: createUser_def CreateAdminUser_def dest: insert_user_sessions split: option.splits)

lemma link_accounts [simp]: "dr_accounts (snd (link_identity i p s m db)) = dr_accounts db"
  by (simp add: link_identity_def split: option.splits)

lemma link_pair: "link_identity i p s m db = (j, db') \<Longrightarrow> dr_accounts db' = dr_accounts db"
  using link_accounts [of i p s m db] by simp

lemma FindOrCreate_Inr:
  assumes "FindOrCreateOAuthUser now p s raw verified limit db = Inr (u, db')"
  shows "db' = db \<and> identity_of p s db \<noteq> None
    \<or> verified \<and> identity_of p s db = None \<and> (\<exists>i db1. admit now (lower (trim_space raw)) limit db = Inr (i, db1)
        \<and> db' = snd (link_identity i p s (lower (trim_space raw)) db1))"
  using assms by (auto simp: FindOrCreateOAuthUser_def Let_def split: if_splits sum.splits prod.splits option.splits)

lemma admit_sessions: "admit now email limit db = Inr (i, db1) \<Longrightarrow> ac_sessions (dr_accounts db1) = ac_sessions (dr_accounts db)"
  by (drule admit_Inr) (auto dest: insert_user_sessions)

lemma FindOrCreate_sessions: "FindOrCreateOAuthUser now p s raw verified limit db = Inr (u, db') \<Longrightarrow> ac_sessions (dr_accounts db') = ac_sessions (dr_accounts db)"
  by (drule FindOrCreate_Inr) (auto dest: admit_sessions)

text \<open>A step that opens no session leaves no new one.\<close>

lemma no_new_session:
  assumes "opens e = None"
  shows "sessions (door_write sha check fs e db) \<subseteq> sessions db"
proof (cases e)
  case (SsoLogin now p s raw verified limit)
  then show ?thesis by (auto simp: sessions_def kept_def dest: FindOrCreate_sessions split: sum.splits)
next
  case (AddAdmin now hash email name password)
  then show ?thesis by (auto simp: sessions_def kept_acc_def dest: create_sessions split: sum.splits)
next
  case (IssueChallenge clock token u)
  then show ?thesis
    by (auto simp: sessions_def kept_acc_def CreateAuthenticatedMFAChallenge_Inr createMFAChallenge_Some split: sum.splits)
next
  case (PurgeExpired now)
  then show ?thesis by (auto simp: sessions_def purgeExpiredAuthTokens_def Let_def purgeExpiredTokenTable_def)
qed (use assms in \<open>auto simp: sessions_def kept_def kept_opt_def kept_acc_def CreateInvite_Some DeleteInvite_def LinkOAuthIdentity_def
      CreateOAuthState_def ConsumeBoundOAuthState_def CreateAPIToken_def Let_def DeleteAPITokenByID_def drop_token_def UpdateAPIToken_def
      TouchAPIToken_def write_token_def AdminSetPassword_Inr revokeCredentialArtifacts_def CreatePasswordResetToken_Some
      DeleteSessionReturningUserID_def UpdateUserPermissions_Inr UpdateUserProfile_def delete_user_Inr DeleteUser_Inr
      dest!: link_pair split: sum.splits option.splits prod.splits if_splits\<close>)

text \<open>What an opening step adds: one session, for a user that may have it.\<close>

lemma new_session:
  assumes "s \<in> sessions (door_write sha check fs e db)" "s \<notin> sessions db" "door_inv db"
  shows "\<exists>token. opens e = Some token \<and> se_hash s = sha token \<and> sha token \<notin> se_hash ` {x \<in> sessions db. se_user x \<noteq> se_user s}"
proof (cases "opens e")
  case None
  with no_new_session assms(1,2) show ?thesis by blast
next
  case (Some t)
  have "se_hash s = sha t \<and> sha t \<notin> se_hash ` {x \<in> sessions db. se_user x \<noteq> se_user s}"
  proof (cases e)
    case (AcceptInvite clock now later hash new token password name limit)
    with assms(1,2) obtain u s' db' where a: "AcceptInviteWithSession sha clock now later hash new token password name limit db = Inr (Some (u, s', db'))"
      "s \<in> sessions db'" by (auto split: sum.splits option.splits)
    from AcceptInvite_Inr [OF a(1)] obtain v :: invite and u0 acc acc1 acc2 where
      d: "createUser later hash (iv_email v) password (dr_accounts db) = Inr (u0, acc)"
        "acc1 = acc \<or> (\<exists>n. acc1 = write_user (us_id u0) (\<lambda>u. u\<lparr>us_name := n\<rparr>) acc)"
        "createSession sha clock new (us_id u0) acc1 = Some (s', acc2)" "db' = (accept_invite (iv_id v) later db)\<lparr>dr_accounts := acc2\<rparr>"
      by blast
    have "ac_sessions acc1 = ac_sessions (dr_accounts db)" using d(1,2) by (auto dest: create_sessions)
    with a(2) d(3,4) assms(2) AcceptInvite Some show ?thesis by (auto simp: sessions_def createSession_Some)
  next
    case (IssueSession clock token u)
    with assms(1,2) Some show ?thesis
      by (auto simp: sessions_def kept_acc_def CreateAuthenticatedSession_Inr createSession_Some split: sum.splits if_splits)
  next
    case (CompleteLogin clock now new token i secret)
    with assms(1,2) Some show ?thesis
      by (auto simp: sessions_def kept_acc_def createSession_Some dest!: CompleteMFALogin_Inr split: sum.splits if_splits)
  next
    case (ChangePassword clock now hash token i current new session)
    with assms(1,2) Some show ?thesis
      by (auto simp: sessions_def kept_acc_def ChangeUserPasswordWithSession_Inr createSession_Some Let_def revokeCredentialArtifacts_def
          dest!: changeUserPassword_Inr split: sum.splits if_splits)
  next
    case (UseReset clock now hash new token password)
    with assms(1,2) Some show ?thesis
      by (auto simp: sessions_def UsePasswordResetTokenWithSession_def createSession_Some revokeCredentialArtifacts_def
          dest!: usePasswordResetToken_Inr [OF _ door_inv_acc [OF assms(3)]] split: sum.splits option.splits if_splits)
  qed (use Some in auto)
  with Some show ?thesis by simp
qed

end
