(* ===== verification/Door_Pass.thy ===== *)
theory Door_Pass
  imports Door_Run
begin

text \<open>
  What the histories of \<open>Door_Run\<close> guarantee: which steps open a session, what a changed password ends, that invitations
  and reset links work once, that identities stay where they are, and how many guesses a password can be given.
\<close>

text \<open>
C14: After any history of the account tables they are consistent: users have different identifiers and lower-case addresses
of their own, a second factor always has its secret, sessions, challenges, reset links, identities and invitations belong
to existing users and have different tokens, no challenge has five failures and no user ten, no reset link is kept once
it is used, and an API token has an existing project.
\<close>

theorem door_histories: "door_inv (dd_db (door_run sha check totp projects es))"
  by (rule door_run_inv)

section \<open>The second factor\<close>

lemma second_factor_checked:
  "SecondFactor i s \<in> set (dd_factors (door_run sha check totp projects es)) \<Longrightarrow>
    \<exists>now token code. CheckCode now token code \<in> set es \<and> totp code s"
proof (induction es rule: rev_induct)
  case Nil
  then show ?case by (simp add: door_run_def no_doors_def)
next
  case (snoc e es)
  then consider "SecondFactor i s \<in> set (dd_factors (door_run sha check totp projects es))"
    | "SecondFactor i s \<in> set (proves sha check totp e (dd_db (door_run sha check totp projects es)))"
    by (auto simp: door_run_def door_step_def)
  then show ?case
  proof cases
    case 1
    with snoc.IH show ?thesis by auto
  next
    case 2
    then show ?thesis by (cases e) (auto split: option.splits if_splits sum.splits)
  qed
qed

lemma user_by_artifacts [simp]: "user_by i (acc\<lparr>ac_sessions := x\<rparr>) = user_by i acc" "user_by i (acc\<lparr>ac_challenges := c\<rparr>) = user_by i acc"
  "user_by i (acc\<lparr>ac_resets := r\<rparr>) = user_by i acc" "user_by i (revokeCredentialArtifacts j acc) = user_by i acc"
  by (simp_all add: user_by_def revokeCredentialArtifacts_def)

lemma fresh_password_sel [simp]: "us_id (fresh_password h u) = us_id u" "us_hash (fresh_password h u) = h" "us_mfa (fresh_password h u) = us_mfa u"
  by (simp_all add: fresh_password_def)

lemma new_user_by:
  assumes "insert_user now email name hash perms acc = Some (u, acc')" "acc_ok acc"
  shows "user_by (us_id u) acc' = Some u"
proof -
  have i: "us_id u = ac_next acc" "acc' = acc\<lparr>ac_users := ac_users acc @ [u], ac_next := ac_next acc + 1\<rparr>"
    using insert_user_Some [OF assms(1)] by simp_all
  have "us_id u \<notin> ids acc" using assms(2) by (auto simp: i(1) ids_def acc_ok_def users_ok_def user_ok_def)
  then have "user_by (us_id u) acc = None" by (simp add: user_by_None ids_def)
  then show ?thesis by (simp add: user_by_def i find_append)
qed

text \<open>A session of a user with a second factor.\<close>

lemma mfa_session:
  assumes "s \<in> sessions (door_write sha check fs e db)" "s \<notin> sessions db" "door_inv db"
    and "user_by (se_user s) (dr_accounts (door_write sha check fs e db)) = Some u" "us_mfa u"
  shows "(\<exists>clock now new token secret. e = CompleteLogin clock now new token (se_user s) secret \<and> us_secret u = Some secret
       \<and> SecondFactor (se_user s) secret \<in> set fs)
    \<or> (\<exists>clock now hash token current new cs. e = ChangePassword clock now hash token (se_user s) current new cs
       \<and> (\<exists>x \<in> sessions db. se_hash x = sha cs \<and> se_user x = se_user s \<and> live now (se_expires x)))"
proof (cases "opens e")
  case None
  with no_new_session assms(1,2) show ?thesis by blast
next
  case (Some t)
  show ?thesis
  proof (cases e)
    case (AcceptInvite clock now later hash new token password name limit)
    with assms(1,2) obtain w s' db' where a: "AcceptInviteWithSession sha clock now later hash new token password name limit db = Inr (Some (w, s', db'))"
      "s \<in> sessions db'" "door_write sha check fs e db = db'" by (auto split: sum.splits option.splits)
    from AcceptInvite_Inr [OF a(1)] obtain v :: invite and u0 acc acc1 acc2 where
      d: "createUser later hash (iv_email v) password (dr_accounts db) = Inr (u0, acc)"
        "acc1 = acc \<or> (\<exists>n. acc1 = write_user (us_id u0) (\<lambda>u. u\<lparr>us_name := n\<rparr>) acc)"
        "createSession sha clock new (us_id u0) acc1 = Some (s', acc2)" "db' = (accept_invite (iv_id v) later db)\<lparr>dr_accounts := acc2\<rparr>"
      by blast
    have ac: "ac_sessions acc1 = ac_sessions (dr_accounts db)" using d(1,2) by (auto dest: create_sessions)
    with a(2) d(3,4) assms(2) have s: "s = s'" "se_user s' = us_id u0" by (auto simp: sessions_def createSession_Some)
    obtain p where "insert_user later (lower (iv_email v)) [] hash p (dr_accounts db) = Some (u0, acc)"
      using d(1) by (auto simp: createUser_def split: option.splits)
    from new_user_by [OF this door_inv_acc [OF assms(3)]] insert_user_Some [OF this]
    have "user_by (us_id u0) acc = Some u0" "\<not> us_mfa u0" by simp_all
    then have "\<not> us_mfa u" using assms(4) d(2,3,4) a(3) s by (auto simp: createSession_Some user_by_write)
    with assms(5) show ?thesis by simp
  next
    case (IssueSession clock token w)
    with assms show ?thesis
      by (auto simp: sessions_def kept_acc_def CreateAuthenticatedSession_Inr createSession_Some split: sum.splits if_splits)
  next
    case (CompleteLogin clock now new token i secret)
    with assms(1,2,4,5) show ?thesis
      by (auto simp: sessions_def kept_acc_def createSession_Some user_by_write dest!: CompleteMFALogin_Inr split: sum.splits if_splits)
  next
    case (ChangePassword clock now hash token i current new session)
    with assms(1,2) show ?thesis
      by (auto simp: sessions_def kept_acc_def ChangeUserPasswordWithSession_Inr createSession_Some Let_def revokeCredentialArtifacts_def
          dest!: changeUserPassword_Inr split: sum.splits if_splits)
  next
    case (UseReset clock now hash new token password)
    with assms(1,2,4,5) show ?thesis
      by (auto simp: sessions_def UsePasswordResetTokenWithSession_def createSession_Some user_by_write
          dest!: usePasswordResetToken_Inr [OF _ door_inv_acc [OF assms(3)]] split: sum.splits option.splits if_splits)
        (auto simp: revokeCredentialArtifacts_def)
  qed (use Some in auto)
qed

text \<open>
C8: The second factor is never bypassed: in any history, a step that opens a session for a user with a second factor is
either the completion of a login for whose current secret a right code was given before, or the change of a password
by someone who holds a live session of that user. A password, a provider, an invitation or a reset link alone never
gives a session of such a user.
\<close>

theorem mfa_never_bypassed:
  assumes "d = door_run sha check totp projects es" "d' = door_step sha check totp d e"
    and "s \<in> set (ac_sessions (dr_accounts (dd_db d')))" "s \<notin> set (ac_sessions (dr_accounts (dd_db d)))"
    and "user_by (se_user s) (dr_accounts (dd_db d')) = Some u" "us_mfa u"
  shows "(\<exists>clock now new token secret. e = CompleteLogin clock now new token (se_user s) secret \<and> us_secret u = Some secret
       \<and> (\<exists>t tok code. CheckCode t tok code \<in> set es \<and> totp code secret))
    \<or> (\<exists>clock now hash token current new cs. e = ChangePassword clock now hash token (se_user s) current new cs
       \<and> (\<exists>x \<in> set (ac_sessions (dr_accounts (dd_db d))). se_hash x = sha cs \<and> se_user x = se_user s \<and> live now (se_expires x)))"
proof -
  let ?db = "dd_db d"
  have inv: "door_inv ?db" unfolding assms(1) by (rule door_run_inv)
  have d': "dd_db d' = door_write sha check (dd_factors d) e ?db" by (simp add: assms(2) door_step_def)
  have checked: "\<exists>t tok code. CheckCode t tok code \<in> set es \<and> totp code z" if "SecondFactor (se_user s) z \<in> set (dd_factors d)" for z
    using second_factor_checked [OF that [unfolded assms(1)]] .
  have "s \<in> sessions (door_write sha check (dd_factors d) e ?db)" "s \<notin> sessions ?db"
    "user_by (se_user s) (dr_accounts (door_write sha check (dd_factors d) e ?db)) = Some u"
    using assms(3,4,5) by (simp_all add: sessions_def d')
  from mfa_session [OF this(1,2) inv this(3) assms(6)]
  show ?thesis
  proof
    assume "\<exists>clock now new token secret. e = CompleteLogin clock now new token (se_user s) secret \<and> us_secret u = Some secret
       \<and> SecondFactor (se_user s) secret \<in> set (dd_factors d)"
    then obtain clock now new token z where z: "e = CompleteLogin clock now new token (se_user s) z" "us_secret u = Some z"
      "SecondFactor (se_user s) z \<in> set (dd_factors d)" by (elim exE conjE)
    show ?thesis by (rule disjI1) (simp add: z(1,2) checked [OF z(3)])
  next
    assume "\<exists>clock now hash token current new cs. e = ChangePassword clock now hash token (se_user s) current new cs
       \<and> (\<exists>x \<in> sessions ?db. se_hash x = sha cs \<and> se_user x = se_user s \<and> live now (se_expires x))"
    then show ?thesis unfolding sessions_def by (rule disjI2)
  qed
qed

section \<open>A changed password\<close>

definition hash_of :: "nat \<Rightarrow> account_db \<Rightarrow> string option" where "hash_of i acc = map_option us_hash (user_by i acc)"

lemma hash_of_artifacts [simp]: "hash_of i (acc\<lparr>ac_sessions := x\<rparr>) = hash_of i acc" "hash_of i (acc\<lparr>ac_challenges := c\<rparr>) = hash_of i acc"
  "hash_of i (acc\<lparr>ac_resets := r\<rparr>) = hash_of i acc" "hash_of i (revokeCredentialArtifacts j acc) = hash_of i acc"
  by (simp_all add: hash_of_def)

lemma hash_of_write: "(\<And>u. us_id (f u) = us_id u) \<Longrightarrow> (\<And>u. us_hash (f u) = us_hash u) \<Longrightarrow> hash_of i (write_user j f acc) = hash_of i acc"
  by (simp add: hash_of_def user_by_write option.map_comp comp_def)

lemma hash_of_fresh [simp]: "hash_of i (write_user j (fresh_password h) acc) = (if i = j then map_option (\<lambda>_. h) (hash_of i acc) else hash_of i acc)"
  "hash_of i (write_user j (\<lambda>u. (fresh_password h u)\<lparr>us_mfa := False, us_secret := None\<rparr>) acc)
    = (if i = j then map_option (\<lambda>_. h) (hash_of i acc) else hash_of i acc)"
  by (simp_all add: hash_of_def user_by_write option.map_comp comp_def)

lemma hash_of_count [simp]: "hash_of i (count_challenge h acc) = hash_of i acc"
  by (simp add: count_challenge_def)

lemma count_failure_sel [simp]: "us_id (count_failure now u) = us_id u" "us_hash (count_failure now u) = us_hash u"
  by (simp_all add: count_failure_def)

lemma hash_of_kept [simp]: "hash_of i (auth_record now v j acc) = hash_of i acc" "hash_of i (DisableMFA j acc) = hash_of i acc"
  "hash_of i (RecordMFAFailure sha now token j acc) = hash_of i acc" "hash_of i (snd (SetPendingMFASecret now j secret active acc)) = hash_of i acc"
  "hash_of i (snd (ConfirmMFA now j secret acc)) = hash_of i acc" "hash_of i (UpdateUserWeeklyDigest j b acc) = hash_of i acc"
  "hash_of i (MarkDigestSent now j acc) = hash_of i acc"
  by (simp_all add: auth_record_def DisableMFA_def RecordMFAFailure_def Let_def SetPendingMFASecret_def ConfirmMFA_def UpdateUserWeeklyDigest_def
      MarkDigestSent_def hash_of_write split: verdict.split)

text \<open>No password of an existing user changes between two tables.\<close>

definition keeps :: "nat \<Rightarrow> account_db \<Rightarrow> account_db \<Rightarrow> bool" where
  "keeps i acc acc' \<longleftrightarrow> i < ac_next acc \<longrightarrow> (hash_of i acc' = None \<or> hash_of i acc' = hash_of i acc) \<and> ac_next acc \<le> ac_next acc'"

lemma keeps_same: "hash_of i acc' = hash_of i acc \<Longrightarrow> ac_next acc' = ac_next acc \<Longrightarrow> keeps i acc acc'"
  by (simp add: keeps_def)

lemma keeps_insert: "insert_user now email name hash perms acc = Some (u, acc') \<Longrightarrow> keeps i acc acc'"
  using insert_user_Some [of now email name hash perms acc u acc']
  by (auto simp: keeps_def hash_of_def user_by_def find_append split: option.splits)

lemma keeps_create: "createUser now hash email password acc = Inr (u, acc') \<Longrightarrow> keeps i acc acc'"
  "CreateAdminUser now hash email name password acc = Inr (u, acc') \<Longrightarrow> keeps i acc acc'"
  by (auto simp: createUser_def CreateAdminUser_def dest: keeps_insert split: option.splits)

lemma find_filter_id: "find (\<lambda>u. us_id u = i) (filter (\<lambda>u. us_id u \<noteq> j) us) = (if i = j then None else find (\<lambda>u. us_id u = i) us)"
  by (induction us) auto

lemma keeps_delete: "DeleteUser j acc = Inr (b, acc') \<Longrightarrow> keeps i acc acc'"
  by (auto simp: keeps_def DeleteUser_Inr hash_of_def user_by_def revokeCredentialArtifacts_def find_filter_id)

lemma keeps_profile: "UpdateUserProfile j name email tz acc = Inr (u, acc') \<Longrightarrow> keeps i acc acc'"
  by (auto simp: keeps_def UpdateUserProfile_def Let_def hash_of_write split: if_splits)

lemma keeps_sso: "FindOrCreateOAuthUser now p s raw verified limit db = Inr (u, db') \<Longrightarrow> keeps i (dr_accounts db) (dr_accounts db')"
  by (drule FindOrCreate_Inr) (auto dest!: admit_Inr dest: keeps_insert simp: keeps_same)

fun sets_password :: "door_op \<Rightarrow> bool" where
  "sets_password (ChangePassword clock now hash token i current new session) = True"
| "sets_password (SetPassword hash i new) = True"
| "sets_password (UseReset clock now hash new token password) = True"
| "sets_password _ = False"

lemma next_kept [simp]: "ac_next (auth_record now v j acc) = ac_next acc" "ac_next (DisableMFA j acc) = ac_next acc"
  "ac_next (RecordMFAFailure sha now token j acc) = ac_next acc" "ac_next (snd (SetPendingMFASecret now j secret active acc)) = ac_next acc"
  "ac_next (snd (ConfirmMFA now j secret acc)) = ac_next acc" "ac_next (UpdateUserWeeklyDigest j b acc) = ac_next acc"
  "ac_next (MarkDigestSent now j acc) = ac_next acc" "ac_next (revokeCredentialArtifacts j acc) = ac_next acc"
  by (simp_all add: auth_record_def DisableMFA_def RecordMFAFailure_def Let_def SetPendingMFASecret_def ConfirmMFA_def UpdateUserWeeklyDigest_def
      MarkDigestSent_def count_challenge_def revokeCredentialArtifacts_def split: verdict.split)

lemma password_kept:
  assumes "\<not> sets_password e"
  shows "keeps i (dr_accounts db) (dr_accounts (door_write sha check fs e db))"
proof (cases e)
  case (SsoLogin now p s raw verified limit)
  then show ?thesis by (auto simp: kept_def keeps_same dest: keeps_sso split: sum.splits)
next
  case (AddAdmin now hash email name password)
  then show ?thesis by (auto simp: kept_acc_def keeps_same dest: keeps_create split: sum.splits)
next
  case (AcceptInvite clock now later hash new token password name limit)
  have "keeps i (dr_accounts db) (dr_accounts db')"
    if a: "AcceptInviteWithSession sha clock now later hash new token password name limit db = Inr (Some (u, s', db'))" for u s' db'
  proof -
    from AcceptInvite_Inr [OF a] obtain v :: invite and u0 acc acc1 acc2 where
      d: "createUser later hash (iv_email v) password (dr_accounts db) = Inr (u0, acc)"
        "acc1 = acc \<or> (\<exists>n. acc1 = write_user (us_id u0) (\<lambda>u. u\<lparr>us_name := n\<rparr>) acc)"
        "createSession sha clock new (us_id u0) acc1 = Some (s', acc2)" "db' = (accept_invite (iv_id v) later db)\<lparr>dr_accounts := acc2\<rparr>"
      by blast
    have "hash_of i acc2 = hash_of i acc" "ac_next acc2 = ac_next acc" using d(2,3) by (auto simp: createSession_Some hash_of_write)
    with keeps_create(1) [OF d(1), of i] show ?thesis by (simp add: keeps_def d(4))
  qed
  with AcceptInvite show ?thesis by (auto simp: keeps_same split: sum.splits option.splits)
next
  case (DeleteAccount j)
  then show ?thesis by (auto simp: kept_def delete_user_Inr keeps_same dest: keeps_delete split: sum.splits)
next
  case (SetProfile j name email tz)
  then show ?thesis by (auto simp: kept_acc_def keeps_same dest: keeps_profile split: sum.splits)
next
  case (PurgeExpired now)
  then show ?thesis by (simp add: purgeExpiredAuthTokens_def Let_def keeps_same)
next
  case (CompleteLogin clock now new token j secret)
  then show ?thesis
    by (auto simp: kept_acc_def createSession_Some hash_of_write keeps_same dest!: CompleteMFALogin_Inr split: sum.splits)
qed (use assms in \<open>auto simp: kept_def kept_opt_def kept_acc_def CreateInvite_Some DeleteInvite_def LinkOAuthIdentity_def hash_of_write
      CreateOAuthState_def ConsumeBoundOAuthState_def CreateAPIToken_def Let_def DeleteAPITokenByID_def drop_token_def UpdateAPIToken_def
      TouchAPIToken_def write_token_def CreatePasswordResetToken_Some CreateAuthenticatedSession_Inr CreateAuthenticatedMFAChallenge_Inr
      createSession_Some createMFAChallenge_Some DeleteSessionReturningUserID_def UpdateUserPermissions_Inr keeps_same
      dest!: link_pair split: sum.splits option.splits prod.splits if_splits\<close>)


lemma hash_in_next: "acc_ok acc \<Longrightarrow> hash_of i acc \<noteq> None \<Longrightarrow> i < ac_next acc"
  by (auto simp: hash_of_def acc_ok_def users_ok_def user_ok_def dest: user_byD)

fun gives_hash :: "door_op \<Rightarrow> string option" where
  "gives_hash (ChangePassword clock now hash token i current new session) = Some hash"
| "gives_hash (SetPassword hash i new) = Some hash"
| "gives_hash (UseReset clock now hash new token password) = Some hash"
| "gives_hash _ = None"

text \<open>What a step that sets a password does: it sets that of one user, ends what that user holds, and may open one session.\<close>

definition password_set :: "string option \<Rightarrow> nat \<Rightarrow> string \<Rightarrow> account_db \<Rightarrow> account_db \<Rightarrow> bool" where
  "password_set opened j h acc acc' \<longleftrightarrow> (\<forall>i. hash_of i acc' = (if i = j then map_option (\<lambda>_. h) (hash_of i acc) else hash_of i acc))
     \<and> ac_next acc' = ac_next acc
     \<and> (\<forall>x \<in> set (ac_sessions acc'). se_user x = j \<longrightarrow> opened = Some (se_hash x))
     \<and> j \<notin> ch_user ` set (ac_challenges acc') \<and> j \<notin> rs_user ` set (ac_resets acc')"

lemma sets_password_set:
  assumes "sets_password e" "door_inv db"
  shows "door_write sha check fs e db = db
    \<or> (\<exists>j h. gives_hash e = Some h \<and> password_set (map_option sha (opens e)) j h (dr_accounts db) (dr_accounts (door_write sha check fs e db)))"
proof (cases e)
  case (ChangePassword clock now hash token i current new session)
  show ?thesis
  proof (cases "ChangeUserPasswordWithSession sha check clock now hash token i current new session (dr_accounts db)")
    case (Inl x)
    with ChangePassword show ?thesis by (simp add: kept_acc_def)
  next
    case (Inr r)
    then obtain q acc' where r: "changeUserPassword sha check clock now hash token i current new session (dr_accounts db) = Inr (q, acc')"
      "session \<noteq> []" "r = (q, acc')" by (cases r) (simp add: ChangeUserPasswordWithSession_Inr)
    from changeUserPassword_Inr [OF r(1)] r(2) obtain s where
      s: "createSession sha clock token i (revokeCredentialArtifacts i (write_user i (fresh_password hash) (dr_accounts db))) = Some (s, acc')"
      by (auto simp: Let_def)
    have "password_set (map_option sha (opens e)) i hash (dr_accounts db) acc'"
      using s ChangePassword by (auto simp: password_set_def createSession_Some revokeCredentialArtifacts_def)
    with ChangePassword Inr r(3) show ?thesis by (auto simp: kept_acc_def)
  qed
next
  case (SetPassword hash i new)
  show ?thesis
  proof (cases "AdminSetPassword hash i new (dr_accounts db)")
    case (Inl x)
    with SetPassword show ?thesis by simp
  next
    case (Inr acc)
    then have "password_set (map_option sha (opens e)) i hash (dr_accounts db) acc"
      by (auto simp: AdminSetPassword_Inr password_set_def revokeCredentialArtifacts_def)
    with SetPassword Inr show ?thesis by auto
  qed
next
  case (UseReset clock now hash new token password)
  show ?thesis
  proof (cases "\<exists>u s acc'. UsePasswordResetTokenWithSession sha clock now hash new token password (dr_accounts db) = Inr (Some (u, s, acc'))")
    case True
    then obtain u q acc' where r: "UsePasswordResetTokenWithSession sha clock now hash new token password (dr_accounts db) = Inr (Some (u, q, acc'))"
      by blast
    from usePasswordResetToken_Inr [OF r [unfolded UsePasswordResetTokenWithSession_def] door_inv_acc [OF assms(2)]] obtain j s where
      s: "createSession sha clock new j (revokeCredentialArtifacts j (write_user j (\<lambda>u. (fresh_password hash u)\<lparr>us_mfa := False, us_secret := None\<rparr>)
        (dr_accounts db))) = Some (s, acc')" by auto
    have "password_set (map_option sha (opens e)) j hash (dr_accounts db) acc'"
      using s UseReset by (auto simp: password_set_def createSession_Some revokeCredentialArtifacts_def)
    with UseReset r show ?thesis by auto
  next
    case False
    with UseReset show ?thesis by (auto split: sum.splits option.splits)
  qed
qed (use assms in auto)

lemma hash_step:
  assumes "door_inv db" "i < ac_next (dr_accounts db)"
  shows "(hash_of i (dr_accounts (door_write sha check fs e db)) \<in> {None, hash_of i (dr_accounts db)} \<union> Some ` set_option (gives_hash e))
    \<and> i < ac_next (dr_accounts (door_write sha check fs e db))"
proof (cases "sets_password e")
  case True
  let ?acc = "dr_accounts (door_write sha check fs e db)"
  from sets_password_set [OF True assms(1), of sha check fs] consider "door_write sha check fs e db = db"
    | j h where "gives_hash e = Some h" "hash_of i ?acc = (if i = j then map_option (\<lambda>_. h) (hash_of i (dr_accounts db)) else hash_of i (dr_accounts db))"
      "ac_next ?acc = ac_next (dr_accounts db)"
    unfolding password_set_def by blast
  then show ?thesis using assms(2) by cases (auto split: if_splits)
next
  case False
  from password_kept [OF this, of i db sha check fs] show ?thesis using assms(2) by (auto simp: keeps_def)
qed

lemma old_hash_gone:
  assumes "door_inv (dd_db d)" "i < ac_next (dr_accounts (dd_db d))" "hash_of i (dr_accounts (dd_db d)) \<noteq> Some h"
    "\<forall>f \<in> set es. gives_hash f \<noteq> Some h"
  shows "hash_of i (dr_accounts (dd_db (foldl (door_step sha check totp) d es))) \<noteq> Some h"
  using assms
proof (induction es arbitrary: d)
  case (Cons e es)
  let ?d = "door_step sha check totp d e"
  have "hash_of i (dr_accounts (dd_db ?d)) \<noteq> Some h" "i < ac_next (dr_accounts (dd_db ?d))"
    using hash_step [OF Cons.prems(1,2), of sha check "dd_factors d" e] Cons.prems(3,4) by (auto simp: door_step_def)
  moreover have "door_inv (dd_db ?d)" using Cons.prems(1) by (rule doors.step_inv)
  ultimately have "hash_of i (dr_accounts (dd_db (foldl (door_step sha check totp) ?d es))) \<noteq> Some h"
    using Cons.prems(4) by (intro Cons.IH) auto
  then show ?case by simp
qed simp

text \<open>
C26: A login that was checked against an old password comes to nothing: once the password of a user is another than the one
a login was checked against, no later step issues a session or a challenge on that login, whatever happens in between, as
long as no new password gets the old hash again.
\<close>

theorem stale_login_refused:
  assumes "d = door_run sha check totp projects es" "user_by (us_id u) (dr_accounts (dd_db d)) = Some v" "us_hash v \<noteq> us_hash u"
    and "\<forall>f \<in> set later. gives_hash f \<noteq> Some (us_hash u)"
  shows "withAuthenticatedUser u issue (dr_accounts (dd_db (foldl (door_step sha check totp) d later))) = Inl AuthenticationChanged"
proof -
  have inv: "door_inv (dd_db d)" unfolding assms(1) by (rule door_run_inv)
  have h: "hash_of (us_id u) (dr_accounts (dd_db d)) = Some (us_hash v)" using assms(2) by (simp add: hash_of_def)
  have "hash_of (us_id u) (dr_accounts (dd_db (foldl (door_step sha check totp) d later))) \<noteq> Some (us_hash u)"
    using hash_in_next [OF door_inv_acc [OF inv], of "us_id u"] h assms(3,4) by (intro old_hash_gone [OF inv]) auto
  then show ?thesis by (auto simp: withAuthenticatedUser_def hash_of_def split: option.splits)
qed

text \<open>A token that no session has stays without one until a step opens a session with it.\<close>

definition opens_other :: "(string \<Rightarrow> string) \<Rightarrow> string \<Rightarrow> door_op \<Rightarrow> bool" where
  "opens_other sha t e \<longleftrightarrow> (case opens e of None \<Rightarrow> True | Some t' \<Rightarrow> sha t' \<noteq> sha t)"

lemma closed_stays:
  assumes "door_inv (dd_db d)" "sha t \<notin> se_hash ` sessions (dd_db d)" "\<forall>f \<in> set es. opens_other sha t f"
  shows "sha t \<notin> se_hash ` sessions (dd_db (foldl (door_step sha check totp) d es))"
  using assms
proof (induction es arbitrary: d)
  case (Cons e es)
  let ?d = "door_step sha check totp d e"
  have "sha t \<notin> se_hash ` sessions (dd_db ?d)"
  proof
    assume "sha t \<in> se_hash ` sessions (dd_db ?d)"
    then obtain s where s: "s \<in> sessions (door_write sha check (dd_factors d) e (dd_db d))" "se_hash s = sha t" by (auto simp: door_step_def)
    with Cons.prems(2) have "s \<notin> sessions (dd_db d)" by force
    from new_session [OF s(1) this Cons.prems(1)] s(2) Cons.prems(3) show False by (auto simp: opens_other_def)
  qed
  moreover have "door_inv (dd_db ?d)" using Cons.prems(1) by (rule doors.step_inv)
  ultimately show ?case using Cons.prems(3) Cons.IH [of ?d] by simp
qed simp

text \<open>
C9: A changed password logs out: when a step gives an existing user another password, by a change, by an administrator or
by a reset link, then no token of a session the user had authenticates anyone afterwards, whatever happens, as long as no
new session gets a token with the same hash.
\<close>

theorem password_change_logs_out:
  assumes "d = door_run sha check totp projects es" "d' = door_step sha check totp d e"
    and "user_by i (dr_accounts (dd_db d)) = Some u" "user_by i (dr_accounts (dd_db d')) = Some v" "us_hash v \<noteq> us_hash u"
    and "x \<in> set (ac_sessions (dr_accounts (dd_db d)))" "se_user x = i" "se_hash x = sha t" "\<forall>f \<in> set (e # later). opens_other sha t f"
  shows "GetSessionIdentity sha now t (dr_accounts (dd_db (foldl (door_step sha check totp) d' later))) = None"
proof -
  let ?db = "dd_db d" and ?db' = "dd_db d'"
  have inv: "door_inv ?db" unfolding assms(1) by (rule door_run_inv)
  have d': "?db' = door_write sha check (dd_factors d) e ?db" by (simp add: assms(2) door_step_def)
  have h: "hash_of i (dr_accounts ?db) = Some (us_hash u)" "hash_of i (dr_accounts ?db') = Some (us_hash v)"
    using assms(3,4) by (simp_all add: hash_of_def)
  then have "i < ac_next (dr_accounts ?db)" using hash_in_next [OF door_inv_acc [OF inv]] by simp
  then have "sets_password e" using password_kept [of e i ?db sha check "dd_factors d"] h assms(5) by (auto simp: keeps_def d')
  from sets_password_set [OF this inv, of sha check "dd_factors d"] h assms(5) obtain j q where
    p: "password_set (map_option sha (opens e)) j q (dr_accounts ?db) (dr_accounts ?db')" unfolding d' by auto
  then have j: "j = i" using h assms(5) by (auto simp: password_set_def split: if_splits)
  have "sha t \<notin> se_hash ` sessions ?db'"
  proof
    assume "sha t \<in> se_hash ` sessions ?db'"
    then obtain s where s: "s \<in> sessions ?db'" "se_hash s = sha t" by auto
    have other: "map_option sha (opens e) \<noteq> Some (sha t)" using assms(9) by (auto simp: opens_other_def)
    then have "se_user s \<noteq> i" using p s by (auto simp: password_set_def j sessions_def)
    moreover have "s \<in> sessions ?db"
    proof (rule ccontr)
      assume "s \<notin> sessions ?db"
      from new_session [OF s(1) [unfolded d'] this inv] s(2) other show False by auto
    qed
    moreover have "inj_on se_hash (sessions ?db)"
      using inv by (simp add: door_inv_def acc_ok_def artifacts_ok_def distinct_map sessions_def)
    ultimately have "s = x" using s(2) assms(6,8) by (auto simp: sessions_def intro: inj_onD)
    with \<open>se_user s \<noteq> i\<close> assms(7) show False by simp
  qed
  moreover have "door_inv ?db'" unfolding d' using inv by (rule door_write_inv)
  ultimately have "sha t \<notin> se_hash ` sessions (dd_db (foldl (door_step sha check totp) d' later))"
    using assms(9) by (intro closed_stays) auto
  then have "live_session sha now t (dr_accounts (dd_db (foldl (door_step sha check totp) d' later))) = None"
    unfolding live_session_def find_None_iff sessions_def by (metis imageI)
  then show ?thesis by (simp add: GetSessionIdentity_def)
qed

section \<open>At least one manager\<close>

definition managed :: "account_db \<Rightarrow> bool" where "managed acc \<longleftrightarrow> (\<exists>u \<in> set (ac_users acc). pm_users (us_perms u))"

lemma managed_write: "(\<And>u. pm_users (us_perms u) \<Longrightarrow> pm_users (us_perms (f u))) \<Longrightarrow> managed acc \<Longrightarrow> managed (write_user i f acc)"
proof -
  assume f: "\<And>u. pm_users (us_perms u) \<Longrightarrow> pm_users (us_perms (f u))" and "managed acc"
  then obtain u where u: "u \<in> set (ac_users acc)" "pm_users (us_perms u)" by (auto simp: managed_def)
  have "(if us_id u = i then f u else u) \<in> set (ac_users (write_user i f acc))" using u(1) by (simp add: write_user_def)
  moreover have "pm_users (us_perms (if us_id u = i then f u else u))" using u(2) f by simp
  ultimately show ?thesis unfolding managed_def by blast
qed

lemma managed_artifacts [simp]: "managed (acc\<lparr>ac_sessions := x\<rparr>) = managed acc" "managed (acc\<lparr>ac_challenges := c\<rparr>) = managed acc"
  "managed (acc\<lparr>ac_resets := r\<rparr>) = managed acc" "managed (revokeCredentialArtifacts j acc) = managed acc"
  "managed (count_challenge h acc) = managed acc"
  by (simp_all add: managed_def revokeCredentialArtifacts_def count_challenge_def)

lemma managed_insert: "insert_user now email name hash perms acc = Some (u, acc') \<Longrightarrow> managed acc \<Longrightarrow> managed acc'"
  using insert_user_Some [of now email name hash perms acc u acc'] by (auto simp: managed_def)

lemma managed_create: "createUser now hash email password acc = Inr (u, acc') \<Longrightarrow> managed acc \<Longrightarrow> managed acc'"
  "CreateAdminUser now hash email name password acc = Inr (u, acc') \<Longrightarrow> managed acc \<Longrightarrow> managed acc'"
  by (auto simp: createUser_def CreateAdminUser_def dest: managed_insert split: option.splits)

lemma count_failure_perms [simp]: "us_perms (count_failure now u) = us_perms u" "us_perms (fresh_password h u) = us_perms u"
  by (simp_all add: count_failure_def fresh_password_def)

lemma managed_kept [intro]: "managed acc \<Longrightarrow> managed (auth_record now v j acc)" "managed acc \<Longrightarrow> managed (DisableMFA j acc)"
  "managed acc \<Longrightarrow> managed (RecordMFAFailure sha now token j acc)" "managed acc \<Longrightarrow> managed (snd (SetPendingMFASecret now j secret active acc))"
  "managed acc \<Longrightarrow> managed (snd (ConfirmMFA now j secret acc))" "managed acc \<Longrightarrow> managed (UpdateUserWeeklyDigest j b acc)"
  "managed acc \<Longrightarrow> managed (MarkDigestSent now j acc)"
  by (simp_all add: auth_record_def DisableMFA_def RecordMFAFailure_def Let_def SetPendingMFASecret_def ConfirmMFA_def UpdateUserWeeklyDigest_def
      MarkDigestSent_def managed_write split: verdict.split)

text \<open>The guard lets the last manager neither go nor lose the permission.\<close>

lemma other_manager:
  assumes "users_ok acc" "managed acc" "\<not> guardLastUserManager i acc"
  shows "\<exists>u \<in> set (ac_users acc). pm_users (us_perms u) \<and> us_id u \<noteq> i"
proof (rule ccontr)
  assume "\<not> ?thesis"
  then have one: "\<forall>u \<in> set (filter (\<lambda>u. pm_users (us_perms u)) (ac_users acc)). us_id u = i" by auto
  obtain u us where us: "filter (\<lambda>u. pm_users (us_perms u)) (ac_users acc) = u # us"
    using assms(2) by (cases "filter (\<lambda>u. pm_users (us_perms u)) (ac_users acc)") (auto simp: managed_def filter_empty_conv)
  have "distinct (map us_id (u # us))" unfolding us [symmetric] using assms(1) by (simp add: users_ok_def distinct_map_filter)
  with one have "us = []" unfolding us by (cases us) auto
  with one us have "map us_id (filter (\<lambda>u. pm_users (us_perms u)) (ac_users acc)) = [i]" by simp
  with assms(3) show False by (simp add: guardLastUserManager_def)
qed

lemma managed_step:
  assumes "door_inv db" "managed (dr_accounts db)"
  shows "managed (dr_accounts (door_write sha check fs e db))"
proof (cases e)
  case (SsoLogin now p s raw verified limit)
  with assms(2) show ?thesis by (auto simp: kept_def dest!: FindOrCreate_Inr admit_Inr dest: managed_insert split: sum.splits)
next
  case (AddAdmin now hash email name password)
  with assms(2) show ?thesis by (auto simp: kept_acc_def dest: managed_create split: sum.splits)
next
  case (AcceptInvite clock now later hash new token password name limit)
  have "managed (dr_accounts db')"
    if a: "AcceptInviteWithSession sha clock now later hash new token password name limit db = Inr (Some (u, s', db'))" for u s' db'
  proof -
    from AcceptInvite_Inr [OF a] obtain v :: invite and u0 acc acc1 acc2 where
      d: "createUser later hash (iv_email v) password (dr_accounts db) = Inr (u0, acc)"
        "acc1 = acc \<or> (\<exists>n. acc1 = write_user (us_id u0) (\<lambda>u. u\<lparr>us_name := n\<rparr>) acc)"
        "createSession sha clock new (us_id u0) acc1 = Some (s', acc2)" "db' = (accept_invite (iv_id v) later db)\<lparr>dr_accounts := acc2\<rparr>"
      by blast
    have "managed acc" using managed_create(1) [OF d(1)] assms(2) .
    then have "managed acc1" using d(2) by (auto intro: managed_write)
    with d(3,4) show ?thesis by (simp add: createSession_Some)
  qed
  with AcceptInvite assms(2) show ?thesis by (auto split: sum.splits option.splits)
next
  case (DeleteAccount j)
  have "managed acc" if "DeleteUser j (dr_accounts db) = Inr (b, acc)" for b acc
    using other_manager [of "dr_accounts db" j] that assms by (auto simp: DeleteUser_Inr managed_def door_inv_def acc_ok_def)
  with DeleteAccount assms(2) show ?thesis by (auto simp: kept_def delete_user_Inr split: sum.splits)
next
  case (SetPerms j perms)
  have "managed acc" if "UpdateUserPermissions j perms (dr_accounts db) = Inr (b, acc)" for b acc
  proof (cases "pm_users perms")
    case True
    with that assms(2) show ?thesis by (auto simp: UpdateUserPermissions_Inr intro: managed_write)
  next
    case False
    with that other_manager [of "dr_accounts db" j] assms
    obtain u where u: "u \<in> set (ac_users (dr_accounts db))" "pm_users (us_perms u)" "us_id u \<noteq> j"
      by (auto simp: UpdateUserPermissions_Inr door_inv_def acc_ok_def)
    have "acc = write_user j (\<lambda>u. u\<lparr>us_perms := perms\<rparr>) (dr_accounts db)" using that by (simp add: UpdateUserPermissions_Inr)
    with u show ?thesis by (force simp: managed_def write_user_def)
  qed
  with SetPerms assms(2) show ?thesis by (auto simp: kept_acc_def split: sum.splits)
next
  case (SetProfile j name email tz)
  with assms(2) show ?thesis by (auto simp: kept_acc_def UpdateUserProfile_def Let_def managed_write split: sum.splits if_splits)
next
  case (PurgeExpired now)
  with assms(2) show ?thesis by (simp add: purgeExpiredAuthTokens_def Let_def managed_def)
next
  case (CompleteLogin clock now new token j secret)
  with assms(2) show ?thesis
    by (auto simp: kept_acc_def createSession_Some managed_write dest!: CompleteMFALogin_Inr split: sum.splits)
next
  case (ChangePassword clock now hash token i current new session)
  with assms(2) show ?thesis
    by (auto simp: kept_acc_def ChangeUserPasswordWithSession_Inr createSession_Some Let_def managed_write
        dest!: changeUserPassword_Inr split: sum.splits if_splits)
next
  case (SetPassword hash i new)
  with assms(2) show ?thesis by (auto simp: AdminSetPassword_Inr managed_write split: sum.splits)
next
  case (UseReset clock now hash new token password)
  with assms(2) show ?thesis
    by (auto simp: UsePasswordResetTokenWithSession_def createSession_Some managed_write
        dest!: usePasswordResetToken_Inr [OF _ door_inv_acc [OF assms(1)]] split: sum.splits option.splits)
qed (use assms in \<open>auto simp: kept_def kept_opt_def kept_acc_def CreateInvite_Some DeleteInvite_def LinkOAuthIdentity_def
      CreateOAuthState_def ConsumeBoundOAuthState_def CreateAPIToken_def Let_def DeleteAPITokenByID_def drop_token_def UpdateAPIToken_def
      TouchAPIToken_def write_token_def CreatePasswordResetToken_Some CreateAuthenticatedSession_Inr CreateAuthenticatedMFAChallenge_Inr
      createSession_Some createMFAChallenge_Some DeleteSessionReturningUserID_def
      dest!: link_pair split: sum.splits option.splits prod.splits if_splits\<close>)

text \<open>
C27: Someone can always manage the users: once there is a user with the permission to do so, there is one after every
further history, whatever users are deleted and whatever permissions are changed.
\<close>

theorem manager_stays:
  assumes "managed (dr_accounts (dd_db (door_run sha check totp projects es)))"
  shows "managed (dr_accounts (dd_db (door_run sha check totp projects (es @ later))))"
  using assms
proof (induction later rule: rev_induct)
  case (snoc e later)
  then show ?case using managed_step [OF door_run_inv, of sha check totp projects "es @ later"]
    by (simp add: door_run_def door_step_def)
qed simp

section \<open>Links that work once\<close>

definition open_invite :: "string \<Rightarrow> door_db \<Rightarrow> bool" where
  "open_invite h db \<longleftrightarrow> (\<exists>v \<in> set (dr_invites db). iv_hash v = h \<and> iv_accepted v = None)"

lemma open_invite_accept: "open_invite h (accept_invite i now db) \<Longrightarrow> open_invite h db"
  by (auto simp: open_invite_def accept_invite_def split: if_splits)

lemma open_invite_accounts [simp]: "open_invite h (db\<lparr>dr_accounts := acc\<rparr>) = open_invite h db"
  "open_invite h (db\<lparr>dr_identities := x\<rparr>) = open_invite h db" "open_invite h (db\<lparr>dr_states := st\<rparr>) = open_invite h db"
  "open_invite h (db\<lparr>dr_tokens := ts\<rparr>) = open_invite h db" "open_invite h (db\<lparr>dr_next := n\<rparr>) = open_invite h db"
  by (simp_all add: open_invite_def)

lemma open_invite_link: "open_invite h (snd (link_identity i p s m db)) = open_invite h db"
  by (simp add: link_identity_def split: option.splits)

lemma link_invites: "link_identity i p s m db = (j, db') \<Longrightarrow> open_invite h db' = open_invite h db"
  using open_invite_link [of h i p s m db] by simp

lemma admit_open: "admit now email limit db = Inr (i, db') \<Longrightarrow> open_invite h db' \<Longrightarrow> open_invite h db"
  by (drule admit_Inr) (auto dest: open_invite_accept)

definition sends_other :: "(string \<Rightarrow> string) \<Rightarrow> string \<Rightarrow> door_op \<Rightarrow> bool" where
  "sends_other sha t e \<longleftrightarrow> (case e of SendInvite clock now token inviter email name \<Rightarrow> sha token \<noteq> sha t | _ \<Rightarrow> True)"

lemma closed_invite_step:
  assumes "sends_other sha t e" "\<not> open_invite (sha t) db"
  shows "\<not> open_invite (sha t) (door_write sha check fs e db)"
proof (cases e)
  case (SendInvite clock now token inviter email name)
  with assms show ?thesis by (auto simp: sends_other_def kept_opt_def CreateInvite_Some open_invite_def split: option.splits)
next
  case (SsoLogin now p s raw verified limit)
  with assms(2) show ?thesis
    by (auto simp: kept_def open_invite_link dest!: FindOrCreate_Inr dest: admit_open split: sum.splits)
next
  case (AcceptInvite clock now later hash new token password name limit)
  with assms(2) show ?thesis by (auto dest!: AcceptInvite_Inr dest: open_invite_accept split: sum.splits option.splits)
next
  case (DeleteAccount j)
  with assms(2) show ?thesis by (auto simp: kept_def delete_user_Inr open_invite_def split: sum.splits if_splits)
next
  case (PurgeExpired now)
  with assms(2) show ?thesis by (auto simp: purgeExpiredAuthTokens_def Let_def open_invite_def purgeExpiredTokenTable_def)
qed (use assms in \<open>auto simp: kept_def kept_opt_def kept_acc_def DeleteInvite_def LinkOAuthIdentity_def open_invite_def
      CreateOAuthState_def ConsumeBoundOAuthState_def CreateAPIToken_def Let_def DeleteAPITokenByID_def drop_token_def UpdateAPIToken_def
      TouchAPIToken_def write_token_def link_identity_def split: sum.splits option.splits prod.splits if_splits\<close>)

lemma closed_invite_run:
  "\<forall>f \<in> set es. sends_other sha t f \<Longrightarrow> \<not> open_invite (sha t) (dd_db d) \<Longrightarrow> \<not> open_invite (sha t) (dd_db (foldl (door_step sha check totp) d es))"
  by (induction es arbitrary: d) (simp_all add: door_step_def closed_invite_step)

lemma GetInvite_open: "GetInvite sha now t db = Some v \<Longrightarrow> open_invite (sha t) db"
  by (auto simp: GetInvite_def open_invite_def pending_invite_def dest!: find_SomeD)

text \<open>
An invitation works once: after it has been accepted, nobody else can look it up or accept it, whatever happens, as
long as no new invitation gets a token with the same hash.
\<close>

theorem invite_works_once:
  assumes "d = door_run sha check totp projects es"
    and "AcceptInviteWithSession sha clock now later hash new t password name limit (dd_db d) = Inr (Some r)"
    and "d' = door_step sha check totp d (AcceptInvite clock now later hash new t password name limit)"
    and "\<forall>f \<in> set fs. sends_other sha t f"
  shows "GetInvite sha now' t (dd_db (foldl (door_step sha check totp) d' fs)) = None"
proof -
  obtain u s db' where r: "r = (u, s, db')" by (cases r)
  have d': "dd_db d' = db'" using assms(2,3) r by (simp add: door_step_def)
  have inv: "door_inv (dd_db d)" unfolding assms(1) by (rule door_run_inv)
  from AcceptInvite_Inr [OF assms(2) [unfolded r]] obtain v :: invite and acc2 where
    v: "GetInvite sha later t (dd_db d) = Some v" "db' = (accept_invite (iv_id v) later (dd_db d))\<lparr>dr_accounts := acc2\<rparr>" by blast
  have m: "v \<in> set (dr_invites (dd_db d))" "iv_hash v = sha t" using v(1) by (auto simp: GetInvite_def dest: find_SomeD)
  have "inj_on iv_hash (set (dr_invites (dd_db d)))" using inv by (simp add: door_inv_def doors_ok_def distinct_map)
  then have "w = v" if "w \<in> set (dr_invites (dd_db d))" "iv_hash w = sha t" for w using that m by (metis inj_onD)
  then have "\<not> open_invite (sha t) db'" by (auto simp: v(2) open_invite_def accept_invite_def split: if_splits)
  then have "\<not> open_invite (sha t) (dd_db (foldl (door_step sha check totp) d' fs))"
    using closed_invite_run [OF assms(4)] d' by simp
  then show ?thesis using GetInvite_open by (metis option.exhaust)
qed

definition asks_other :: "(string \<Rightarrow> string) \<Rightarrow> string \<Rightarrow> door_op \<Rightarrow> bool" where
  "asks_other sha t e \<longleftrightarrow> (case e of AskReset now token i \<Rightarrow> sha token \<noteq> sha t | _ \<Rightarrow> True)"

definition resets :: "account_db \<Rightarrow> string set" where "resets acc = rs_hash ` set (ac_resets acc)"

lemma resets_sel [simp]: "resets (write_user i f acc) = resets acc" "resets (acc\<lparr>ac_sessions := x\<rparr>) = resets acc"
  "resets (acc\<lparr>ac_challenges := c\<rparr>) = resets acc" "resets (count_challenge h acc) = resets acc"
  by (simp_all add: resets_def count_challenge_def)

lemma resets_kept [simp]: "resets (auth_record now v j acc) = resets acc" "resets (DisableMFA j acc) = resets acc"
  "resets (RecordMFAFailure sha now token j acc) = resets acc" "resets (snd (SetPendingMFASecret now j secret active acc)) = resets acc"
  "resets (snd (ConfirmMFA now j secret acc)) = resets acc" "resets (UpdateUserWeeklyDigest j b acc) = resets acc"
  "resets (MarkDigestSent now j acc) = resets acc"
  by (simp_all add: auth_record_def DisableMFA_def RecordMFAFailure_def Let_def SetPendingMFASecret_def ConfirmMFA_def UpdateUserWeeklyDigest_def
      MarkDigestSent_def split: verdict.split)

lemma resets_revoke: "resets (revokeCredentialArtifacts i acc) \<subseteq> resets acc"
  by (auto simp: resets_def revokeCredentialArtifacts_def)

lemma resets_insert: "insert_user now email name hash perms acc = Some (u, acc') \<Longrightarrow> resets acc' = resets acc"
  by (auto simp: resets_def dest: insert_user_Some)

lemma resets_create: "createUser now hash email password acc = Inr (u, acc') \<Longrightarrow> resets acc' = resets acc"
  "CreateAdminUser now hash email name password acc = Inr (u, acc') \<Longrightarrow> resets acc' = resets acc"
  by (auto simp: createUser_def CreateAdminUser_def dest: resets_insert split: option.splits)

lemma closed_reset_step:
  assumes "asks_other sha t e" "sha t \<notin> resets (dr_accounts db)" "door_inv db"
  shows "sha t \<notin> resets (dr_accounts (door_write sha check fs e db))"
proof (cases e)
  case (AskReset now token i)
  with assms(1,2) show ?thesis by (auto simp: asks_other_def CreatePasswordResetToken_Some resets_def split: option.splits)
next
  case (SsoLogin now p s raw verified limit)
  with assms(2) show ?thesis by (auto simp: kept_def dest!: FindOrCreate_Inr admit_Inr dest: resets_insert split: sum.splits)
next
  case (AddAdmin now hash email name password)
  with assms(2) show ?thesis by (auto simp: kept_acc_def dest: resets_create split: sum.splits)
next
  case (AcceptInvite clock now later hash new token password name limit)
  with assms(2) show ?thesis
    by (auto simp: createSession_Some dest!: AcceptInvite_Inr resets_create split: sum.splits option.splits)
next
  case (DeleteAccount j)
  with assms(2) show ?thesis by (auto simp: kept_def delete_user_Inr DeleteUser_Inr resets_def revokeCredentialArtifacts_def split: sum.splits)
next
  case (PurgeExpired now)
  with assms(2) show ?thesis by (auto simp: purgeExpiredAuthTokens_def Let_def resets_def purgeExpiredTokenTable_def)
next
  case (ChangePassword clock now hash token i current new session)
  with assms(2) resets_revoke show ?thesis
    by (fastforce simp: kept_acc_def ChangeUserPasswordWithSession_Inr createSession_Some Let_def
        dest!: changeUserPassword_Inr split: sum.splits if_splits)
next
  case (UseReset clock now hash new token password)
  with assms(2) resets_revoke show ?thesis
    by (fastforce simp: UsePasswordResetTokenWithSession_def createSession_Some
        dest!: usePasswordResetToken_Inr [OF _ door_inv_acc [OF assms(3)]] split: sum.splits option.splits)
next
  case (SetPassword hash i new)
  with assms(2) resets_revoke show ?thesis by (fastforce simp: AdminSetPassword_Inr split: sum.splits)
next
  case (CompleteLogin clock now new token j secret)
  with assms(2) show ?thesis by (auto simp: kept_acc_def createSession_Some dest!: CompleteMFALogin_Inr split: sum.splits)
next
  case (SetProfile j name email tz)
  with assms(2) show ?thesis by (auto simp: kept_acc_def UpdateUserProfile_def Let_def split: sum.splits if_splits)
qed (use assms in \<open>auto simp: kept_def kept_opt_def kept_acc_def CreateInvite_Some DeleteInvite_def LinkOAuthIdentity_def
      CreateOAuthState_def ConsumeBoundOAuthState_def CreateAPIToken_def Let_def DeleteAPITokenByID_def drop_token_def UpdateAPIToken_def
      TouchAPIToken_def write_token_def CreateAuthenticatedSession_Inr CreateAuthenticatedMFAChallenge_Inr UpdateUserPermissions_Inr
      createSession_Some createMFAChallenge_Some DeleteSessionReturningUserID_def
      dest!: link_pair split: sum.splits option.splits prod.splits if_splits\<close>)

lemma closed_reset_run:
  "\<forall>f \<in> set es. asks_other sha t f \<Longrightarrow> sha t \<notin> resets (dr_accounts (dd_db d)) \<Longrightarrow> door_inv (dd_db d)
    \<Longrightarrow> sha t \<notin> resets (dr_accounts (dd_db (foldl (door_step sha check totp) d es)))"
proof (induction es arbitrary: d)
  case (Cons e es)
  let ?d = "door_step sha check totp d e"
  have "door_inv (dd_db ?d)" using Cons.prems(3) by (rule doors.step_inv)
  moreover have "sha t \<notin> resets (dr_accounts (dd_db ?d))" using Cons.prems by (simp add: door_step_def closed_reset_step)
  ultimately show ?case using Cons.prems(1) Cons.IH [of ?d] by simp
qed simp

text \<open>
C30: A reset link works once: after it has been used, it opens no account any more, whatever happens, as long as no new
link gets a token with the same hash.
\<close>

theorem reset_works_once:
  assumes "d = door_run sha check totp projects es"
    and "UsePasswordResetTokenWithSession sha clock now hash new t password (dr_accounts (dd_db d)) = Inr (Some r)"
    and "d' = door_step sha check totp d (UseReset clock now hash new t password)"
    and "\<forall>f \<in> set fs. asks_other sha t f"
  shows "UsePasswordResetTokenWithSession sha clock' now' hash' new' t password (dr_accounts (dd_db (foldl (door_step sha check totp) d' fs)))
    = Inr None"
proof -
  obtain u q acc where r: "r = (u, q, acc)" by (cases r)
  have inv: "door_inv (dd_db d)" unfolding assms(1) by (rule door_run_inv)
  have d': "dr_accounts (dd_db d') = acc" using assms(2,3) r by (simp add: door_step_def)
  from usePasswordResetToken_Inr [OF assms(2) [unfolded r UsePasswordResetTokenWithSession_def] door_inv_acc [OF inv]] obtain x s where
    x: "open_reset sha now t (dr_accounts (dd_db d)) = Some x" "length_error password = None"
      "createSession sha clock new (rs_user x) (revokeCredentialArtifacts (rs_user x) (write_user (rs_user x)
        (\<lambda>u. (fresh_password hash u)\<lparr>us_mfa := False, us_secret := None\<rparr>) (dr_accounts (dd_db d)))) = Some (s, acc)" by auto
  have m: "x \<in> set (ac_resets (dr_accounts (dd_db d)))" "rs_hash x = sha t" using x(1) by (auto simp: open_reset_def dest: find_SomeD)
  have "inj_on rs_hash (set (ac_resets (dr_accounts (dd_db d))))"
    using inv by (simp add: door_inv_def acc_ok_def artifacts_ok_def distinct_map)
  then have "w = x" if "w \<in> set (ac_resets (dr_accounts (dd_db d)))" "rs_hash w = sha t" for w using that m by (metis inj_onD)
  then have "sha t \<notin> resets acc" using x(3) by (auto simp: createSession_Some resets_def revokeCredentialArtifacts_def)
  then have "sha t \<notin> resets (dr_accounts (dd_db (foldl (door_step sha check totp) d' fs)))"
    using closed_reset_run [OF assms(4)] d' doors.step_inv [OF inv] assms(3) by simp
  then have "open_reset sha now' t (dr_accounts (dd_db (foldl (door_step sha check totp) d' fs))) = None"
    unfolding open_reset_def find_None_iff resets_def by (metis imageI)
  then show ?thesis using x(2) by (simp add: UsePasswordResetTokenWithSession_def usePasswordResetToken_def)
qed

section \<open>Identities\<close>

lemma identity_of_cong [simp]: "identity_of p s (db\<lparr>dr_accounts := acc\<rparr>) = identity_of p s db" "identity_of p s (db\<lparr>dr_invites := v\<rparr>) = identity_of p s db"
  "identity_of p s (db\<lparr>dr_states := st\<rparr>) = identity_of p s db" "identity_of p s (db\<lparr>dr_tokens := ts\<rparr>) = identity_of p s db"
  "identity_of p s (db\<lparr>dr_next := n\<rparr>) = identity_of p s db" "identity_of p s (accept_invite i now db) = identity_of p s db"
  by (simp_all add: identity_of_def accept_invite_def)

lemma link_keeps: "identity_of p s db = Some x \<Longrightarrow> identity_of p s (snd (link_identity i q r m db)) = Some x"
  by (simp add: link_identity_def identity_of_def find_append split: option.splits)

lemma admit_identities: "admit now email limit db = Inr (i, db') \<Longrightarrow> identity_of p s db' = identity_of p s db"
  by (drule admit_Inr) auto

lemma find_filter_keep: "find P xs = Some x \<Longrightarrow> Q x \<Longrightarrow> find P (filter Q xs) = Some x"
  by (induction xs) (auto split: if_splits)

lemma identity_step:
  assumes "identity_of p s db = Some x" "e \<noteq> DeleteAccount (oi_user x)"
  shows "identity_of p s (door_write sha check fs e db) = Some x"
proof (cases e)
  case (LinkIdentity i q r)
  with assms(1) link_keeps [OF assms(1)] show ?thesis
    by (auto simp: LinkOAuthIdentity_def split: sum.splits option.splits if_splits prod.splits) (metis snd_conv)
next
  case (SsoLogin now q r raw verified limit)
  with assms(1) show ?thesis
    by (auto simp: kept_def admit_identities intro!: link_keeps dest!: FindOrCreate_Inr split: sum.splits)
next
  case (DeleteAccount j)
  have "identity_of p s (db\<lparr>dr_identities := filter (\<lambda>x. oi_user x \<noteq> j) (dr_identities db)\<rparr>) = Some x"
    using assms DeleteAccount by (simp add: identity_of_def find_filter_keep)
  with DeleteAccount assms(1) show ?thesis by (auto simp: kept_def delete_user_Inr identity_of_def split: sum.splits)
next
  case (AcceptInvite clock now later hash new token password name limit)
  with assms(1) show ?thesis by (auto dest!: AcceptInvite_Inr split: sum.splits option.splits)
next
  case (PurgeExpired now)
  with assms(1) show ?thesis by (simp add: purgeExpiredAuthTokens_def Let_def)
qed (use assms in \<open>auto simp: kept_def kept_opt_def kept_acc_def CreateInvite_Some DeleteInvite_def identity_of_def
      CreateOAuthState_def ConsumeBoundOAuthState_def CreateAPIToken_def Let_def DeleteAPITokenByID_def drop_token_def UpdateAPIToken_def
      TouchAPIToken_def write_token_def split: sum.splits option.splits prod.splits if_splits\<close>)

text \<open>
An identity never changes hands: once a subject of a sign-in provider is linked to a user, it stays linked to that user
as long as the user is not deleted, whatever logins and links of the same subject are tried.
\<close>

theorem identity_never_moves:
  assumes "identity_of p s (dd_db d) = Some x" "\<forall>e \<in> set es. e \<noteq> DeleteAccount (oi_user x)"
  shows "identity_of p s (dd_db (foldl (door_step sha check totp) d es)) = Some x"
  using assms
proof (induction es arbitrary: d)
  case (Cons e es)
  then have "identity_of p s (dd_db (door_step sha check totp d e)) = Some x" by (simp add: door_step_def identity_step)
  with Cons show ?case by simp
qed simp

section \<open>New accounts\<close>

definition unlimited :: "nat \<Rightarrow> door_db \<Rightarrow> bool" where
  "unlimited limit db \<longleftrightarrow> limit = 0 \<or> length (ac_users (dr_accounts db)) < limit"

lemma unlimited_iff: "\<not> limit_reached limit db \<longleftrightarrow> unlimited limit db"
  by (auto simp: limit_reached_def unlimited_def CountUsers_def)

text \<open>What has to be the case for a step to make the account \<open>u\<close>.\<close>

fun admitted :: "(string \<Rightarrow> string) \<Rightarrow> door_op \<Rightarrow> user \<Rightarrow> door_db \<Rightarrow> bool" where
  "admitted sha (AddAdmin now hash email name password) u db = True"
| "admitted sha (AcceptInvite clock now later hash new token password name limit) u db =
     (unlimited limit db \<and> (case GetInvite sha later token db of None \<Rightarrow> False | Some v \<Rightarrow> us_email u = lower (iv_email v)))"
| "admitted sha (SsoLogin now p s raw verified limit) u db =
     (verified \<and> unlimited limit db \<and> us_email u = lower (trim_space raw) \<and> HasPendingInvite now (us_email u) db
      \<and> us_hash u = [] \<and> us_perms u = no_perms)"
| "admitted sha e u db = False"

lemma ids_write: "(\<And>u. us_id (f u) = us_id u) \<Longrightarrow> ids (write_user i f acc) = ids acc"
  by (simp add: ids_def write_user_ids)

lemma invite_for_pending: "invite_for now email db = Some v \<Longrightarrow> lower email = email \<Longrightarrow> HasPendingInvite now email db"
proof -
  assume a: "invite_for now email db = Some v" "lower email = email"
  let ?vs = "filter (\<lambda>v. lower (iv_email v) = email \<and> pending_invite now v) (dr_invites db)"
  obtain us where e: "sort_key iv_created (sort_key iv_id ?vs) = v # us" using a(1) by (auto simp: invite_for_def split: list.splits)
  have "v \<in> set (sort_key iv_created (sort_key iv_id ?vs))" unfolding e by simp
  then show ?thesis using a(2) by (auto simp: HasPendingInvite_def list_ex_iff)
qed

lemma new_account:
  assumes "door_inv db" "u \<in> set (ac_users (dr_accounts (door_write sha check fs e db)))" "us_id u \<notin> ids (dr_accounts db)"
  shows "admitted sha e u db"
proof -
  let ?acc = "dr_accounts (door_write sha check fs e db)"
  have i: "us_id u \<in> ids ?acc" using assms(2) by (simp add: ids_def)
  note acc = door_inv_acc [OF assms(1)]
  show ?thesis
  proof (cases e)
    case (SsoLogin now p s raw verified limit)
    show ?thesis
    proof (cases "FindOrCreateOAuthUser now p s raw verified limit db")
      case (Inl x)
      with SsoLogin i assms(3) show ?thesis by (simp add: kept_def)
    next
      case (Inr r)
      then obtain w db' where r: "FindOrCreateOAuthUser now p s raw verified limit db = Inr (w, db')" "r = (w, db')" by (cases r) simp
      have a: "?acc = dr_accounts db'" using SsoLogin r by (simp add: kept_def)
      from FindOrCreate_Inr [OF r(1)] i assms(3) a obtain j db1 where
        d: "verified" "admit now (lower (trim_space raw)) limit db = Inr (j, db1)" "dr_accounts db' = dr_accounts db1" by auto
      from admit_Inr [OF d(2)] i assms(3) a d(3) obtain v :: invite and n w' acc' where
        n: "invite_for now (lower (trim_space raw)) db = Some v" "\<not> limit_reached limit db"
          "insert_user now (lower (trim_space raw)) n [] no_perms (dr_accounts db) = Some (w', acc')" "dr_accounts db1 = acc'" by auto
      note w' = insert_user_Some [OF n(3)]
      have "u = w'" using w' assms(2,3) a d(3) n(4) by (auto simp: ids_def)
      with w' d(1) n(1,2) invite_for_pending [OF n(1)] SsoLogin show ?thesis by (simp add: unlimited_iff)
    qed
  next
    case (AcceptInvite clock now later hash new token password name limit)
    show ?thesis
    proof (cases "\<exists>w s db'. AcceptInviteWithSession sha clock now later hash new token password name limit db = Inr (Some (w, s, db'))")
      case False
      with AcceptInvite i assms(3) show ?thesis by (auto split: sum.splits option.splits)
    next
      case True
      then obtain w s db' where r: "AcceptInviteWithSession sha clock now later hash new token password name limit db = Inr (Some (w, s, db'))" by blast
      from AcceptInvite_Inr [OF r] obtain v :: invite and u0 acc0 acc1 acc2 where
        d: "GetInvite sha later token db = Some v" "\<not> limit_reached limit db"
          "createUser later hash (iv_email v) password (dr_accounts db) = Inr (u0, acc0)"
          "acc1 = acc0 \<or> (\<exists>n. acc1 = write_user (us_id u0) (\<lambda>u. u\<lparr>us_name := n\<rparr>) acc0)"
          "createSession sha clock new (us_id u0) acc1 = Some (s, acc2)" "db' = (accept_invite (iv_id v) later db)\<lparr>dr_accounts := acc2\<rparr>"
        by blast
      obtain ps where ps: "insert_user later (lower (iv_email v)) [] hash ps (dr_accounts db) = Some (u0, acc0)"
        using d(3) by (auto simp: createUser_def split: option.splits)
      have u: "u \<in> set (ac_users acc1)" using assms(2) AcceptInvite r d(5,6) by (auto simp: createSession_Some)
      obtain x where x: "x \<in> set (ac_users acc0)" "us_id u = us_id x" "us_email u = us_email x"
        using u d(4) by (auto simp: write_user_def split: if_splits)
      have "x \<notin> set (ac_users (dr_accounts db))"
      proof
        assume "x \<in> set (ac_users (dr_accounts db))"
        then have "us_id x \<in> ids (dr_accounts db)" by (simp add: ids_def)
        with x(2) assms(3) show False by simp
      qed
      with x have "us_email u = us_email u0" using insert_user_Some [OF ps] by auto
      with insert_user_Some [OF ps] d(1,2) AcceptInvite show ?thesis by (simp add: unlimited_iff)
    qed
  next
    case (DeleteAccount j)
    have "ids a \<subseteq> ids (dr_accounts db)" if "DeleteUser j (dr_accounts db) = Inr (b, a)" for a b
      using delete_ok [OF that acc] by blast
    with DeleteAccount i assms(3) show ?thesis by (auto simp: kept_def delete_user_Inr split: sum.splits) blast
  next
    case (AskReset now token j)
    with i assms(3) show ?thesis by (auto simp: CreatePasswordResetToken_Some split: option.splits)
  next
    case (SetPassword hash j new)
    with i assms(3) show ?thesis by (auto dest: AdminSetPassword_ok [OF _ acc] split: sum.splits)
  next
    case (UseReset clock now hash new token password)
    with i assms(3) show ?thesis by (auto dest: UsePasswordReset_ok [OF _ acc] split: sum.splits option.splits)
  next
    case (PurgeExpired now)
    with i assms(3) show ?thesis by (simp add: purgeExpiredAuthTokens_def Let_def)
  qed (use i assms(3) in \<open>auto simp: kept_def kept_opt_def kept_acc_def CreateInvite_Some DeleteInvite_def LinkOAuthIdentity_def
      CreateOAuthState_def ConsumeBoundOAuthState_def CreateAPIToken_def Let_def DeleteAPITokenByID_def drop_token_def UpdateAPIToken_def
      TouchAPIToken_def write_token_def auth_record_ok RecordMFAFailure_ok DisableMFA_ok stage_ok confirm_ok logout_ok
      UpdateUserWeeklyDigest_def MarkDigestSent_def ids_write
      dest: CreateAuthenticatedSession_ok [OF _ acc] CreateAuthenticatedMFAChallenge_ok [OF _ acc] CompleteMFALogin_ok [OF _ acc]
        ChangeUserPasswordWithSession_ok [OF _ acc] perms_ok [OF _ acc] profile_ok [OF _ acc]
      dest!: link_pair split: sum.splits option.splits prod.splits if_splits\<close>)
qed

text \<open>
C13: Nobody gets in uninvited: an account that a step makes is made on the command line, or by accepting an invitation to
its address while there is room, or by the first login of a verified address at a provider that an open invitation
names, while there is room; the last has neither a password nor any permission.
\<close>

theorem accounts_by_invitation:
  assumes "d = door_run sha check totp projects es" "d' = door_step sha check totp d e"
    and "u \<in> set (ac_users (dr_accounts (dd_db d')))" "us_id u \<notin> us_id ` set (ac_users (dr_accounts (dd_db d)))"
  shows "admitted sha e u (dd_db d)"
  using new_account [OF door_run_inv, of u sha check "dd_factors d" e sha check totp projects es] assms
  by (simp add: door_step_def ids_def)

section \<open>Instances\<close>

text \<open>
  A history the claims are applied to: hashes and codes are plain texts, so that it can be evaluated. An administrator is
  made, logs in, enrols a second factor and logs in with it.
\<close>

definition plain :: "string \<Rightarrow> string" where "plain t = t"

definition same :: "string \<Rightarrow> string \<Rightarrow> bool" where "same h p \<longleftrightarrow> h = p"

abbreviation demo_run :: "door_op list \<Rightarrow> door" where "demo_run es \<equiv> door_run plain same same [''p''] es"

definition last_first :: "door \<Rightarrow> user" where
  "last_first d = (case last (dd_factors d) of FirstFactor u \<Rightarrow> u | _ \<Rightarrow> last (ac_users (dr_accounts (dd_db d))))"

definition enrolled :: "door_op list" where
  "enrolled = [AddAdmin 0 ''secret-secret'' ''a@x'' ''A'' ''secret-secret'', PasswordLogin 0 ''a@x'' ''secret-secret'', StageFactor 0 0 ''123'' None,
     ConfirmFactor 0 0 ''123'', PasswordLogin 0 ''a@x'' ''secret-secret'']"

definition challenged :: "door_op list" where
  "challenged = enrolled @ [IssueChallenge 0 ''c'' (last_first (demo_run enrolled)), CheckCode 1 ''c'' ''123'']"

definition verified :: door where "verified = demo_run challenged"

definition finish_op :: door_op where "finish_op = CompleteLogin 2 2 ''s'' ''c'' 0 ''123''"

definition logged_in :: door where "logged_in = door_step plain same same verified finish_op"

definition new_row :: session_row where "new_row = last (ac_sessions (dr_accounts (dd_db logged_in)))"

definition its_user :: user where "its_user = last (ac_users (dr_accounts (dd_db logged_in)))"

lemma new_row_new: "new_row \<in> set (ac_sessions (dr_accounts (dd_db logged_in)))" "new_row \<notin> set (ac_sessions (dr_accounts (dd_db verified)))"
  "user_by (se_user new_row) (dr_accounts (dd_db logged_in)) = Some its_user" "us_mfa its_user"
  by code_simp+

lemma mfa_never_bypassed_witness:
  "(\<exists>clock now new token secret. finish_op = CompleteLogin clock now new token (se_user new_row) secret \<and> us_secret its_user = Some secret
       \<and> (\<exists>t tok code. CheckCode t tok code \<in> set challenged \<and> same code secret))
    \<or> (\<exists>clock now hash token current new cs. finish_op = ChangePassword clock now hash token (se_user new_row) current new cs
       \<and> (\<exists>x \<in> set (ac_sessions (dr_accounts (dd_db verified))). se_hash x = plain cs \<and> se_user x = se_user new_row \<and> live now (se_expires x)))"
  by (rule mfa_never_bypassed [OF verified_def logged_in_def new_row_new])

definition joined :: "door_op list" where
  "joined = [AddAdmin 0 ''secret-secret'' ''a@x'' ''A'' ''secret-secret'', PasswordLogin 0 ''a@x'' ''secret-secret'']"

definition old_login :: user where "old_login = last_first (demo_run joined)"

definition new_password :: door_op where "new_password = SetPassword ''other-other-1'' 0 ''other-other-1''"

definition changed :: door where "changed = demo_run (joined @ [new_password])"

lemma old_login_stale: "user_by (us_id old_login) (dr_accounts (dd_db changed)) = Some (last (ac_users (dr_accounts (dd_db changed))))"
  "us_hash (last (ac_users (dr_accounts (dd_db changed)))) \<noteq> us_hash old_login"
  by code_simp+

lemma stale_login_refused_witness:
  "withAuthenticatedUser old_login (\<lambda>db. Inr ((), db))
     (dr_accounts (dd_db (foldl (door_step plain same same) changed [IssueSession 3 ''t'' old_login]))) = Inl AuthenticationChanged"
  by (rule stale_login_refused [OF changed_def old_login_stale]) simp

definition in_session :: "door_op list" where "in_session = joined @ [IssueSession 0 ''t'' old_login]"

definition open_door :: door where "open_door = demo_run in_session"

definition shut_door :: door where "shut_door = door_step plain same same open_door new_password"

lemma shut_door_facts: "user_by 0 (dr_accounts (dd_db open_door)) = Some (last (ac_users (dr_accounts (dd_db open_door))))"
  "user_by 0 (dr_accounts (dd_db shut_door)) = Some (last (ac_users (dr_accounts (dd_db shut_door))))"
  "us_hash (last (ac_users (dr_accounts (dd_db shut_door)))) \<noteq> us_hash (last (ac_users (dr_accounts (dd_db open_door))))"
  "last (ac_sessions (dr_accounts (dd_db open_door))) \<in> set (ac_sessions (dr_accounts (dd_db open_door)))"
  "se_user (last (ac_sessions (dr_accounts (dd_db open_door)))) = 0" "se_hash (last (ac_sessions (dr_accounts (dd_db open_door)))) = plain ''t''"
  by code_simp+

lemma password_change_logs_out_witness:
  "GetSessionIdentity plain 5 ''t'' (dr_accounts (dd_db (foldl (door_step plain same same) shut_door [PasswordLogin 4 ''a@x'' ''secret-secret'']))) = None"
  by (rule password_change_logs_out [OF open_door_def shut_door_def shut_door_facts]) (simp add: opens_other_def new_password_def)

lemma manager_stays_witness:
  "managed (dr_accounts (dd_db (door_run plain same same [''p''] (joined @ [SetPerms 0 no_perms, DeleteAccount 0]))))"
  by (rule manager_stays) code_simp

definition invited :: "door_op list" where
  "invited = [AddAdmin 0 ''secret-secret'' ''a@x'' ''A'' ''secret-secret'', SendInvite 0 0 ''inv'' (Some 0) ''b@x'' []]"

definition waiting :: door where "waiting = demo_run invited"

definition accepted :: "(door_error + (user \<times> session_row \<times> door_db) option)" where
  "accepted = AcceptInviteWithSession plain 1 1 1 ''second-secret'' ''s2'' ''inv'' ''second-secret'' [] 5 (dd_db waiting)"

lemma accepted_ok: "AcceptInviteWithSession plain 1 1 1 ''second-secret'' ''s2'' ''inv'' ''second-secret'' [] 5 (dd_db waiting)
    = Inr (Some (the (projr accepted)))"
  by code_simp

lemma invite_works_once_witness:
  "GetInvite plain 3 ''inv'' (dd_db (foldl (door_step plain same same)
     (door_step plain same same waiting (AcceptInvite 1 1 1 ''second-secret'' ''s2'' ''inv'' ''second-secret'' [] 5))
     [DropInvite 7, AcceptInvite 2 2 2 ''third--secret'' ''s3'' ''inv'' ''third--secret'' [] 5])) = None"
  by (rule invite_works_once [OF waiting_def accepted_ok refl]) (simp add: sends_other_def)

definition forgetful :: door where "forgetful = demo_run (joined @ [AskReset 0 ''r'' 0])"

lemma reset_ok: "UsePasswordResetTokenWithSession plain 1 1 ''fresh-secret'' ''s2'' ''r'' ''fresh-secret'' (dr_accounts (dd_db forgetful))
    = Inr (Some (the (projr (UsePasswordResetTokenWithSession plain 1 1 ''fresh-secret'' ''s2'' ''r'' ''fresh-secret'' (dr_accounts (dd_db forgetful))))))"
  by code_simp

lemma reset_works_once_witness:
  "UsePasswordResetTokenWithSession plain 2 2 ''third-secret'' ''s3'' ''r'' ''fresh-secret'' (dr_accounts (dd_db (foldl (door_step plain same same)
     (door_step plain same same forgetful (UseReset 1 1 ''fresh-secret'' ''s2'' ''r'' ''fresh-secret'')) [AskReset 2 ''q'' 0]))) = Inr None"
  by (rule reset_works_once [OF forgetful_def reset_ok refl]) (simp add: asks_other_def plain_def)

definition linked :: door where "linked = demo_run (joined @ [LinkIdentity 0 ''gh'' ''42''])"

lemma linked_ok: "identity_of ''gh'' ''42'' (dd_db linked) = Some (last (dr_identities (dd_db linked)))"
  by code_simp

lemma identity_never_moves_witness:
  "identity_of ''gh'' ''42'' (dd_db (foldl (door_step plain same same) linked
     [AddAdmin 0 ''second-secret'' ''b@x'' ''B'' ''second-secret'', LinkIdentity 1 ''gh'' ''42'', DeleteAccount 1]))
   = Some (last (dr_identities (dd_db linked)))"
proof (rule identity_never_moves [OF linked_ok])
  have "oi_user (last (dr_identities (dd_db linked))) = 0" by code_simp
  then show "\<forall>e \<in> set [AddAdmin 0 ''second-secret'' ''b@x'' ''B'' ''second-secret'', LinkIdentity 1 ''gh'' ''42'', DeleteAccount 1].
     e \<noteq> DeleteAccount (oi_user (last (dr_identities (dd_db linked))))" by simp
qed

definition sso_op :: door_op where "sso_op = SsoLogin 1 ''gh'' ''7'' '' B@x'' True 5"

definition let_in :: door where "let_in = door_step plain same same waiting sso_op"

lemma let_in_new: "last (ac_users (dr_accounts (dd_db let_in))) \<in> set (ac_users (dr_accounts (dd_db let_in)))"
  "us_id (last (ac_users (dr_accounts (dd_db let_in)))) \<notin> us_id ` set (ac_users (dr_accounts (dd_db waiting)))"
  by code_simp+

lemma accounts_by_invitation_witness: "admitted plain sso_op (last (ac_users (dr_accounts (dd_db let_in)))) (dd_db waiting)"
  by (rule accounts_by_invitation [OF waiting_def let_in_def let_in_new])

end
