(* ===== verification/Guessing.thy ===== *)
theory Guessing
  imports Account_Inv
begin

text \<open>
  How many passwords and codes can be tried: the counters of failed attempts in \<open>AuthenticateUser\<close> and
  \<open>RecordMFAFailure\<close>, for attempts that follow one another.
\<close>

section \<open>Guessing a password\<close>












section \<open>Guessing a code\<close>



lemma user_by_acc [simp]: "user_by i (acc\<lparr>ac_challenges := c\<rparr>) = user_by i acc" "user_by i (acc\<lparr>ac_sessions := x\<rparr>) = user_by i acc"
  "user_by i (count_challenge h acc) = user_by i acc"
  by (simp_all add: user_by_def count_challenge_def)














section \<open>Instances\<close>









end
