(* ===== verification/Json.thy ===== *)
theory Json
  imports Payload Sanitize "HOL-Library.List_Lexorder" "HOL-Library.Char_ord"
begin

text \<open>
  The JSON text itself, as far as the code relies on encoding/json: the scanner and the values \<open>Unmarshal\<close> and
  \<open>Decoder.Decode\<close> read, \<open>Marshal\<close> of decoded values, and the facts that tie them together:
  what is written is read back, and everything that is read can be written. Numbers are kept as their text, which is what
  \<open>json.Number\<close> and \<open>json.RawMessage\<close> do.
\<close>

section \<open>Reading\<close>

definition quote :: char where "quote = CHR 0x22"

definition json_space :: "char \<Rightarrow> bool" where
  "json_space c \<longleftrightarrow> c = CHR 0x20 \<or> c = CHR 0x09 \<or> c = CHR 0x0A \<or> c = CHR 0x0D"

definition skip_space :: "string \<Rightarrow> string" where "skip_space = dropWhile json_space"

text \<open>After the opening quote: the text up to the closing quote, and what follows it.\<close>

fun scan_string :: "string \<Rightarrow> (string \<times> string) option" where
  "scan_string [] = None"
| "scan_string (c # s) =
     (if c = quote then Some ([], s)
      else if c = backslash then
        (case s of
           [] \<Rightarrow> None
         | e # t \<Rightarrow>
             if e = CHR ''u'' then
               if 4 \<le> length t \<and> list_all hex_char (take 4 t)
               then map_option (\<lambda>(b, r). (c # e # take 4 t @ b, r)) (scan_string (drop 4 t)) else None
             else if e \<in> set (quote # backslash # ''/bfnrt'')
             then map_option (\<lambda>(b, r). (c # e # b, r)) (scan_string t) else None)
      else if (of_char c :: nat) < 0x20 then None
      else map_option (\<lambda>(b, r). (c # b, r)) (scan_string s))"

definition scan_int :: "string \<Rightarrow> (string \<times> string) option" where
  "scan_int s = (case s of [] \<Rightarrow> None
     | c # t \<Rightarrow> if c = CHR ''0'' then Some ([c], t)
                else if is_digit c then Some (takeWhile is_digit s, dropWhile is_digit s) else None)"

definition scan_digits :: "string \<Rightarrow> (string \<times> string) option" where
  "scan_digits s = (if takeWhile is_digit s = [] then None else Some (takeWhile is_digit s, dropWhile is_digit s))"

definition scan_fraction :: "string \<Rightarrow> (string \<times> string) option" where
  "scan_fraction s = (case s of c # t \<Rightarrow> if c = CHR ''.'' then map_option (\<lambda>(d, r). (c # d, r)) (scan_digits t) else Some ([], s)
     | [] \<Rightarrow> Some ([], s))"

definition scan_exponent :: "string \<Rightarrow> (string \<times> string) option" where
  "scan_exponent s = (case s of [] \<Rightarrow> Some ([], s)
     | c # t \<Rightarrow>
         if c = CHR ''e'' \<or> c = CHR ''E'' then
           (case t of
              x # u \<Rightarrow> if x = CHR ''+'' \<or> x = CHR ''-'' then map_option (\<lambda>(d, r). (c # x # d, r)) (scan_digits u)
                       else map_option (\<lambda>(d, r). (c # d, r)) (scan_digits t)
            | [] \<Rightarrow> None)
         else Some ([], s))"

definition scan_unsigned :: "string \<Rightarrow> (string \<times> string) option" where
  "scan_unsigned s =
     Option.bind (scan_int s) (\<lambda>(a, r). Option.bind (scan_fraction r) (\<lambda>(b, r).
       map_option (\<lambda>(c, r). (a @ b @ c, r)) (scan_exponent r)))"

definition scan_number :: "string \<Rightarrow> (string \<times> string) option" where
  "scan_number s = (case s of [] \<Rightarrow> None
     | c # t \<Rightarrow> if c = CHR ''-'' then map_option (\<lambda>(d, r). (c # d, r)) (scan_unsigned t) else scan_unsigned s)"

text \<open>The bytes of a code point (utf8.AppendRune); the halves of a pair and what is no code point give U+FFFD.\<close>

definition surrogate :: "nat \<Rightarrow> bool" where "surrogate u \<longleftrightarrow> 0xD800 \<le> u \<and> u < 0xE000"

definition encode_rune :: "nat \<Rightarrow> string" where
  "encode_rune u =
     (if u < 0x80 then [char_of u]
      else if u < 0x800 then [char_of (0xC0 + u div 64), char_of (0x80 + u mod 64)]
      else if surrogate u \<or> 0x110000 \<le> u then replacement
      else if u < 0x10000 then [char_of (0xE0 + u div 4096), char_of (0x80 + u div 64 mod 64), char_of (0x80 + u mod 64)]
      else [char_of (0xF0 + u div 262144), char_of (0x80 + u div 4096 mod 64), char_of (0x80 + u div 64 mod 64),
            char_of (0x80 + u mod 64)])"

definition hex4 :: "string \<Rightarrow> nat" where "hex4 = foldl (\<lambda>a c. 16 * a + hex_value c) 0"

text \<open>The second half of a pair, when it follows as an escape (getu4 and utf16.DecodeRune).\<close>

definition low_half :: "nat \<Rightarrow> string \<Rightarrow> nat option" where
  "low_half u s =
     (if u < 0xDC00 \<and> take 2 s = [backslash, CHR ''u''] \<and> 6 \<le> length s \<and> list_all hex_char (take 4 (drop 2 s))
         \<and> 0xDC00 \<le> hex4 (take 4 (drop 2 s)) \<and> hex4 (take 4 (drop 2 s)) < 0xE000
      then Some (0x10000 + (u - 0xD800) * 0x400 + (hex4 (take 4 (drop 2 s)) - 0xDC00)) else None)"

text \<open>What the text of a string stands for (unquoteBytes).\<close>

function unquote :: "string \<Rightarrow> string" where
  "unquote [] = []"
| "unquote (c # s) =
     (if c = backslash then
        (case s of
           [] \<Rightarrow> []
         | e # t \<Rightarrow>
             if e = CHR ''u'' then
               if surrogate (hex4 (take 4 t)) then
                 (case low_half (hex4 (take 4 t)) (drop 4 t) of
                    Some v \<Rightarrow> encode_rune v @ unquote (drop 10 t)
                  | None \<Rightarrow> replacement @ unquote (drop 4 t))
               else encode_rune (hex4 (take 4 t)) @ unquote (drop 4 t)
             else char_of (simple_escape e) # unquote t)
      else if rune_size (c # s) = 0 then replacement @ unquote s
      else take (rune_size (c # s)) (c # s) @ unquote (drop (rune_size (c # s)) (c # s)))"
  by pat_completeness auto
termination
proof (relation "measure length")
  fix c :: char and s :: string
  assume "rune_size (c # s) \<noteq> 0"
  then show "(drop (rune_size (c # s)) (c # s), c # s) \<in> measure length" by simp
qed auto

text \<open>The value, the levels of nesting left (maxNestingDepth) and what follows the value.\<close>

definition maxNestingDepth :: int where "maxNestingDepth = 10000"

definition consumed :: "string \<Rightarrow> string \<Rightarrow> string" where "consumed s r = take (length s - length r) s"

fun parse_value :: "nat \<Rightarrow> int \<Rightarrow> string \<Rightarrow> (json \<times> string) option"
  and parse_items :: "nat \<Rightarrow> int \<Rightarrow> string \<Rightarrow> (json list \<times> string) option"
  and parse_members :: "nat \<Rightarrow> int \<Rightarrow> string \<Rightarrow> ((string \<times> json) list \<times> string) option" where
  "parse_value 0 d s = None"
| "parse_value (Suc f) d s =
     (case s of [] \<Rightarrow> None
      | c # t \<Rightarrow>
          if c = CHR ''{'' then
            if d \<le> 0 then None
            else if take 1 (skip_space t) = ''}'' then Some (JObj (consumed s (drop 1 (skip_space t))) [], drop 1 (skip_space t))
            else map_option (\<lambda>(ms, r). (JObj (consumed s r) ms, r)) (parse_members f (d - 1) (skip_space t))
          else if c = CHR ''['' then
            if d \<le> 0 then None
            else if take 1 (skip_space t) = '']'' then Some (JArr (consumed s (drop 1 (skip_space t))) [], drop 1 (skip_space t))
            else map_option (\<lambda>(xs, r). (JArr (consumed s r) xs, r)) (parse_items f (d - 1) (skip_space t))
          else if c = quote then map_option (\<lambda>(b, r). (JStr (consumed s r) (unquote b), r)) (scan_string t)
          else if has_prefix ''null'' s then Some (JNull, drop 4 s)
          else if has_prefix ''true'' s then Some (JBool True, drop 4 s)
          else if has_prefix ''false'' s then Some (JBool False, drop 5 s)
          else map_option (\<lambda>(n, r). (JNum n, r)) (scan_number s))"
| "parse_items 0 d s = None"
| "parse_items (Suc f) d s =
     Option.bind (parse_value f d s) (\<lambda>(v, r).
       case skip_space r of [] \<Rightarrow> None
       | c # t \<Rightarrow> if c = CHR '']'' then Some ([v], t)
                  else if c = CHR '','' then map_option (\<lambda>(vs, r). (v # vs, r)) (parse_items f d (skip_space t))
                  else None)"
| "parse_members 0 d s = None"
| "parse_members (Suc f) d s =
     (case s of [] \<Rightarrow> None
      | q # s \<Rightarrow>
          if q \<noteq> quote then None
          else Option.bind (scan_string s) (\<lambda>(k, r).
            case skip_space r of [] \<Rightarrow> None
            | c # t \<Rightarrow>
                if c \<noteq> CHR '':'' then None
                else Option.bind (parse_value f d (skip_space t)) (\<lambda>(v, r).
                  case skip_space r of [] \<Rightarrow> None
                  | c # t \<Rightarrow> if c = CHR ''}'' then Some ([(unquote k, v)], t)
                             else if c = CHR '','' then map_option (\<lambda>(ms, r). ((unquote k, v) # ms, r)) (parse_members f d (skip_space t))
                             else None)))"

text \<open>The first value of a text (\<open>Decoder.Decode\<close>), and a text that is one value (\<open>Unmarshal\<close>).\<close>

definition read_value :: "string \<Rightarrow> (json \<times> string) option" where
  "read_value s = parse_value (2 * length s + 1) maxNestingDepth (skip_space s)"

definition decode_first :: "string \<Rightarrow> json option" where "decode_first s = map_option fst (read_value s)"

definition decode_all :: "string \<Rightarrow> json option" where
  "decode_all s = Option.bind (read_value s) (\<lambda>(j, r). if skip_space r = [] then Some j else None)"

section \<open>Scanning and fuel\<close>

text \<open>What a scanner returns is a split of the text.\<close>

lemma skip_space_length: "length (skip_space s) \<le> length s"
  by (simp add: skip_space_def length_dropWhile_le)

lemma scan_string_split: "scan_string s = Some (b, r) \<Longrightarrow> s = b @ quote # r"
proof (induction s arbitrary: b r rule: scan_string.induct)
  case (2 c s)
  show ?case
  proof (cases "c = backslash")
    case False
    with 2(3) 2(4) show ?thesis by (auto split: if_splits)
  next
    case True
    then obtain e t where s: "s = e # t" using 2(4) by (cases s) (auto simp: quote_def backslash_def)
    show ?thesis
    proof (cases "e = CHR ''u''")
      case u: True
      with 2(4) True s obtain b' where "scan_string (drop 4 t) = Some (b', r)" "b = c # e # take 4 t @ b'"
        by (auto simp: quote_def backslash_def split: if_splits)
      then show ?thesis using 2(1) [OF _ True s u, of b' r] 2(4) True s u
        by (auto simp: quote_def backslash_def split: if_splits) (metis append_take_drop_id)
    next
      case nu: False
      with 2(4) True s 2(2) [OF _ True s nu] show ?thesis
        by (auto simp: quote_def backslash_def split: if_splits)
    qed
  qed
qed simp

lemma takeWhile_is_digit: "takeWhile P s = d # ds \<Longrightarrow> s = d # ds @ dropWhile P s"
  by (metis append_Cons takeWhile_dropWhile_id)

lemma scan_digits_split: "scan_digits s = Some (d, r) \<Longrightarrow> s = d @ r \<and> d \<noteq> []"
  by (auto simp: scan_digits_def split: if_splits)

lemma scan_int_split: "scan_int s = Some (d, r) \<Longrightarrow> s = d @ r \<and> d \<noteq> []"
  by (auto simp: scan_int_def split: list.splits if_splits)

lemma scan_fraction_split: "scan_fraction s = Some (d, r) \<Longrightarrow> s = d @ r"
  by (auto simp: scan_fraction_def dest!: scan_digits_split split: list.splits if_splits)

lemma scan_exponent_split: "scan_exponent s = Some (d, r) \<Longrightarrow> s = d @ r"
  by (auto simp: scan_exponent_def dest!: scan_digits_split split: list.splits if_splits)

lemma scan_unsigned_split: "scan_unsigned s = Some (d, r) \<Longrightarrow> s = d @ r \<and> d \<noteq> []"
  by (auto simp: scan_unsigned_def bind_eq_Some_conv
      dest!: scan_int_split scan_fraction_split scan_exponent_split)

lemma scan_number_split: "scan_number s = Some (n, r) \<Longrightarrow> s = n @ r \<and> n \<noteq> []"
  by (auto simp: scan_number_def dest!: scan_unsigned_split split: list.splits if_splits)

lemma scan_string_shorter: "scan_string s = Some (b, r) \<Longrightarrow> length r < length s"
  by (drule scan_string_split) simp

lemma scan_number_shorter: "scan_number s = Some (n, r) \<Longrightarrow> length r < length s"
  by (drule scan_number_split) auto

lemma skip_tail: "skip_space r = c # t \<Longrightarrow> Suc (length t) \<le> length r"
  using skip_space_length [of r] by simp

lemma parse_items_cases:
  assumes "parse_items (Suc f) d s = Some (xs, r)"
  obtains (last) v u where "parse_value f d s = Some (v, u)" "skip_space u = CHR '']'' # r" "xs = [v]"
  | (more) v u t vs where "parse_value f d s = Some (v, u)" "skip_space u = CHR '','' # t"
      "parse_items f d (skip_space t) = Some (vs, r)" "xs = v # vs"
proof -
  from assms obtain v u where u: "parse_value f d s = Some (v, u)" by (auto simp: bind_eq_Some_conv)
  with assms show ?thesis by (cases "skip_space u") (auto split: if_splits intro: that)
qed

lemma parse_members_cases:
  assumes "parse_members (Suc f) d s = Some (ms, r)"
  obtains (last) s' k u t v w where "s = quote # s'" "scan_string s' = Some (k, u)" "skip_space u = CHR '':'' # t"
      "parse_value f d (skip_space t) = Some (v, w)" "skip_space w = CHR ''}'' # r" "ms = [(unquote k, v)]"
  | (more) s' k u t v w t' ms' where "s = quote # s'" "scan_string s' = Some (k, u)" "skip_space u = CHR '':'' # t"
      "parse_value f d (skip_space t) = Some (v, w)" "skip_space w = CHR '','' # t'"
      "parse_members f d (skip_space t') = Some (ms', r)" "ms = (unquote k, v) # ms'"
proof -
  from assms obtain s' where s: "s = quote # s'" by (auto split: list.splits if_splits)
  with assms obtain k u where k: "scan_string s' = Some (k, u)" by (auto simp: bind_eq_Some_conv)
  with assms s obtain t where t: "skip_space u = CHR '':'' # t" by (cases "skip_space u") (auto split: if_splits)
  with assms s k obtain v w where v: "parse_value f d (skip_space t) = Some (v, w)" by (auto simp: bind_eq_Some_conv)
  with assms s k t show ?thesis by (cases "skip_space w") (auto split: if_splits intro: that)
qed

lemma parse_value_cases:
  assumes "parse_value (Suc f) d s = Some (j, r)"
  obtains (obj0) t where "s = CHR ''{'' # t" "0 < d" "skip_space t = CHR ''}'' # r" "j = JObj (consumed s r) []"
  | (obj) t ms where "s = CHR ''{'' # t" "0 < d" "take 1 (skip_space t) \<noteq> ''}''"
      "parse_members f (d - 1) (skip_space t) = Some (ms, r)" "j = JObj (consumed s r) ms"
  | (arr0) t where "s = CHR ''['' # t" "0 < d" "skip_space t = CHR '']'' # r" "j = JArr (consumed s r) []"
  | (arr) t xs where "s = CHR ''['' # t" "0 < d" "take 1 (skip_space t) \<noteq> '']''"
      "parse_items f (d - 1) (skip_space t) = Some (xs, r)" "j = JArr (consumed s r) xs"
  | (str) t b where "s = quote # t" "scan_string t = Some (b, r)" "j = JStr (consumed s r) (unquote b)"
  | (null) "s = ''null'' @ r" "j = JNull"
  | (true) "s = ''true'' @ r" "j = JBool True"
  | (false) "s = ''false'' @ r" "j = JBool False"
  | (num) n c t where "s = c # t" "c \<notin> set (quote # ''{['')" "\<not> has_prefix ''null'' s" "\<not> has_prefix ''true'' s"
      "\<not> has_prefix ''false'' s" "scan_number s = Some (n, r)" "j = JNum n"
proof -
  from assms obtain c t where s: "s = c # t" by (cases s) auto
  note p = assms [unfolded s]
  consider "c = CHR ''{''" | "c = CHR ''[''" | "c = quote"
    | "c \<notin> set (quote # ''{['')" by auto
  then show ?thesis
  proof cases
    case 1
    then show ?thesis using p s obj0 obj
      by (cases "skip_space t") (auto split: if_splits)
  next
    case 2
    then show ?thesis using p s arr0 arr
      by (cases "skip_space t") (auto split: if_splits)
  next
    case 3
    then show ?thesis using p s str by (auto simp: quote_def split: if_splits)
  next
    case 4
    then show ?thesis using p s null true false num
      by (auto simp: has_prefix_iff split: if_splits)
  qed
qed

lemma parse_shorter:
  "(\<forall>d s j r. parse_value f d s = Some (j, r) \<longrightarrow> length r < length s) \<and>
   (\<forall>d s xs r. parse_items f d s = Some (xs, r) \<longrightarrow> length r < length s) \<and>
   (\<forall>d s ms r. parse_members f d s = Some (ms, r) \<longrightarrow> length r < length s)"
proof (induction f)
  case (Suc f)
  then have v: "\<And>d s j r. parse_value f d s = Some (j, r) \<Longrightarrow> length r < length s"
    and i: "\<And>d s xs r. parse_items f d s = Some (xs, r) \<Longrightarrow> length r < length s"
    and m: "\<And>d s ms r. parse_members f d s = Some (ms, r) \<Longrightarrow> length r < length s" by blast+
  have "length r < length s" if "parse_value (Suc f) d s = Some (j, r)" for d s j r
    using that
  proof (cases rule: parse_value_cases)
    case (obj0 t)
    then show ?thesis using skip_tail [of t] by simp
  next
    case (obj t ms)
    then show ?thesis using m [OF obj(4)] skip_space_length [of t] by simp
  next
    case (arr0 t)
    then show ?thesis using skip_tail [of t] by simp
  next
    case (arr t xs)
    then show ?thesis using i [OF arr(4)] skip_space_length [of t] by simp
  qed (auto dest: scan_string_shorter scan_number_shorter)
  moreover have "length r < length s" if "parse_items (Suc f) d s = Some (xs, r)" for d s xs r
    using that
  proof (cases rule: parse_items_cases)
    case (last w u)
    then show ?thesis using v [OF last(1)] skip_tail [OF last(2)] by simp
  next
    case (more w u t vs)
    then show ?thesis using v [OF more(1)] skip_tail [OF more(2)] i [OF more(3)] skip_space_length [of t] by simp
  qed
  moreover have "length r < length s" if "parse_members (Suc f) d s = Some (ms, r)" for d s ms r
    using that
  proof (cases rule: parse_members_cases)
    case (last s' k u t w x)
    then show ?thesis using scan_string_shorter [OF last(2)] skip_tail [OF last(3)] v [OF last(4)] skip_tail [OF last(5)]
      skip_space_length [of t] by simp
  next
    case (more s' k u t w x t' ms')
    then show ?thesis using scan_string_shorter [OF more(2)] skip_tail [OF more(3)] v [OF more(4)] skip_tail [OF more(5)]
      m [OF more(6)] skip_space_length [of t] skip_space_length [of t'] by simp
  qed
  ultimately show ?case by blast
qed simp

text \<open>Fuel that exceeds twice the length of the text is enough: more of it changes nothing.\<close>

lemmas value_shorter = parse_shorter [THEN conjunct1, rule_format]

lemma skip_skip: "skip_space s = c # t \<Longrightarrow> length (skip_space t) < length s"
  using skip_tail [of s c t] skip_space_length [of t] by simp

lemmas items_step = parse_items.simps(2) and members_step = parse_members.simps(2)

lemma parse_enough:
  "(\<forall>d s. 2 * length s < f \<longrightarrow> parse_value (Suc f) d s = parse_value f d s) \<and>
   (\<forall>d s. 2 * length s + 1 < f \<longrightarrow> parse_items (Suc f) d s = parse_items f d s) \<and>
   (\<forall>d s. 2 * length s + 1 < f \<longrightarrow> parse_members (Suc f) d s = parse_members f d s)"
proof (induction f)
  case (Suc f)
  have "parse_value (Suc (Suc f)) d s = parse_value (Suc f) d s" if l: "2 * length s < Suc f" for d s
  proof (cases s)
    case (Cons c t)
    have "2 * length (skip_space t) + 1 < f" using l Cons skip_space_length [of t] by simp
    with Suc have "parse_members (Suc f) (d - 1) (skip_space t) = parse_members f (d - 1) (skip_space t)"
      "parse_items (Suc f) (d - 1) (skip_space t) = parse_items f (d - 1) (skip_space t)" by blast+
    then show ?thesis unfolding Cons by (simp only: parse_value.simps list.case)
  qed simp
  moreover have "parse_items (Suc (Suc f)) d s = parse_items (Suc f) d s" if l: "2 * length s + 1 < Suc f" for d s
  proof -
    have v: "parse_value (Suc f) d s = parse_value f d s" using Suc l by simp
    show ?thesis
    proof (cases "parse_value f d s")
      case (Some p)
      obtain w u where p: "p = (w, u)" by (cases p)
      have "length u < length s" using Some p by (auto intro: value_shorter)
      then have "2 * length (skip_space t) + 1 < f" if "skip_space u = c # t" for c t
        using l skip_skip [OF that] by simp
      with Suc have "parse_items (Suc f) d (skip_space t) = parse_items f d (skip_space t)" if "skip_space u = c # t" for c t
        using that by blast
      then show ?thesis
        unfolding items_step [of "Suc f"] items_step [of f] v Some p
        by (auto simp del: parse_items.simps split: list.split)
    qed (simp only: items_step v bind.bind_lzero)
  qed
  moreover have "parse_members (Suc (Suc f)) d s = parse_members (Suc f) d s" if l: "2 * length s + 1 < Suc f" for d s
  proof (cases s)
    case (Cons q s')
    have "parse_value (Suc f) d (skip_space t) = parse_value f d (skip_space t)"
      "parse_value f d (skip_space t) = Some (w, x) \<Longrightarrow> skip_space x = c' # t' \<Longrightarrow>
       parse_members (Suc f) d (skip_space t') = parse_members f d (skip_space t')"
      if "scan_string s' = Some (k, u)" "skip_space u = c # t" for k u c t w x c' t'
    proof -
      have t: "length (skip_space t) < length u" "length u < length s'"
        using that scan_string_shorter by (auto intro: skip_skip)
      with Suc l Cons show "parse_value (Suc f) d (skip_space t) = parse_value f d (skip_space t)" by auto
      assume a: "parse_value f d (skip_space t) = Some (w, x)" "skip_space x = c' # t'"
      have "length (skip_space t') < length x" "length x < length (skip_space t)"
        using a value_shorter by (auto intro: skip_skip)
      with t Suc l Cons show "parse_members (Suc f) d (skip_space t') = parse_members f d (skip_space t')" by auto
    qed
    note e = this
    show ?thesis
    proof (cases "scan_string s'")
      case (Some p)
      obtain k u where p: "p = (k, u)" by (cases p)
      show ?thesis
      proof (cases "skip_space u")
        case [simp]: (Cons c t)
        note e = e [OF Some [unfolded p] Cons]
        show ?thesis
        proof (cases "parse_value f d (skip_space t)")
          case None
          then show ?thesis unfolding members_step [of "Suc f"] members_step [of f]
            by (simp add: \<open>s = q # s'\<close> Some p e(1) del: parse_members.simps parse_value.simps)
        next
          case (Some b)
          then obtain w x where b: "b = (w, x)" "parse_value f d (skip_space t) = Some (w, x)" by (cases b) auto
          show ?thesis using \<open>scan_string s' = Some p\<close> e(2) [OF b(2)]
            unfolding members_step [of "Suc f"] members_step [of f]
            by (auto simp: \<open>s = q # s'\<close> p e(1) b simp del: parse_members.simps parse_value.simps split: list.split)
        qed
      qed (simp add: \<open>s = q # s'\<close> Some p)
    qed (simp add: \<open>s = q # s'\<close>)
  qed simp
  ultimately show ?case by blast
qed simp

text \<open>The rules of the grammar, to read a text by.\<close>

declare parse_value.simps [simp del] parse_items.simps [simp del] parse_members.simps [simp del]

lemma not_prefix: "c \<noteq> x \<Longrightarrow> \<not> has_prefix (x # xs) (c # t)" by simp

lemma value_obj0: "0 < d \<Longrightarrow> skip_space t = CHR ''}'' # r \<Longrightarrow>
   parse_value (Suc f) d (CHR ''{'' # t) = Some (JObj (consumed (CHR ''{'' # t) r) [], r)"
  by (simp add: parse_value.simps)

lemma value_obj: "0 < d \<Longrightarrow> take 1 (skip_space t) \<noteq> ''}'' \<Longrightarrow> parse_members f (d - 1) (skip_space t) = Some (ms, r) \<Longrightarrow>
   parse_value (Suc f) d (CHR ''{'' # t) = Some (JObj (consumed (CHR ''{'' # t) r) ms, r)"
  by (simp add: parse_value.simps)

lemma value_arr0: "0 < d \<Longrightarrow> skip_space t = CHR '']'' # r \<Longrightarrow>
   parse_value (Suc f) d (CHR ''['' # t) = Some (JArr (consumed (CHR ''['' # t) r) [], r)"
  by (simp add: parse_value.simps)

lemma value_arr: "0 < d \<Longrightarrow> take 1 (skip_space t) \<noteq> '']'' \<Longrightarrow> parse_items f (d - 1) (skip_space t) = Some (xs, r) \<Longrightarrow>
   parse_value (Suc f) d (CHR ''['' # t) = Some (JArr (consumed (CHR ''['' # t) r) xs, r)"
  by (simp add: parse_value.simps)

lemma value_str: "scan_string t = Some (b, r) \<Longrightarrow>
   parse_value (Suc f) d (quote # t) = Some (JStr (consumed (quote # t) r) (unquote b), r)"
  by (simp add: parse_value.simps quote_def)

lemma value_null: "parse_value (Suc f) d (''null'' @ r) = Some (JNull, r)"
  and value_true: "parse_value (Suc f) d (''true'' @ r) = Some (JBool True, r)"
  and value_false: "parse_value (Suc f) d (''false'' @ r) = Some (JBool False, r)"
  by (simp_all add: parse_value.simps quote_def)

lemma value_num: "c \<notin> set (quote # ''{['') \<Longrightarrow> \<not> has_prefix ''null'' (c # t) \<Longrightarrow> \<not> has_prefix ''true'' (c # t) \<Longrightarrow>
   \<not> has_prefix ''false'' (c # t) \<Longrightarrow> scan_number (c # t) = Some (n, r) \<Longrightarrow> parse_value (Suc f) d (c # t) = Some (JNum n, r)"
  by (simp add: parse_value.simps)

lemma items_last: "parse_value f d s = Some (v, u) \<Longrightarrow> skip_space u = CHR '']'' # r \<Longrightarrow>
   parse_items (Suc f) d s = Some ([v], r)"
  by (simp add: parse_items.simps)

lemma items_more: "parse_value f d s = Some (v, u) \<Longrightarrow> skip_space u = CHR '','' # t \<Longrightarrow>
   parse_items f d (skip_space t) = Some (vs, r) \<Longrightarrow> parse_items (Suc f) d s = Some (v # vs, r)"
  by (simp add: parse_items.simps)

lemma members_last: "scan_string s = Some (k, u) \<Longrightarrow> skip_space u = CHR '':'' # t \<Longrightarrow>
   parse_value f d (skip_space t) = Some (v, w) \<Longrightarrow> skip_space w = CHR ''}'' # r \<Longrightarrow>
   parse_members (Suc f) d (quote # s) = Some ([(unquote k, v)], r)"
  by (simp add: parse_members.simps)

lemma members_more: "scan_string s = Some (k, u) \<Longrightarrow> skip_space u = CHR '':'' # t \<Longrightarrow>
   parse_value f d (skip_space t) = Some (v, w) \<Longrightarrow> skip_space w = CHR '','' # t' \<Longrightarrow>
   parse_members f d (skip_space t') = Some (ms, r) \<Longrightarrow>
   parse_members (Suc f) d (quote # s) = Some ((unquote k, v) # ms, r)"
  by (simp add: parse_members.simps)

lemma parse_0 [simp]: "parse_value 0 d s = None" "parse_items 0 d s = None" "parse_members 0 d s = None"
  by (simp_all add: parse_value.simps parse_items.simps parse_members.simps)

lemmas read_rules = value_obj0 value_obj value_arr0 value_arr value_str value_num items_last items_more members_last members_more

lemma parse_mono:
  "(\<forall>d s x. parse_value f d s = Some x \<longrightarrow> parse_value (Suc f) d s = Some x) \<and>
   (\<forall>d s x. parse_items f d s = Some x \<longrightarrow> parse_items (Suc f) d s = Some x) \<and>
   (\<forall>d s x. parse_members f d s = Some x \<longrightarrow> parse_members (Suc f) d s = Some x)"
proof (induction f)
  case (Suc f)
  then have v: "\<And>d s x. parse_value f d s = Some x \<Longrightarrow> parse_value (Suc f) d s = Some x"
    and i: "\<And>d s x. parse_items f d s = Some x \<Longrightarrow> parse_items (Suc f) d s = Some x"
    and m: "\<And>d s x. parse_members f d s = Some x \<Longrightarrow> parse_members (Suc f) d s = Some x" by blast+
  have "parse_value (Suc (Suc f)) d s = Some (j, r)" if "parse_value (Suc f) d s = Some (j, r)" for d s j r
    using that by (cases rule: parse_value_cases) (auto intro: read_rules m i simp: value_null [simplified] value_true [simplified] value_false [simplified])
  moreover have "parse_items (Suc (Suc f)) d s = Some (xs, r)" if "parse_items (Suc f) d s = Some (xs, r)" for d s xs r
    using that by (cases rule: parse_items_cases) (auto intro: read_rules v i)
  moreover have "parse_members (Suc (Suc f)) d s = Some (ms, r)" if "parse_members (Suc f) d s = Some (ms, r)" for d s ms r
    using that by (cases rule: parse_members_cases) (auto intro: read_rules v m)
  ultimately show ?case by fastforce
qed simp

lemma parse_value_mono: "f \<le> g \<Longrightarrow> parse_value f d s = Some x \<Longrightarrow> parse_value g d s = Some x"
  by (induction g rule: dec_induct) (use parse_mono in blast)+

lemma parse_value_enough: "f \<le> g \<Longrightarrow> 2 * length s < f \<Longrightarrow> parse_value g d s = parse_value f d s"
proof (induction g rule: dec_induct)
  case (step n)
  then have "parse_value (Suc n) d s = parse_value n d s" using parse_enough [of n] by simp
  with step show ?case by simp
qed simp

text \<open>Whatever fuel it takes to read a value, \<open>read_value\<close> has enough.\<close>

lemma parse_value_fuel:
  assumes "parse_value f d s = Some x" "2 * length s < g"
  shows "parse_value g d s = Some x"
proof (cases "f \<le> g")
  case True
  with assms show ?thesis by (blast intro: parse_value_mono)
next
  case False
  then show ?thesis using parse_value_enough [of g f s d] assms by simp
qed

lemma read_value_eq: "parse_value f maxNestingDepth (skip_space s) = Some x \<Longrightarrow> read_value s = Some x"
  unfolding read_value_def by (erule parse_value_fuel) (use skip_space_length [of s] in simp)

section \<open>Writing\<close>

text \<open>
  What \<open>Unmarshal\<close> stores in an \<open>any\<close> with \<open>UseNumber\<close>. A Go map is kept as the list of its members in the
  order of their keys, the order in which \<open>Marshal\<close> writes them.
\<close>

datatype jval = VNull | VBool bool | VNum string | VStr string | VArr "jval list" | VObj "(string \<times> jval) list"

fun put :: "string \<Rightarrow> 'a \<Rightarrow> (string \<times> 'a) list \<Rightarrow> (string \<times> 'a) list" where
  "put k v [] = [(k, v)]"
| "put k v (m # ms) =
     (if k = fst m then (k, v) # ms else if k < fst m then (k, v) # m # ms else m # put k v ms)"

definition collect :: "(string \<times> 'a) list \<Rightarrow> (string \<times> 'a) list" where
  "collect ms = foldl (\<lambda>acc m. put (fst m) (snd m) acc) [] ms"

fun to_any :: "json \<Rightarrow> jval" where
  "to_any JNull = VNull"
| "to_any (JBool b) = VBool b"
| "to_any (JNum t) = VNum t"
| "to_any (JStr t v) = VStr v"
| "to_any (JArr t xs) = VArr (map to_any xs)"
| "to_any (JObj t ms) = VObj (collect (map (\<lambda>m. (fst m, to_any (snd m))) ms))"

definition hex_digit :: "nat \<Rightarrow> char" where "hex_digit n = ''0123456789abcdef'' ! n"

definition escape_rune :: "string \<Rightarrow> string" where
  "escape_rune u =
     (if u = [quote] \<or> u = [backslash] then backslash # u
      else if u = [CHR 0x08] then [backslash, CHR ''b''] else if u = [CHR 0x0C] then [backslash, CHR ''f'']
      else if u = [CHR 0x0A] then [backslash, CHR ''n''] else if u = [CHR 0x0D] then [backslash, CHR ''r'']
      else if u = [CHR 0x09] then [backslash, CHR ''t'']
      else if u = [CHR 0xE2, CHR 0x80, CHR 0xA8] then backslash # ''u2028''
      else if u = [CHR 0xE2, CHR 0x80, CHR 0xA9] then backslash # ''u2029''
      else case u of
        [c] \<Rightarrow> if (of_char c :: nat) < 0x20 \<or> c \<in> set ''<>&''
               then backslash # ''u00'' @ [hex_digit (of_char c div 16), hex_digit (of_char c mod 16)] else u
      | _ \<Rightarrow> u)"

function quote_body :: "string \<Rightarrow> string" where
  "quote_body [] = []"
| "quote_body (c # s) =
     (if rune_size (c # s) = 0 then backslash # ''ufffd'' @ quote_body s
      else escape_rune (take (rune_size (c # s)) (c # s)) @ quote_body (drop (rune_size (c # s)) (c # s)))"
  by pat_completeness auto
termination
proof (relation "measure length")
  fix c :: char and s :: string
  assume "rune_size (c # s) \<noteq> 0"
  then show "(drop (rune_size (c # s)) (c # s), c # s) \<in> measure length" by simp
qed auto

definition quote_string :: "string \<Rightarrow> string" where "quote_string s = quote # quote_body s @ [quote]"

fun marshal :: "jval \<Rightarrow> string" where
  "marshal VNull = ''null''"
| "marshal (VBool b) = (if b then ''true'' else ''false'')"
| "marshal (VNum t) = t"
| "marshal (VStr s) = quote_string s"
| "marshal (VArr xs) = ''['' @ join_with '','' (map marshal xs) @ '']''"
| "marshal (VObj ms) = ''{'' @ join_with '','' (map (\<lambda>m. quote_string (fst m) @ '':'' @ marshal (snd m)) ms) @ ''}''"

text \<open>Values that come from text: numbers are numbers of JSON, strings are UTF-8, keys are in order.\<close>

definition utf8 :: "string \<Rightarrow> bool" where "utf8 s \<longleftrightarrow> concat (runes s) = s"

definition ordered :: "(string \<times> 'a) list \<Rightarrow> bool" where "ordered ms \<longleftrightarrow> sorted_wrt (<) (map fst ms)"

fun valid :: "jval \<Rightarrow> bool" where
  "valid VNull = True"
| "valid (VBool b) = True"
| "valid (VNum t) = (scan_number t = Some (t, []))"
| "valid (VStr s) = utf8 s"
| "valid (VArr xs) = list_all valid xs"
| "valid (VObj ms) = (ordered ms \<and> list_all (\<lambda>m. utf8 (fst m) \<and> valid (snd m)) ms)"

fun depth :: "jval \<Rightarrow> int" where
  "depth (VArr xs) = 1 + foldr max (map depth xs) 0"
| "depth (VObj ms) = 1 + foldr max (map (\<lambda>m. depth (snd m)) ms) 0"
| "depth v = 0"

section \<open>Strings are read back\<close>

lemma of_char_lt [simp]: "(of_char (c :: char) :: nat) < 256"
  by (metis less_imp_le_nat linorder_not_le of_char_mod_256 mod_less_divisor zero_less_numeral)

lemma rune_size_ascii: "(of_char c :: nat) < 0x80 \<Longrightarrow> rune_size (c # s) = 1"
  by (simp add: rune_size_def rune_class_def)

lemma hex_digit_value: "n < 16 \<Longrightarrow> hex_value (hex_digit n) = n \<and> hex_char (hex_digit n)"
proof -
  assume "n < 16"
  then have "index_byte ''0123456789abcdef'' (hex_digit n) = Some n"
    unfolding hex_digit_def by (intro index_byte_nth) auto
  then show ?thesis by (simp add: hex_value_def hex_char_def del: index_byte.simps)
qed

lemma long_rune:
  assumes "rune_size s = n" "1 < n"
  shows "list_all (\<lambda>c. 0x80 \<le> (of_char c :: nat)) (take n s)"
proof -
  obtain b t lo hi where s: "s = b # t" "rune_class (of_char b) = (n, lo, hi)"
    "n \<le> 1 \<or> byte_in s 1 lo hi \<and> list_all (\<lambda>i. byte_in s i 0x80 0xBF) [2..<n]" "n \<le> length s"
    by (rule rune_size_cases [of s n]) (use assms in auto)
  have "0x80 \<le> (of_char b :: nat)" "0x80 \<le> lo" using s(2) assms(2) by (auto simp: rune_class_def split: if_splits)
  moreover have "0x80 \<le> (of_char (s ! i) :: nat)" if "i < n" for i
  proof (cases "i < 2")
    case True
    then have "i = 0 \<or> i = 1" by auto
    with s assms(2) \<open>0x80 \<le> (of_char b :: nat)\<close> \<open>0x80 \<le> lo\<close> show ?thesis by (auto simp: byte_in_def)
  next
    case False
    with that have "i \<in> set [2..<n]" by simp
    with s(3) assms(2) have "byte_in s i 0x80 0xBF" by (auto simp: list_all_iff)
    then show ?thesis by (simp add: byte_in_def)
  qed
  ultimately show ?thesis by (auto simp: list_all_length)
qed

definition plain_byte :: "char \<Rightarrow> bool" where
  "plain_byte c \<longleftrightarrow> c \<noteq> quote \<and> c \<noteq> backslash \<and> 0x20 \<le> (of_char c :: nat)"

lemma high_plain: "0x80 \<le> (of_char c :: nat) \<Longrightarrow> plain_byte c"
  by (auto simp: plain_byte_def quote_def backslash_def)

lemma scan_plain: "list_all plain_byte u \<Longrightarrow> scan_string (u @ s) = map_option (\<lambda>(b, r). (u @ b, r)) (scan_string s)"
  by (induction u) (auto simp: plain_byte_def option.map_comp comp_def case_prod_unfold option.map_ident)

lemma scan_escaped: "e \<in> set (quote # backslash # ''/bfnrt'') \<Longrightarrow>
    scan_string (backslash # e # s) = map_option (\<lambda>(b, r). (backslash # e # b, r)) (scan_string s)"
  by (auto simp: quote_def backslash_def)

lemma scan_hex: "list_all hex_char [a, b, c, d] \<Longrightarrow>
    scan_string (backslash # CHR ''u'' # a # b # c # d # s) = map_option (\<lambda>(t, r). (backslash # CHR ''u'' # a # b # c # d # t, r)) (scan_string s)"
  by (simp add: quote_def backslash_def eval_nat_numeral)

lemma unquote_escaped: "e \<noteq> CHR ''u'' \<Longrightarrow> unquote (backslash # e # s) = char_of (simple_escape e) # unquote s"
  by simp

lemma unquote_hex: "\<not> surrogate (hex4 [a, b, c, d]) \<Longrightarrow>
    unquote (backslash # CHR ''u'' # a # b # c # d # s) = encode_rune (hex4 [a, b, c, d]) @ unquote s"
  by (simp add: eval_nat_numeral)

declare scan_string.simps [simp del] unquote.simps [simp del]

lemma hex4_00: "m < 16 \<Longrightarrow> n < 16 \<Longrightarrow> hex4 [CHR ''0'', CHR ''0'', hex_digit m, hex_digit n] = 16 * m + n"
  by (simp add: hex4_def hex_digit_value)

lemma hex_0 [simp]: "hex_char (CHR ''0'')"
  by (simp add: hex_char_def)

lemma char_of_of: "char_of (simple_escape c) = c" if "c \<notin> set ''bfnrt''"
  using that by (simp add: simple_escape_def)

lemma char_escapes: "char_of (simple_escape (CHR ''b'')) = CHR 0x08" "char_of (simple_escape (CHR ''f'')) = CHR 0x0C"
  "char_of (simple_escape (CHR ''n'')) = CHR 0x0A" "char_of (simple_escape (CHR ''r'')) = CHR 0x0D"
  "char_of (simple_escape (CHR ''t'')) = CHR 0x09"
  by code_simp+

lemma char_bytes: "char_of (226 :: nat) = CHR 0xE2" "char_of (128 :: nat) = CHR 0x80" "char_of (168 :: nat) = CHR 0xA8"
  "char_of (169 :: nat) = CHR 0xA9" "char_of (239 :: nat) = CHR 0xEF" "char_of (191 :: nat) = CHR 0xBF"
  "char_of (189 :: nat) = CHR 0xBD"
  by code_simp+

lemma escape_many: "length u \<noteq> 1 \<Longrightarrow> u \<noteq> [CHR 0xE2, CHR 0x80, CHR 0xA8] \<Longrightarrow> u \<noteq> [CHR 0xE2, CHR 0x80, CHR 0xA9] \<Longrightarrow>
   escape_rune u = u"
  by (cases u; cases "tl u") (auto simp: escape_rune_def)

lemma rune_one: "is_rune [c] \<longleftrightarrow> (of_char c :: nat) < 0x80"
  by (auto simp: is_rune_def rune_size_def rune_class_def byte_in_def split: if_splits)

lemma rune_many: "is_rune u \<Longrightarrow> length u \<noteq> 1 \<Longrightarrow> list_all (\<lambda>c. 0x80 \<le> (of_char c :: nat)) u"
  using long_rune [of u "length u"] by (cases u) (auto simp: is_rune_def)

lemma rune_split [consumes 1, case_names line_separator paragraph_separator escaped control plain many]:
  assumes "is_rune u"
  obtains "u = [CHR 0xE2, CHR 0x80, CHR 0xA8]" | "u = [CHR 0xE2, CHR 0x80, CHR 0xA9]"
  | c e where "u = [c]" "escape_rune u = [backslash, e]" "char_of (simple_escape e) = c" "e \<in> set (quote # backslash # ''/bfnrt'')"
  | c where "u = [c]" "escape_rune u = backslash # ''u00'' @ [hex_digit (of_char c div 16), hex_digit (of_char c mod 16)]"
      "(of_char c :: nat) < 0x80"
  | c where "u = [c]" "escape_rune u = [c]" "plain_byte c" "(of_char c :: nat) < 0x80"
  | "escape_rune u = u" "list_all plain_byte u" "length u \<noteq> 1"
proof (cases "length u = 1")
  case True
  then obtain c where u: "u = [c]" by (cases u) auto
  with assms have c: "(of_char c :: nat) < 0x80" by (simp add: rune_one)
  consider "c = quote" | "c = backslash" | "c = CHR 0x08" | "c = CHR 0x0C" | "c = CHR 0x0A" | "c = CHR 0x0D" | "c = CHR 0x09"
    | "c \<notin> {quote, backslash, CHR 0x08, CHR 0x0C, CHR 0x0A, CHR 0x0D, CHR 0x09}" by auto
  then show ?thesis
  proof cases
    case 1 with u show ?thesis by (intro that(3) [of c quote]) (auto simp: escape_rune_def quote_def char_of_of char_escapes)
  next
    case 2 with u show ?thesis by (intro that(3) [of c backslash]) (auto simp: escape_rune_def quote_def backslash_def char_of_of char_escapes)
  next
    case 3 with u show ?thesis by (intro that(3) [of c "CHR ''b''"]) (auto simp: escape_rune_def quote_def backslash_def char_escapes)
  next
    case 4 with u show ?thesis by (intro that(3) [of c "CHR ''f''"]) (auto simp: escape_rune_def quote_def backslash_def char_escapes)
  next
    case 5 with u show ?thesis by (intro that(3) [of c "CHR ''n''"]) (auto simp: escape_rune_def quote_def backslash_def char_escapes)
  next
    case 6 with u show ?thesis by (intro that(3) [of c "CHR ''r''"]) (auto simp: escape_rune_def quote_def backslash_def char_escapes)
  next
    case 7 with u show ?thesis by (intro that(3) [of c "CHR ''t''"]) (auto simp: escape_rune_def quote_def backslash_def char_escapes)
  next
    case 8
    then have "escape_rune u = (if (of_char c :: nat) < 0x20 \<or> c \<in> set ''<>&''
               then backslash # ''u00'' @ [hex_digit (of_char c div 16), hex_digit (of_char c mod 16)] else u)"
      by (simp add: u escape_rune_def)
    with u c 8 that(4,5) show ?thesis by (auto simp: plain_byte_def split: if_splits)
  qed
next
  case False
  then have "list_all (\<lambda>c. 0x80 \<le> (of_char c :: nat)) u" using assms by (rule rune_many [rotated])
  then have "list_all plain_byte u" by (auto simp: list_all_iff high_plain)
  with False that(1,2,6) show ?thesis
    by (cases "u = [CHR 0xE2, CHR 0x80, CHR 0xA8] \<or> u = [CHR 0xE2, CHR 0x80, CHR 0xA9]")
       (auto simp: escape_many)
qed

lemma hex4_line: "hex4 ''2028'' = 0x2028" "hex4 ''2029'' = 0x2029" "hex4 ''fffd'' = 0xFFFD"
  by (simp_all add: hex4_def hex_value_def)

lemma hex_line: "list_all hex_char ''2028'' \<and> list_all hex_char ''2029'' \<and> list_all hex_char ''fffd''"
  by (simp add: hex_char_def)

lemma encode_line: "encode_rune 0x2028 = [CHR 0xE2, CHR 0x80, CHR 0xA8]" "encode_rune 0x2029 = [CHR 0xE2, CHR 0x80, CHR 0xA9]"
  "encode_rune 0xFFFD = replacement"
  by (simp_all add: encode_rune_def surrogate_def replacement_def char_bytes)

lemma scan_fffd: "scan_string (backslash # ''ufffd'' @ s) = map_option (\<lambda>(b, r). (backslash # ''ufffd'' @ b, r)) (scan_string s)"
  using hex_line scan_hex [of "CHR ''f''" "CHR ''f''" "CHR ''f''" "CHR ''d''" s] by simp

lemma unquote_fffd: "unquote (backslash # ''ufffd'' @ s) = replacement @ unquote s"
  using unquote_hex [of "CHR ''f''" "CHR ''f''" "CHR ''f''" "CHR ''d''" s] hex4_line(3) encode_line(3) by (simp add: surrogate_def)

lemma scan_escape:
  assumes "is_rune u"
  shows "scan_string (escape_rune u @ s) = map_option (\<lambda>(b, r). (escape_rune u @ b, r)) (scan_string s)"
  using assms
proof (cases u rule: rune_split)
  case line_separator
  then show ?thesis using hex_line scan_hex [of "CHR ''2''" "CHR ''0''" "CHR ''2''" "CHR ''8''" s] by (simp add: escape_rune_def)
next
  case paragraph_separator
  then show ?thesis using hex_line scan_hex [of "CHR ''2''" "CHR ''0''" "CHR ''2''" "CHR ''9''" s] by (simp add: escape_rune_def)
next
  case (control c)
  have "(of_char c :: nat) div 16 < 16" using control(3) by linarith
  then show ?thesis using scan_hex [of "CHR ''0''" "CHR ''0''" "hex_digit (of_char c div 16)" "hex_digit (of_char c mod 16)" s] control(2)
    by (simp add: hex_digit_value)
next
  case (escaped c e)
  then show ?thesis using scan_escaped [of e s] by simp
qed (use scan_plain [of u s] in auto)

lemma unquote_plain: "is_rune u \<Longrightarrow> backslash \<notin> set u \<Longrightarrow> unquote (u @ s) = u @ unquote s"
  using rune_size_append [of u s] by (cases u) (auto simp: unquote.simps is_rune_def)

lemma unquote_escape:
  assumes "is_rune u"
  shows "unquote (escape_rune u @ s) = u @ unquote s"
  using assms
proof (cases u rule: rune_split)
  case line_separator
  then show ?thesis using unquote_hex [of "CHR ''2''" "CHR ''0''" "CHR ''2''" "CHR ''8''" s] hex4_line encode_line
    by (simp add: escape_rune_def surrogate_def)
next
  case paragraph_separator
  then show ?thesis using unquote_hex [of "CHR ''2''" "CHR ''0''" "CHR ''2''" "CHR ''9''" s] hex4_line encode_line
    by (simp add: escape_rune_def surrogate_def)
next
  case (escaped c e)
  then have "e \<noteq> CHR ''u''" by (auto simp: quote_def backslash_def)
  with escaped show ?thesis by (simp add: unquote_escaped)
next
  case (control c)
  have n: "(of_char c :: nat) div 16 < 16" using control(3) by linarith
  then have "hex4 [CHR ''0'', CHR ''0'', hex_digit (of_char c div 16), hex_digit (of_char c mod 16)] = of_char c"
    by (simp add: hex4_00)
  with unquote_hex [of "CHR ''0''" "CHR ''0''" "hex_digit (of_char c div 16)" "hex_digit (of_char c mod 16)" s] control
  show ?thesis by (simp add: surrogate_def encode_rune_def)
next
  case (plain c)
  then show ?thesis using unquote_plain [OF assms, of s] by (auto simp: plain_byte_def)
next
  case many
  then show ?thesis using unquote_plain [OF assms, of s] by (auto simp: plain_byte_def list_all_iff)
qed

lemma scan_quote_body: "scan_string (quote_body s @ quote # r) = Some (quote_body s, r)"
proof (induction s rule: quote_body.induct)
  case (2 c s)
  then show ?case using is_rune_take [of "c # s"] by (cases "rune_size (c # s) = 0") (auto simp: scan_escape scan_fffd [simplified])
qed (simp add: scan_string.simps)

lemma unquote_quote_body: "unquote (quote_body s) = concat (runes s)"
proof (induction s rule: quote_body.induct)
  case (2 c s)
  then show ?case using is_rune_take [of "c # s"]
    by (subst runes.simps) (auto simp: unquote_escape unquote_fffd [simplified])
qed (simp add: unquote.simps)

text \<open>A number is read back when what follows it cannot belong to it.\<close>

definition ends_number :: "string \<Rightarrow> bool" where
  "ends_number r \<longleftrightarrow> (case r of [] \<Rightarrow> True | c # t \<Rightarrow> \<not> is_digit c \<and> c \<notin> set ''.eE'')"

definition no_digit :: "string \<Rightarrow> bool" where
  "no_digit r \<longleftrightarrow> (case r of [] \<Rightarrow> True | c # t \<Rightarrow> \<not> is_digit c)"

lemma no_digit_simps [simp]: "no_digit []" "no_digit (c # t) = (\<not> is_digit c)" "ends_number r \<Longrightarrow> no_digit r"
  by (auto simp: no_digit_def ends_number_def split: list.splits)

lemma digits_app: "list_all is_digit d \<Longrightarrow> no_digit r \<Longrightarrow> takeWhile is_digit (d @ r) = d \<and> dropWhile is_digit (d @ r) = r"
  by (induction d) (auto simp: no_digit_def split: list.splits)

lemma take_digits: "list_all is_digit (takeWhile is_digit s)"
  by (induction s) auto

lemma scan_digits_app: "scan_digits s = Some (d, u) \<Longrightarrow> no_digit r \<Longrightarrow> scan_digits (d @ r) = Some (d, r)"
  using digits_app [OF take_digits] by (auto simp: scan_digits_def split: if_splits)

lemma digits_again: "scan_digits s = Some (d, u) \<Longrightarrow> scan_digits d = Some (d, [])"
  "scan_digits s = Some (d, u) \<Longrightarrow> \<not> is_digit c \<Longrightarrow> scan_digits (d @ c # r) = Some (d, c # r)"
  "scan_digits s = Some (d, u) \<Longrightarrow> ends_number r \<Longrightarrow> scan_digits (d @ r) = Some (d, r)"
  using scan_digits_app [of s d u "[]"] scan_digits_app [of s d u "c # r"] scan_digits_app [of s d u r] by simp_all

lemma scan_int_app: "scan_int s = Some (d, u) \<Longrightarrow> no_digit r \<Longrightarrow> scan_int (d @ r) = Some (d, r)"
  using digits_app [OF take_digits, of r s] by (cases s) (auto simp: scan_int_def split: if_splits list.splits)

lemma scan_fraction_app: "scan_fraction s = Some (d, u) \<Longrightarrow> no_digit r \<Longrightarrow> take 1 r \<noteq> ''.'' \<Longrightarrow> scan_fraction (d @ r) = Some (d, r)"
  by (cases s; cases r) (auto simp: scan_fraction_def digits_again split: if_splits)

lemma scan_fraction_head: "scan_fraction s = Some (d, u) \<Longrightarrow> d = [] \<or> hd d = CHR ''.''"
  by (auto simp: scan_fraction_def split: list.splits if_splits)

lemma scan_exponent_head: "scan_exponent s = Some (d, u) \<Longrightarrow> d = [] \<or> hd d = CHR ''e'' \<or> hd d = CHR ''E''"
  by (auto simp: scan_exponent_def split: list.splits if_splits)

lemma letter_digits [simp]: "\<not> is_digit (CHR ''.'')" "\<not> is_digit (CHR ''e'')" "\<not> is_digit (CHR ''E'')" "\<not> is_digit (CHR ''+'')"
  "\<not> is_digit (CHR ''-'')"
  by (simp_all add: is_digit_def)

lemma scan_digits_hd: "scan_digits s = Some (d, r) \<Longrightarrow> \<exists>c t. d = c # t \<and> is_digit c"
  by (cases s) (auto simp: scan_digits_def split: if_splits)

lemma scan_exponent_app:
  assumes "scan_exponent s = Some (d, u)" "ends_number r"
  shows "scan_exponent (d @ r) = Some (d, r)"
proof (cases "d = []")
  case True
  with assms(2) show ?thesis by (auto simp: scan_exponent_def ends_number_def split: list.splits)
next
  case False
  then obtain c t where s: "s = c # t" "c = CHR ''e'' \<or> c = CHR ''E''" using assms(1)
    by (auto simp: scan_exponent_def split: list.splits if_splits)
  then obtain x v where t: "t = x # v" using assms(1) by (auto simp: scan_exponent_def split: list.splits if_splits)
  show ?thesis
  proof (cases "x = CHR ''+'' \<or> x = CHR ''-''")
    case True
    with assms s t show ?thesis by (auto simp: scan_exponent_def digits_again)
  next
    case False
    then obtain ds where d: "d = c # ds" "scan_digits (x # v) = Some (ds, u)" using assms s t by (auto simp: scan_exponent_def)
    then have "scan_digits (ds @ r) = Some (ds, r)" using assms(2) by (auto intro: scan_digits_app)
    moreover obtain y ys where "ds = y # ys" "is_digit y" using scan_digits_hd [OF d(2)] by blast
    ultimately show ?thesis using s(2) d(1) by (auto simp: scan_exponent_def)
  qed
qed

lemma scan_unsigned_app:
  assumes "scan_unsigned s = Some (n, u)" "ends_number r"
  shows "scan_unsigned (n @ r) = Some (n, r)"
proof -
  from assms(1) obtain a s1 b s2 c where n: "scan_int s = Some (a, s1)" "scan_fraction s1 = Some (b, s2)"
    "scan_exponent s2 = Some (c, u)" "n = a @ b @ c"
    by (auto simp: scan_unsigned_def bind_eq_Some_conv)
  have e: "scan_exponent (c @ r) = Some (c, r)" by (rule scan_exponent_app [OF n(3) assms(2)])
  have c: "no_digit (c @ r)" "take 1 (c @ r) \<noteq> ''.''"
    using scan_exponent_head [OF n(3)] assms(2) by (cases c; auto simp: ends_number_def no_digit_def split: list.splits)+
  have f: "scan_fraction (b @ c @ r) = Some (b, c @ r)" by (rule scan_fraction_app [OF n(2) c])
  have "no_digit (b @ c @ r)" using scan_fraction_head [OF n(2)] c by (cases b) auto
  from scan_int_app [OF n(1) this] f e show ?thesis by (simp add: scan_unsigned_def n(4))
qed

lemma zero_digit [simp]: "is_digit (CHR ''0'')"
  by (simp add: is_digit_def)

lemma scan_int_head: "scan_int s = Some (n, u) \<Longrightarrow> \<exists>c t. n = c # t \<and> is_digit c"
proof (cases s)
  case (Cons c t)
  assume "scan_int s = Some (n, u)"
  with Cons have "n = c # tl n \<and> is_digit c" by (cases "c = CHR ''0''") (auto simp: scan_int_def split: if_splits)
  then show ?thesis by blast
qed (simp add: scan_int_def)

lemma scan_number_head: "scan_number s = Some (n, u) \<Longrightarrow> \<exists>c t. n = c # t \<and> (c = CHR ''-'' \<or> is_digit c)"
proof -
  have i: "\<exists>c t. n = c # t \<and> is_digit c" if "scan_unsigned s = Some (n, u)" for s n
    using that by (auto simp: scan_unsigned_def bind_eq_Some_conv dest!: scan_int_head)
  assume "scan_number s = Some (n, u)"
  then show ?thesis by (cases s) (auto simp: scan_number_def dest!: i split: if_splits)
qed

lemma scan_number_app:
  assumes "scan_number s = Some (n, u)" "ends_number r"
  shows "scan_number (n @ r) = Some (n, r)"
proof (cases "hd s = CHR ''-''")
  case True
  then obtain t m where s: "s = CHR ''-'' # t" "scan_unsigned t = Some (m, u)" "n = CHR ''-'' # m"
    using assms(1) by (cases s) (auto simp: scan_number_def split: list.splits)
  with scan_unsigned_app [OF s(2) assms(2)] show ?thesis by (simp add: scan_number_def)
next
  case False
  then have u: "scan_unsigned s = Some (n, u)" using assms(1) by (cases s) (auto simp: scan_number_def split: if_splits)
  then have "n \<noteq> []" "hd n = hd s" using scan_unsigned_split [OF u] by (auto simp: hd_append split: if_splits)
  with False scan_unsigned_app [OF u assms(2)] show ?thesis by (cases n) (auto simp: scan_number_def)
qed

text \<open>Maps in order are what collecting their members gives.\<close>

lemma put_last: "\<forall>m \<in> set ms. fst m < k \<Longrightarrow> put k v ms = ms @ [(k, v)]"
  by (induction ms) auto

lemma put_keys: "fst ` set (put k v ms) = insert k (fst ` set ms)"
  by (induction ms) auto

lemma put_ordered: "ordered ms \<Longrightarrow> ordered (put k v ms)"
proof (induction ms)
  case (Cons m ms)
  have "fst ` set (put k v ms) = insert k (fst ` set ms)" by (rule put_keys)
  with Cons show ?case by (auto simp: ordered_def)
qed (simp add: ordered_def)

lemma put_members: "(a, b) \<in> set (put k v ms) \<Longrightarrow> a = k \<and> b = v \<or> (a, b) \<in> set ms"
  by (induction ms) (auto split: if_splits)

lemma collect_snoc: "collect (ms @ [m]) = put (fst m) (snd m) (collect ms)"
  by (simp add: collect_def)

lemma collect_ordered: "ordered (collect ms)"
  by (induction ms rule: rev_induct) (simp_all add: collect_snoc put_ordered, simp add: collect_def ordered_def)

lemma collect_members: "m \<in> set (collect ms) \<Longrightarrow> m \<in> set ms"
proof (induction ms rule: rev_induct)
  case (snoc x ms)
  then show ?case using put_members [of "fst m" "snd m" "fst x" "snd x" "collect ms"]
    by (auto simp: collect_snoc prod_eq_iff)
qed (simp add: collect_def)

lemma collect_id: "ordered ms \<Longrightarrow> collect ms = ms"
proof (induction ms rule: rev_induct)
  case (snoc m ms)
  then have "\<forall>x \<in> set ms. fst x < fst m" "ordered ms" by (auto simp: ordered_def sorted_wrt_append)
  with snoc show ?case by (simp add: collect_snoc put_last)
qed (simp add: collect_def)

lemma map_of_put [simp]: "map_of (put k v ms) x = (if x = k then Some v else map_of ms x)"
  by (induction ms) auto

section \<open>Values are read back\<close>

lemma skip_here [simp]: "\<not> json_space c \<Longrightarrow> skip_space (c # t) = c # t"
  by (simp add: skip_space_def)

lemma no_space [simp]: "\<not> json_space quote" "\<not> json_space (CHR ''{'')" "\<not> json_space (CHR ''['')" "\<not> json_space (CHR ''}'')"
  "\<not> json_space (CHR '']'')" "\<not> json_space (CHR '','')" "\<not> json_space (CHR '':'')" "\<not> json_space (CHR ''n'')"
  "\<not> json_space (CHR ''t'')" "\<not> json_space (CHR ''f'')" "\<not> json_space (CHR ''-'')"
  by (simp_all add: json_space_def quote_def)

lemma digit_no_space: "is_digit c \<Longrightarrow> \<not> json_space c \<and> c \<notin> set ('']}{[ntf'' @ [quote])"
  by (auto simp: json_space_def is_digit_def quote_def)

lemma ends_number_simps [simp]: "ends_number []" "ends_number (CHR '','' # t)" "ends_number (CHR '']'' # t)" "ends_number (CHR ''}'' # t)"
  "ends_number (CHR 0x0A # t)"
  by (simp_all add: ends_number_def is_digit_def)

lemma marshal_head:
  assumes "valid v"
  shows "\<exists>c t. marshal v = c # t \<and> \<not> json_space c \<and> c \<notin> set '']}''"
proof (cases v)
  case (VNum n)
  with assms scan_number_head [of n n "[]"] digit_no_space show ?thesis by fastforce
next
  case (VStr s)
  then show ?thesis by (auto simp: quote_string_def) (simp add: quote_def)+
qed auto

definition reads :: "jval \<Rightarrow> bool" where
  "reads v \<longleftrightarrow> (\<forall>f d r. depth v \<le> d \<longrightarrow> 2 * length (marshal v @ r) < f \<longrightarrow> ends_number r \<longrightarrow>
     (\<exists>j. parse_value f d (marshal v @ r) = Some (j, r) \<and> to_any j = v))"

lemma readsD: "reads v \<Longrightarrow> depth v \<le> d \<Longrightarrow> 2 * length (marshal v @ r) < f \<Longrightarrow> ends_number r \<Longrightarrow>
   \<exists>j. parse_value f d (marshal v @ r) = Some (j, r) \<and> to_any j = v"
  by (simp add: reads_def)

lemma reads_items:
  assumes "xs \<noteq> []" "\<forall>x \<in> set xs. reads x \<and> valid x \<and> depth x \<le> d"
    "2 * length (join_with '','' (map marshal xs) @ CHR '']'' # r) + 1 < f"
  shows "\<exists>js. parse_items f d (join_with '','' (map marshal xs) @ CHR '']'' # r) = Some (js, r) \<and> map to_any js = xs"
  using assms
proof (induction xs arbitrary: f)
  case (Cons x xs)
  then obtain f' where f: "f = Suc f'" by (cases f) auto
  show ?case
  proof (cases "xs = []")
    case True
    with Cons.prems f have "\<exists>j. parse_value f' d (marshal x @ CHR '']'' # r) = Some (j, CHR '']'' # r) \<and> to_any j = x"
      by (simp add: reads_def)
    then obtain j where "parse_value f' d (marshal x @ CHR '']'' # r) = Some (j, CHR '']'' # r)" "to_any j = x" by blast
    with True f show ?thesis by (intro exI [of _ "[j]"]) (auto intro: items_last)
  next
    case False
    let ?t = "join_with '','' (map marshal xs) @ CHR '']'' # r"
    have "\<exists>j. parse_value f' d (marshal x @ CHR '','' # ?t) = Some (j, CHR '','' # ?t) \<and> to_any j = x"
      using Cons.prems f False by (auto simp: reads_def join_with_Cons)
    then obtain j where j: "parse_value f' d (marshal x @ CHR '','' # ?t) = Some (j, CHR '','' # ?t)" "to_any j = x" by blast
    have "2 * length ?t + 1 < f'" using Cons.prems f False by (simp add: join_with_Cons)
    with Cons.IH [of f'] Cons.prems False obtain js where js: "parse_items f' d ?t = Some (js, r)" "map to_any js = xs" by auto
    obtain y ys where "xs = y # ys" using False by (cases xs) auto
    moreover from this obtain c t where "marshal y = c # t" "\<not> json_space c" using Cons.prems marshal_head [of y] by auto
    ultimately have "skip_space ?t = ?t" by (cases ys) auto
    with j js f False show ?thesis
      by (intro exI [of _ "j # js"]) (auto simp: join_with_Cons intro!: items_more [of f' d _ j "CHR '','' # ?t"])
  qed
qed simp

text \<open>A text that is read as a value, at a given depth.\<close>

definition reads_as :: "int \<Rightarrow> string \<Rightarrow> jval \<Rightarrow> bool" where
  "reads_as d x v \<longleftrightarrow> x \<noteq> [] \<and> \<not> json_space (hd x) \<and>
     (\<forall>f r. 2 * length (x @ r) < f \<longrightarrow> ends_number r \<longrightarrow> (\<exists>j. parse_value f d (x @ r) = Some (j, r) \<and> to_any j = v))"

lemma reads_asD: "reads_as d x v \<Longrightarrow> 2 * length (x @ r) < f \<Longrightarrow> ends_number r \<Longrightarrow>
   \<exists>j. parse_value f d (x @ r) = Some (j, r) \<and> to_any j = v"
  by (simp add: reads_as_def)

definition write_field :: "string \<times> string \<Rightarrow> string" where
  "write_field m = quote_string (fst m) @ '':'' @ snd m"

lemma reads_fields:
  assumes "list_all2 (\<lambda>m x. fst x = fst m \<and> utf8 (fst m) \<and> reads_as d (snd m) (snd x)) ms xs" "ms \<noteq> []"
    "2 * length (join_with '','' (map write_field ms) @ CHR ''}'' # r) + 1 < f"
  shows "\<exists>js. parse_members f d (join_with '','' (map write_field ms) @ CHR ''}'' # r) = Some (js, r)
    \<and> map (\<lambda>m. (fst m, to_any (snd m))) js = xs"
  using assms
proof (induction ms xs arbitrary: f rule: list_all2_induct)
  case (Cons m ms v vs)
  then obtain f' where f: "f = Suc f'" by (cases f) auto
  obtain k x where m: "m = (k, x)" by (cases m)
  have w: "write_field m = quote_string k @ '':'' @ x" using m by (simp add: write_field_def)
  have x: "reads_as d x (snd v)" "fst v = k" using Cons.hyps m by simp_all
  have k: "scan_string (quote_body k @ quote # u) = Some (quote_body k, u)" "unquote (quote_body k) = k" for u
    using Cons.hyps m by (simp_all add: scan_quote_body unquote_quote_body utf8_def)
  obtain c t where c: "x = c # t" "\<not> json_space c" using x(1) by (cases x) (auto simp: reads_as_def)
  show ?case
  proof (cases "ms = []")
    case True
    with Cons.hyps have vs: "vs = []" by simp
    have "2 * length (x @ CHR ''}'' # r) < f'" using Cons.prems True f w by simp
    then obtain j where "parse_value f' d (x @ CHR ''}'' # r) = Some (j, CHR ''}'' # r)" "to_any j = snd v"
      using reads_asD [OF x(1), of "CHR ''}'' # r" f'] by auto
    with members_last [of "quote_body k @ quote # CHR '':'' # x @ CHR ''}'' # r" "quote_body k"
        "CHR '':'' # x @ CHR ''}'' # r" "x @ CHR ''}'' # r" f' d j "CHR ''}'' # r" r] True f w k c x(2) vs
    show ?thesis by (intro exI [of _ "[(k, j)]"]) (auto simp: quote_string_def)
  next
    case False
    let ?t = "join_with '','' (map write_field ms) @ CHR ''}'' # r"
    have "2 * length (x @ CHR '','' # ?t) < f'" using Cons.prems f False w by (simp add: join_with_Cons)
    then obtain j where j: "parse_value f' d (x @ CHR '','' # ?t) = Some (j, CHR '','' # ?t)" "to_any j = snd v"
      using reads_asD [OF x(1), of "CHR '','' # ?t" f'] by auto
    have "2 * length ?t + 1 < f'" using Cons.prems f False w by (simp add: join_with_Cons)
    with Cons.IH [of f'] False obtain js where js: "parse_members f' d ?t = Some (js, r)"
      "map (\<lambda>m. (fst m, to_any (snd m))) js = vs" by auto
    obtain y ys where "ms = y # ys" using False by (cases ms) auto
    then have "skip_space ?t = ?t" by (cases ys) (auto simp: write_field_def quote_string_def)
    with members_more [of "quote_body k @ quote # CHR '':'' # x @ CHR '','' # ?t" "quote_body k"
        "CHR '':'' # x @ CHR '','' # ?t" "x @ CHR '','' # ?t" f' d j "CHR '','' # ?t" ?t js r]
      j js f False w k c x(2)
    show ?thesis by (intro exI [of _ "(k, j) # js"]) (auto simp: join_with_Cons quote_string_def)
  qed
qed simp

lemma reads_as_marshal: "reads v \<Longrightarrow> valid v \<Longrightarrow> depth v \<le> d \<Longrightarrow> reads_as d (marshal v) v"
  using marshal_head [of v] readsD [of v d] by (auto simp: reads_as_def)

definition write_member :: "string \<times> jval \<Rightarrow> string" where
  "write_member m = quote_string (fst m) @ '':'' @ marshal (snd m)"

lemma reads_members:
  assumes "ms \<noteq> []" "\<forall>m \<in> set ms. reads (snd m) \<and> valid (snd m) \<and> utf8 (fst m) \<and> depth (snd m) \<le> d"
    "2 * length (join_with '','' (map write_member ms) @ CHR ''}'' # r) + 1 < f"
  shows "\<exists>js. parse_members f d (join_with '','' (map write_member ms) @ CHR ''}'' # r) = Some (js, r)
    \<and> map (\<lambda>m. (fst m, to_any (snd m))) js = ms"
proof -
  let ?xs = "map (\<lambda>m. (fst m, marshal (snd m))) ms"
  have w: "map write_member ms = map write_field ?xs" by (simp add: write_member_def write_field_def)
  have "list_all2 (\<lambda>m x. fst x = fst m \<and> utf8 (fst m) \<and> reads_as d (snd m) (snd x)) ?xs ms"
    using assms(2) by (auto simp: list_all2_conv_all_nth intro: reads_as_marshal)
  from reads_fields [OF this, of r f] assms(1,3) show ?thesis unfolding w by simp
qed

lemma foldr_max_ge: "x \<in> set xs \<Longrightarrow> x \<le> foldr max xs (0 :: int)"
  by (induction xs) auto

lemma foldr_max_pos: "0 \<le> foldr max xs (0 :: int)"
  by (induction xs) auto

lemma foldr_max_le: "0 \<le> d \<Longrightarrow> \<forall>x \<in> set xs. x \<le> d \<Longrightarrow> foldr max xs (0 :: int) \<le> d"
  by (induction xs) auto

lemma reads_null: "reads VNull"
proof -
  show ?thesis unfolding reads_def
  proof (intro allI impI)
    fix f d r assume "2 * length (marshal VNull @ r) < f"
    then show "\<exists>j. parse_value f d (marshal VNull @ r) = Some (j, r) \<and> to_any j = VNull"
      using value_null [of "f - 1" d r] by (cases f) auto
  qed
qed

lemma reads_bool: "reads (VBool b)"
proof -
  show ?thesis unfolding reads_def
  proof (intro allI impI)
    fix f d r assume "2 * length (marshal (VBool b) @ r) < f"
    then show "\<exists>j. parse_value f d (marshal (VBool b) @ r) = Some (j, r) \<and> to_any j = VBool b"
      using value_true [of "f - 1" d r] value_false [of "f - 1" d r] by (cases f; cases b) auto
  qed
qed

lemma reads_num:
  assumes "valid (VNum t)"
  shows "reads (VNum t)"
proof -
  have t: "scan_number t = Some (t, [])" using assms by simp
  obtain c u where c: "t = c # u" "c = CHR ''-'' \<or> is_digit c" using scan_number_head [OF t] by blast
  have "c \<notin> set ('']}{[ntf'' @ [quote])" using c(2) digit_no_space [of c] by (elim disjE) (simp_all add: quote_def)
  then have n: "c \<notin> set (quote # ''{['')" "c \<noteq> CHR ''n''" "c \<noteq> CHR ''t''" "c \<noteq> CHR ''f''" by simp_all
  have "parse_value (Suc f) d (t @ r) = Some (JNum t, r)" if "ends_number r" for f d r
    unfolding c(1) append_Cons
  proof (rule value_num)
    show "scan_number (c # u @ r) = Some (c # u, r)" using scan_number_app [OF t that] c(1) by simp
  qed (use n in simp_all)
  then have "\<exists>j. parse_value f d (marshal (VNum t) @ r) = Some (j, r) \<and> to_any j = VNum t"
    if "2 * length (marshal (VNum t) @ r) < f" "ends_number r" for f d r using that by (cases f) simp_all
  then show ?thesis by (simp add: reads_def)
qed

lemma reads_str:
  assumes "valid (VStr s)"
  shows "reads (VStr s)"
proof -
  have s: "unquote (quote_body s) = s" using assms by (simp add: unquote_quote_body utf8_def)
  have "parse_value (Suc f) d (marshal (VStr s) @ r) = Some (JStr (consumed (marshal (VStr s) @ r) r) s, r)" for f d r
    using value_str [OF scan_quote_body] s by (simp add: quote_string_def)
  then show ?thesis unfolding reads_def by (metis to_any.simps(4) not_less_zero old.nat.exhaust)
qed

lemma reads_arr:
  assumes "\<And>x. x \<in> set xs \<Longrightarrow> valid x \<Longrightarrow> reads x" "valid (VArr xs)"
  shows "reads (VArr xs)"
proof -
  have xs: "\<forall>x \<in> set xs. reads x \<and> valid x" using assms by (auto simp: list_all_iff)
  show ?thesis unfolding reads_def
  proof (intro allI impI)
    fix f d r assume a: "depth (VArr xs) \<le> d" "2 * length (marshal (VArr xs) @ r) < f"
    then obtain f' where f: "f = Suc f'" by (cases f) auto
    have d: "0 < d" using a(1) foldr_max_pos [of "map depth xs"] by simp
    have e: "\<forall>x \<in> set xs. depth x \<le> d - 1"
    proof
      fix x assume "x \<in> set xs"
      then have "depth x \<le> foldr max (map depth xs) 0" by (intro foldr_max_ge) simp
      with a(1) show "depth x \<le> d - 1" by simp
    qed
    show "\<exists>j. parse_value f d (marshal (VArr xs) @ r) = Some (j, r) \<and> to_any j = VArr xs"
    proof (cases "xs = []")
      case True
      then show ?thesis using value_arr0 [of d "CHR '']'' # r" r f'] d f by simp
    next
      case False
      let ?t = "join_with '','' (map marshal xs) @ CHR '']'' # r"
      from False obtain y ys where y: "xs = y # ys" by (cases xs) auto
      with xs obtain c t where "marshal y = c # t" "\<not> json_space c" "c \<noteq> CHR '']''" using marshal_head [of y] by auto
      with y have "skip_space ?t = ?t" "take 1 ?t \<noteq> '']''" by (cases ys; auto)+
      moreover have "2 * length ?t + 1 < f'" using a(2) f by simp
      then obtain js where "parse_items f' (d - 1) ?t = Some (js, r)" "map to_any js = xs"
        using reads_items [OF False, of "d - 1" r f'] xs e by auto
      ultimately show ?thesis using value_arr [of d ?t f' js r] d f by simp
    qed
  qed
qed

lemma reads_obj:
  assumes "\<And>m. m \<in> set ms \<Longrightarrow> valid (snd m) \<Longrightarrow> reads (snd m)" "valid (VObj ms)"
  shows "reads (VObj ms)"
proof -
  have ms: "\<forall>m \<in> set ms. reads (snd m) \<and> valid (snd m) \<and> utf8 (fst m)" "collect ms = ms"
    using assms by (auto simp: list_all_iff collect_id)
  show ?thesis unfolding reads_def
  proof (intro allI impI)
    fix f d r assume a: "depth (VObj ms) \<le> d" "2 * length (marshal (VObj ms) @ r) < f"
    then obtain f' where f: "f = Suc f'" by (cases f) auto
    have d: "0 < d" using a(1) foldr_max_pos [of "map (\<lambda>m. depth (snd m)) ms"] by simp
    have e: "\<forall>m \<in> set ms. depth (snd m) \<le> d - 1"
    proof
      fix m assume "m \<in> set ms"
      then have "depth (snd m) \<le> foldr max (map (\<lambda>m. depth (snd m)) ms) 0" by (intro foldr_max_ge) auto
      with a(1) show "depth (snd m) \<le> d - 1" by simp
    qed
    have w: "(\<lambda>m. quote_string (fst m) @ '':'' @ marshal (snd m)) = write_member" by (simp add: write_member_def fun_eq_iff)
    show "\<exists>j. parse_value f d (marshal (VObj ms) @ r) = Some (j, r) \<and> to_any j = VObj ms"
    proof (cases "ms = []")
      case True
      then show ?thesis using value_obj0 [of d "CHR ''}'' # r" r f'] d f by (simp add: collect_def)
    next
      case False
      let ?t = "join_with '','' (map write_member ms) @ CHR ''}'' # r"
      from False obtain y ys where "ms = y # ys" by (cases ms) auto
      then have "\<exists>u. ?t = quote # u" by (cases ys) (simp_all add: write_member_def quote_string_def)
      then obtain u where "?t = quote # u" ..
      then have "skip_space ?t = ?t" "take 1 ?t \<noteq> ''}''" by (simp, simp add: quote_def)
      moreover have "2 * length ?t + 1 < f'" using a(2) f unfolding marshal.simps w by simp
      then obtain js where "parse_members f' (d - 1) ?t = Some (js, r)" "map (\<lambda>m. (fst m, to_any (snd m))) js = ms"
        using reads_members [OF False, of "d - 1" r f'] ms e by auto
      ultimately show ?thesis using value_obj [of d ?t f' js r] d f ms(2) unfolding marshal.simps w by simp
    qed
  qed
qed

lemma marshal_reads: "valid v \<Longrightarrow> reads v"
  by (induction v rule: marshal.induct) (rule reads_null reads_bool reads_num reads_str reads_arr reads_obj; blast)+

text \<open>Written values are read back, by \<open>Decode\<close> whatever follows and by \<open>Unmarshal\<close>.\<close>

lemma read_marshal:
  assumes "valid v" "depth v \<le> maxNestingDepth" "ends_number r"
  shows "\<exists>j. read_value (marshal v @ r) = Some (j, r) \<and> to_any j = v"
proof -
  obtain c t where c: "marshal v = c # t" "\<not> json_space c" using marshal_head [OF assms(1)] by blast
  then have "skip_space (marshal v @ r) = marshal v @ r" by simp
  with readsD [OF marshal_reads [OF assms(1)] assms(2) _ assms(3)] show ?thesis by (metis lessI read_value_eq)
qed

lemma decode_marshal:
  assumes "valid v" "depth v \<le> maxNestingDepth"
  shows "\<exists>j. decode_all (marshal v) = Some j \<and> to_any j = v"
proof -
  obtain j where "read_value (marshal v) = Some (j, [])" "to_any j = v" using read_marshal [OF assms, of "[]"] by auto
  then show ?thesis by (auto simp: decode_all_def skip_space_def)
qed

text \<open>Every code point has an encoding that is read as one rune.\<close>

lemma of_char_small: "n < 256 \<Longrightarrow> (of_char (char_of n :: char) :: nat) = n"
  by simp

lemma rune_three:
  assumes "rune_class (of_char x) = (3, lo, hi)" "lo \<le> of_char y" "of_char y \<le> hi" "0x80 \<le> (of_char z :: nat)" "(of_char z :: nat) \<le> 0xBF"
  shows "is_rune [x, y, z]"
  using assms by (simp add: is_rune_def rune_size_def byte_in_def upt_rec)

lemma rune_four:
  assumes "rune_class (of_char x) = (4, lo, hi)" "lo \<le> of_char y" "of_char y \<le> hi" "0x80 \<le> (of_char z :: nat)" "(of_char z :: nat) \<le> 0xBF"
    "0x80 \<le> (of_char w :: nat)" "(of_char w :: nat) \<le> 0xBF"
  shows "is_rune [x, y, z, w]"
  using assms by (simp add: is_rune_def rune_size_def byte_in_def upt_rec)

lemma base64_digits: "u = 64 * (u div 64) + u mod 64" "u div 64 = 64 * (u div 4096) + u div 64 mod 64" for u :: nat
  using div_mult2_eq [of u 64 64] mult_div_mod_eq [of 64 "u div 64"] by simp_all

lemma encode_two:
  fixes u :: nat
  assumes "0x80 \<le> u" "u < 0x800"
  shows "is_rune [char_of (0xC0 + u div 64), char_of (0x80 + u mod 64)]"
proof -
  have "u div 64 < 32" "2 \<le> u div 64" "u mod 64 < 64"
    using assms div_le_mono [of 128 u 64] by (simp_all add: less_mult_imp_div_less)
  then show ?thesis by (simp add: is_rune_def rune_size_def rune_class_def byte_in_def)
qed

lemma encode_three:
  fixes u :: nat
  assumes "0x800 \<le> u" "u < 0x10000" "\<not> surrogate u"
  shows "is_rune [char_of (0xE0 + u div 4096), char_of (0x80 + u div 64 mod 64), char_of (0x80 + u mod 64)]"
proof -
  define a b where "a = u div 4096" and "b = u div 64 mod 64"
  have a: "a < 16" using assms(2) by (simp add: a_def less_mult_imp_div_less)
  have b: "b < 64" "u mod 64 < 64" by (simp_all add: b_def)
  have u: "u = 64 * (64 * a + b) + u mod 64" using base64_digits [of u] by (simp add: a_def b_def)
  have r: "a = 0 \<longrightarrow> 32 \<le> b" "a = 13 \<longrightarrow> b < 32"
    using assms(1,3) u b by (simp_all add: surrogate_def) linarith+
  have "\<exists>lo hi. rune_class (0xE0 + a) = (3, lo, hi) \<and> lo \<le> 0x80 + b \<and> 0x80 + b \<le> hi"
    using a b r by (cases "a = 0"; cases "a = 13") (simp_all add: rune_class_def)
  then obtain lo hi where "rune_class (0xE0 + a) = (3, lo, hi)" "lo \<le> 0x80 + b" "0x80 + b \<le> hi" by blast
  with a b show ?thesis unfolding a_def [symmetric] b_def [symmetric]
    by (intro rune_three [of _ lo hi]) (simp_all add: of_char_small del: of_char_of)
qed

lemma encode_four:
  fixes u :: nat
  assumes "0x10000 \<le> u" "u < 0x110000"
  shows "is_rune [char_of (0xF0 + u div 262144), char_of (0x80 + u div 4096 mod 64), char_of (0x80 + u div 64 mod 64),
            char_of (0x80 + u mod 64)]"
proof -
  define a b c where "a = u div 262144" and "b = u div 4096 mod 64" and "c = u div 64 mod 64"
  have a: "a < 5" using assms(2) by (simp add: a_def less_mult_imp_div_less)
  have b: "b < 64" "c < 64" "u mod 64 < 64" by (simp_all add: b_def c_def)
  have "u div 4096 = 64 * a + b" using base64_digits(2) [of "u div 64"] by (simp add: a_def b_def div_mult2_eq [symmetric])
  then have u: "u = 64 * (64 * (64 * a + b) + c) + u mod 64" using base64_digits [of u] by (simp add: c_def)
  obtain m where m: "u = 64 * (64 * (64 * a + b) + c) + m" "m < 64" using u b(3) by blast
  have r1: "16 \<le> b" if "a = 0" using assms(1) m b(2) that by simp
  have r2: "b < 16" if "a = 4" using assms(2) m that by simp
  have "\<exists>lo hi. rune_class (0xF0 + a) = (4, lo, hi) \<and> lo \<le> 0x80 + b \<and> 0x80 + b \<le> hi"
    using a b r1 r2 by (cases "a = 0"; cases "a = 4") (simp_all add: rune_class_def)
  then obtain lo hi where "rune_class (0xF0 + a) = (4, lo, hi)" "lo \<le> 0x80 + b" "0x80 + b \<le> hi" by blast
  with a b show ?thesis unfolding a_def [symmetric] b_def [symmetric] c_def [symmetric]
    by (intro rune_four [of _ lo hi]) (simp_all add: of_char_small del: of_char_of)
qed

lemma encode_rune_is_rune: "is_rune (encode_rune u)"
proof -
  consider "u < 0x80" | "0x80 \<le> u" "u < 0x800" | "0x800 \<le> u" "surrogate u \<or> 0x110000 \<le> u"
    | "0x800 \<le> u" "u < 0x10000" "\<not> surrogate u" | "0x10000 \<le> u" "u < 0x110000"
    by linarith
  then show ?thesis
  proof cases
    case 1 then show ?thesis by (simp add: encode_rune_def rune_one)
  next
    case 2 then show ?thesis using encode_two [of u] by (simp add: encode_rune_def)
  next
    case 3 then show ?thesis using is_rune_replacement by (simp add: encode_rune_def)
  next
    case 4 then show ?thesis using encode_three [of u] by (simp add: encode_rune_def)
  next
    case 5
    then have "\<not> surrogate u" by (simp add: surrogate_def)
    with 5 encode_four [of u] show ?thesis by (simp add: encode_rune_def)
  qed
qed

lemma utf8_append: "is_rune u \<Longrightarrow> utf8 s \<Longrightarrow> utf8 (u @ s)"
  by (simp add: utf8_def runes_append)

lemma utf8_Nil [simp]: "utf8 []"
  by (simp add: utf8_def)

lemma escape_is_rune: "e \<in> set (quote # backslash # ''/bfnrt'') \<Longrightarrow> is_rune [char_of (simple_escape e)]"
  by (simp add: quote_def backslash_def, elim disjE) (simp_all add: rune_one char_escapes char_of_of)

lemma well_escaped_skip: "list_all (\<lambda>c. c \<noteq> backslash) p \<Longrightarrow> well_escaped (p @ q) = well_escaped q"
  by (induction p) auto

lemma well_escaped_rune:
  assumes "well_escaped s" "rune_size s = n" "n \<noteq> 0" "hd s \<noteq> backslash"
  shows "well_escaped (drop n s)"
proof (cases "n = 1")
  case True
  with assms show ?thesis by (cases s) auto
next
  case False
  then have "list_all (\<lambda>c. 0x80 \<le> (of_char c :: nat)) (take n s)" using assms by (intro long_rune) auto
  then have "list_all (\<lambda>c. c \<noteq> backslash) (take n s)" by (auto simp: list_all_iff backslash_def)
  then have "well_escaped (take n s @ drop n s) = well_escaped (drop n s)" by (rule well_escaped_skip)
  with assms show ?thesis by simp
qed

lemma unquote_utf8: "well_escaped s \<Longrightarrow> utf8 (unquote s)"
proof (induction s rule: unquote.induct)
  case (2 c s)
  show ?case
  proof (cases "c = backslash")
    case False
    show ?thesis
    proof (cases "rune_size (c # s) = 0")
      case True
      with False 2 show ?thesis by (simp add: unquote.simps utf8_append is_rune_replacement)
    next
      case r: False
      have "well_escaped (drop (rune_size (c # s)) (c # s))" by (rule well_escaped_rune [OF 2(7) refl r]) (simp add: False)
      with 2(6) [OF False r] show ?thesis using False r
        by (simp add: unquote.simps(2) utf8_append is_rune_take)
    qed
  next
    case True
    then obtain e t where s: "s = e # t" using 2(7) by (cases s) auto
    show ?thesis
    proof (cases "e = CHR ''u''")
      case False
      then have "well_escaped t" "e \<in> set (quote # backslash # ''/bfnrt'')" using 2(7) True s by (auto simp: quote_def)
      with 2(4) [OF True s False] show ?thesis using True s False
        utf8_append [OF escape_is_rune, of e "unquote t"] by (simp add: unquote.simps(2))
    next
      case u: True
      have w: "well_escaped (drop 4 t)" using 2(7) True s u by auto
      show ?thesis
      proof (cases "surrogate (hex4 (take 4 t))")
        case False
        with 2(3) [OF True s u] w True s u show ?thesis by (simp add: unquote.simps(2) utf8_append encode_rune_is_rune)
      next
        case sg: True
        show ?thesis
        proof (cases "low_half (hex4 (take 4 t)) (drop 4 t)")
          case None
          with 2(1) [OF True s u sg None] w True s u sg show ?thesis
            by (simp add: unquote.simps(2) utf8_append is_rune_replacement)
        next
          case (Some v)
          then have h: "take 2 (drop 4 t) = [backslash, CHR ''u'']" "6 \<le> length (drop 4 t)"
            by (auto simp: low_half_def split: if_splits)
          then obtain z where z: "drop 4 t = backslash # CHR ''u'' # z"
            by (cases "drop 4 t"; cases "tl (drop 4 t)") auto
          then have "drop 10 t = drop 4 z" using drop_drop [of 6 4 t] by (simp add: numeral_eq_Suc)
          then have "well_escaped (drop 10 t)" using w z by (simp add: z)
          with 2(2) [OF True s u sg Some] True s u sg Some show ?thesis
            by (simp add: unquote.simps(2) utf8_append encode_rune_is_rune)
        qed
      qed
    qed
  qed
qed (simp add: unquote.simps)

lemma scan_well_escaped: "scan_string s = Some (b, r) \<Longrightarrow> well_escaped b"
proof (induction s arbitrary: b r rule: scan_string.induct)
  case (2 c s)
  show ?case
  proof (cases "c = backslash")
    case False
    with 2(3) 2(4) show ?thesis by (auto simp: scan_string.simps split: if_splits)
  next
    case True
    then obtain e t where s: "s = e # t" using 2(4) by (cases s) (auto simp: scan_string.simps quote_def backslash_def)
    show ?thesis
    proof (cases "e = CHR ''u''")
      case u: True
      with 2(4) True s obtain b' where b: "scan_string (drop 4 t) = Some (b', r)" "b = c # e # take 4 t @ b'" "4 \<le> length t"
        "list_all hex_char (take 4 t)"
        by (auto simp: scan_string.simps(2) quote_def backslash_def split: if_splits)
      with 2(1) [OF _ True s u] True u show ?thesis by (auto simp: quote_def backslash_def)
    next
      case nu: False
      with 2(4) True s 2(2) [OF _ True s nu] show ?thesis
        by (auto simp: scan_string.simps(2) quote_def backslash_def split: if_splits)
    qed
  qed
qed (simp add: scan_string.simps)

text \<open>Whatever is read is valid, and no deeper than the limit.\<close>

definition fits :: "int \<Rightarrow> json \<Rightarrow> bool" where "fits d j \<longleftrightarrow> valid (to_any j) \<and> depth (to_any j) \<le> d"

lemma fits_arr: "0 < d \<Longrightarrow> \<forall>x \<in> set xs. fits (d - 1) x \<Longrightarrow> fits d (JArr t xs)"
  using foldr_max_le [of "d - 1" "map depth (map to_any xs)"] by (auto simp: fits_def list_all_iff)

lemma fits_obj:
  assumes "0 < d" "\<forall>m \<in> set ms. utf8 (fst m) \<and> fits (d - 1) (snd m)"
  shows "fits d (JObj t ms)"
proof -
  let ?ms = "collect (map (\<lambda>m. (fst m, to_any (snd m))) ms)"
  have m: "utf8 (fst m) \<and> valid (snd m) \<and> depth (snd m) \<le> d - 1" if "m \<in> set ?ms" for m
    using assms(2) collect_members [OF that] by (auto simp: fits_def)
  have "foldr max (map (\<lambda>m. depth (snd m)) ?ms) 0 \<le> d - 1" using assms(1) m by (intro foldr_max_le) auto
  with m show ?thesis by (simp add: fits_def list_all_iff collect_ordered)
qed

lemma parse_valid:
  "(\<forall>d s j r. parse_value f d s = Some (j, r) \<longrightarrow> 0 \<le> d \<longrightarrow> fits d j) \<and>
   (\<forall>d s xs r. parse_items f d s = Some (xs, r) \<longrightarrow> 0 \<le> d \<longrightarrow> (\<forall>x \<in> set xs. fits d x)) \<and>
   (\<forall>d s ms r. parse_members f d s = Some (ms, r) \<longrightarrow> 0 \<le> d \<longrightarrow> (\<forall>m \<in> set ms. utf8 (fst m) \<and> fits d (snd m)))"
proof (induction f)
  case (Suc f)
  then have v: "\<And>d s j r. parse_value f d s = Some (j, r) \<Longrightarrow> 0 \<le> d \<Longrightarrow> fits d j"
    and i: "\<And>d s xs r. parse_items f d s = Some (xs, r) \<Longrightarrow> 0 \<le> d \<Longrightarrow> \<forall>x \<in> set xs. fits d x"
    and m: "\<And>d s ms r. parse_members f d s = Some (ms, r) \<Longrightarrow> 0 \<le> d \<Longrightarrow> \<forall>m \<in> set ms. utf8 (fst m) \<and> fits d (snd m)"
    by blast+
  have "fits d j" if "parse_value (Suc f) d s = Some (j, r)" "0 \<le> d" for d s j r
    using that(1)
  proof (cases rule: parse_value_cases)
    case (num n c t)
    then have "scan_number (n @ []) = Some (n, [])" by (intro scan_number_app) auto
    with num that(2) show ?thesis by (simp add: fits_def)
  next
    case (str t b)
    then show ?thesis using that(2) unquote_utf8 [OF scan_well_escaped] by (simp add: fits_def)
  next
    case (obj t ms)
    then show ?thesis using m [OF obj(4)] by (intro fits_obj [OF obj(2), of ms "consumed s r", folded obj(5)]) auto
  next
    case (arr t xs)
    then show ?thesis using i [OF arr(4)] by (intro fits_arr [OF arr(2), of xs "consumed s r", folded arr(5)]) auto
  next
    case (obj0 t)
    then show ?thesis using fits_obj [OF obj0(2), of "[]"] by simp
  next
    case (arr0 t)
    then show ?thesis using fits_arr [OF arr0(2), of "[]"] by simp
  qed (use that(2) in \<open>auto simp: fits_def\<close>)
  moreover have "\<forall>x \<in> set xs. fits d x" if "parse_items (Suc f) d s = Some (xs, r)" "0 \<le> d" for d s xs r
    using that(1) by (cases rule: parse_items_cases) (use v i that(2) in auto)
  moreover have "\<forall>m \<in> set ms. utf8 (fst m) \<and> fits d (snd m)" if "parse_members (Suc f) d s = Some (ms, r)" "0 \<le> d" for d s ms r
    using that(1)
  proof (cases rule: parse_members_cases)
    case (last s' k u t w x)
    then show ?thesis using v [OF last(4) that(2)] unquote_utf8 [OF scan_well_escaped [OF last(2)]] by simp
  next
    case (more s' k u t w x t' ms')
    then show ?thesis using v [OF more(4) that(2)] m [OF more(6) that(2)] unquote_utf8 [OF scan_well_escaped [OF more(2)]] by simp
  qed
  ultimately show ?case by blast
qed simp

lemma read_valid: "read_value s = Some (j, r) \<Longrightarrow> valid (to_any j) \<and> depth (to_any j) \<le> maxNestingDepth"
  using parse_valid [THEN conjunct1, rule_format, of "2 * length s + 1" maxNestingDepth "skip_space s" j r]
  by (simp add: read_value_def fits_def maxNestingDepth_def)

lemma decode_first_valid: "decode_first s = Some j \<Longrightarrow> valid (to_any j) \<and> depth (to_any j) \<le> maxNestingDepth"
  by (auto simp: decode_first_def dest: read_valid)

lemma decode_all_first: "decode_all s = Some j \<Longrightarrow> decode_first s = Some j"
  by (auto simp: decode_all_def decode_first_def bind_eq_Some_conv split: if_splits)

text \<open>What is written has no control characters, so it is a line of its own.\<close>

definition printable :: "string \<Rightarrow> bool" where "printable s \<longleftrightarrow> list_all (\<lambda>c. 0x20 \<le> (of_char c :: nat)) s"

lemma printable_simps [simp]: "printable []" "printable (c # s) \<longleftrightarrow> 0x20 \<le> (of_char c :: nat) \<and> printable s"
  "printable (s @ t) \<longleftrightarrow> printable s \<and> printable t"
  by (simp_all add: printable_def)

lemma hex_digit_printable: "n < 16 \<Longrightarrow> 0x20 \<le> (of_char (hex_digit n) :: nat)"
  by (auto simp: hex_digit_def numeral_eq_Suc less_Suc_eq)

lemma escape_printable:
  assumes "is_rune u"
  shows "printable (escape_rune u)"
  using assms
proof (cases u rule: rune_split)
  case (control c)
  have "(of_char c :: nat) div 16 < 16" using control(3) by linarith
  with control show ?thesis by (simp add: hex_digit_printable backslash_def)
next
  case (escaped c e)
  then show ?thesis by (auto simp: backslash_def quote_def)
qed (auto simp: escape_rune_def backslash_def plain_byte_def printable_def list_all_iff)

lemma quote_body_printable: "printable (quote_body s)"
proof (induction s rule: quote_body.induct)
  case (2 c s)
  then show ?case using is_rune_take [of "c # s"] by (auto simp: escape_printable backslash_def)
qed simp

lemma quote_string_printable: "printable (quote_string s)"
  by (simp add: quote_string_def quote_body_printable quote_def)

lemma printable_join: "list_all printable xs \<Longrightarrow> printable sep \<Longrightarrow> printable (join_with sep xs)"
  by (induction sep xs rule: join_with.induct) auto

lemma digits_printable: "scan_digits s = Some (d, r) \<Longrightarrow> printable d"
  by (auto simp: scan_digits_def printable_def list_all_iff is_digit_def dest: set_takeWhileD split: if_splits)

lemma int_printable: "scan_int s = Some (d, r) \<Longrightarrow> printable d"
  by (auto simp: scan_int_def printable_def list_all_iff is_digit_def dest!: set_takeWhileD split: list.splits if_splits)

lemma fraction_printable: "scan_fraction s = Some (d, r) \<Longrightarrow> printable d"
  by (auto simp: scan_fraction_def dest: digits_printable split: list.splits if_splits)

lemma exponent_printable: "scan_exponent s = Some (d, r) \<Longrightarrow> printable d"
  by (auto simp: scan_exponent_def dest: digits_printable split: list.splits if_splits)

lemma number_printable: "scan_number s = Some (n, r) \<Longrightarrow> printable n"
proof -
  have u: "printable d" if "scan_unsigned s = Some (d, r)" for s d r
    using that by (auto simp: scan_unsigned_def bind_eq_Some_conv dest: int_printable fraction_printable exponent_printable)
  show "scan_number s = Some (n, r) \<Longrightarrow> printable n" by (auto simp: scan_number_def dest: u split: list.splits if_splits)
qed

lemma marshal_printable: "valid v \<Longrightarrow> printable (marshal v)"
proof (induction v rule: marshal.induct)
  case (5 xs)
  then have "list_all printable (map marshal xs)" by (auto simp: list_all_iff)
  then show ?case by (simp add: printable_join)
next
  case (6 ms)
  then have "list_all printable (map (\<lambda>m. quote_string (fst m) @ '':'' @ marshal (snd m)) ms)"
    by (auto simp: list_all_iff quote_string_printable)
  then show ?case by (simp add: printable_join)
qed (auto simp: quote_string_printable dest: number_printable)

end
