(* ===== verification/Json_Raw.thy ===== *)
theory Json_Raw
  imports Json
begin

text \<open>
  Raw messages of encoding/json: \<open>Marshal\<close> writes a \<open>json.RawMessage\<close> in compact form, and the compact form of a
  text is read as the same value. A Go map of raw messages, read from an object and written again, keeps its members.
\<close>

section \<open>Raw messages\<close>

text \<open>
  \<open>Marshal\<close> of a \<open>json.RawMessage\<close> compacts its text: space between tokens goes, and the characters that are
  special in HTML or in scripts are escaped inside strings.
\<close>

fun html_escape :: "string \<Rightarrow> string" where
  "html_escape [] = []"
| "html_escape (c # s) =
     (if c = backslash then (case s of [] \<Rightarrow> [c] | e # t \<Rightarrow> c # e # html_escape t)
      else if c \<in> set ''<>&'' then backslash # ''u00'' @ [hex_digit (of_char c div 16), hex_digit (of_char c mod 16)] @ html_escape s
      else if take 3 (c # s) = [CHR 0xE2, CHR 0x80, CHR 0xA8] then backslash # ''u2028'' @ html_escape (drop 2 s)
      else if take 3 (c # s) = [CHR 0xE2, CHR 0x80, CHR 0xA9] then backslash # ''u2029'' @ html_escape (drop 2 s)
      else c # html_escape s)"

function compact :: "string \<Rightarrow> string" where
  "compact [] = []"
| "compact (c # s) =
     (if json_space c then compact s
      else if c = quote then
        (case scan_string s of None \<Rightarrow> c # s | Some (b, r) \<Rightarrow> quote # html_escape b @ quote # compact r)
      else c # compact s)"
  by pat_completeness auto
termination
  by (relation "measure length") (auto dest: scan_string_shorter)

declare html_escape.simps [simp del] compact.simps [simp del]

lemma scan_string_any: "scan_string s = Some (b, r) \<Longrightarrow> scan_string (b @ quote # t) = Some (b, t)"
proof (induction s arbitrary: b r rule: scan_string.induct)
  case (2 c s)
  show ?case
  proof (cases "c = backslash")
    case False
    with 2(3) 2(4) show ?thesis by (auto simp: scan_string.simps split: if_splits)
  next
    case True
    then obtain e u where s: "s = e # u" using 2(4) by (cases s) (auto simp: scan_string.simps quote_def backslash_def)
    show ?thesis
    proof (cases "e = CHR ''u''")
      case u: True
      with 2(4) True s obtain b' where b: "scan_string (drop 4 u) = Some (b', r)" "b = c # e # take 4 u @ b'" "4 \<le> length u"
        "list_all hex_char (take 4 u)"
        by (auto simp: scan_string.simps(2) quote_def backslash_def split: if_splits)
      with 2(1) [OF _ True s u, of b' r] True u show ?thesis by (auto simp: scan_string.simps(2) quote_def backslash_def)
    next
      case nu: False
      with 2(4) True s 2(2) [OF _ True s nu] show ?thesis
        by (auto simp: scan_string.simps(2) quote_def backslash_def split: if_splits)
    qed
  qed
qed (simp add: scan_string.simps)

text \<open>Escaping keeps what a string stands for.\<close>

lemma html_tag:
  assumes "c \<in> set ''<>&''"
  shows "html_escape (c # s) = escape_rune [c] @ html_escape s"
  using assms by (auto simp: html_escape.simps escape_rune_def quote_def backslash_def)

lemma html_line:
  assumes "x = CHR 0xA8 \<or> x = CHR 0xA9"
  shows "html_escape (CHR 0xE2 # CHR 0x80 # x # s) = escape_rune [CHR 0xE2, CHR 0x80, x] @ html_escape s"
  using assms by (auto simp: html_escape.simps(2) escape_rune_def quote_def backslash_def)

lemma html_plain: "c \<noteq> backslash \<Longrightarrow> c \<notin> set ''<>&'' \<Longrightarrow> c \<noteq> CHR 0xE2 \<or> take 2 s \<notin> {[CHR 0x80, CHR 0xA8], [CHR 0x80, CHR 0xA9]} \<Longrightarrow>
   html_escape (c # s) = c # html_escape s"
  by (subst html_escape.simps) auto

lemma html_low: "list_all (\<lambda>c. c \<noteq> backslash \<and> c \<notin> set ''<>&'' \<and> c \<noteq> CHR 0xE2) u \<Longrightarrow> html_escape (u @ s) = u @ html_escape s"
  by (induction u) (simp_all add: html_plain)

lemma hex_low: "hex_char c \<Longrightarrow> c \<noteq> backslash \<and> c \<notin> set ''<>&'' \<and> c \<noteq> CHR 0xE2"
  unfolding hex_char_def backslash_def by (intro conjI notI) auto

text \<open>The text of a string, token by token.\<close>

definition body :: "string \<Rightarrow> bool" where "body b \<longleftrightarrow> scan_string (b @ [quote]) = Some (b, [])"

lemma body_scan: "body b \<Longrightarrow> scan_string (b @ quote # r) = Some (b, r)"
  unfolding body_def by (rule scan_string_any)

lemma scan_body: "scan_string s = Some (b, r) \<Longrightarrow> body b"
  unfolding body_def by (rule scan_string_any)

lemma body_Nil [simp]: "body []"
  by (simp add: body_def scan_string.simps)

lemma body_simple: "e \<in> set (quote # backslash # ''/bfnrt'') \<Longrightarrow> body (backslash # e # t) = body t"
  using scan_escaped [of e "t @ [quote]"] by (auto simp: body_def)

lemma body_hex: "length w = 4 \<Longrightarrow> list_all hex_char w \<Longrightarrow> body (backslash # CHR ''u'' # w @ t) = body t"
proof -
  assume w: "length w = 4" "list_all hex_char w"
  then obtain a b c d where "w = [a, b, c, d]" using take4 [of w] by auto
  with w(2) scan_hex [of a b c d "t @ [quote]"] show ?thesis by (auto simp: body_def)
qed

lemma body_plain: "list_all plain_byte u \<Longrightarrow> body (u @ t) = body t"
  using scan_plain [of u "t @ [quote]"] by (auto simp: body_def)

lemma body_escape: "is_rune u \<Longrightarrow> body (escape_rune u @ t) = body t"
  using scan_escape [of u "t @ [quote]"] by (auto simp: body_def)

lemma body_cases:
  assumes "body b"
  obtains (nil) "b = []"
  | (simple) e t where "b = backslash # e # t" "e \<in> set (quote # backslash # ''/bfnrt'')" "e \<noteq> CHR ''u''" "body t"
  | (hex) w t where "b = backslash # CHR ''u'' # w @ t" "length w = 4" "list_all hex_char w" "body t"
  | (rune) u t where "b = u @ t" "is_rune u" "list_all plain_byte u" "body t"
  | (bad) c t where "b = c # t" "rune_size (c # t) = 0" "0x80 \<le> (of_char c :: nat)" "body t"
proof (cases b)
  case (Cons c s)
  note scan = assms [unfolded body_def Cons append_Cons scan_string.simps(2)]
  show ?thesis
  proof (cases "c = backslash")
    case True
    with scan obtain e t where s: "s @ [quote] = e # t" by (cases "s @ [quote]") (auto simp: quote_def backslash_def)
    show ?thesis
    proof (cases "e = CHR ''u''")
      case u: True
      then have h: "4 \<le> length t" "list_all hex_char (take 4 t)" "t = take 4 t @ drop 4 t"
        using scan True s by (auto simp: quote_def backslash_def split: if_splits)
      have s': "s = CHR ''u'' # tl s" "t = tl s @ [quote]" using s u by (cases s; auto simp: quote_def)+
      have q: "\<not> hex_char quote" by (simp add: quote_def hex_char_def)
      have l: "4 \<le> length (tl s)"
      proof (rule ccontr)
        assume "\<not> 4 \<le> length (tl s)"
        then have "take 4 t = tl s @ [quote]" using s'(2) h(1) by simp
        with h(2) q show False by simp
      qed
      then have "list_all hex_char (take 4 (tl s))" using h(2) s'(2) by simp
      moreover have b: "b = backslash # CHR ''u'' # take 4 (tl s) @ drop 4 (tl s)" using Cons True s'(1) by simp
      ultimately show ?thesis using l assms body_hex [of "take 4 (tl s)" "drop 4 (tl s)"]
        by (intro hex [of "take 4 (tl s)" "drop 4 (tl s)"]) auto
    next
      case False
      with scan True s have e: "e \<in> set (quote # backslash # ''/bfnrt'')" by (auto simp: quote_def backslash_def split: if_splits)
      have "s \<noteq> []"
      proof
        assume "s = []"
        with s scan True show False by (auto simp: quote_def backslash_def scan_string.simps)
      qed
      with s obtain t' where "s = e # t'" by (cases s) auto
      with Cons True e False assms body_simple [OF e, of t'] show ?thesis by (intro simple [of e t']) auto
    qed
  next
    case False
    have p: "plain_byte c" using scan False Cons assms by (auto simp: plain_byte_def quote_def split: if_splits)
    show ?thesis
    proof (cases "rune_size b = 0")
      case True
      with Cons have "0x80 \<le> (of_char c :: nat)" using rune_size_ascii [of c s] by (auto simp: not_le [symmetric])
      with True Cons assms body_plain [of "[c]" s] p show ?thesis by (intro bad [of c s]) auto
    next
      case r: False
      let ?n = "rune_size b"
      have "list_all plain_byte (take ?n b)"
      proof (cases "?n = 1")
        case True
        with p Cons show ?thesis by simp
      next
        case False
        with r have "list_all (\<lambda>c. 0x80 \<le> (of_char c :: nat)) (take ?n b)" by (intro long_rune) auto
        then show ?thesis by (auto simp: list_all_iff high_plain)
      qed
      with is_rune_take [OF r] assms body_plain [of "take ?n b" "drop ?n b"] show ?thesis
        by (intro rune [of "take ?n b" "drop ?n b"]) auto
    qed
  qed
qed (rule nil)

definition continues :: "char \<Rightarrow> bool" where
  "continues c \<longleftrightarrow> 0x80 \<le> (of_char c :: nat) \<and> (of_char c :: nat) \<le> 0xBF"

lemma byte_in_continues: "0x80 \<le> lo \<Longrightarrow> hi \<le> 0xBF \<Longrightarrow> byte_in s i lo hi \<Longrightarrow> continues (s ! i)"
  by (auto simp: byte_in_def continues_def)

lemma rune_class_range: "rune_class x = (n, lo, hi) \<Longrightarrow> 0x80 \<le> lo \<and> hi \<le> 0xBF"
  by (auto simp: rune_class_def split: if_splits)

lemma rune_size_continues:
  "rune_size (c # s) = rune_size (c # takeWhile continues s)"
proof -
  let ?p = "takeWhile continues s"
  obtain n lo hi where k: "rune_class (of_char c) = (n, lo, hi)" by (cases "rune_class (of_char c)")
  note r = rune_class_range [OF k]
  have pre: "byte_in (c # ?p) i a b \<Longrightarrow> byte_in (c # s) i a b" for i a b
    using takeWhile_dropWhile_id [of continues s] byte_in_append_iff [where s = "c # ?p" and t = "dropWhile continues s"]
    by (auto simp: byte_in_def)
  have post: "byte_in (c # ?p) i a b" if "byte_in (c # s) i a b" "\<forall>j < i. 0 < j \<longrightarrow> continues ((c # s) ! j)" "continues ((c # s) ! i)" for i a b
  proof (cases i)
    case (Suc j)
    have "j < length s" "\<forall>m \<le> j. continues (s ! m)" using that Suc by (auto simp: byte_in_def le_less nth_Cons' split: if_splits)
    then have "j < length ?p" by (metis leI le_less_trans nth_length_takeWhile)
    with that(1) Suc show ?thesis by (simp add: byte_in_def takeWhile_nth)
  qed (use that(1) in \<open>simp add: byte_in_def\<close>)
  have "byte_in (c # s) 1 lo hi \<and> list_all (\<lambda>i. byte_in (c # s) i 0x80 0xBF) [2..<n]
    \<longleftrightarrow> byte_in (c # ?p) 1 lo hi \<and> list_all (\<lambda>i. byte_in (c # ?p) i 0x80 0xBF) [2..<n]" (is "?a \<longleftrightarrow> ?b")
  proof
    assume a: ?a
    have c: "continues ((c # s) ! j)" if "0 < j" "j < n \<or> j = 1" for j
      using a that byte_in_continues [where lo = lo and hi = hi and s = "c # s" and i = 1] byte_in_continues [where lo = "0x80" and hi = "0xBF" and s = "c # s" and i = j] r
      by (cases "j = 1") (auto simp: list_all_iff)
    have "byte_in (c # ?p) 1 lo hi" using a c [of 1] by (intro post) auto
    moreover have "byte_in (c # ?p) i 0x80 0xBF" if "i \<in> set [2..<n]" for i
      using a that c by (intro post) (auto simp: list_all_iff)
    ultimately show ?b by (auto simp: list_all_iff)
  qed (auto simp: list_all_iff pre)
  then show ?thesis by (simp add: rune_size_def k)
qed

lemma no_continues [simp]: "\<not> continues backslash" "\<not> continues (CHR 0xE2)" "c \<in> set ''<>&'' \<Longrightarrow> \<not> continues c"
  by (auto simp: continues_def backslash_def)

lemma html_continues: "takeWhile continues (html_escape s) = takeWhile continues s"
proof (induction s rule: html_escape.induct)
  case (2 c s)
  show ?case
  proof (cases "c = backslash \<or> c \<in> set ''<>&'' \<or> c = CHR 0xE2")
    case True
    then have "\<not> continues c" by auto
    moreover from True have "hd (html_escape (c # s)) \<in> {backslash, CHR 0xE2}" "html_escape (c # s) \<noteq> []"
      by (auto simp: html_escape.simps(2) split: list.split)
    then have "takeWhile continues (html_escape (c # s)) = []"
      by (cases "html_escape (c # s)") auto
    ultimately show ?thesis by simp
  next
    case False
    with 2 show ?thesis by (simp add: html_plain)
  qed
qed (simp add: html_escape.simps)

lemma rune_tail:
  assumes "is_rune (c # v)"
  shows "list_all continues v"
proof (cases "v = []")
  case False
  obtain b t lo hi where s: "c # v = b # t" "rune_class (of_char b) = (Suc (length v), lo, hi)"
    "Suc (length v) \<le> 1 \<or> byte_in (c # v) 1 lo hi \<and> list_all (\<lambda>i. byte_in (c # v) i 0x80 0xBF) [2..<Suc (length v)]"
    by (rule rune_size_cases [of "c # v" "Suc (length v)"]) (use assms in \<open>auto simp: is_rune_def\<close>)
  have "continues ((c # v) ! i)" if "0 < i" "i \<le> length v" for i
    using s(3) rune_class_range [OF s(2)] False that byte_in_continues [where lo = lo and hi = hi and s = "c # v" and i = 1] byte_in_continues [where lo = "0x80" and hi = "0xBF" and s = "c # v" and i = i]
    by (cases "i = 1"; cases "i = length v") (auto simp: list_all_iff)
  then show ?thesis by (force simp: list_all_length)
qed simp

text \<open>A rune is left as it is or written as its escape.\<close>

lemma html_rune:
  assumes "is_rune u" "list_all plain_byte u"
  obtains (same) "html_escape (u @ t) = u @ html_escape t" | (escaped) "html_escape (u @ t) = escape_rune u @ html_escape t"
    "u \<in> {''<'', ''>'', ''&'', [CHR 0xE2, CHR 0x80, CHR 0xA8], [CHR 0xE2, CHR 0x80, CHR 0xA9]}"
proof (cases "length u = 1")
  case True
  then obtain c where u: "u = [c]" by (cases u) auto
  have c: "c \<noteq> CHR 0xE2" "c \<noteq> backslash" using assms u by (auto simp: rune_one plain_byte_def)
  show ?thesis
  proof (cases "c \<in> set ''<>&''")
    case True
    then show ?thesis using html_tag [OF True, of t] u by (intro escaped) auto
  next
    case False
    then show ?thesis using html_plain [of c t] c u by (intro same) auto
  qed
next
  case False
  then obtain c v where u: "u = c # v" "v \<noteq> []" using assms(1) by (cases u; cases "tl u") (auto simp: is_rune_def)
  have high: "list_all (\<lambda>c. 0x80 \<le> (of_char c :: nat)) u" by (rule rune_many [OF assms(1) False])
  consider "u = [CHR 0xE2, CHR 0x80, CHR 0xA8]" | "u = [CHR 0xE2, CHR 0x80, CHR 0xA9]"
    | "u \<notin> {[CHR 0xE2, CHR 0x80, CHR 0xA8], [CHR 0xE2, CHR 0x80, CHR 0xA9]}" by blast
  then show ?thesis
  proof cases
    case 1 then show ?thesis using html_line [of _ t] by (intro escaped) auto
  next
    case 2 then show ?thesis using html_line [of _ t] by (intro escaped) auto
  next
    case 3
    have v: "list_all (\<lambda>c. c \<noteq> backslash \<and> c \<notin> set ''<>&'' \<and> c \<noteq> CHR 0xE2) v"
      using rune_tail [of c v] assms(1) u by (auto simp: list_all_iff)
    have "length v = 2" if "c = CHR 0xE2"
      using assms(1) u that by (auto simp: is_rune_def rune_size_def rune_class_def split: if_splits)
    then have "c \<noteq> CHR 0xE2 \<or> take 2 (v @ t) \<notin> {[CHR 0x80, CHR 0xA8], [CHR 0x80, CHR 0xA9]}" using 3 u by auto
    then have "html_escape (c # v @ t) = c # html_escape (v @ t)" using high u by (intro html_plain) (auto simp: backslash_def)
    with html_low [OF v, of t] u show ?thesis by (intro same) simp
  qed
qed

lemma unquote_bad: "rune_size (c # s) = 0 \<Longrightarrow> c \<noteq> backslash \<Longrightarrow> unquote (c # s) = replacement @ unquote s"
  by (simp add: unquote.simps)

lemma unquote_u: "length w = 4 \<Longrightarrow> unquote (backslash # CHR ''u'' # w @ z) =
   (if surrogate (hex4 w) then
      (case low_half (hex4 w) z of Some v \<Rightarrow> encode_rune v @ unquote (drop 6 z) | None \<Rightarrow> replacement @ unquote z)
    else encode_rune (hex4 w) @ unquote z)"
  by (simp add: unquote.simps(2) numeral_eq_Suc split: option.split)

lemma low_half_not: "take 2 z \<noteq> [backslash, CHR ''u''] \<Longrightarrow> low_half u z = None"
  by (simp add: low_half_def)

lemma low_half_cong: "length w = 4 \<Longrightarrow> low_half u (backslash # CHR ''u'' # w @ z) = low_half u (backslash # CHR ''u'' # w @ z')"
  by (simp add: low_half_def)

lemma low_half_escape:
  assumes "u \<in> {''<'', ''>'', ''&'', [CHR 0xE2, CHR 0x80, CHR 0xA8], [CHR 0xE2, CHR 0x80, CHR 0xA9]}"
  shows "low_half x (escape_rune u @ z) = None"
  using assms
  by (elim insertE emptyE; simp add: escape_rune_def low_half_def quote_def backslash_def hex4_def hex_digit_def hex_value_def)

lemma rune_lines: "is_rune [CHR 0xE2, CHR 0x80, CHR 0xA8]" "is_rune [CHR 0xE2, CHR 0x80, CHR 0xA9]"
  by (simp_all add: is_rune_def rune_size_def rune_class_def byte_in_def upt_rec)

lemma html_bad:
  assumes "rune_size (c # z) = 0" "0x80 \<le> (of_char c :: nat)"
  shows "html_escape (c # z) = c # html_escape z" "c \<noteq> backslash"
proof -
  show b: "c \<noteq> backslash" using assms(2) by (auto simp: backslash_def)
  have "c = CHR 0xE2 \<Longrightarrow> take 2 z \<notin> {[CHR 0x80, CHR 0xA8], [CHR 0x80, CHR 0xA9]}"
  proof
    assume "c = CHR 0xE2" "take 2 z \<in> {[CHR 0x80, CHR 0xA8], [CHR 0x80, CHR 0xA9]}"
    then have "is_rune (c # take 2 z)" using rune_lines by (elim insertE emptyE) simp_all
    moreover have "c # z = (c # take 2 z) @ drop 2 z" by (simp only: append_Cons append_take_drop_id)
    ultimately have "rune_size (c # z) = length (c # take 2 z)" using rune_size_append [of "c # take 2 z" "drop 2 z"] by metis
    with assms(1) show False by simp
  qed
  with b assms(2) show "html_escape (c # z) = c # html_escape z" by (intro html_plain) auto
qed

lemma html_hex: "length w = 4 \<Longrightarrow> list_all hex_char w \<Longrightarrow>
   html_escape (backslash # CHR ''u'' # w @ z) = backslash # CHR ''u'' # w @ html_escape z"
  using html_low [of w z] hex_low by (auto simp: html_escape.simps(2) list_all_iff)

lemma low_half_html:
  assumes "body t"
  shows "low_half x (html_escape t) = low_half x t"
  using assms
proof (cases rule: body_cases)
  case (hex w z)
  then have "html_escape t = backslash # CHR ''u'' # w @ html_escape z" by (simp add: html_hex)
  with hex low_half_cong [OF hex(2)] show ?thesis by metis
next
  case (simple e z)
  then show ?thesis by (simp add: html_escape.simps(2) low_half_not)
next
  case (rune u z)
  then obtain c v where u: "u = c # v" "c \<noteq> backslash" by (cases u) (auto simp: is_rune_def plain_byte_def)
  have "low_half x t = None" using rune u by (intro low_half_not) auto
  moreover from rune(2,3) have "low_half x (html_escape (u @ z)) = None"
    by (cases rule: html_rune [of u z]) (use u in \<open>auto simp: low_half_escape low_half_not\<close>)
  ultimately show ?thesis using rune by simp
next
  case (bad c z)
  then show ?thesis using html_bad [OF bad(2,3)] by (simp add: low_half_not)
qed (simp add: html_escape.simps)

lemma html_body: "body b \<Longrightarrow> body (html_escape b) \<and> unquote (html_escape b) = unquote b"
proof (induction "length b" arbitrary: b rule: less_induct)
  case less
  from less.prems show ?case
  proof (cases rule: body_cases)
    case (simple e t)
    with less.hyps [of t] show ?thesis by (simp add: html_escape.simps(2) body_simple unquote_escaped)
  next
    case (rune u t)
    then have ih: "body (html_escape t)" "unquote (html_escape t) = unquote t"
      using less.hyps [of t] by (auto simp: is_rune_def)
    have q: "unquote (u @ z) = u @ unquote z" for z
      using rune by (intro unquote_plain) (auto simp: plain_byte_def list_all_iff)
    from rune(2,3) show ?thesis
      by (cases rule: html_rune [of u t]) (simp_all add: rune(1) ih q body_plain [OF rune(3)] body_escape [OF rune(2)] unquote_escape [OF rune(2)])
  next
    case (bad c t)
    then have ih: "body (html_escape t)" "unquote (html_escape t) = unquote t" using less.hyps [of t] by auto
    have "rune_size (c # html_escape t) = 0"
      using bad(2) rune_size_continues [of c t] rune_size_continues [of c "html_escape t"] by (simp add: html_continues)
    with bad html_bad [OF bad(2,3)] ih body_plain [of "[c]" "html_escape t"] high_plain [OF bad(3)]
    show ?thesis by (simp add: unquote_bad)
  next
    case (hex w t)
    then have ih: "body (html_escape t)" "unquote (html_escape t) = unquote t" using less.hyps [of t] by auto
    have "unquote (drop 6 (html_escape t)) = unquote (drop 6 t)" if "low_half (hex4 w) t = Some v" for v
      using hex(4)
    proof (cases rule: body_cases)
      case (hex w' t')
      with less.hyps [of t'] \<open>b = _\<close> show ?thesis by (simp add: html_hex)
    next
      case (rune u t')
      then have "low_half (hex4 w) t = None" by (intro low_half_not) (cases u, auto simp: is_rune_def plain_byte_def)
      with that show ?thesis by simp
    next
      case (bad c t')
      then have "low_half (hex4 w) t = None" by (intro low_half_not) (auto simp: backslash_def)
      with that show ?thesis by simp
    next
      case (simple e t')
      then have "low_half (hex4 w) t = None" by (intro low_half_not) auto
      with that show ?thesis by simp
    qed (simp add: html_escape.simps)
    with hex ih show ?thesis
      by (simp add: html_hex body_hex unquote_u low_half_html split: option.split)
  qed (simp add: html_escape.simps)
qed

text \<open>The compact text of a value is read as the same value.\<close>

definition closed :: "string \<Rightarrow> bool" where
  "closed t \<longleftrightarrow> printable (compact t) \<and> (\<forall>u. compact (t @ u) = compact t @ compact u)"

definition tight :: "string \<Rightarrow> bool" where
  "tight t \<longleftrightarrow> closed t \<and> t \<noteq> [] \<and> \<not> json_space (hd t)"

lemma compact_Nil [simp]: "compact [] = []"
  by (simp add: compact.simps)

lemma compact_space: "list_all json_space w \<Longrightarrow> compact (w @ u) = compact u"
  by (induction w) (simp_all add: compact.simps)

lemma compact_char: "\<not> json_space c \<Longrightarrow> c \<noteq> quote \<Longrightarrow> compact (c # u) = c # compact u"
  by (simp add: compact.simps)

lemma compact_chars: "list_all (\<lambda>c. \<not> json_space c \<and> c \<noteq> quote) t \<Longrightarrow> compact (t @ u) = t @ compact u"
  by (induction t) (simp_all add: compact_char)

lemma compact_string: "body b \<Longrightarrow> compact (quote # b @ quote # u) = quote # html_escape b @ quote # compact u"
  using body_scan [of b u] by (simp add: compact.simps(2))

lemma closed_append: "closed s \<Longrightarrow> closed t \<Longrightarrow> closed (s @ t)"
  by (simp add: closed_def)

lemma closed_space: "list_all json_space w \<Longrightarrow> closed w"
  using compact_space [of w "[]"] by (simp add: closed_def compact_space)

lemma closed_chars: "list_all (\<lambda>c. \<not> json_space c \<and> c \<noteq> quote) t \<Longrightarrow> printable t \<Longrightarrow> closed t"
  using compact_chars [of t "[]"] by (simp add: closed_def compact_chars)

lemma quote_printable [simp]: "0x20 \<le> (of_char quote :: nat)" "0x20 \<le> (of_char backslash :: nat)"
  by (simp_all add: quote_def backslash_def)

lemma html_printable: "body b \<Longrightarrow> printable (html_escape b)"
proof (induction "length b" arbitrary: b rule: less_induct)
  case less
  from less.prems show ?case
  proof (cases rule: body_cases)
    case (simple e t)
    then have "0x20 \<le> (of_char e :: nat)" by (auto simp: quote_def backslash_def)
    with simple less.hyps [of t] show ?thesis by (simp add: html_escape.simps(2))
  next
    case (rune u t)
    then have "printable (html_escape t)" "printable u"
      using less.hyps [of t] by (auto simp: is_rune_def plain_byte_def printable_def list_all_iff)
    with rune(2,3) show ?thesis unfolding rune(1)
      by (cases rule: html_rune [of u t]) (simp_all add: escape_printable [OF rune(2)])
  next
    case (bad c t)
    with less.hyps [of t] html_bad [OF bad(2,3)] show ?thesis by simp
  next
    case (hex w t)
    have "0x20 \<le> (of_char c :: nat)" if "hex_char c" for c
    proof -
      have "c \<in> set ''0123456789abcdef'' \<or> c \<in> set ''ABCDEF''" using that unfolding hex_char_def index_byte_None by blast
      then show ?thesis by auto
    qed
    with hex(3) have "printable w" by (auto simp: printable_def list_all_iff)
    with hex less.hyps [of t] show ?thesis by (simp add: html_hex)
  qed (simp add: html_escape.simps)
qed

lemma closed_string: "body b \<Longrightarrow> closed (quote # b @ [quote])"
  using compact_string [of b "[]"] compact_string [of b] by (simp add: closed_def html_printable)

lemma compact_head: "\<not> json_space c \<Longrightarrow> \<exists>u. compact (c # s) = c # u"
  by (auto simp: compact.simps split: option.split)

lemma tight_head: "tight t \<Longrightarrow> \<exists>u. compact t = hd t # u \<and> \<not> json_space (hd t)"
  using compact_head [of "hd t" "tl t"] by (auto simp: tight_def)

lemma tight_skip: "tight t \<Longrightarrow> skip_space (compact t @ r) = compact t @ r"
  using tight_head by force

lemma closedD: "closed t \<Longrightarrow> compact (t @ u) = compact t @ compact u"
  by (simp add: closed_def)

lemma skip_split: "skip_space u = c # t \<Longrightarrow> \<exists>w. u = w @ c # t \<and> list_all json_space w"
  unfolding skip_space_def by (metis dropWhile_eq_Cons_conv takeWhile_dropWhile_id list_all_iff set_takeWhileD)

lemma skip_all_split: "\<exists>w. u = w @ skip_space u \<and> list_all json_space w"
  unfolding skip_space_def by (metis takeWhile_dropWhile_id list_all_iff set_takeWhileD)

lemma number_chars:
  assumes "scan_number s = Some (n, r)"
  shows "list_all (\<lambda>c. \<not> json_space c \<and> c \<noteq> quote) n"
proof -
  define ok where "ok = list_all (\<lambda>c. is_digit c \<or> c \<in> set ''-+.eE'')"
  have d: "ok d" if "scan_digits s = Some (d, r)" for s d r
    using that by (auto simp: ok_def scan_digits_def list_all_iff dest: set_takeWhileD split: if_splits)
  have i: "ok d" if "scan_int s = Some (d, r)" for s d r
    using that by (auto simp: ok_def scan_int_def list_all_iff dest!: set_takeWhileD split: list.splits if_splits)
  have f: "ok d" if "scan_fraction s = Some (d, r)" for s d r
    using that d by (fastforce simp: scan_fraction_def ok_def split: list.splits if_splits)
  have e: "ok d" if "scan_exponent s = Some (d, r)" for s d r
    using that d by (fastforce simp: scan_exponent_def ok_def split: list.splits if_splits)
  have u: "ok d" if "scan_unsigned s = Some (d, r)" for s d r
    using that by (auto simp: scan_unsigned_def bind_eq_Some_conv ok_def [THEN fun_cong] dest!: i f e)
  have "ok n" using assms u by (auto simp: scan_number_def ok_def split: list.splits if_splits)
  then show ?thesis using digit_no_space by (auto simp: ok_def list_all_iff json_space_def quote_def is_digit_def)
qed

definition recompact_value :: "nat \<Rightarrow> int \<Rightarrow> string \<Rightarrow> json \<Rightarrow> string \<Rightarrow> bool" where
  "recompact_value f d s j r \<longleftrightarrow> (\<exists>t. s = t @ r \<and> tight t \<and>
     (\<forall>r'. ends_number r' \<longrightarrow> (\<exists>j'. parse_value f d (compact t @ r') = Some (j', r') \<and> to_any j' = to_any j)))"

definition recompact_items :: "nat \<Rightarrow> int \<Rightarrow> string \<Rightarrow> json list \<Rightarrow> string \<Rightarrow> bool" where
  "recompact_items f d s xs r \<longleftrightarrow> (\<exists>t. s = t @ r \<and> tight t \<and>
     (\<forall>r'. \<exists>xs'. parse_items f d (compact t @ r') = Some (xs', r') \<and> map to_any xs' = map to_any xs))"

abbreviation any_members :: "(string \<times> json) list \<Rightarrow> (string \<times> jval) list" where
  "any_members \<equiv> map (\<lambda>m. (fst m, to_any (snd m)))"

definition recompact_members :: "nat \<Rightarrow> int \<Rightarrow> string \<Rightarrow> (string \<times> json) list \<Rightarrow> string \<Rightarrow> bool" where
  "recompact_members f d s ms r \<longleftrightarrow> (\<exists>t. s = t @ r \<and> tight t \<and> hd t = quote \<and>
     (\<forall>r'. \<exists>ms'. parse_members f d (compact t @ r') = Some (ms', r') \<and> any_members ms' = any_members ms))"

lemma tight_bracket:
  assumes "list_all json_space w" "closed t" "\<not> json_space a" "a \<noteq> quote" "\<not> json_space b" "b \<noteq> quote"
    "0x20 \<le> (of_char a :: nat)" "0x20 \<le> (of_char b :: nat)"
  shows "tight (a # w @ t @ [b])" "compact (a # w @ t @ [b]) = a # compact t @ [b]"
proof -
  have "compact (a # w @ t @ b # u) = a # compact t @ b # compact u" for u
    using assms by (simp add: compact_char compact_space closedD)
  from this [of "[]"] this assms show "tight (a # w @ t @ [b])" "compact (a # w @ t @ [b]) = a # compact t @ [b]"
    by (auto simp: tight_def closed_def)
qed

lemma recompact_container:
  assumes "s = a # t" "skip_space t = u @ r" "tight u" "\<not> json_space a" "a \<noteq> quote" "0x20 \<le> (of_char a :: nat)"
  shows "\<exists>w. s = (a # w @ u) @ r \<and> tight (a # w @ u) \<and> compact (a # w @ u) = a # compact u"
proof -
  obtain w where w: "t = w @ u @ r" "list_all json_space w" using skip_all_split [of t] assms(2) by auto
  have "compact (a # w @ u @ v) = a # compact u @ compact v" for v
    using assms w by (simp add: compact_char compact_space tight_def closedD)
  from this [of "[]"] this w assms show ?thesis by (auto simp: tight_def closed_def)
qed

lemma literal_tight: "list_all (\<lambda>c. \<not> json_space c \<and> c \<noteq> quote) t \<Longrightarrow> printable t \<Longrightarrow> t \<noteq> [] \<Longrightarrow> tight t \<and> compact t = t"
  using compact_chars [of t "[]"] by (cases t) (auto simp: tight_def closed_chars)

lemma tight_append: "tight s \<Longrightarrow> closed t \<Longrightarrow> tight (s @ t) \<and> compact (s @ t) = compact s @ compact t"
  by (auto simp: tight_def closed_append closedD hd_append)

lemma closed_punct:
  assumes "list_all json_space w" "list_all json_space x" "closed t" "\<not> json_space a" "a \<noteq> quote" "0x20 \<le> (of_char a :: nat)"
  shows "closed (w @ a # x @ t)" "compact (w @ a # x @ t) = a # compact t"
proof -
  have "compact (w @ a # x @ t @ u) = a # compact t @ compact u" for u
    using assms by (simp add: compact_char compact_space closedD)
  from this [of "[]"] this assms show "closed (w @ a # x @ t)" "compact (w @ a # x @ t) = a # compact t"
    by (auto simp: closed_def)
qed

text \<open>A separator with the space around it.\<close>

lemma after_punct:
  assumes "skip_space u = a # t" "skip_space t = v @ r" "closed v" "\<not> json_space a" "a \<noteq> quote" "0x20 \<le> (of_char a :: nat)"
  obtains p where "u = p @ r" "closed p" "compact p = a # compact v"
proof -
  obtain w where w: "u = w @ a # t" "list_all json_space w" using skip_split [OF assms(1)] by blast
  obtain x where x: "t = x @ v @ r" "list_all json_space x" using skip_all_split [of t] assms(2) by auto
  show thesis by (rule that [of "w @ a # x @ v"]) (use closed_punct [OF w(2) x(2) assms(3-6)] w(1) x(1) in simp_all)
qed

lemma at_punct:
  assumes "skip_space u = a # r" "\<not> json_space a" "a \<noteq> quote" "0x20 \<le> (of_char a :: nat)"
  obtains p where "u = p @ r" "closed p" "compact p = [a]"
proof -
  obtain w where w: "u = w @ a # r" "list_all json_space w" using skip_split [OF assms(1)] by blast
  have "closed []" by (simp add: closed_def)
  then show thesis using closed_punct [OF w(2), of "[]" "[]" a] assms(2-4) w(1) by (intro that [of "w @ [a]"]) simp_all
qed

lemma recompact:
  "(\<forall>d s j r. parse_value f d s = Some (j, r) \<longrightarrow> recompact_value f d s j r) \<and>
   (\<forall>d s xs r. parse_items f d s = Some (xs, r) \<longrightarrow> recompact_items f d s xs r) \<and>
   (\<forall>d s ms r. parse_members f d s = Some (ms, r) \<longrightarrow> recompact_members f d s ms r)"
proof (induction f)
  case (Suc f)
  then have v: "\<And>d s j r. parse_value f d s = Some (j, r) \<Longrightarrow> recompact_value f d s j r"
    and i: "\<And>d s xs r. parse_items f d s = Some (xs, r) \<Longrightarrow> recompact_items f d s xs r"
    and m: "\<And>d s ms r. parse_members f d s = Some (ms, r) \<Longrightarrow> recompact_members f d s ms r" by blast+
  have "recompact_value (Suc f) d s j r" if "parse_value (Suc f) d s = Some (j, r)" for d s j r
    using that
  proof (cases rule: parse_value_cases)
    case (obj t ms)
    obtain u where u: "skip_space t = u @ r" "tight u" "hd u = quote"
      "\<And>r'. \<exists>ms'. parse_members f (d - 1) (compact u @ r') = Some (ms', r') \<and> any_members ms' = any_members ms"
      using m [OF obj(4)] by (auto simp: recompact_members_def)
    obtain w where w: "s = (CHR ''{'' # w @ u) @ r" "tight (CHR ''{'' # w @ u)" "compact (CHR ''{'' # w @ u) = CHR ''{'' # compact u"
      using recompact_container [OF obj(1) u(1,2)] by (auto simp: quote_def)
    have "\<exists>j'. parse_value (Suc f) d ((CHR ''{'' # compact u) @ r') = Some (j', r') \<and> to_any j' = to_any j" for r'
    proof -
      obtain ms' where ms: "parse_members f (d - 1) (compact u @ r') = Some (ms', r')" "any_members ms' = any_members ms"
        using u(4) by blast
      have "take 1 (skip_space (compact u @ r')) \<noteq> ''}''" using tight_skip [OF u(2)] tight_head [OF u(2)] u(3) by (auto simp: quote_def)
      with value_obj [OF obj(2), of "compact u @ r'" f ms' r'] tight_skip [OF u(2), of r'] ms obj(5) show ?thesis by auto
    qed
    with w show ?thesis unfolding recompact_value_def by metis
  next
    case (arr t xs)
    obtain u where u: "skip_space t = u @ r" "tight u"
      "\<And>r'. \<exists>xs'. parse_items f (d - 1) (compact u @ r') = Some (xs', r') \<and> map to_any xs' = map to_any xs"
      using i [OF arr(4)] by (auto simp: recompact_items_def)
    obtain w where w: "s = (CHR ''['' # w @ u) @ r" "tight (CHR ''['' # w @ u)" "compact (CHR ''['' # w @ u) = CHR ''['' # compact u"
      using recompact_container [OF arr(1) u(1,2)] by (auto simp: quote_def)
    have "hd u \<noteq> CHR '']''" using arr(3) u(1,2) by (cases u) (auto simp: tight_def)
    have "\<exists>j'. parse_value (Suc f) d ((CHR ''['' # compact u) @ r') = Some (j', r') \<and> to_any j' = to_any j" for r'
    proof -
      obtain xs' where xs: "parse_items f (d - 1) (compact u @ r') = Some (xs', r')" "map to_any xs' = map to_any xs"
        using u(3) by blast
      have "take 1 (skip_space (compact u @ r')) \<noteq> '']''" using tight_skip [OF u(2)] tight_head [OF u(2)] \<open>hd u \<noteq> _\<close> by auto
      with value_arr [OF arr(2), of "compact u @ r'" f xs' r'] tight_skip [OF u(2), of r'] xs arr(5) show ?thesis by auto
    qed
    with w show ?thesis unfolding recompact_value_def by metis
  next
    case (obj0 t)
    obtain w where w: "t = w @ CHR ''}'' # r" "list_all json_space w" using skip_split [OF obj0(3)] by blast
    have c: "tight (CHR ''{'' # w @ [] @ [CHR ''}''])" "compact (CHR ''{'' # w @ [] @ [CHR ''}'']) = ''{}''"
      using tight_bracket [OF w(2), of "[]" "CHR ''{''" "CHR ''}''"] by (simp_all add: quote_def closed_def)
    have "parse_value (Suc f) d (''{}'' @ r') = Some (JObj (consumed (''{}'' @ r') r') [], r')" for r'
      using value_obj0 [OF obj0(2), of "CHR ''}'' # r'" r' f] by simp
    with w c obj0(1,4) show ?thesis unfolding recompact_value_def
      by (intro exI [of _ "CHR ''{'' # w @ [CHR ''}'']"]) auto
  next
    case (arr0 t)
    obtain w where w: "t = w @ CHR '']'' # r" "list_all json_space w" using skip_split [OF arr0(3)] by blast
    have c: "tight (CHR ''['' # w @ [] @ [CHR '']''])" "compact (CHR ''['' # w @ [] @ [CHR '']'']) = ''[]''"
      using tight_bracket [OF w(2), of "[]" "CHR ''[''" "CHR '']''"] by (simp_all add: quote_def closed_def)
    have "parse_value (Suc f) d (''[]'' @ r') = Some (JArr (consumed (''[]'' @ r') r') [], r')" for r'
      using value_arr0 [OF arr0(2), of "CHR '']'' # r'" r' f] by simp
    with w c arr0(1,4) show ?thesis unfolding recompact_value_def
      by (intro exI [of _ "CHR ''['' # w @ [CHR '']'']"]) auto
  next
    case (str t b)
    have b: "body b" by (rule scan_body [OF str(2)])
    have c: "tight (quote # b @ [quote])" "compact (quote # b @ [quote]) = quote # html_escape b @ [quote]"
      using closed_string [OF b] compact_string [OF b, of "[]"] by (simp_all add: tight_def)
    have "parse_value (Suc f) d (quote # html_escape b @ quote # r') = Some (JStr (consumed (quote # html_escape b @ quote # r') r') (unquote b), r')" for r'
      using value_str [OF body_scan, of "html_escape b" f d r'] html_body [OF b] by simp
    with c str scan_string_split [OF str(2)] show ?thesis unfolding recompact_value_def
      by (intro exI [of _ "quote # b @ [quote]"]) auto
  next
    case (num n c t)
    obtain n' where n: "n = c # n'" "s = n @ r" using scan_number_split [OF num(6)] num(1) by (cases n) auto
    have p: "tight n \<and> compact n = n" using number_chars [OF num(6)] number_printable [OF num(6)] n by (intro literal_tight) auto
    have "c \<noteq> CHR ''n''" "c \<noteq> CHR ''t''" "c \<noteq> CHR ''f''" using scan_number_head [OF num(6)] n by (auto simp: is_digit_def)
    then have "parse_value (Suc f) d (n @ r') = Some (JNum n, r')" if "ends_number r'" for r'
      using scan_number_app [OF num(6) that] num(2) unfolding n(1) append_Cons by (intro value_num) auto
    with n p num(7) show ?thesis unfolding recompact_value_def by (intro exI [of _ n]) simp
  next
    case null
    have "tight ''null'' \<and> compact ''null'' = ''null''" by (intro literal_tight) (auto simp: json_space_def quote_def)
    with null value_null [of f d] show ?thesis unfolding recompact_value_def by (intro exI [of _ "''null''"]) simp
  next
    case true
    have "tight ''true'' \<and> compact ''true'' = ''true''" by (intro literal_tight) (auto simp: json_space_def quote_def)
    with true value_true [of f d] show ?thesis unfolding recompact_value_def by (intro exI [of _ "''true''"]) simp
  next
    case false
    have "tight ''false'' \<and> compact ''false'' = ''false''" by (intro literal_tight) (auto simp: json_space_def quote_def)
    with false value_false [of f d] show ?thesis unfolding recompact_value_def by (intro exI [of _ "''false''"]) simp
  qed
  moreover have "recompact_items (Suc f) d s xs r" if "parse_items (Suc f) d s = Some (xs, r)" for d s xs r
    using that
  proof (cases rule: parse_items_cases)
    case (last x u)
    obtain t where t: "s = t @ u" "tight t"
      "\<And>r'. ends_number r' \<Longrightarrow> \<exists>j'. parse_value f d (compact t @ r') = Some (j', r') \<and> to_any j' = to_any x"
      using v [OF last(1)] by (auto simp: recompact_value_def)
    obtain p where p: "u = p @ r" "closed p" "compact p = '']''" using at_punct [OF last(2)] by (auto simp: quote_def)
    have "\<exists>xs'. parse_items (Suc f) d (compact (t @ p) @ r') = Some (xs', r') \<and> map to_any xs' = map to_any xs" for r'
    proof -
      obtain j' where "parse_value f d (compact t @ CHR '']'' # r') = Some (j', CHR '']'' # r')" "to_any j' = to_any x"
        using t(3) [of "CHR '']'' # r'"] by auto
      with items_last [of f d "compact t @ CHR '']'' # r'" j' "CHR '']'' # r'" r'] tight_append [OF t(2) p(2)] p(3) last(3)
      show ?thesis by auto
    qed
    then show ?thesis unfolding recompact_items_def using t p tight_append [OF t(2) p(2)] by (intro exI [of _ "t @ p"]) simp
  next
    case (more x u y vs)
    obtain t where t: "s = t @ u" "tight t"
      "\<And>r'. ends_number r' \<Longrightarrow> \<exists>j'. parse_value f d (compact t @ r') = Some (j', r') \<and> to_any j' = to_any x"
      using v [OF more(1)] by (auto simp: recompact_value_def)
    obtain q where q: "skip_space y = q @ r" "tight q"
      "\<And>r'. \<exists>xs'. parse_items f d (compact q @ r') = Some (xs', r') \<and> map to_any xs' = map to_any vs"
      using i [OF more(3)] by (auto simp: recompact_items_def)
    obtain p where p: "u = p @ r" "closed p" "compact p = CHR '','' # compact q"
      using after_punct [OF more(2) q(1)] q(2) by (auto simp: quote_def tight_def)
    have "\<exists>xs'. parse_items (Suc f) d (compact (t @ p) @ r') = Some (xs', r') \<and> map to_any xs' = map to_any xs" for r'
    proof -
      let ?z = "CHR '','' # compact q @ r'"
      obtain j' where j: "parse_value f d (compact t @ ?z) = Some (j', ?z)" "to_any j' = to_any x" using t(3) [of ?z] by auto
      obtain xs' where "parse_items f d (compact q @ r') = Some (xs', r')" "map to_any xs' = map to_any vs" using q(3) by blast
      with items_more [of f d "compact t @ ?z" j' ?z "compact q @ r'" xs' r'] j tight_append [OF t(2) p(2)] p(3) more(4)
        tight_skip [OF q(2), of r'] show ?thesis by auto
    qed
    then show ?thesis unfolding recompact_items_def using t p tight_append [OF t(2) p(2)] by (intro exI [of _ "t @ p"]) simp
  qed
  moreover have "recompact_members (Suc f) d s ms r" if "parse_members (Suc f) d s = Some (ms, r)" for d s ms r
    using that
  proof (cases rule: parse_members_cases)
    case (last s' k u y x w)
    have k: "body k" by (rule scan_body [OF last(2)])
    have s: "s = (quote # k @ [quote]) @ u" using last(1) scan_string_split [OF last(2)] by simp
    have b: "tight (quote # k @ [quote])" "compact (quote # k @ [quote]) = quote # html_escape k @ [quote]"
      using closed_string [OF k] compact_string [OF k, of "[]"] by (simp_all add: tight_def)
    obtain t where t: "skip_space y = t @ w" "tight t"
      "\<And>r'. ends_number r' \<Longrightarrow> \<exists>j'. parse_value f d (compact t @ r') = Some (j', r') \<and> to_any j' = to_any x"
      using v [OF last(4)] by (auto simp: recompact_value_def)
    obtain p where p: "u = p @ w" "closed p" "compact p = CHR '':'' # compact t"
      using after_punct [OF last(3) t(1)] t(2) by (auto simp: quote_def tight_def)
    obtain e where e: "w = e @ r" "closed e" "compact e = ''}''" using at_punct [OF last(5)] by (auto simp: quote_def)
    let ?t = "(quote # k @ [quote]) @ p @ e"
    have c: "tight ?t" "compact ?t = quote # html_escape k @ quote # CHR '':'' # compact t @ ''}''"
      using tight_append [OF b(1), of "p @ e"] closed_append [OF p(2) e(2)] closedD [OF p(2)] b(2) p(3) e(3) by simp_all
    have "\<exists>ms'. parse_members (Suc f) d (compact ?t @ r') = Some (ms', r') \<and> any_members ms' = any_members ms" for r'
    proof -
      let ?z = "CHR ''}'' # r'"
      obtain j' where "parse_value f d (compact t @ ?z) = Some (j', ?z)" "to_any j' = to_any x" using t(3) [of ?z] by auto
      with members_last [OF body_scan [of "html_escape k" "CHR '':'' # compact t @ ?z"], of "compact t @ ?z" f d j' ?z r']
        html_body [OF k] tight_skip [OF t(2), of ?z] last(6) show ?thesis unfolding c(2) by auto
    qed
    then show ?thesis unfolding recompact_members_def using s p e c by (intro exI [of _ ?t]) simp
  next
    case (more s' k u y x w y' ms2)
    have k: "body k" by (rule scan_body [OF more(2)])
    have s: "s = (quote # k @ [quote]) @ u" using more(1) scan_string_split [OF more(2)] by simp
    have b: "tight (quote # k @ [quote])" "compact (quote # k @ [quote]) = quote # html_escape k @ [quote]"
      using closed_string [OF k] compact_string [OF k, of "[]"] by (simp_all add: tight_def)
    obtain t where t: "skip_space y = t @ w" "tight t"
      "\<And>r'. ends_number r' \<Longrightarrow> \<exists>j'. parse_value f d (compact t @ r') = Some (j', r') \<and> to_any j' = to_any x"
      using v [OF more(4)] by (auto simp: recompact_value_def)
    obtain p where p: "u = p @ w" "closed p" "compact p = CHR '':'' # compact t"
      using after_punct [OF more(3) t(1)] t(2) by (auto simp: quote_def tight_def)
    obtain q where q: "skip_space y' = q @ r" "tight q"
      "\<And>r'. \<exists>ms'. parse_members f d (compact q @ r') = Some (ms', r') \<and> any_members ms' = any_members ms2"
      using m [OF more(6)] by (auto simp: recompact_members_def)
    obtain e where e: "w = e @ r" "closed e" "compact e = CHR '','' # compact q"
      using after_punct [OF more(5) q(1)] q(2) by (auto simp: quote_def tight_def)
    let ?t = "(quote # k @ [quote]) @ p @ e"
    have c: "tight ?t" "compact ?t = quote # html_escape k @ quote # CHR '':'' # compact t @ CHR '','' # compact q"
      using tight_append [OF b(1), of "p @ e"] closed_append [OF p(2) e(2)] closedD [OF p(2)] b(2) p(3) e(3) by simp_all
    have "\<exists>ms'. parse_members (Suc f) d (compact ?t @ r') = Some (ms', r') \<and> any_members ms' = any_members ms" for r'
    proof -
      let ?z = "CHR '','' # compact q @ r'"
      obtain j' where j: "parse_value f d (compact t @ ?z) = Some (j', ?z)" "to_any j' = to_any x" using t(3) [of ?z] by auto
      obtain ms' where "parse_members f d (compact q @ r') = Some (ms', r')" "any_members ms' = any_members ms2" using q(3) by blast
      with j members_more [OF body_scan [of "html_escape k" "CHR '':'' # compact t @ ?z"], of "compact t @ ?z" f d j' ?z "compact q @ r'" ms' r']
        html_body [OF k] tight_skip [OF t(2), of ?z] tight_skip [OF q(2), of r'] more(7) show ?thesis unfolding c(2) by auto
    qed
    then show ?thesis unfolding recompact_members_def using s p e c by (intro exI [of _ ?t]) simp
  qed
  ultimately show ?case by blast
qed simp

section \<open>Maps of raw messages\<close>

text \<open>A value remembers its text.\<close>

lemma consumed_append [simp]: "consumed (t @ r) r = t"
  by (simp add: consumed_def)

lemma value_text:
  assumes "parse_value f d s = Some (j, r)"
  shows "s = json_text j @ r \<and> tight (json_text j) \<and> reads_as d (compact (json_text j)) (to_any j)"
proof -
  obtain t where t: "s = t @ r" "tight t"
    "\<And>r'. ends_number r' \<Longrightarrow> \<exists>j'. parse_value f d (compact t @ r') = Some (j', r') \<and> to_any j' = to_any j"
    using recompact [THEN conjunct1, rule_format, OF assms] by (auto simp: recompact_value_def)
  obtain f' where f: "f = Suc f'" using assms by (cases f) auto
  have c: "consumed s r = t" using t(1) by simp
  have "json_text j = t"
    using assms [unfolded f]
  proof (cases rule: parse_value_cases)
    case (num n c u)
    then have "n @ r = t @ r" using scan_number_split [OF num(6)] t(1) by simp
    with num(7) show ?thesis by simp
  next
    case null
    then have "''null'' @ r = t @ r" using t(1) by simp
    with null(2) show ?thesis by simp
  next
    case true
    then have "''true'' @ r = t @ r" using t(1) by simp
    with true(2) show ?thesis by simp
  next
    case false
    then have "''false'' @ r = t @ r" using t(1) by simp
    with false(2) show ?thesis by simp
  qed (use c in \<open>simp only: json_text.simps\<close>)+
  moreover have "reads_as d (compact t) (to_any j)"
    unfolding reads_as_def
  proof (intro conjI allI impI)
    show "compact t \<noteq> []" "\<not> json_space (hd (compact t))" using tight_head [OF t(2)] by auto
  next
    fix g r' assume "2 * length (compact t @ r') < g" "ends_number r'"
    with t(3) show "\<exists>j'. parse_value g d (compact t @ r') = Some (j', r') \<and> to_any j' = to_any j"
      by (blast intro: parse_value_fuel)
  qed
  ultimately show ?thesis using t by simp
qed

text \<open>A Go map of raw messages, as it is read from an object and written again.\<close>

definition raw_fields :: "(string \<times> json) list \<Rightarrow> (string \<times> string) list" where
  "raw_fields ms = collect (map (\<lambda>m. (fst m, json_text (snd m))) ms)"

definition marshal_raw :: "(string \<times> string) list \<Rightarrow> string" where
  "marshal_raw fs = ''{'' @ join_with '','' (map (\<lambda>m. quote_string (fst m) @ '':'' @ compact (snd m)) fs) @ ''}''"

definition stands_for :: "(string \<times> string) list \<Rightarrow> (string \<times> jval) list \<Rightarrow> bool" where
  "stands_for = list_all2 (\<lambda>m x. fst x = fst m \<and> utf8 (fst m) \<and> tight (snd m) \<and> reads_as (maxNestingDepth - 1) (compact (snd m)) (snd x))"

lemma stands_for_put:
  assumes "stands_for ms xs" "utf8 k" "tight t" "reads_as (maxNestingDepth - 1) (compact t) v"
  shows "stands_for (put k t ms) (put k v xs)"
  using assms(1) unfolding stands_for_def
  by (induction rule: list_all2_induct) (use assms in auto)

lemma stands_for_collect: "stands_for ms xs \<Longrightarrow> stands_for (collect ms) (collect xs)"
proof (induction ms arbitrary: xs rule: rev_induct)
  case (snoc m ms)
  then obtain ys y where x: "xs = ys @ [y]" "stands_for ms ys" "stands_for [m] [y]"
    by (auto simp: stands_for_def list_all2_append1 list_all2_Cons1)
  with snoc.IH [OF x(2)] show ?case
    using stands_for_put [of "collect ms" "collect ys" "fst m" "snd m" "snd y"] by (simp add: collect_snoc stands_for_def)
qed (simp add: stands_for_def collect_def)

lemma members_text:
  "parse_members f d s = Some (ms, r) \<Longrightarrow> \<forall>m \<in> set ms. utf8 (fst m) \<and> tight (json_text (snd m)) \<and> reads_as d (compact (json_text (snd m))) (to_any (snd m))"
proof (induction f arbitrary: s ms r)
  case (Suc f)
  from Suc.prems show ?case
  proof (cases rule: parse_members_cases)
    case (last s' k u t x w)
    then show ?thesis using value_text [OF last(4)] unquote_utf8 [OF scan_well_escaped [OF last(2)]] by simp
  next
    case (more s' k u t x w t' ms')
    then show ?thesis using value_text [OF more(4)] Suc.IH [OF more(6)] unquote_utf8 [OF scan_well_escaped [OF more(2)]] by simp
  qed
qed simp

lemma object_fields:
  assumes "decode_all s = Some (JObj t ms)"
  shows "stands_for (raw_fields ms) (collect (any_members ms))"
proof -
  obtain r where "parse_value (2 * length s + 1) maxNestingDepth (skip_space s) = Some (JObj t ms, r)"
    using assms by (auto simp: decode_all_def read_value_def bind_eq_Some_conv split: if_splits)
  then have "parse_value (Suc (2 * length s)) maxNestingDepth (skip_space s) = Some (JObj t ms, r)" by simp
  then have "ms = [] \<or> (\<exists>f s r. parse_members f (maxNestingDepth - 1) s = Some (ms, r))"
    by (cases rule: parse_value_cases) auto
  then have "stands_for (map (\<lambda>m. (fst m, json_text (snd m))) ms) (any_members ms)"
  proof
    assume "\<exists>f s r. parse_members f (maxNestingDepth - 1) s = Some (ms, r)"
    then show ?thesis by (auto simp: stands_for_def list_all2_conv_all_nth dest!: members_text)
  qed (simp add: stands_for_def)
  then show ?thesis unfolding raw_fields_def by (rule stands_for_collect)
qed

lemma stands_for_ordered: "stands_for ms xs \<Longrightarrow> map fst xs = map fst ms"
  by (simp add: stands_for_def list_all2_conv_all_nth list_eq_iff_nth_eq)

lemma read_marshal_raw:
  assumes "stands_for fs xs"
  shows "\<exists>t ms. decode_all (marshal_raw fs) = Some (JObj t ms) \<and> any_members ms = xs"
proof -
  have w: "(\<lambda>m. quote_string (fst m) @ '':'' @ compact (snd m)) = write_field \<circ> (\<lambda>m. (fst m, compact (snd m)))"
    by (simp add: write_field_def fun_eq_iff)
  let ?s = "marshal_raw fs"
  have d: "0 < maxNestingDepth" by (simp add: maxNestingDepth_def)
  have sk: "skip_space ?s = ?s" by (simp add: marshal_raw_def)
  have "\<exists>t ms. parse_value (2 * length ?s + 1) maxNestingDepth ?s = Some (JObj t ms, []) \<and> any_members ms = xs"
  proof (cases "fs = []")
    case True
    with assms value_obj0 [OF d, of "''}''" "[]" "2 * length ?s"] show ?thesis by (simp add: marshal_raw_def stands_for_def)
  next
    case False
    let ?fs = "map (\<lambda>m. (fst m, compact (snd m))) fs"
    let ?t = "join_with '','' (map write_field ?fs) @ ''}''"
    have s: "?s = CHR ''{'' # ?t" unfolding marshal_raw_def w map_map by simp
    have "list_all2 (\<lambda>m x. fst x = fst m \<and> utf8 (fst m) \<and> reads_as (maxNestingDepth - 1) (snd m) (snd x)) ?fs xs"
      using assms by (simp add: stands_for_def list_all2_conv_all_nth)
    then obtain js where js: "parse_members (2 * length ?s) (maxNestingDepth - 1) ?t = Some (js, [])" "any_members js = xs"
      using reads_fields [of "maxNestingDepth - 1" ?fs xs "[]" "2 * length ?s"] False s by auto
    obtain y ys where "?fs = y # ys" using False by (cases fs) auto
    then have "\<exists>u. ?t = quote # u" by (cases ys) (simp_all add: write_field_def quote_string_def)
    then obtain u where u: "?t = quote # u" ..
    have "skip_space ?t = ?t" "take 1 ?t \<noteq> ''}''" unfolding u by (simp, simp add: quote_def)
    with value_obj [OF d, of ?t "2 * length ?s" js "[]"] js s show ?thesis by auto
  qed
  then obtain t ms where p: "parse_value (2 * length ?s + 1) maxNestingDepth ?s = Some (JObj t ms, [])" "any_members ms = xs" by blast
  have "decode_all ?s = Some (JObj t ms)" unfolding decode_all_def read_value_def sk p(1) by (simp add: skip_space_def)
  with p(2) show ?thesis by blast
qed

lemma marshal_raw_printable: "stands_for fs xs \<Longrightarrow> printable (marshal_raw fs)"
proof -
  assume "stands_for fs xs"
  then have "list_all printable (map (\<lambda>m. quote_string (fst m) @ '':'' @ compact (snd m)) fs)"
    by (auto simp: stands_for_def list_all2_conv_all_nth list_all_length quote_string_printable tight_def closed_def)
  then show ?thesis by (simp add: marshal_raw_def printable_join)
qed

text \<open>A value written by \<open>Marshal\<close> is compact already.\<close>

lemma reads_as_value:
  assumes "valid v" "depth v \<le> maxNestingDepth - 1"
  shows "tight (marshal v) \<and> reads_as (maxNestingDepth - 1) (compact (marshal v)) v"
proof -
  have "0 \<le> maxNestingDepth - 1" by (simp add: maxNestingDepth_def)
  obtain j where j: "parse_value (2 * length (marshal v) + 1) (maxNestingDepth - 1) (marshal v @ []) = Some (j, [])" "to_any j = v"
    using readsD [OF marshal_reads [OF assms(1)] assms(2), of "[]" "2 * length (marshal v) + 1"] by auto
  from value_text [OF j(1)] j(2) show ?thesis by simp
qed

end
