(* ===== verification/Envelope.thy ===== *)
theory Envelope
  imports Json_Raw
begin

text \<open>
  The envelope format (ingest/envelope.go): \<open>Parse\<close> over the bytes a reader delivers, \<open>EncodeEnvelope\<close> for
  forwarding and \<open>rewriteEnvelopeDSN\<close> (ingest/passthrough.go). The reader delivers a list of bytes and then ends, or fails
  with an error of the connection; the buffer of \<open>bufio\<close> has no effect on what is read.
\<close>

section \<open>Reading\<close>

definition newline :: char where "newline = CHR 0x0A"
definition carriage :: char where "carriage = CHR 0x0D"

datatype cause = EOF | UnexpectedEOF | Transport (timeout: bool)

datatype envelope_error =
    ReadHeader cause | ParseHeader | HeaderNotObject
  | ReadItemHeader cause | ParseItemHeader | TooLong int
  | ReadPayload cause | ReadSeparator cause | InvalidSeparator char

text \<open>\<open>None\<close> is a body that ends after its bytes, \<open>Some\<close> one whose delivery fails there.\<close>

type_synonym ending = "cause option"

definition end_of :: "ending \<Rightarrow> cause" where "end_of b = (case b of None \<Rightarrow> EOF | Some c \<Rightarrow> c)"

definition unexpected :: "ending \<Rightarrow> cause" where "unexpected b = (case b of None \<Rightarrow> UnexpectedEOF | Some c \<Rightarrow> c)"

text \<open>\<open>ReadBytes\<close> up to a newline: the bytes with the newline, the error when there is none, and the rest.\<close>

definition read_line :: "string \<Rightarrow> ending \<Rightarrow> string \<times> cause option \<times> string" where
  "read_line s b = (case index_byte s newline of
     Some i \<Rightarrow> (take (i + 1) s, None, drop (i + 1) s) | None \<Rightarrow> (s, Some (end_of b), []))"

definition trim_line :: "string \<Rightarrow> string" where "trim_line = trim_right (\<lambda>c. c = carriage \<or> c = newline)"

text \<open>\<open>bytes.TrimSpace\<close> leaves nothing: every rune is white space of Unicode.\<close>

definition space_rune :: "string \<Rightarrow> bool" where
  "space_rune u \<longleftrightarrow> (case u of
       [c] \<Rightarrow> ascii_space c
     | [a, c] \<Rightarrow> a = CHR 0xC2 \<and> (c = CHR 0x85 \<or> c = CHR 0xA0)
     | [a, b, c] \<Rightarrow> u = [CHR 0xE1, CHR 0x9A, CHR 0x80]
         \<or> a = CHR 0xE2 \<and> b = CHR 0x80 \<and> ((of_char c :: nat) \<le> 0x8A \<or> c = CHR 0xA8 \<or> c = CHR 0xA9 \<or> c = CHR 0xAF)
         \<or> u = [CHR 0xE2, CHR 0x81, CHR 0x9F] \<or> u = [CHR 0xE3, CHR 0x80, CHR 0x80]
     | _ \<Rightarrow> False)"

definition blank :: "string \<Rightarrow> bool" where "blank s \<longleftrightarrow> list_all space_rune (runes s)"

text \<open>
  A string and an int field of a struct: a later member writes over an earlier one, \<open>null\<close> leaves the field, and a
  value of another kind is an error of the whole decode.
\<close>

fun set_string :: "json \<Rightarrow> string \<Rightarrow> string option" where
  "set_string JNull s = Some s"
| "set_string (JStr t v) s = Some v"
| "set_string _ s = None"

definition int_of_text :: "string \<Rightarrow> int option" where
  "int_of_text t = (let (neg, d) = (case t of c # u \<Rightarrow> if c = CHR ''-'' then (True, u) else (False, t) | [] \<Rightarrow> (False, []));
       n = (if neg then - int (digits_value d) else int (digits_value d))
     in if d \<noteq> [] \<and> list_all is_digit d \<and> is_int64 n then Some n else None)"

fun set_int :: "json \<Rightarrow> int \<Rightarrow> int option" where
  "set_int JNull n = Some n"
| "set_int (JNum t) n = int_of_text t"
| "set_int _ n = None"

definition string_field :: "string \<Rightarrow> (string \<times> json) list \<Rightarrow> string option" where
  "string_field name ms = foldl (\<lambda>acc j. Option.bind acc (set_string j)) (Some []) (members name ms)"

definition int_field :: "string \<Rightarrow> (string \<times> json) list \<Rightarrow> int option" where
  "int_field name ms = foldl (\<lambda>acc j. Option.bind acc (set_int j)) (Some 0) (members name ms)"

section \<open>Parse\<close>

definition maxEnvelopeBytes :: int where "maxEnvelopeBytes = 20 * 1024 * 1024"

record envelope_header =
  eh_EventID :: string
  eh_Raw :: string

record item_header =
  ih_Type :: string
  ih_Length :: int
  ih_Raw :: string

record item =
  it_Header :: item_header
  it_Payload :: string

definition parse_header :: "string \<Rightarrow> envelope_error + envelope_header" where
  "parse_header line =
     (case decode_all (trim_line line) of
        None \<Rightarrow> Inl ParseHeader
      | Some JNull \<Rightarrow> Inl HeaderNotObject
      | Some (JObj t ms) \<Rightarrow> (case string_field ''event_id'' ms of None \<Rightarrow> Inl ParseHeader
          | Some e \<Rightarrow> Inr \<lparr>eh_EventID = e, eh_Raw = trim_line line\<rparr>)
      | Some _ \<Rightarrow> Inl ParseHeader)"

definition parse_item_header :: "string \<Rightarrow> item_header option" where
  "parse_item_header line =
     Option.bind (decode_all (trim_line line)) (\<lambda>j. Option.bind (struct_members j) (\<lambda>ms.
       Option.bind (string_field ''type'' ms) (\<lambda>t. Option.bind (int_field ''length'' ms) (\<lambda>n.
         Some \<lparr>ih_Type = t, ih_Length = n, ih_Raw = trim_line line\<rparr>))))"

text \<open>After a payload of declared length: a newline, with or without a carriage return, or the end.\<close>

definition read_separator :: "string \<Rightarrow> ending \<Rightarrow> envelope_error + string" where
  "read_separator s b =
     (case s of
        [] \<Rightarrow> (case b of None \<Rightarrow> Inr [] | Some c \<Rightarrow> Inl (ReadSeparator c))
      | c # t \<Rightarrow>
          if c = carriage then
            (case t of [] \<Rightarrow> Inl (ReadSeparator (unexpected b))
             | d # u \<Rightarrow> if d = newline then Inr u else Inl (InvalidSeparator d))
          else if c = newline then Inr t else Inl (InvalidSeparator c))"

text \<open>The payload of an item and what follows it.\<close>

definition read_payload :: "int \<Rightarrow> string \<Rightarrow> ending \<Rightarrow> envelope_error + string \<times> string" where
  "read_payload n s b =
     (if 0 < n then
        if maxEnvelopeBytes < n then Inl (TooLong n)
        else if length s < nat n then Inl (ReadPayload (unexpected b))
        else (case read_separator (drop (nat n) s) b of Inl e \<Rightarrow> Inl e | Inr t \<Rightarrow> Inr (take (nat n) s, t))
      else (case read_line s b of (p, e, t) \<Rightarrow>
        if e = None \<or> e = Some EOF then Inr (trim_line p, t) else Inl (ReadPayload (end_of b))))"

lemma read_line_length: "read_line s b = (l, e, t) \<Longrightarrow> l \<noteq> [] \<Longrightarrow> length t < length s"
  by (auto simp: read_line_def dest: index_byte_Some split: option.splits)

lemma read_line_shrinks: "read_line s b = (l, e, t) \<Longrightarrow> length t \<le> length s"
  by (auto simp: read_line_def split: option.splits)

lemma read_payload_shrinks: "read_payload n s b = Inr (p, t) \<Longrightarrow> length t \<le> length s"
  by (auto simp: read_payload_def read_separator_def split: if_splits sum.splits prod.splits list.splits option.splits
      dest!: read_line_shrinks) (metis diff_le_self le_trans length_Cons length_drop le_Suc_eq Suc_leD)+

function read_items :: "string \<Rightarrow> ending \<Rightarrow> item list \<Rightarrow> item list \<times> envelope_error option" where
  "read_items s b items =
     (case read_line s b of (line, e, t) \<Rightarrow>
        if e \<noteq> None \<and> e \<noteq> Some EOF then (items, Some (ReadItemHeader (end_of b)))
        else if line = [] then (items, None)
        else if blank line then read_items t b items
        else case parse_item_header line of None \<Rightarrow> (items, Some ParseItemHeader)
        | Some ih \<Rightarrow> (case read_payload (ih_Length ih) t b of Inl err \<Rightarrow> (items, Some err)
            | Inr (p, u) \<Rightarrow> read_items u b (items @ [\<lparr>it_Header = ih, it_Payload = p\<rparr>])))"
  by pat_completeness auto
termination
  by (relation "measure (\<lambda>(s, _). length s)")
     (auto dest!: sym [of _ "read_line _ _"] dest: read_line_length read_payload_shrinks intro: le_less_trans)

declare read_items.simps [simp del]

text \<open>The body of \<open>Parse\<close>: the header, the items read so far and the error.\<close>

definition no_header :: envelope_header where "no_header = \<lparr>eh_EventID = [], eh_Raw = []\<rparr>"

definition Parse :: "string \<Rightarrow> ending \<Rightarrow> envelope_header \<times> item list \<times> envelope_error option" where
  "Parse s b =
     (case read_line s b of (line, e, t) \<Rightarrow>
        if e \<noteq> None \<and> (e \<noteq> Some EOF \<or> line = []) then (no_header, [], Some (ReadHeader (end_of b)))
        else case parse_header line of Inl err \<Rightarrow> (no_header, [], Some err)
        | Inr h \<Rightarrow> (case read_items t b [] of (items, err) \<Rightarrow> (h, items, err)))"

section \<open>EncodeEnvelope\<close>

text \<open>\<open>NilMap\<close> is the panic of an assignment to the map that \<open>null\<close> leaves nil.\<close>

datatype encode_error = BadItemHeader | NilMap

definition header_fields :: "string \<Rightarrow> encode_error + (string \<times> string) list" where
  "header_fields raw =
     (if raw = [] then Inr []
      else case decode_all raw of
        Some (JObj t ms) \<Rightarrow> Inr (raw_fields ms) | Some JNull \<Rightarrow> Inl NilMap | _ \<Rightarrow> Inl BadItemHeader)"

definition encode_item :: "item \<Rightarrow> encode_error + string" where
  "encode_item i =
     (case header_fields (ih_Raw (it_Header i)) of Inl e \<Rightarrow> Inl e
      | Inr fs \<Rightarrow>
          (let fs = (if map_of fs ''type'' = None then put ''type'' (quote_string (ih_Type (it_Header i))) fs else fs);
               fs = put ''length'' (decimal (length (it_Payload i))) fs
           in Inr (marshal_raw fs @ newline # it_Payload i @ [newline])))"

fun encode_items :: "item list \<Rightarrow> encode_error + string" where
  "encode_items [] = Inr []"
| "encode_items (i # is) = (case encode_item i of Inl e \<Rightarrow> Inl e
     | Inr s \<Rightarrow> (case encode_items is of Inl e \<Rightarrow> Inl e | Inr t \<Rightarrow> Inr (s @ t)))"

definition EncodeEnvelope :: "string \<Rightarrow> item list \<Rightarrow> encode_error + string" where
  "EncodeEnvelope header items = (case encode_items items of Inl e \<Rightarrow> Inl e | Inr s \<Rightarrow> Inr (header @ newline # s))"

section \<open>rewriteEnvelopeDSN\<close>

datatype rewrite_error = NoHeaderLine | BadHeaderLine | NullHeaderLine

definition rewriteEnvelopeDSN :: "string \<Rightarrow> string \<Rightarrow> rewrite_error + string" where
  "rewriteEnvelopeDSN raw dsn =
     (case read_line raw None of (line, e, rest) \<Rightarrow>
        if e \<noteq> None \<and> line = [] then Inl NoHeaderLine
        else case decode_all (trim_line line) of
          Some (JObj t ms) \<Rightarrow> Inr (marshal_raw (put ''dsn'' (quote_string dsn) (raw_fields ms)) @ newline # rest)
        | Some JNull \<Rightarrow> Inl NullHeaderLine
        | _ \<Rightarrow> Inl BadHeaderLine)"

section \<open>What is encoded is parsed back\<close>

lemma read_line_at: "newline \<notin> set l \<Longrightarrow> read_line (l @ newline # t) b = (l @ [newline], None, t)"
proof -
  assume "newline \<notin> set l"
  then have "index_byte (l @ newline # t) newline = Some (length l)" by (induction l) auto
  then show ?thesis by (simp add: read_line_def)
qed

lemma trim_line_append: "trim_line (s @ [newline]) = trim_line s"
  by (simp add: trim_line_def trim_right_def)

lemma trim_line_idem: "trim_line (trim_line s) = trim_line s"
  by (simp add: trim_line_def trim_right_def dropWhile_idem)

lemma trim_line_keeps: "s \<noteq> [] \<Longrightarrow> last s \<noteq> carriage \<Longrightarrow> last s \<noteq> newline \<Longrightarrow> trim_line s = s"
  by (cases s rule: rev_exhaust) (auto simp: trim_line_def trim_right_def)

lemma trim_line_no_newline:
  assumes "read_line s b = (l, e, t)"
  shows "newline \<notin> set (trim_line l)"
proof -
  have "\<exists>p. newline \<notin> set p \<and> (l = p \<or> l = p @ [newline])"
  proof (cases "index_byte s newline")
    case None
    then have "newline \<notin> set s" by (simp add: index_byte_None)
    with assms None show ?thesis by (auto simp: read_line_def)
  next
    case (Some i)
    have "newline \<notin> set (take i s)" using Some by (induction s arbitrary: i) (auto split: if_splits)
    moreover have "l = take i s @ [newline]" using assms Some index_byte_Some [OF Some] by (auto simp: read_line_def take_Suc_conv_app_nth)
    ultimately show ?thesis by blast
  qed
  then obtain p where p: "newline \<notin> set p" "trim_line l = trim_line p" by (auto simp: trim_line_append)
  have "set (trim_line p) \<subseteq> set p" by (auto simp: trim_line_def trim_right_def dest: set_dropWhileD)
  with p show ?thesis by auto
qed

text \<open>Fields of a struct depend on the values only.\<close>

fun set_string_any :: "jval \<Rightarrow> string \<Rightarrow> string option" where
  "set_string_any VNull s = Some s"
| "set_string_any (VStr v) s = Some v"
| "set_string_any _ s = None"

lemma set_string_to_any: "set_string j = set_string_any (to_any j)"
  by (rule ext, cases j) auto

definition values_of :: "string \<Rightarrow> (string \<times> jval) list \<Rightarrow> jval list" where
  "values_of name xs = map snd (filter (\<lambda>x. same_name name (fst x)) xs)"

lemma members_values: "map to_any (members name ms) = values_of name (any_members ms)"
  by (simp add: members_def values_of_def filter_map comp_def)

lemma string_field_values:
  "string_field name ms = foldl (\<lambda>acc v. Option.bind acc (set_string_any v)) (Some []) (values_of name (any_members ms))"
  unfolding string_field_def members_values [symmetric] foldl_map by (simp add: set_string_to_any)

text \<open>A header whose names are spelled as documented, and that has one type.\<close>

definition named :: "string \<Rightarrow> (string \<times> 'a) list \<Rightarrow> bool" where
  "named name ms \<longleftrightarrow> list_all (\<lambda>m. same_name name (fst m) \<longrightarrow> fst m = name) ms"

definition plain_header :: "string \<Rightarrow> bool" where
  "plain_header raw \<longleftrightarrow> (case decode_all raw of
     Some (JObj t ms) \<Rightarrow> named ''type'' ms \<and> named ''length'' ms \<and> length (members ''type'' ms) \<le> 1 | _ \<Rightarrow> False)"

lemma ordered_values:
  assumes "ordered xs" "named name xs"
  shows "values_of name xs = (case map_of xs name of None \<Rightarrow> [] | Some v \<Rightarrow> [v])"
  using assms
proof (induction xs)
  case (Cons x xs)
  have ih: "values_of name xs = (case map_of xs name of None \<Rightarrow> [] | Some v \<Rightarrow> [v])" using Cons by (simp add: ordered_def named_def)
  show ?case
  proof (cases "fst x = name")
    case True
    then have "map_of xs name = None" using Cons.prems(1) by (auto simp: ordered_def map_of_eq_None_iff)
    with ih True show ?thesis by (auto simp: values_of_def same_name_def)
  next
    case False
    with ih Cons.prems(2) show ?thesis by (auto simp: values_of_def named_def)
  qed
qed (simp add: values_of_def)

lemma map_of_collect: "map_of (collect ms) k = map_of (rev ms) k"
  by (induction ms rule: rev_induct) (auto simp: collect_snoc, simp add: collect_def)

lemma named_put: "named name ms \<Longrightarrow> (same_name name k \<longrightarrow> k = name) \<Longrightarrow> named name (put k v ms)"
  unfolding named_def list_all_iff using put_members [of _ _ k v ms] by (metis prod.collapse)

lemma named_collect: "named name ms \<Longrightarrow> named name (collect ms)"
  using collect_members [of _ ms] by (auto simp: named_def list_all_iff)

lemma int_of_decimal: "int n < 2 ^ 63 \<Longrightarrow> int_of_text (decimal n) = Some (int n)"
proof -
  assume "int n < 2 ^ 63"
  obtain c u where d: "decimal n = c # u" by (cases "decimal n") auto
  then have "is_digit c" using decimal_digits [of n] by simp
  then have "c \<noteq> CHR ''-''" by (auto simp: is_digit_def)
  with d \<open>int n < 2 ^ 63\<close> decimal_digits [of n] show ?thesis
    using digits_value_decimal [of n] by (simp add: int_of_text_def is_int64_def Let_def)
qed

lemma same_names [simp]: "same_name ''type'' ''length'' = False" "same_name ''length'' ''type'' = False"
  "same_name name name"
  by (simp_all add: same_name_def upper_ascii_def)

lemma decimal_zero: "decimal 0 = ''0''"
  by code_simp

lemma decimal_head: "0 < n \<Longrightarrow> hd (decimal n) \<noteq> CHR ''0''"
proof (induction n rule: decimal.induct)
  case (1 n)
  show ?case
  proof (cases "n < 10")
    case True
    have "char_of (48 + n) \<noteq> CHR ''0''"
    proof
      assume e: "char_of (48 + n) = CHR ''0''"
      have "n = digit_value (char_of (48 + n))" using True by (simp only: digit_value_char)
      also have "\<dots> = 0" unfolding e by (simp add: digit_value_def)
      finally show False using 1(2) by simp
    qed
    with True show ?thesis by (subst decimal.simps) simp
  next
    case False
    then have "hd (decimal (n div 10)) \<noteq> CHR ''0''" using 1 by simp
    with False show ?thesis by (subst decimal.simps) simp
  qed
qed

lemma number_decimal: "scan_number (decimal n) = Some (decimal n, [])"
proof -
  obtain c u where d: "decimal n = c # u" "is_digit c" using decimal_digits [of n] by (cases "decimal n") auto
  have z: "c = CHR ''0'' \<Longrightarrow> u = []"
    using decimal_head [of n] d decimal_zero by (cases "n = 0") auto
  have "list_all is_digit u" using decimal_digits [of n] d by simp
  then have "scan_int (c # u) = Some (c # u, [])" using z d by (auto simp: scan_int_def takeWhile_eq_all_conv list_all_iff dropWhile_eq_Nil_conv)
  moreover have "c \<noteq> CHR ''-''" using d(2) by (auto simp: is_digit_def)
  ultimately show ?thesis by (simp add: d(1) scan_number_def scan_unsigned_def scan_fraction_def scan_exponent_def)
qed

lemma number_reads: "tight (decimal n) \<and> reads_as (maxNestingDepth - 1) (compact (decimal n)) (VNum (decimal n))"
  using reads_as_value [of "VNum (decimal n)"] by (simp add: number_decimal maxNestingDepth_def)

lemma string_reads: "utf8 s \<Longrightarrow> tight (quote_string s) \<and> reads_as (maxNestingDepth - 1) (compact (quote_string s)) (VStr s)"
  using reads_as_value [of "VStr s"] by (simp add: maxNestingDepth_def)

lemma named_any: "named name (any_members ms) = named name ms"
  by (simp add: named_def list_all_iff)

lemma names_utf8 [simp]: "utf8 ''type''" "utf8 ''length''"
  by code_simp+

lemma stands_for_map_of: "stands_for fs xs \<Longrightarrow> (map_of fs k = None) = (map_of xs k = None)"
  unfolding map_of_eq_None_iff using stands_for_ordered [of fs xs] by (metis list.set_map)

lemma foldl_one: "length vs \<le> 1 \<Longrightarrow> foldl (\<lambda>acc v. Option.bind acc (set_string_any v)) (Some []) vs
   = (case vs of [] \<Rightarrow> Some [] | v # _ \<Rightarrow> set_string_any v [])"
  by (cases vs; cases "tl vs") auto

text \<open>The header of an item that is forwarded is read back with its type and the length of the payload.\<close>

lemma header_again:
  assumes h: "parse_item_header line = Some ih" and p: "plain_header (ih_Raw ih)" and n: "int n < 2 ^ 63"
  shows "\<exists>fs xs. header_fields (ih_Raw ih) = Inr fs \<and>
    (let gs = put ''length'' (decimal n) (if map_of fs ''type'' = None then put ''type'' (quote_string (ih_Type ih)) fs else fs)
     in stands_for gs xs \<and> parse_item_header (marshal_raw gs @ [newline]) = Some \<lparr>ih_Type = ih_Type ih, ih_Length = int n, ih_Raw = marshal_raw gs\<rparr>)"
proof -
  obtain t ms where raw: "decode_all (ih_Raw ih) = Some (JObj t ms)" "named ''type'' ms" "named ''length'' ms" "length (members ''type'' ms) \<le> 1"
    using p by (auto simp: plain_header_def split: option.splits json.splits)
  have ih: "decode_all (trim_line line) = decode_all (ih_Raw ih)" "string_field ''type'' ms = Some (ih_Type ih)"
    using h raw(1) by (auto simp: parse_item_header_def bind_eq_Some_conv)
  define fs xs where "fs = raw_fields ms" and "xs = collect (any_members ms)"
  have sf: "stands_for fs xs" unfolding fs_def xs_def by (rule object_fields [OF raw(1)])
  have hf: "header_fields (ih_Raw ih) = Inr fs"
    using raw(1) by (auto simp: header_fields_def fs_def decode_all_def read_value_def skip_space_def parse_value.simps(2))
  define vs where "vs = values_of ''type'' (any_members ms)"
  have vs: "length vs \<le> 1" "set_string_any (hd (vs @ [VStr []])) [] = Some (ih_Type ih)"
  proof -
    show "length vs \<le> 1" using raw(4) members_values [of "''type''" ms] unfolding vs_def by (metis length_map)
    with ih(2) show "set_string_any (hd (vs @ [VStr []])) [] = Some (ih_Type ih)"
      unfolding string_field_values vs_def [symmetric] by (cases vs; cases "tl vs") auto
  qed
  have xo: "ordered xs" "named ''type'' xs" "named ''length'' xs"
    using raw by (auto simp: xs_def collect_ordered named_any intro: named_collect)
  have tv: "map_of xs ''type'' = (case vs of [] \<Rightarrow> None | v # _ \<Rightarrow> Some v)"
  proof -
    have "values_of ''type'' (any_members ms) = vs" by (simp add: vs_def)
    moreover have "map_of xs ''type'' = map_of (rev (any_members ms)) ''type''" by (simp add: xs_def map_of_collect)
    moreover have "map_of (rev ys) ''type'' = (case rev (values_of ''type'' ys) of [] \<Rightarrow> None | v # _ \<Rightarrow> Some v)"
      if "named ''type'' ys" for ys :: "(string \<times> jval) list"
      using that
    proof (induction ys rule: rev_induct)
      case (snoc y ys)
      then have "named ''type'' ys" "same_name ''type'' (fst y) = (fst y = ''type'')" by (auto simp: named_def)
      with snoc.IH show ?case by (auto simp: values_of_def)
    qed (simp add: values_of_def)
    ultimately show ?thesis using raw(2) vs(1) named_any [of "''type''" ms] by (cases vs; cases "tl vs") auto
  qed
  define fs' xs' where "fs' = (if map_of fs ''type'' = None then put ''type'' (quote_string (ih_Type ih)) fs else fs)"
    and "xs' = (if map_of fs ''type'' = None then put ''type'' (VStr []) xs else xs)"
  have no: "vs = [] \<Longrightarrow> ih_Type ih = []" using vs(2) by simp
  have sf': "stands_for fs' xs'"
  proof (cases "map_of fs ''type'' = None")
    case True
    then have "vs = []" using tv stands_for_map_of [OF sf] by (cases vs) auto
    with True no sf string_reads [of "[]"] show ?thesis by (simp add: fs'_def xs'_def stands_for_put)
  next
    case False
    then have "fs' = fs" "xs' = xs" by (simp_all add: fs'_def xs'_def del: not_None_eq)
    with sf show ?thesis by simp
  qed
  have xo': "ordered xs'" "named ''type'' xs'" "named ''length'' xs'"
    using xo by (auto simp: xs'_def put_ordered intro: named_put)
  have tv': "map_of xs' ''type'' = Some (hd (vs @ [VStr []]))"
    using tv stands_for_map_of [OF sf, of "''type''"] by (cases vs) (auto simp: xs'_def)
  define gs ys where "gs = put ''length'' (decimal n) fs'" and "ys = put ''length'' (VNum (decimal n)) xs'"
  have sg: "stands_for gs ys" unfolding gs_def ys_def using sf' number_reads by (intro stands_for_put) auto
  have yo: "ordered ys" "named ''type'' ys" "named ''length'' ys"
    using xo' by (auto simp: ys_def put_ordered intro: named_put)
  obtain t' ms' where m: "decode_all (marshal_raw gs) = Some (JObj t' ms')" "any_members ms' = ys"
    using read_marshal_raw [OF sg] by blast
  have "string_field ''type'' ms' = Some (ih_Type ih)"
    unfolding string_field_values m(2) ordered_values [OF yo(1,2)] using tv' vs(2) by (simp add: ys_def)
  moreover have "int_field ''length'' ms' = Some (int n)"
  proof -
    have "map to_any (members ''length'' ms') = [VNum (decimal n)]"
      unfolding members_values m(2) ordered_values [OF yo(1,3)] by (simp add: ys_def)
    then obtain j where "members ''length'' ms' = [j]" "to_any j = VNum (decimal n)" by auto
    then show ?thesis using int_of_decimal [OF n] by (cases j) (auto simp: int_field_def)
  qed
  moreover have "trim_line (marshal_raw gs @ [newline]) = marshal_raw gs"
    unfolding trim_line_append by (intro trim_line_keeps) (auto simp: marshal_raw_def carriage_def newline_def)
  ultimately have "parse_item_header (marshal_raw gs @ [newline]) = Some \<lparr>ih_Type = ih_Type ih, ih_Length = int n, ih_Raw = marshal_raw gs\<rparr>"
    using m(1) by (simp add: parse_item_header_def)
  with hf sg show ?thesis unfolding fs'_def gs_def by (auto simp: Let_def)
qed

lemma read_items_headers:
  "read_items s b items = (items', err) \<Longrightarrow> \<forall>i \<in> set items. \<exists>l. parse_item_header l = Some (it_Header i) \<Longrightarrow>
   \<forall>i \<in> set items'. \<exists>l. parse_item_header l = Some (it_Header i)"
proof (induction s b items arbitrary: items' err rule: read_items.induct)
  case (1 s b items)
  obtain l e t where l: "read_line s b = (l, e, t)" by (cases "read_line s b")
  note eq = 1(3) [unfolded read_items.simps [of s b items] l prod.case]
  show ?case
  proof (cases "(e \<noteq> None \<and> e \<noteq> Some EOF) \<or> l = []")
    case True
    with eq 1(4) show ?thesis by (auto split: if_splits)
  next
    case ok: False
    note ih = 1(1) [OF l [symmetric] refl] 1(2) [OF l [symmetric] refl]
    show ?thesis
    proof (cases "blank l")
      case True
      with eq ok 1(4) ih(1) show ?thesis by auto
    next
      case False
      show ?thesis
      proof (cases "parse_item_header l")
        case None
        with eq ok False 1(4) show ?thesis by auto
      next
        case (Some h)
        show ?thesis
        proof (cases "read_payload (ih_Length h) t b")
          case (Inl x)
          with eq ok False Some 1(4) show ?thesis by auto
        next
          case (Inr y)
          obtain p u where y: "y = (p, u)" by (cases y)
          from ok have a: "\<not> (e \<noteq> None \<and> e \<noteq> Some EOF)" "l \<noteq> []" by blast+
          have "read_items u b (items @ [\<lparr>it_Header = h, it_Payload = p\<rparr>]) = (items', err)"
            using eq a False Some Inr y by (simp only: if_False option.case sum.case prod.case)
          from ih(2) [OF a False Some Inr y [symmetric] this] 1(4) Some show ?thesis by auto
        qed
      qed
    qed
  qed
qed

lemma Parse_headers:
  "Parse s b = (h, items, err) \<Longrightarrow> i \<in> set items \<Longrightarrow> \<exists>l. parse_item_header l = Some (it_Header i)"
  by (auto simp: Parse_def split: prod.splits if_splits sum.splits dest!: read_items_headers)

lemma not_blank: "\<not> blank (CHR ''{'' # s)"
  using runes_append [of "''{''" s] by (simp add: blank_def rune_one space_rune_def ascii_space_def)

lemma read_payload_again:
  assumes "int (length p) \<le> maxEnvelopeBytes"
  shows "read_payload (int (length p)) (p @ newline # t) None = Inr (p, t)"
proof (cases "p = []")
  case True
  then show ?thesis using read_line_at [of "[]" t None] by (simp add: read_payload_def trim_line_def trim_right_def)
next
  case False
  have "newline \<noteq> carriage" by (simp add: newline_def carriage_def)
  with False assms show ?thesis by (simp add: read_payload_def read_separator_def)
qed

abbreviation item_view :: "item \<Rightarrow> string \<times> string" where "item_view i \<equiv> (ih_Type (it_Header i), it_Payload i)"

definition forwardable :: "item \<Rightarrow> bool" where
  "forwardable i \<longleftrightarrow> (\<exists>l. parse_item_header l = Some (it_Header i)) \<and> plain_header (ih_Raw (it_Header i))
     \<and> int (length (it_Payload i)) \<le> maxEnvelopeBytes"

lemma encode_item_again:
  assumes "forwardable i"
  shows "\<exists>m ih. encode_item i = Inr (m @ newline # it_Payload i @ [newline]) \<and> printable m \<and> hd m = CHR ''{'' \<and> m \<noteq> []
    \<and> parse_item_header (m @ [newline]) = Some ih \<and> ih_Type ih = ih_Type (it_Header i) \<and> ih_Length ih = int (length (it_Payload i))"
proof -
  have n: "int (length (it_Payload i)) < 2 ^ 63" using assms by (simp add: forwardable_def maxEnvelopeBytes_def)
  from assms obtain l where l: "parse_item_header l = Some (it_Header i)" "plain_header (ih_Raw (it_Header i))"
    by (auto simp: forwardable_def)
  obtain fs xs where h: "header_fields (ih_Raw (it_Header i)) = Inr fs"
    "let gs = put ''length'' (decimal (length (it_Payload i))) (if map_of fs ''type'' = None then put ''type'' (quote_string (ih_Type (it_Header i))) fs else fs)
     in stands_for gs xs \<and> parse_item_header (marshal_raw gs @ [newline])
        = Some \<lparr>ih_Type = ih_Type (it_Header i), ih_Length = int (length (it_Payload i)), ih_Raw = marshal_raw gs\<rparr>"
    using header_again [OF l n] by blast
  define gs where "gs = put ''length'' (decimal (length (it_Payload i))) (if map_of fs ''type'' = None then put ''type'' (quote_string (ih_Type (it_Header i))) fs else fs)"
  have g: "stands_for gs xs" "parse_item_header (marshal_raw gs @ [newline])
      = Some \<lparr>ih_Type = ih_Type (it_Header i), ih_Length = int (length (it_Payload i)), ih_Raw = marshal_raw gs\<rparr>"
    using h(2) unfolding gs_def [symmetric] Let_def by simp_all
  have "encode_item i = Inr (marshal_raw gs @ newline # it_Payload i @ [newline])"
    by (simp add: encode_item_def h(1) gs_def Let_def)
  moreover have "hd (marshal_raw gs) = CHR ''{'' \<and> marshal_raw gs \<noteq> []" by (simp add: marshal_raw_def)
  ultimately show ?thesis using g(2) marshal_raw_printable [OF g(1)]
    by (intro exI [of _ "marshal_raw gs"] exI [of _ "\<lparr>ih_Type = ih_Type (it_Header i), ih_Length = int (length (it_Payload i)),
      ih_Raw = marshal_raw gs\<rparr>"]) simp
qed

lemma read_items_again:
  assumes "list_all forwardable fs"
  shows "\<exists>out. encode_items fs = Inr out \<and>
    (\<forall>acc. \<exists>items. read_items out None acc = (acc @ items, None) \<and> map item_view items = map item_view fs)"
  using assms
proof (induction fs)
  case Nil
  show ?case by (auto simp: read_items.simps [of "[]"] read_line_def end_of_def)
next
  case (Cons i fs)
  then obtain m ih where m: "encode_item i = Inr (m @ newline # it_Payload i @ [newline])" "printable m" "hd m = CHR ''{''" "m \<noteq> []"
    "parse_item_header (m @ [newline]) = Some ih" "ih_Type ih = ih_Type (it_Header i)" "ih_Length ih = int (length (it_Payload i))"
    using encode_item_again [of i] by auto
  from Cons obtain out where t: "encode_items fs = Inr out"
    "\<And>acc. \<exists>items. read_items out None acc = (acc @ items, None) \<and> map item_view items = map item_view fs" by auto
  have nl: "newline \<notin> set m" using m(2) by (auto simp: printable_def list_all_iff newline_def)
  have bl: "\<not> blank (m @ [newline])" using not_blank m(3,4) by (cases m) auto
  have pl: "read_payload (ih_Length ih) (it_Payload i @ newline # out) None = Inr (it_Payload i, out)"
    using Cons.prems m(7) by (auto simp: forwardable_def intro: read_payload_again)
  have "\<exists>items. read_items (m @ newline # it_Payload i @ newline # out) None acc = (acc @ items, None)
      \<and> map item_view items = map item_view (i # fs)" for acc
  proof -
    let ?i = "\<lparr>it_Header = ih, it_Payload = it_Payload i\<rparr>"
    obtain items where "read_items out None (acc @ [?i]) = ((acc @ [?i]) @ items, None)" "map item_view items = map item_view fs"
      using t(2) by blast
    then show ?thesis using m bl pl read_line_at [OF nl, of "it_Payload i @ newline # out" None]
      by (intro exI [of _ "?i # items"]) (simp add: read_items.simps [of "m @ newline # it_Payload i @ newline # out"])
  qed
  with m(1) t(1) show ?case by simp
qed

text \<open>
C16: What is forwarded is what was accepted: the items of a parsed envelope, with any new payloads that are
not longer than an item may be, are encoded without an error or a panic, and parsing the encoded
envelope gives the same header and the same sequence of types and payloads, provided the members type
and length of the item headers are spelled in lower case and type is given once.
\<close>

theorem envelope_round_trip:
  assumes "Parse input b = (h, items, None)"
    and "list_all (\<lambda>i. it_Header i \<in> it_Header ` set items \<and> plain_header (ih_Raw (it_Header i))
           \<and> int (length (it_Payload i)) \<le> maxEnvelopeBytes) fs"
  shows "\<exists>out items'. EncodeEnvelope (eh_Raw h) fs = Inr out \<and> Parse out None = (h, items', None)
    \<and> map item_view items' = map item_view fs"
proof -
  have "list_all forwardable fs" using assms(2) Parse_headers [OF assms(1)] by (auto simp: list_all_iff forwardable_def) 
  then obtain out items' where t: "encode_items fs = Inr out" "read_items out None [] = (items', None)"
    "map item_view items' = map item_view fs" using read_items_again [of fs] by fastforce
  obtain line e r where l: "read_line input b = (line, e, r)" by (cases "read_line input b")
  then have h: "parse_header line = Inr h" using assms(1) by (auto simp: Parse_def split: if_splits sum.splits prod.splits)
  then have raw: "eh_Raw h = trim_line line"
    by (auto simp: parse_header_def split: option.splits json.splits)
  have "parse_header (eh_Raw h @ [newline]) = Inr h"
    using h unfolding parse_header_def raw trim_line_append trim_line_idem .
  moreover have "read_line (eh_Raw h @ newline # out) None = (eh_Raw h @ [newline], None, out)"
    using trim_line_no_newline [OF l] raw by (intro read_line_at) simp
  ultimately have "Parse (eh_Raw h @ newline # out) None = (h, items', None)" using t(2) by (simp add: Parse_def)
  with t show ?thesis by (simp add: EncodeEnvelope_def)
qed

section \<open>Forwarding\<close>

text \<open>The header line that is rewritten for the upstream leaves the items alone.\<close>

lemma string_reads_any: "tight (quote_string s) \<and> reads_as (maxNestingDepth - 1) (compact (quote_string s)) (VStr (concat (runes s)))"
proof -
  have "parse_value (Suc 0) (maxNestingDepth - 1) (quote_string s)
      = Some (JStr (consumed (quote_string s) []) (concat (runes s)), [])"
    using value_str [of "quote_body s @ [quote]" "quote_body s" "[]"] scan_quote_body [of s "[]"]
    by (simp add: quote_string_def unquote_quote_body)
  from value_text [OF this] show ?thesis by (simp add: consumed_def)
qed

fun string_like :: "jval \<Rightarrow> bool" where
  "string_like VNull = True"
| "string_like (VStr s) = True"
| "string_like _ = False"

lemma set_fold_ok:
  "foldl (\<lambda>acc v. Option.bind acc (set_string_any v)) acc vs = None \<longleftrightarrow> acc = None \<or> \<not> list_all string_like vs"
proof (induction vs arbitrary: acc)
  case (Cons v vs)
  show ?case unfolding foldl_Cons Cons.IH by (cases acc; cases v) (simp_all)
qed simp

lemma string_field_ok: "string_field name ms = None \<longleftrightarrow> \<not> list_all string_like (values_of name (any_members ms))"
  unfolding string_field_values set_fold_ok by simp

lemma dsn_names [simp]: "same_name ''event_id'' ''dsn'' = False" "utf8 ''dsn''"
  by (simp add: same_name_def upper_ascii_def) code_simp

lemma rewrite_keeps_items:
  assumes "Parse raw b = (h, items, None)" "b = None"
  shows "\<exists>out h'. rewriteEnvelopeDSN raw dsn = Inr out \<and> Parse out None = (h', items, None)"
proof -
  obtain line e rest where l: "read_line raw None = (line, e, rest)" by (cases "read_line raw None")
  have e: "\<not> (e \<noteq> None \<and> line = [])" and h: "parse_header line = Inr h" and i: "read_items rest None [] = (items, None)"
    using assms l by (auto simp: Parse_def split: if_splits sum.splits prod.splits)
  obtain t ms where ms: "decode_all (trim_line line) = Some (JObj t ms)" "string_field ''event_id'' ms \<noteq> None"
    using h by (auto simp: parse_header_def split: option.splits json.splits)
  define fs xs where "fs = put ''dsn'' (quote_string dsn) (raw_fields ms)"
    and "xs = put ''dsn'' (VStr (concat (runes dsn))) (collect (any_members ms))"
  have sf: "stands_for fs xs" unfolding fs_def xs_def
    using object_fields [OF ms(1)] string_reads_any [of dsn] by (intro stands_for_put) auto
  obtain t' ms' where m: "decode_all (marshal_raw fs) = Some (JObj t' ms')" "any_members ms' = xs"
    using read_marshal_raw [OF sf] by blast
  have "list_all string_like (values_of ''event_id'' xs)"
  proof -
    have "v \<in> snd ` {x \<in> set (any_members ms). same_name ''event_id'' (fst x)}" if "v \<in> set (values_of ''event_id'' xs)" for v
    proof -
      obtain k where k: "(k, v) \<in> set xs" "same_name ''event_id'' k" using \<open>v \<in> _\<close> by (auto simp: values_of_def)
      then have "(k, v) \<in> set (collect (any_members ms))" using put_members [of k v "''dsn''"] unfolding xs_def by fastforce
      then have "(k, v) \<in> set (any_members ms)" by (rule collect_members)
      with k(2) show ?thesis by force
    qed
    moreover have "list_all string_like (values_of ''event_id'' (any_members ms))" using ms(2) unfolding string_field_ok by blast
    ultimately show ?thesis by (fastforce simp: list_all_iff values_of_def)
  qed
  then have "string_field ''event_id'' ms' \<noteq> None" unfolding string_field_ok m(2) by blast
  then obtain d where d: "string_field ''event_id'' ms' = Some d" by blast
  have tl: "trim_line (marshal_raw fs @ [newline]) = marshal_raw fs"
    unfolding trim_line_append by (intro trim_line_keeps) (auto simp: marshal_raw_def carriage_def newline_def)
  have "newline \<notin> set (marshal_raw fs)"
    using marshal_raw_printable [OF sf] by (auto simp: printable_def list_all_iff newline_def)
  from read_line_at [OF this] have "Parse (marshal_raw fs @ newline # rest) None = (\<lparr>eh_EventID = d, eh_Raw = marshal_raw fs\<rparr>, items, None)"
    using i m(1) d by (simp add: Parse_def parse_header_def tl)
  moreover have "rewriteEnvelopeDSN raw dsn = Inr (marshal_raw fs @ newline # rest)"
    unfolding rewriteEnvelopeDSN_def l prod.case fs_def using e ms(1) by simp
  ultimately show ?thesis by blast
qed

section \<open>An example\<close>

definition demo_envelope :: string where
  "demo_envelope = ''{}'' @ newline # ''{'' @ quote # ''type'' @ quote # '':'' @ quote # ''a'' @ quote # ''}'' @ newline # ''{}'' @ [newline]"

definition demo_item_header :: item_header where
  "demo_item_header = \<lparr>ih_Type = ''a'', ih_Length = 0, ih_Raw = ''{'' @ quote # ''type'' @ quote # '':'' @ quote # ''a'' @ quote # ''}''\<rparr>"

lemma demo_envelope_parses:
  "Parse demo_envelope None = (\<lparr>eh_EventID = [], eh_Raw = ''{}''\<rparr>, [\<lparr>it_Header = demo_item_header, it_Payload = ''{}''\<rparr>], None)"
  by code_simp

lemma demo_envelope_plain: "plain_header (ih_Raw demo_item_header)"
  by code_simp

lemma envelope_round_trip_witness:
  "\<exists>out items'. EncodeEnvelope ''{}'' [\<lparr>it_Header = demo_item_header, it_Payload = ''xy''\<rparr>] = Inr out
    \<and> Parse out None = (\<lparr>eh_EventID = [], eh_Raw = ''{}''\<rparr>, items', None) \<and> map item_view items' = [(''a'', ''xy'')]"
  using envelope_round_trip [OF demo_envelope_parses, of "[\<lparr>it_Header = demo_item_header, it_Payload = ''xy''\<rparr>]"] demo_envelope_plain
  by (simp add: demo_item_header_def maxEnvelopeBytes_def)

end
