(* ===== verification/Spec2Isabelle.thy ===== *)
theory Spec2Isabelle
  imports Ingest_Queue Sanitize Profile_Read Sourcemap_Store Cron Uptime Grouper Alert_Pass Webhook_Guard Door_Pass Guessing Envelope
begin

text \<open>
  A model of Tindra, a server that receives errors, logs, traces and profiles from Sentry clients.
  Each theory models one part of the Go code under \<open>internal/\<close>; this one imports them all.
\<close>

end
